(* ===== verification/Prelude.thy ===== *)
theory Prelude
  imports Main "HOL-Library.Word" "HOL-Library.List_Lexorder" "HOL-Library.Char_ord"
begin

text \<open>
  Shared vocabulary of the development: the hint collections, the results of fallible code,
  sets of bits of a Prolog mask, decimal texts, \<open>std::set<std::string>\<close> as a sorted duplicate
  free list, and the two string searches that the source uses (splitting at a separator,
  stripping padding).
\<close>

unbundle bit_operations_syntax

section \<open>Hint collections\<close>

named_theorems bits_simps \<open>set-of-bits view of OR, AND and numerals\<close>
named_theorems frame_simps \<open>what an operation leaves unchanged\<close>

section \<open>Errors\<close>

text \<open>A C++ expression that may throw, or whose assertion may fail, yields \<open>Inl\<close> of the reason.\<close>

type_synonym 'a result = "string + 'a"

definition bind_result :: "'a result \<Rightarrow> ('a \<Rightarrow> 'b result) \<Rightarrow> 'b result" where
  "bind_result r f = (case r of Inl e \<Rightarrow> Inl e | Inr x \<Rightarrow> f x)"

lemma bind_result_simps [simp]:
  "bind_result (Inl e) f = Inl e"
  "bind_result (Inr x) f = f x"
  by (simp_all add: bind_result_def)

lemma bind_result_eq_Inr:
  "bind_result r f = Inr y \<longleftrightarrow> (\<exists>x. r = Inr x \<and> f x = Inr y)"
  by (cases r) auto

lemma option_eqI: "(\<And>v. x = Some v \<longleftrightarrow> y = Some v) \<Longrightarrow> x = y"
  by (cases x; cases y) auto

section \<open>The bits of a natural number\<close>

definition bits :: "nat \<Rightarrow> nat set" where
  "bits m = {k. bit m k}"

lemma in_bits [bits_simps]: "k \<in> bits m \<longleftrightarrow> bit m k"
  by (simp add: bits_def)

lemma bits_0 [simp, bits_simps]: "bits 0 = {}"
  by (simp add: bits_def)

lemma bits_exp [simp, bits_simps]: "bits (2 ^ k) = {k}"
  by (auto simp: bits_def bit_exp_iff)

lemma bits_1 [bits_simps]: "bits 1 = {0}"
  using bits_exp [of 0] by simp

lemma bits_Suc_0 [simp, bits_simps]: "bits (Suc 0) = {0}"
  using bits_1 by simp

lemma bits_or [simp, bits_simps]: "bits (m OR n) = bits m \<union> bits n"
  by (auto simp: bits_def bit_or_iff)

lemma bits_and [simp, bits_simps]: "bits (m AND n) = bits m \<inter> bits n"
  by (auto simp: bits_def bit_and_iff)

lemma bits_inject [simp]: "bits m = bits n \<longleftrightarrow> m = n"
  by (auto simp: bits_def set_eq_iff intro: bit_eqI)

lemma bit_imp_less: "bit (m::nat) k \<Longrightarrow> k < m"
proof -
  assume "bit m k"
  then have "m div 2 ^ k \<noteq> 0" by (auto simp: bit_iff_odd intro: ccontr)
  then have "2 ^ k \<le> m" by (simp add: div_eq_0_iff)
  then show ?thesis using less_exp [of k] by (rule order_less_le_trans [rotated])
qed

lemma finite_bits [simp]: "finite (bits m)"
  by (rule finite_subset [of _ "{..<m}"]) (auto simp: bits_def dest: bit_imp_less)

lemma or_absorb_iff: "m OR n = m \<longleftrightarrow> bits n \<subseteq> bits (m::nat)"
  by (auto simp flip: bits_inject)

lemma and_absorb_iff: "m AND n = m \<longleftrightarrow> bits (m::nat) \<subseteq> bits n"
  by (auto simp flip: bits_inject)

lemma bits_eq_empty_iff [simp]: "bits m = {} \<longleftrightarrow> m = 0"
  using bits_inject [of m 0] by simp

section \<open>Decimal texts\<close>

definition digit_char :: "nat \<Rightarrow> char" where
  "digit_char d = char_of (48 + d)"

fun string_of_nat :: "nat \<Rightarrow> string" where
  "string_of_nat n =
     (if n < 10 then [digit_char n] else string_of_nat (n div 10) @ [digit_char (n mod 10)])"

declare string_of_nat.simps [simp del]

definition string_of_int :: "int \<Rightarrow> string" where
  "string_of_int i = (if i < 0 then CHR ''-'' # string_of_nat (nat (- i)) else string_of_nat (nat i))"

definition is_digit :: "char \<Rightarrow> bool" where
  "is_digit c \<longleftrightarrow> 48 \<le> (of_char c :: nat) \<and> (of_char c :: nat) \<le> 57"

definition digit_value :: "char \<Rightarrow> nat" where
  "digit_value c = of_char c - 48"

definition nat_of_digits :: "string \<Rightarrow> nat" where
  "nat_of_digits s = foldl (\<lambda>n c. 10 * n + digit_value c) 0 s"

lemma digit_char_is_digit: "d < 10 \<Longrightarrow> is_digit (digit_char d)"
  by (simp add: is_digit_def digit_char_def)

lemma digit_value_digit_char: "d < 10 \<Longrightarrow> digit_value (digit_char d) = d"
  by (simp add: digit_value_def digit_char_def)

lemma string_of_nat_not_Nil [simp]: "string_of_nat n \<noteq> []"
  by (subst string_of_nat.simps) simp

lemma string_of_nat_digits: "list_all is_digit (string_of_nat n)"
proof (induction n rule: string_of_nat.induct)
  case (1 n)
  then show ?case
    by (subst string_of_nat.simps) (auto simp: digit_char_is_digit)
qed

lemma nat_of_digits_string_of_nat: "nat_of_digits (string_of_nat n) = n"
proof (induction n rule: string_of_nat.induct)
  case (1 n)
  then show ?case
    by (subst string_of_nat.simps) (auto simp: nat_of_digits_def digit_value_digit_char)
qed

lemma digit_neq: "is_digit c \<Longrightarrow> \<not> is_digit d \<Longrightarrow> c \<noteq> d"
  by auto

section \<open>Splitting and stripping\<close>

text \<open>Fields of a text between occurrences of a separator; a text without it is one field.\<close>

fun split_on :: "char \<Rightarrow> string \<Rightarrow> string list" where
  "split_on d [] = [[]]"
| "split_on d (c # s) =
     (if c = d then [] # split_on d s
      else (case split_on d s of [] \<Rightarrow> [[c]] | f # fs \<Rightarrow> (c # f) # fs))"

definition strip :: "char set \<Rightarrow> string \<Rightarrow> string" where
  "strip pad s = rev (dropWhile (\<lambda>c. c \<in> pad) (rev (dropWhile (\<lambda>c. c \<in> pad) s)))"

lemma split_on_not_Nil [simp]: "split_on d s \<noteq> []"
  by (induction s) (auto split: list.splits)

lemma split_on_none: "d \<notin> set s \<Longrightarrow> split_on d s = [s]"
  by (induction s) auto

lemma split_on_append_sep: "d \<notin> set s \<Longrightarrow> split_on d (s @ d # t) = s # split_on d t"
  by (induction s) (auto split: list.splits)

lemma strip_id: "s = [] \<or> (hd s \<notin> pad \<and> last s \<notin> pad) \<Longrightarrow> strip pad s = s"
proof (cases s rule: rev_cases)
  case (snoc ys y)
  assume "s = [] \<or> (hd s \<notin> pad \<and> last s \<notin> pad)"
  with snoc have "dropWhile (\<lambda>c. c \<in> pad) s = s" "y \<notin> pad"
    by (auto simp: dropWhile_eq_self_iff)
  with snoc show ?thesis by (simp add: strip_def)
qed (simp add: strip_def)

lemma strip_no_pad: "set s \<inter> pad = {} \<Longrightarrow> strip pad s = s"
  by (rule strip_id) (use hd_in_set [of s] last_in_set [of s] in blast)

section \<open>Joining\<close>

fun join_with :: "string \<Rightarrow> string list \<Rightarrow> string" where
  "join_with sep [] = []"
| "join_with sep [x] = x"
| "join_with sep (x # y # xs) = x @ sep @ join_with sep (y # xs)"

lemma split_on_join:
  "xs \<noteq> [] \<Longrightarrow> \<forall>x\<in>set xs. d \<notin> set x \<Longrightarrow> split_on d (join_with [d] xs) = xs"
  by (induction "[d]" xs rule: join_with.induct)
    (auto simp: split_on_none split_on_append_sep)

section \<open>Sets of strings in iteration order\<close>

text \<open>
  A \<open>std::set<std::string>\<close> iterates in the lexicographic order of its bytes, without
  duplicates; \<open>perm_string\<close> keys are ordered by \<open>strcmp\<close>, the same order.
\<close>

definition sorted_set :: "'a::linorder list \<Rightarrow> 'a list" where
  "sorted_set xs = sort (remdups xs)"

lemma set_sorted_set [simp]: "set (sorted_set xs) = set xs"
  by (simp add: sorted_set_def)

lemma distinct_sorted_set [simp]: "distinct (sorted_set xs)"
  by (simp add: sorted_set_def)

lemma sorted_sorted_set [simp]: "sorted (sorted_set xs)"
  by (simp add: sorted_set_def)

end
