(* ===== verification/Backend.thy ===== *)
theory Backend
  imports Prelude
begin

text \<open>
  The Prolog analysis backend, \<open>difc_backend.pl\<close>: the node database, the reading of the node
  and step files, hierarchical label inference, taint propagation to a fixpoint and the report.
  The database of \<open>node_state/6\<close> facts is the list of the facts in the order of the
  clauses: \<open>assertz\<close> appends, \<open>retract\<close> removes the first match, a call finds the first match.
  Masks are unbounded non-negative integers. The output stream is the list of the messages
  written; \<open>render\<close> gives their text.
\<close>

section \<open>Node facts\<close>

record node =
  nname :: string
  nbasic :: nat
  npos :: nat
  nneg :: nat
  ntaint :: nat
  npath :: "string list"

definition mk_node :: "string \<Rightarrow> nat \<Rightarrow> nat \<Rightarrow> nat \<Rightarrow> nat \<Rightarrow> string list \<Rightarrow> node" where
  "mk_node n b p g t path =
     \<lparr>nname = n, nbasic = b, npos = p, nneg = g, ntaint = t, npath = path\<rparr>"

definition default_node :: "string \<Rightarrow> node" where
  "default_node n = mk_node n 1 0 0 1 []"

fun find_node :: "node list \<Rightarrow> string \<Rightarrow> node option" where
  "find_node [] n = None"
| "find_node (e # es) n = (if nname e = n then Some e else find_node es n)"

definition get_node :: "node list \<Rightarrow> string \<Rightarrow> node" where
  "get_node db n = (case find_node db n of Some e \<Rightarrow> e | None \<Rightarrow> default_node n)"

text \<open>\<open>retract/1\<close> on the first fact that satisfies a test.\<close>

fun retract :: "(node \<Rightarrow> bool) \<Rightarrow> node list \<Rightarrow> node list option" where
  "retract P [] = None"
| "retract P (e # es) = (if P e then Some es else map_option (Cons e) (retract P es))"

definition update_node ::
  "node list \<Rightarrow> string \<Rightarrow> nat \<Rightarrow> nat \<Rightarrow> nat \<Rightarrow> nat \<Rightarrow> string list \<Rightarrow> node list" where
  "update_node db n b p g t path =
     (case retract (\<lambda>e. nname e = n \<and> nbasic e = b \<and> npos e = p \<and> nneg e = g) db of
        Some db' \<Rightarrow> db' @ [mk_node n b p g t path]
      | None \<Rightarrow> db @ [mk_node n b p g t path])"

section \<open>Reading the node file\<close>

text \<open>
  \<open>number_string/2\<close> on the numbers the front end writes: decimal digits, perhaps with a minus sign.
  The other numbers of Prolog's syntax (blanks around the digits, a plus sign, digit groups, a radix,
  fractions) never occur in a node file of the front end, which prints the tags with \<open><<\<close> from
  \<open>int\<close>s; a file that holds one is outside the model.
  \<open>split\<close> is \<open>split_string(_, " ", " \t", _)\<close> of the Prolog library, a parameter.
\<close>

definition number_string :: "string \<Rightarrow> int option" where
  "number_string s =
     (case s of
        [] \<Rightarrow> None
      | c # cs \<Rightarrow>
          if c = CHR ''-'' then
            (if cs \<noteq> [] \<and> list_all is_digit cs then Some (- int (nat_of_digits cs)) else None)
          else if list_all is_digit s then Some (int (nat_of_digits s)) else None)"

text \<open>\<open>1 << K\<close>: a negative shift count shifts right.\<close>

definition shl1 :: "int \<Rightarrow> nat" where
  "shl1 k = (if 0 \<le> k then 2 ^ nat k else 0)"

fun nums_to_mask :: "int list \<Rightarrow> nat" where
  "nums_to_mask [] = 0"
| "nums_to_mask (n # ns) = nums_to_mask ns OR shl1 (n - 1)"

fun all_some :: "'a option list \<Rightarrow> 'a list option" where
  "all_some [] = Some []"
| "all_some (x # xs) =
     (case x of None \<Rightarrow> None | Some y \<Rightarrow> map_option (Cons y) (all_some xs))"

definition str_to_mask :: "string \<Rightarrow> nat option" where
  "str_to_mask s =
     (if s = [] then Some 0
      else let clean = filter (\<lambda>f. f \<noteq> []) (map (strip {CHR '' ''}) (split_on CHR '','' s))
           in if clean = [] then Some 0
              else map_option nums_to_mask (all_some (map number_string clean)))"

definition skipped_line :: "string \<Rightarrow> bool" where
  "skipped_line line \<longleftrightarrow> line = [] \<or> hd line = CHR ''#''"

definition parse_node_line ::
  "(string \<Rightarrow> string list) \<Rightarrow> string \<Rightarrow> (string \<times> nat \<times> nat \<times> nat) option" where
  "parse_node_line split line =
     (if skipped_line line then None
      else case split line of
        name # basic # rest \<Rightarrow>
          (case str_to_mask basic of
             None \<Rightarrow> None
           | Some b \<Rightarrow>
               (case rest of
                  [p, n] \<Rightarrow> (case (str_to_mask p, str_to_mask n) of
                              (Some pm, Some nm) \<Rightarrow> Some (name, b, pm, nm)
                            | _ \<Rightarrow> None)
                | [p] \<Rightarrow> (case str_to_mask p of Some pm \<Rightarrow> Some (name, b, pm, 0) | None \<Rightarrow> None)
                | _ \<Rightarrow> Some (name, b, 0, 0)))
      | _ \<Rightarrow> None)"

fun load_nodes :: "(string \<Rightarrow> string list) \<Rightarrow> string list \<Rightarrow> node list" where
  "load_nodes split [] = []"
| "load_nodes split (l # ls) =
     (case parse_node_line split l of
        Some (n, b, p, g) \<Rightarrow> mk_node n b p g b [] # load_nodes split ls
      | None \<Rightarrow> load_nodes split ls)"

section \<open>Reading the step file\<close>

record step =
  sdesc :: string
  sfrom :: string
  sto :: string
  spcs :: "string list"

definition quote_char :: char where
  "quote_char = CHR 0x22"

text \<open>The non-empty fields of \<open>split_string(Rest, " ", " \t", _)\<close>.\<close>

definition tokens :: "string \<Rightarrow> string list" where
  "tokens s =
     filter (\<lambda>f. f \<noteq> []) (map (strip {CHR '' '', CHR 0x09}) (split_on CHR '' '' s))"

definition pc_prefix :: string where
  "pc_prefix = ''pc_p=''"

fun parse_pc_tokens :: "string list \<Rightarrow> string list" where
  "parse_pc_tokens [] = []"
| "parse_pc_tokens (tok # rest) =
     (if take (length pc_prefix) tok = pc_prefix then
        (let val = drop 5 tok
         in if val = [] then parse_pc_tokens rest
            else split_on CHR '','' val @ parse_pc_tokens rest)
      else parse_pc_tokens rest)"

definition quote_positions :: "string \<Rightarrow> nat list" where
  "quote_positions s = filter (\<lambda>i. s ! i = quote_char) [0..<length s]"

text \<open>
  The goals of the clause backtrack over the positions of two quotes; the first pair that is
  in order and leaves at least two tokens is taken.
\<close>

definition step_at :: "string \<Rightarrow> nat \<times> nat \<Rightarrow> step option" where
  "step_at line p =
     (case p of (first_q, last_q) \<Rightarrow>
        if first_q < last_q then
          (case tokens (drop (last_q + 1) line) of
             f # t # rest \<Rightarrow>
               Some \<lparr>sdesc = take (last_q - first_q - 1) (drop (first_q + 1) line),
                     sfrom = f, sto = t, spcs = parse_pc_tokens rest\<rparr>
           | _ \<Rightarrow> None)
        else None)"

fun first_some :: "('a \<Rightarrow> 'b option) \<Rightarrow> 'a list \<Rightarrow> 'b option" where
  "first_some f [] = None"
| "first_some f (x # xs) = (case f x of Some y \<Rightarrow> Some y | None \<Rightarrow> first_some f xs)"

definition parse_step_line :: "string \<Rightarrow> step option" where
  "parse_step_line line =
     (if skipped_line line then None
      else let qs = quote_positions line
           in first_some (step_at line) (List.product qs qs))"

section \<open>Hierarchical label inference\<close>

definition inside_scope :: "string \<Rightarrow> string \<Rightarrow> bool" where
  "inside_scope name scope \<longleftrightarrow>
     name = scope \<or> take (length scope + 1) name = scope @ ''_''"

definition boundary_names :: "node list \<Rightarrow> string list" where
  "boundary_names db = map nname (filter (\<lambda>e. npos e \<noteq> 0) db)"

definition hierarchy_boundary_blocks :: "node list \<Rightarrow> string \<Rightarrow> string \<Rightarrow> bool" where
  "hierarchy_boundary_blocks db from_n to_n \<longleftrightarrow>
     list_ex (\<lambda>b. inside_scope to_n b \<and> \<not> inside_scope from_n b) (boundary_names db)"

definition node_basic_mask :: "node list \<Rightarrow> string \<Rightarrow> nat" where
  "node_basic_mask db n = (case find_node db n of Some e \<Rightarrow> nbasic e | None \<Rightarrow> 0)"

definition merge_inferred_basic :: "node list \<Rightarrow> string \<Rightarrow> nat \<Rightarrow> node list option" where
  "merge_inferred_basic db n m =
     (case find_node db n of
        Some e \<Rightarrow>
          (let nb = nbasic e OR m; nt = ntaint e OR m
           in if nb = nbasic e \<and> nt = ntaint e then None
              else case retract (\<lambda>x. x = e) db of
                     Some db' \<Rightarrow> Some (db' @ [mk_node n nb (npos e) (nneg e) nt (npath e)])
                   | None \<Rightarrow> None)
      | None \<Rightarrow> Some (db @ [mk_node n m 0 0 m []]))"

definition infer_hierarchical_edge :: "node list \<Rightarrow> step \<Rightarrow> node list option" where
  "infer_hierarchical_edge db s =
     (if hierarchy_boundary_blocks db (sfrom s) (sto s) then None
      else let m = node_basic_mask db (sfrom s)
           in if m \<noteq> 0 then merge_inferred_basic db (sto s) m else None)"

definition infer_one_hierarchical_edge :: "node list \<Rightarrow> step list \<Rightarrow> node list option" where
  "infer_one_hierarchical_edge db edges = first_some (infer_hierarchical_edge db) edges"

section \<open>Propagation\<close>

datatype message =
    YesNL
  | Yes
  | Violation "string list" string
  | Reexecute
  | Complete

fun print_path_rec :: "string list \<Rightarrow> string" where
  "print_path_rec [] = []"
| "print_path_rec [h] = h"
| "print_path_rec (h # t) = print_path_rec t @ '' -- > '' @ h"

fun print_path :: "string list \<Rightarrow> string" where
  "print_path [] = ''No path found.''"
| "print_path (h # t) =
     (if t = [] then ''path = '' else print_path_rec t) @
     (if t = [] then [] else '' -- > '') @ h"

definition newline :: string where
  "newline = [CHR 0x0A]"

fun render :: "message \<Rightarrow> string" where
  "render YesNL = ''yes (N_L)'' @ newline"
| "render Yes = ''yes'' @ newline @ '' ''"
| "render (Violation path desc) =
     ''no (violation): '' @ print_path path @ newline @ ''[Description]: '' @ desc @ newline"
| "render Reexecute = ''Changes detected, re-executing steps...'' @ newline"
| "render Complete = ''Propagation complete.'' @ newline"

definition calculate_pc_taint :: "node list \<Rightarrow> string list \<Rightarrow> nat" where
  "calculate_pc_taint db pcs = foldl (\<lambda>acc n. acc OR ntaint (get_node db n)) 0 pcs"

definition propagate_logic :: "node list \<Rightarrow> step \<Rightarrow> node list \<times> message list \<times> bool" where
  "propagate_logic db s =
     (let src = get_node db (sfrom s);
          dst = get_node db (sto s);
          combined = ntaint src OR calculate_pc_taint db (spcs s);
          allow = nbasic dst OR npos dst;
          new_taint = ntaint dst OR combined
      in if new_taint = ntaint dst then (db, [], False)
         else (update_node db (sto s) (nbasic dst) (npos dst) (nneg dst) new_taint
                 (sfrom s # npath src),
               [if combined AND allow = combined then Yes
                else Violation (sto s # sfrom s # npath src) (sdesc s)],
               True))"

definition process_step :: "node list \<Rightarrow> step \<Rightarrow> node list \<times> message list \<times> bool" where
  "process_step db s =
     (if sfrom s = ''N_L'' then (db, [YesNL], False) else propagate_logic db s)"

fun scan_steps :: "node list \<Rightarrow> step list \<Rightarrow> node list \<times> message list \<times> bool" where
  "scan_steps db [] = (db, [], False)"
| "scan_steps db (s # ss) =
     (case process_step db s of (db1, out1, c1) \<Rightarrow>
      case scan_steps db1 ss of (db2, out2, c2) \<Rightarrow> (db2, out1 @ out2, c1 \<or> c2))"

definition load_steps :: "string list \<Rightarrow> step list" where
  "load_steps lines = List.map_filter parse_step_line lines"

section \<open>The shape of a database update\<close>

lemma find_node_split: "nname e = n \<Longrightarrow> n \<notin> nname ` set xs \<Longrightarrow> find_node (xs @ e # ys) n = Some e"
  by (induction xs) auto

lemma find_node_SomeD:
  "find_node db n = Some e \<Longrightarrow> \<exists>xs ys. db = xs @ e # ys \<and> nname e = n \<and> n \<notin> nname ` set xs"
proof (induction db)
  case (Cons a db)
  show ?case
  proof (cases "nname a = n")
    case True
    with Cons.prems show ?thesis by (intro exI [of _ "[]"] exI [of _ db]) auto
  next
    case False
    with Cons obtain xs ys where "db = xs @ e # ys" "nname e = n" "n \<notin> nname ` set xs" by auto
    with False show ?thesis by (intro exI [of _ "a # xs"] exI [of _ ys]) auto
  qed
qed simp

lemma find_node_eq_Some:
  "find_node db n = Some e \<longleftrightarrow>
     (\<exists>xs ys. db = xs @ e # ys \<and> nname e = n \<and> n \<notin> nname ` set xs)"
  using find_node_SomeD find_node_split by blast

lemma find_node_eq_None: "find_node db n = None \<longleftrightarrow> n \<notin> nname ` set db"
  by (induction db) auto

lemma find_node_append:
  "find_node (xs @ ys) n = (case find_node xs n of Some e \<Rightarrow> Some e | None \<Rightarrow> find_node ys n)"
  by (induction xs) auto

lemma find_node_name: "find_node db n = Some e \<Longrightarrow> nname e = n"
  by (auto simp: find_node_eq_Some)

lemma find_node_in_set: "find_node db n = Some e \<Longrightarrow> e \<in> set db"
  by (auto simp: find_node_eq_Some)

lemma retract_split:
  "retract P (xs @ e # ys) = Some (xs @ ys)" if "P e" "\<forall>x\<in>set xs. \<not> P x"
  using that by (induction xs) auto

lemma retract_None: "\<forall>x\<in>set xs. \<not> P x \<Longrightarrow> retract P xs = None"
  by (induction xs) auto

lemma nname_mk_node [simp]: "nname (mk_node n b p g t path) = n"
  and nbasic_mk_node [simp]: "nbasic (mk_node n b p g t path) = b"
  and npos_mk_node [simp]: "npos (mk_node n b p g t path) = p"
  and nneg_mk_node [simp]: "nneg (mk_node n b p g t path) = g"
  and ntaint_mk_node [simp]: "ntaint (mk_node n b p g t path) = t"
  and npath_mk_node [simp]: "npath (mk_node n b p g t path) = path"
  by (simp_all add: mk_node_def)

lemma get_node_name [simp]: "nname (get_node db n) = n"
  by (auto simp: get_node_def default_node_def dest: find_node_name split: option.splits)

text \<open>Writing back a node with its masks replaces the first fact of that name.\<close>

lemma update_node_present:
  assumes "db = xs @ e # ys" "nname e = n" "n \<notin> nname ` set xs"
  shows "update_node db n (nbasic e) (npos e) (nneg e) t path =
           xs @ ys @ [mk_node n (nbasic e) (npos e) (nneg e) t path]"
proof -
  have "retract (\<lambda>x. nname x = n \<and> nbasic x = nbasic e \<and> npos x = npos e \<and> nneg x = nneg e) db
          = Some (xs @ ys)"
    unfolding assms(1) using assms(2,3) by (intro retract_split) (auto simp: image_iff)
  then show ?thesis by (simp add: update_node_def)
qed

lemma update_node_absent:
  assumes "n \<notin> nname ` set db"
  shows "update_node db n b p g t path = db @ [mk_node n b p g t path]"
proof -
  have "retract (\<lambda>e. nname e = n \<and> nbasic e = b \<and> npos e = p \<and> nneg e = g) db = None"
    by (rule retract_None) (use assms in force)
  then show ?thesis by (simp add: update_node_def)
qed

lemma merge_inferred_basic_present:
  assumes "db = xs @ e # ys" "nname e = n" "n \<notin> nname ` set xs"
  shows "merge_inferred_basic db n m =
     (if nbasic e OR m = nbasic e \<and> ntaint e OR m = ntaint e then None
      else Some (xs @ ys @ [mk_node n (nbasic e OR m) (npos e) (nneg e) (ntaint e OR m) (npath e)]))"
proof -
  have f: "find_node db n = Some e"
    using assms by (auto simp: find_node_eq_Some)
  have "retract (\<lambda>x. x = e) db = Some (xs @ ys)"
    unfolding assms(1) by (rule retract_split) (use assms in auto)
  with f show ?thesis by (simp add: merge_inferred_basic_def Let_def)
qed

lemma merge_inferred_basic_absent:
  assumes "n \<notin> nname ` set db"
  shows "merge_inferred_basic db n m = Some (db @ [mk_node n m 0 0 m []])"
  using assms by (simp add: merge_inferred_basic_def find_node_eq_None [THEN iffD2])

section \<open>Growing databases\<close>

text \<open>
  Both loops of the backend grow what the facts say (\<open>c\<close> reads a fact as a set) at names of
  the step file, within the bits that already occur (\<open>x\<close> reads the bits a fact can pass
  on). This bounds the number of passes.
\<close>

definition universe :: "(node \<Rightarrow> 'x set) \<Rightarrow> 'x set \<Rightarrow> node list \<Rightarrow> 'x set" where
  "universe x base db = base \<union> (\<Union>e\<in>set db. x e)"

definition potential ::
  "(node \<Rightarrow> 'x set) \<Rightarrow> (node \<Rightarrow> 'x set) \<Rightarrow> 'x set \<Rightarrow> string set \<Rightarrow> node list \<Rightarrow> nat" where
  "potential c x base names db =
     (\<Sum>e\<leftarrow>db. card (universe x base db - c e)) +
     Suc (card (universe x base db)) * card (names - nname ` set db)"

inductive grows ::
  "(node \<Rightarrow> 'x set) \<Rightarrow> (node \<Rightarrow> 'x set) \<Rightarrow> 'x set \<Rightarrow> string set \<Rightarrow> node list \<Rightarrow> node list \<Rightarrow> bool"
  for c x base names where
  grow_replace: "nname e' = nname e \<Longrightarrow> c e \<subset> c e' \<Longrightarrow> x e \<subseteq> x e' \<Longrightarrow>
     x e' \<subseteq> universe x base (xs @ e # ys) \<Longrightarrow>
     grows c x base names (xs @ e # ys) (xs @ ys @ [e'])"
| grow_create: "nname e' \<in> names - nname ` set db \<Longrightarrow> x e' \<subseteq> universe x base db \<Longrightarrow>
     grows c x base names db (db @ [e'])"

locale node_content =
  fixes content :: "node \<Rightarrow> 'x set" and extent :: "node \<Rightarrow> 'x set"
    and base :: "'x set" and names :: "string set"
  assumes finite_extent: "finite (extent e)"
    and content_extent: "content e \<subseteq> extent e"
    and finite_base: "finite base"
    and finite_names: "finite names"
begin

lemma finite_universe: "finite (universe extent base db)"
  by (simp add: universe_def finite_extent finite_base)

lemma grows_universe:
  "grows content extent base names db db' \<Longrightarrow>
     universe extent base db' = universe extent base db"
  by (induction rule: grows.induct) (auto simp: universe_def)

lemma grows_potential:
  "grows content extent base names db db' \<Longrightarrow>
     potential content extent base names db' < potential content extent base names db"
proof (induction rule: grows.induct)
  case (grow_replace e' e xs ys)
  let ?u = "universe extent base (xs @ e # ys)"
  have u: "universe extent base (xs @ ys @ [e']) = ?u"
    by (rule grows_universe [OF grows.grow_replace [OF grow_replace]])
  have "content e' \<subseteq> ?u" using grow_replace(4) content_extent by blast
  then have "card (?u - content e') < card (?u - content e)"
    using grow_replace(2) finite_universe [of "xs @ e # ys"]
    by (intro psubset_card_mono) auto
  moreover have "nname ` set (xs @ ys @ [e']) = nname ` set (xs @ e # ys)"
    using grow_replace(1) by auto
  ultimately show ?case by (simp add: potential_def u)
next
  case (grow_create e' db)
  let ?u = "universe extent base db"
  have u: "universe extent base (db @ [e']) = ?u"
    by (rule grows_universe [OF grows.grow_create [OF grow_create]])
  have "card (?u - content e') < Suc (card ?u)"
    by (simp add: card_mono finite_universe less_Suc_eq_le)
  moreover have "card (names - nname ` set db) = Suc (card (names - nname ` set (db @ [e'])))"
    using grow_create(1) finite_names
    by (subst card.remove [of _ "nname e'"]) (auto intro!: arg_cong [of _ _ card])
  ultimately show ?case by (simp add: potential_def u)
qed

lemma grows_trancl_potential:
  "(grows content extent base names)\<^sup>+\<^sup>+ db db' \<Longrightarrow>
     potential content extent base names db' < potential content extent base names db"
  by (induction rule: tranclp_induct) (auto dest: grows_potential)

end

definition taint_content :: "node \<Rightarrow> nat set" where
  "taint_content e = bits (ntaint e)"

definition label_content :: "node \<Rightarrow> (nat + nat) set" where
  "label_content e = bits (nbasic e) <+> bits (ntaint e)"

definition label_extent :: "node \<Rightarrow> (nat + nat) set" where
  "label_extent e = (bits (nbasic e) \<union> bits (ntaint e)) <+> (bits (nbasic e) \<union> bits (ntaint e))"

interpretation taint: node_content taint_content taint_content "{0}" "sto ` set ss" for ss
  by unfold_locales (auto simp: taint_content_def)

interpretation label: node_content label_content label_extent "{}" "sto ` set ss" for ss
  by unfold_locales (auto simp: label_content_def label_extent_def)

abbreviation taint_grows :: "string set \<Rightarrow> node list \<Rightarrow> node list \<Rightarrow> bool" where
  "taint_grows \<equiv> grows taint_content taint_content {0}"

abbreviation label_grows :: "string set \<Rightarrow> node list \<Rightarrow> node list \<Rightarrow> bool" where
  "label_grows \<equiv> grows label_content label_extent {}"

lemma get_node_universe: "taint_content (get_node db n) \<subseteq> universe taint_content {0} db"
  by (auto simp: get_node_def universe_def taint_content_def default_node_def bits_1
      dest!: find_node_in_set split: option.splits)

lemma bits_calculate_pc_taint:
  "bits (calculate_pc_taint db pcs) = (\<Union>n\<in>set pcs. bits (ntaint (get_node db n)))"
proof -
  have "bits (foldl (\<lambda>acc n. acc OR ntaint (get_node db n)) a pcs) =
          bits a \<union> (\<Union>n\<in>set pcs. bits (ntaint (get_node db n)))" for a
    by (induction pcs arbitrary: a) auto
  then show ?thesis by (simp add: calculate_pc_taint_def)
qed

lemma propagate_logic_grows:
  assumes "propagate_logic db s = (db', out, True)" "sto s \<in> T"
  shows "taint_grows T db db'"
proof -
  define dst where "dst = get_node db (sto s)"
  define combined where
    "combined = ntaint (get_node db (sfrom s)) OR calculate_pc_taint db (spcs s)"
  define e' where "e' = mk_node (sto s) (nbasic dst) (npos dst) (nneg dst)
    (ntaint dst OR combined) (sfrom s # npath (get_node db (sfrom s)))"
  from assms(1) have ne: "ntaint dst OR combined \<noteq> ntaint dst"
    and db': "db' = update_node db (sto s) (nbasic dst) (npos dst) (nneg dst)
      (ntaint dst OR combined) (sfrom s # npath (get_node db (sfrom s)))"
    by (auto simp: propagate_logic_def Let_def dst_def combined_def split: if_splits)
  have "bits combined \<subseteq> universe taint_content {0} db"
    using get_node_universe
    by (auto simp: combined_def bits_calculate_pc_taint taint_content_def)
  then have sub: "taint_content e' \<subseteq> universe taint_content {0} db"
    using get_node_universe [of db "sto s"] by (auto simp: e'_def taint_content_def dst_def)
  show ?thesis
  proof (cases "find_node db (sto s)")
    case None
    then have "sto s \<notin> nname ` set db" by (simp add: find_node_eq_None)
    then show ?thesis
      using grows.grow_create [where c = taint_content and x = taint_content
          and e' = e' and db = db and base = "{0}" and names = T] sub assms(2)
      by (simp add: db' update_node_absent e'_def)
  next
    case (Some e)
    then obtain xs ys where d: "db = xs @ e # ys" "nname e = sto s" "sto s \<notin> nname ` set xs"
      by (auto simp: find_node_eq_Some)
    from Some have dst: "dst = e" by (simp add: dst_def get_node_def)
    have up: "db' = xs @ ys @ [e']"
      using update_node_present [OF d] by (simp add: db' dst e'_def)
    have "taint_content e \<subset> taint_content e'"
      using ne by (auto simp: e'_def taint_content_def dst or_absorb_iff)
    then show ?thesis
      using grows.grow_replace [where c = taint_content and x = taint_content and e' = e'
          and e = e and xs = xs and ys = ys and base = "{0}" and names = T] sub d(1,2)
      by (auto simp: up e'_def)
  qed
qed

lemma process_step_cases:
  "process_step db s = (db', out, c) \<Longrightarrow>
     (c \<and> sfrom s \<noteq> ''N_L'' \<and> propagate_logic db s = (db', out, True)) \<or> (\<not> c \<and> db' = db)"
  by (auto simp: process_step_def propagate_logic_def Let_def split: if_splits)

lemma scan_steps_grows:
  "scan_steps db ss = (db', out, c) \<Longrightarrow> sto ` set ss \<subseteq> T \<Longrightarrow>
     (c \<longrightarrow> (taint_grows T)\<^sup>+\<^sup>+ db db') \<and> (\<not> c \<longrightarrow> db' = db)"
proof (induction ss arbitrary: db db' out c)
  case (Cons s ss)
  obtain db1 out1 c1 where 1: "process_step db s = (db1, out1, c1)"
    by (metis prod_cases3)
  obtain db2 out2 c2 where 2: "scan_steps db1 ss = (db2, out2, c2)"
    by (metis prod_cases3)
  from Cons.prems 1 2 have r: "db' = db2" "c = (c1 \<or> c2)" by auto
  have ih: "(c2 \<longrightarrow> (taint_grows T)\<^sup>+\<^sup>+ db1 db2) \<and> (\<not> c2 \<longrightarrow> db2 = db1)"
    using Cons.IH [OF 2] Cons.prems(2) by simp
  show ?case
  proof (cases c1)
    case True
    then have "taint_grows T db db1"
      using process_step_cases [OF 1] Cons.prems(2) by (auto dest: propagate_logic_grows)
    with ih r True show ?thesis
      by (metis tranclp.r_into_trancl tranclp_into_tranclp2)
  next
    case False
    then have "db1 = db" using process_step_cases [OF 1] by auto
    with ih r False show ?thesis by simp
  qed
qed simp

lemma infer_hierarchical_edge_grows:
  assumes "infer_hierarchical_edge db s = Some db'" "sto s \<in> T"
  shows "label_grows T db db'"
proof -
  define m where "m = node_basic_mask db (sfrom s)"
  from assms(1) have m: "m \<noteq> 0" and merge: "merge_inferred_basic db (sto s) m = Some db'"
    by (auto simp: infer_hierarchical_edge_def Let_def m_def split: if_splits)
  then obtain src where "src \<in> set db" "m = nbasic src"
    by (auto simp: m_def node_basic_mask_def dest: find_node_in_set split: option.splits)
  then have mu: "bits m <+> bits m \<subseteq> universe label_extent {} db"
    by (fastforce simp: universe_def label_extent_def)
  show ?thesis
  proof (cases "find_node db (sto s)")
    case None
    then have a: "sto s \<notin> nname ` set db" by (simp add: find_node_eq_None)
    then show ?thesis
      using merge mu grows.grow_create [where e' = "mk_node (sto s) m 0 0 m []" and db = db
          and c = label_content and x = label_extent and base = "{}" and names = T] assms(2)
      by (simp add: merge_inferred_basic_absent label_extent_def)
  next
    case (Some e)
    then obtain xs ys where d: "db = xs @ e # ys" "nname e = sto s" "sto s \<notin> nname ` set xs"
      by (auto simp: find_node_eq_Some)
    define e' where "e' = mk_node (sto s) (nbasic e OR m) (npos e) (nneg e) (ntaint e OR m) (npath e)"
    have ch: "\<not> (nbasic e OR m = nbasic e \<and> ntaint e OR m = ntaint e)" and db': "db' = xs @ ys @ [e']"
      using merge merge_inferred_basic_present [OF d] by (auto simp: e'_def split: if_splits)
    have "label_content e \<subset> label_content e'"
      using ch by (auto simp: e'_def label_content_def or_absorb_iff)
    moreover have "label_extent e' \<subseteq> universe label_extent {} (xs @ e # ys)"
      using mu unfolding d(1) by (auto simp: e'_def label_extent_def universe_def)
    ultimately show ?thesis
      using grows.grow_replace [where e' = e' and e = e and xs = xs and ys = ys
          and c = label_content and x = label_extent and base = "{}" and names = T] d(2)
      by (auto simp: db' d(1) e'_def label_extent_def)
  qed
qed

lemma first_some_eq_Some:
  "first_some f xs = Some y \<Longrightarrow> \<exists>x\<in>set xs. f x = Some y"
  by (induction xs) (auto split: option.splits)

lemma first_some_eq_None: "first_some f xs = None \<longleftrightarrow> (\<forall>x\<in>set xs. f x = None)"
  by (induction xs) (auto split: option.splits)

section \<open>The two loops\<close>

function infer_until_stable :: "node list \<Rightarrow> step list \<Rightarrow> node list" where
  "infer_until_stable db edges =
     (case infer_one_hierarchical_edge db edges of
        Some db' \<Rightarrow> infer_until_stable db' edges
      | None \<Rightarrow> db)"
  by pat_completeness auto
termination
proof (relation "measure (\<lambda>(db, edges).
          potential label_content label_extent {} (sto ` set edges) db)", goal_cases)
  case (2 db edges db')
  then obtain s where "s \<in> set edges" "infer_hierarchical_edge db s = Some db'"
    by (auto simp: infer_one_hierarchical_edge_def dest: first_some_eq_Some)
  then have "label_grows (sto ` set edges) db db'"
    by (auto intro: infer_hierarchical_edge_grows)
  then show ?case by (simp add: label.grows_potential)
qed simp

lemma scan_steps_decreases:
  assumes "scan_steps db steps = (db', out, True)"
  shows "potential taint_content taint_content {0} (sto ` set steps) db'
      < potential taint_content taint_content {0} (sto ` set steps) db"
proof -
  have "(taint_grows (sto ` set steps))\<^sup>+\<^sup>+ db db'"
    using scan_steps_grows [OF assms, of "sto ` set steps"] by simp
  then show ?thesis by (simp add: taint.grows_trancl_potential)
qed

function propagate_until_stable :: "node list \<Rightarrow> step list \<Rightarrow> node list \<times> message list" where
  "propagate_until_stable db steps =
     (case scan_steps db steps of (db', out, changed) \<Rightarrow>
        if changed then
          (case propagate_until_stable db' steps of
             (db'', out') \<Rightarrow> (db'', out @ Reexecute # out'))
        else (db', out @ [Complete]))"
  by pat_completeness auto
termination
  by (relation "measure (\<lambda>(db, steps).
        potential taint_content taint_content {0} (sto ` set steps) db)")
    (auto dest: scan_steps_decreases [OF sym])

declare infer_until_stable.simps [simp del] propagate_until_stable.simps [simp del]

text \<open>The program: load the nodes, infer labels, propagate, report.\<close>

definition backend_main ::
  "(string \<Rightarrow> string list) \<Rightarrow> string list \<Rightarrow> string list \<Rightarrow> node list \<times> message list" where
  "backend_main split node_lines step_lines =
     (let steps = load_steps step_lines;
          db = infer_until_stable (load_nodes split node_lines) steps
      in propagate_until_stable db steps)"

end
