(* ===== verification/BackendSound.thy ===== *)
theory BackendSound
  imports Backend
begin

text \<open>
  What the propagation computes. The database is used through an interface (look a name up,
  write a node back); the taints at the fixpoint are exactly the bits that a chain of steps
  carries from an initial taint, and the report names a node in a violation exactly when such
  a bit is outside the labels the node allows.
\<close>

section \<open>The node table interface\<close>

definition same_labels :: "node \<Rightarrow> node \<Rightarrow> bool" where
  "same_labels e f \<longleftrightarrow> nbasic e = nbasic f \<and> npos e = npos f \<and> nneg e = nneg f"

lemma same_labels_refl [simp]: "same_labels e e"
  by (simp add: same_labels_def)

lemma same_labels_trans: "same_labels e f \<Longrightarrow> same_labels f g \<Longrightarrow> same_labels e g"
  by (simp add: same_labels_def)

locale node_table =
  fixes lookup :: "'d \<Rightarrow> string \<Rightarrow> node"
    and put :: "'d \<Rightarrow> node \<Rightarrow> 'd"
    and invar :: "'d \<Rightarrow> bool"
  assumes lookup_put: "invar d \<Longrightarrow> same_labels e (lookup d (nname e)) \<Longrightarrow>
      lookup (put d e) n = (if n = nname e then e else lookup d n)"
    and invar_put: "invar d \<Longrightarrow> same_labels e (lookup d (nname e)) \<Longrightarrow> invar (put d e)"
begin

lemma put_keeps_labels:
  "invar d \<Longrightarrow> same_labels e (lookup d (nname e)) \<Longrightarrow>
     same_labels (lookup (put d e) n) (lookup d n)"
  by (auto simp: lookup_put)

lemma put_taint:
  "invar d \<Longrightarrow> same_labels e (lookup d (nname e)) \<Longrightarrow>
     bits (ntaint e) = bits (ntaint (lookup d (nname e))) \<union> K \<Longrightarrow>
     bits (ntaint (lookup (put d e) n)) =
       bits (ntaint (lookup d n)) \<union> (if n = nname e then K else {})"
  by (auto simp: lookup_put)

end

definition put_node :: "node list \<Rightarrow> node \<Rightarrow> node list" where
  "put_node db e = update_node db (nname e) (nbasic e) (npos e) (nneg e) (ntaint e) (npath e)"

definition unique_names :: "node list \<Rightarrow> bool" where
  "unique_names db \<longleftrightarrow> distinct (map nname db)"

lemma mk_node_collapse: "mk_node (nname e) (nbasic e) (npos e) (nneg e) (ntaint e) (npath e) = e"
  by (simp add: mk_node_def)

lemma find_node_unique:
  "unique_names db \<Longrightarrow> find_node db n = Some e \<longleftrightarrow> e \<in> set db \<and> nname e = n"
  by (induction db) (auto simp: unique_names_def)

lemma find_node_rotate:
  assumes "unique_names (xs @ e # ys)" "nname e' = nname e"
  shows "find_node (xs @ ys @ [e']) n =
           (if n = nname e then Some e' else find_node (xs @ e # ys) n)"
proof (rule option_eqI)
  fix f
  have "unique_names (xs @ ys @ [e'])"
    using assms by (auto simp: unique_names_def)
  then show "find_node (xs @ ys @ [e']) n = Some f \<longleftrightarrow>
      (if n = nname e then Some e' else find_node (xs @ e # ys) n) = Some f"
    using assms by (auto simp: find_node_unique) (auto simp: unique_names_def image_iff)
qed

lemma put_node_cases:
  assumes "same_labels e (get_node db (nname e))"
  obtains (present) xs f ys where "db = xs @ f # ys" "nname f = nname e"
      "put_node db e = xs @ ys @ [e]"
  | (absent) "nname e \<notin> nname ` set db" "put_node db e = db @ [e]"
proof (cases "find_node db (nname e)")
  case None
  then show thesis
    by (intro absent) (simp_all add: find_node_eq_None put_node_def update_node_absent mk_node_collapse)
next
  case (Some f)
  then obtain xs ys where d: "db = xs @ f # ys" "nname f = nname e" "nname e \<notin> nname ` set xs"
    by (auto simp: find_node_eq_Some)
  from Some assms have "same_labels e f" by (simp add: get_node_def)
  then have "put_node db e = xs @ ys @ [e]"
    using update_node_present [OF d, of "ntaint e" "npath e"]
    by (simp add: put_node_def same_labels_def mk_node_collapse)
  with d show thesis by (intro present)
qed

interpretation nodes: node_table get_node put_node unique_names
proof (unfold_locales, goal_cases)
  case (1 db e n)
  from 1(2) show ?case
  proof (cases rule: put_node_cases)
    case (present xs f ys)
    with 1(1) find_node_rotate [of xs f ys e n] show ?thesis
      by (simp add: get_node_def)
  next
    case absent
    then have "find_node db (nname e) = None" by (simp add: find_node_eq_None)
    then show ?thesis
      by (auto simp: get_node_def find_node_append absent(2) default_node_def split: option.splits)
  qed
next
  case (2 db e)
  from 2(2) show ?case
    by (cases rule: put_node_cases) (use 2(1) in \<open>auto simp: unique_names_def\<close>)
qed

section \<open>One step\<close>

definition taint_of :: "node list \<Rightarrow> string \<Rightarrow> nat set" where
  "taint_of db n = bits (ntaint (get_node db n))"

definition allow_of :: "node list \<Rightarrow> string \<Rightarrow> nat set" where
  "allow_of db n = bits (nbasic (get_node db n) OR npos (get_node db n))"

definition incoming :: "node list \<Rightarrow> step \<Rightarrow> nat set" where
  "incoming db s = taint_of db (sfrom s) \<union> (\<Union>p\<in>set (spcs s). taint_of db p)"

definition active :: "step \<Rightarrow> bool" where
  "active s \<longleftrightarrow> sfrom s \<noteq> ''N_L''"

definition reported :: "message list \<Rightarrow> string \<Rightarrow> bool" where
  "reported out n \<longleftrightarrow> (\<exists>path desc. Violation (n # path) desc \<in> set out)"

lemma reported_simps [simp]:
  "\<not> reported [] n"
  "reported (out1 @ out2) n \<longleftrightarrow> reported out1 n \<or> reported out2 n"
  "reported (YesNL # out) n \<longleftrightarrow> reported out n"
  "reported (Yes # out) n \<longleftrightarrow> reported out n"
  "reported (Reexecute # out) n \<longleftrightarrow> reported out n"
  "reported (Complete # out) n \<longleftrightarrow> reported out n"
  "reported (Violation (m # p) d # out) n \<longleftrightarrow> m = n \<or> reported out n"
  by (auto simp: reported_def)

lemma process_step_effect:
  assumes "process_step db s = (db', out, c)" "unique_names db"
  shows "unique_names db' \<and>
    (\<forall>n. same_labels (get_node db' n) (get_node db n)) \<and>
    (\<forall>n. taint_of db' n = taint_of db n \<union> (if n = sto s \<and> active s then incoming db s else {})) \<and>
    (\<forall>n. reported out n \<longleftrightarrow> n = sto s \<and> active s \<and>
           \<not> incoming db s \<subseteq> taint_of db n \<and> \<not> incoming db s \<subseteq> allow_of db n) \<and>
    (\<not> c \<longrightarrow> db' = db)"
proof (cases "active s")
  case False
  then show ?thesis using assms by (auto simp: process_step_def active_def)
next
  case True
  define dst where "dst = get_node db (sto s)"
  define comb where "comb = ntaint (get_node db (sfrom s)) OR calculate_pc_taint db (spcs s)"
  define e where "e = mk_node (sto s) (nbasic dst) (npos dst) (nneg dst) (ntaint dst OR comb)
    (sfrom s # npath (get_node db (sfrom s)))"
  have comb: "bits comb = incoming db s"
    by (simp add: comb_def incoming_def taint_of_def bits_calculate_pc_taint)
  have lab: "same_labels e (get_node db (nname e))"
    by (simp add: e_def dst_def same_labels_def)
  have step: "process_step db s =
      (if ntaint dst OR comb = ntaint dst then (db, [], False)
       else (put_node db e,
             [if comb AND (nbasic dst OR npos dst) = comb then Yes
              else Violation (sto s # sfrom s # npath (get_node db (sfrom s))) (sdesc s)], True))"
    using True by (simp add: process_step_def active_def propagate_logic_def Let_def dst_def
        comb_def e_def put_node_def)
  show ?thesis
  proof (cases "ntaint dst OR comb = ntaint dst")
    case True
    then have "incoming db s \<subseteq> taint_of db (sto s)"
      by (simp add: or_absorb_iff comb taint_of_def dst_def)
    with True assms \<open>active s\<close> show ?thesis by (auto simp: step)
  next
    case False
    have t: "bits (ntaint e) = bits (ntaint (get_node db (nname e))) \<union> incoming db s"
      by (simp add: e_def dst_def comb)
    have "\<not> incoming db s \<subseteq> taint_of db (sto s)"
      using False by (simp add: or_absorb_iff comb taint_of_def dst_def)
    have allow: "comb AND (nbasic dst OR npos dst) = comb \<longleftrightarrow> incoming db s \<subseteq> allow_of db (sto s)"
      by (simp add: and_absorb_iff comb allow_of_def dst_def)
    have db': "db' = put_node db e" and c: c
      and out: "out = [if incoming db s \<subseteq> allow_of db (sto s) then Yes
        else Violation (sto s # sfrom s # npath (get_node db (sfrom s))) (sdesc s)]"
      using assms(1) False unfolding step allow by auto
    have "reported out n \<longleftrightarrow> n = sto s \<and> \<not> incoming db s \<subseteq> allow_of db n" for n
      unfolding out by auto
    then have "reported out n \<longleftrightarrow> n = sto s \<and> active s \<and> \<not> incoming db s \<subseteq> taint_of db n \<and>
        \<not> incoming db s \<subseteq> allow_of db n" for n
      using \<open>\<not> incoming db s \<subseteq> taint_of db (sto s)\<close> \<open>active s\<close> by auto
    moreover have "taint_of db' n = taint_of db n \<union> (if n = sto s \<and> active s then incoming db s else {})"
      for n
      using nodes.put_taint [OF assms(2) lab t] \<open>active s\<close>
      by (simp add: db' taint_of_def e_def)
    ultimately show ?thesis
      using nodes.put_keeps_labels [OF assms(2) lab] nodes.invar_put [OF assms(2) lab] c
      by (simp add: db')
  qed
qed

section \<open>The flows of a step file\<close>

inductive flows :: "step list \<Rightarrow> (string \<Rightarrow> nat set) \<Rightarrow> string \<Rightarrow> nat \<Rightarrow> bool"
  for ss t0 where
  flow_source: "k \<in> t0 n \<Longrightarrow> flows ss t0 n k"
| flow_data: "s \<in> set ss \<Longrightarrow> active s \<Longrightarrow> flows ss t0 (sfrom s) k \<Longrightarrow> flows ss t0 (sto s) k"
| flow_pc: "s \<in> set ss \<Longrightarrow> active s \<Longrightarrow> p \<in> set (spcs s) \<Longrightarrow> flows ss t0 p k \<Longrightarrow>
     flows ss t0 (sto s) k"

lemma flows_incoming:
  "s \<in> set ss \<Longrightarrow> active s \<Longrightarrow> \<forall>n k. k \<in> taint_of db n \<longrightarrow> flows ss t0 n k \<Longrightarrow>
     k \<in> incoming db s \<Longrightarrow> flows ss t0 (sto s) k"
  by (auto simp: incoming_def intro: flow_data flow_pc)

text \<open>
  What every pass keeps: names stay unique, labels stay those of the start, taints only grow
  and only with flows, and a tainting bit that is not allowed has been reported.
\<close>

definition pass_inv ::
  "step list \<Rightarrow> node list \<Rightarrow> node list \<Rightarrow> message list \<Rightarrow> bool" where
  "pass_inv ss db0 db out \<longleftrightarrow>
     unique_names db \<and>
     (\<forall>n. same_labels (get_node db n) (get_node db0 n)) \<and>
     (\<forall>n. taint_of db0 n \<subseteq> taint_of db n) \<and>
     (\<forall>n k. k \<in> taint_of db n \<longrightarrow> flows ss (taint_of db0) n k) \<and>
     (\<forall>n. reported out n \<longrightarrow> (\<exists>k. flows ss (taint_of db0) n k \<and> k \<notin> allow_of db0 n)) \<and>
     (\<forall>n. \<not> taint_of db n \<subseteq> allow_of db0 n \<longrightarrow> reported out n)"

lemma allow_of_labels: "same_labels (get_node db n) (get_node db0 n) \<Longrightarrow> allow_of db n = allow_of db0 n"
  by (simp add: allow_of_def same_labels_def)

lemma process_step_inv:
  assumes inv: "pass_inv ss db0 db out" and s: "s \<in> set ss"
    and step: "process_step db s = (db', out', c)"
  shows "pass_inv ss db0 db' (out @ out')"
proof -
  have un: "unique_names db" using inv by (simp add: pass_inv_def)
  note eff = process_step_effect [OF step un]
  have al: "allow_of db n = allow_of db0 n" for n
    using inv by (intro allow_of_labels) (simp add: pass_inv_def)
  have in_flow: "flows ss (taint_of db0) (sto s) k" if "active s" "k \<in> incoming db s" for k
    using flows_incoming [OF s that(1) _ that(2)] inv by (simp add: pass_inv_def)
  show ?thesis
    unfolding pass_inv_def
  proof (intro conjI allI impI)
    show "unique_names db'" using eff by simp
    show "same_labels (get_node db' n) (get_node db0 n)" for n
      using eff inv by (auto simp: pass_inv_def intro: same_labels_trans)
    show "taint_of db0 n \<subseteq> taint_of db' n" for n
      using eff inv by (fastforce simp: pass_inv_def)
    show "flows ss (taint_of db0) n k" if "k \<in> taint_of db' n" for n k
      using that eff inv in_flow by (auto simp: pass_inv_def split: if_splits)
    show "\<exists>k. flows ss (taint_of db0) n k \<and> k \<notin> allow_of db0 n" if "reported (out @ out') n" for n
      using that eff inv in_flow by (auto simp: pass_inv_def al)
    show "reported (out @ out') n" if "\<not> taint_of db' n \<subseteq> allow_of db0 n" for n
    proof (cases "taint_of db n \<subseteq> allow_of db0 n")
      case False
      then show ?thesis using inv by (simp add: pass_inv_def)
    next
      case True
      with that eff have n: "n = sto s" "active s" "\<not> incoming db s \<subseteq> allow_of db0 n"
        by (auto split: if_splits)
      moreover have "\<not> incoming db s \<subseteq> taint_of db n" using n(3) True by blast
      ultimately show ?thesis using eff al by simp
    qed
  qed
qed

lemma scan_steps_inv:
  "pass_inv ss db0 db out \<Longrightarrow> set xs \<subseteq> set ss \<Longrightarrow> scan_steps db xs = (db', out', c) \<Longrightarrow>
     pass_inv ss db0 db' (out @ out')"
proof (induction xs arbitrary: db out db' out' c)
  case (Cons s xs)
  obtain db1 out1 c1 where 1: "process_step db s = (db1, out1, c1)"
    by (metis prod_cases3)
  obtain db2 out2 c2 where 2: "scan_steps db1 xs = (db2, out2, c2)"
    by (metis prod_cases3)
  have "pass_inv ss db0 db1 (out @ out1)"
    using process_step_inv [OF Cons.prems(1) _ 1] Cons.prems(2) by simp
  from Cons.IH [OF this _ 2] Cons.prems 1 2 show ?case by simp
qed simp

lemma scan_steps_stable:
  "scan_steps db xs = (db', out, False) \<Longrightarrow> unique_names db \<Longrightarrow> s \<in> set xs \<Longrightarrow> active s \<Longrightarrow>
     incoming db s \<subseteq> taint_of db (sto s)"
proof (induction xs arbitrary: out db')
  case (Cons a xs)
  obtain db1 out1 c1 where 1: "process_step db a = (db1, out1, c1)"
    by (metis prod_cases3)
  obtain db2 out2 c2 where 2: "scan_steps db1 xs = (db2, out2, c2)"
    by (metis prod_cases3)
  have c: "\<not> c1" "\<not> c2" using Cons.prems(1) 1 2 by auto
  note eff = process_step_effect [OF 1 Cons.prems(2)]
  have "db1 = db" using eff c by simp
  show ?case
  proof (cases "s = a")
    case True
    have "taint_of db1 (sto s) = taint_of db (sto s) \<union> incoming db s"
      using eff True Cons.prems(4) by simp
    then show ?thesis unfolding \<open>db1 = db\<close> by blast
  next
    case False
    then have "s \<in> set xs" using Cons.prems(3) by simp
    moreover have "scan_steps db xs = (db2, out2, False)" using 2 c \<open>db1 = db\<close> by simp
    ultimately show ?thesis using Cons.IH Cons.prems(2,4) by blast
  qed
qed simp

lemma propagate_inv:
  "pass_inv ss db0 db out \<Longrightarrow> propagate_until_stable db ss = (db', out') \<Longrightarrow>
     pass_inv ss db0 db' (out @ out') \<and>
     (\<forall>s\<in>set ss. active s \<longrightarrow> incoming db' s \<subseteq> taint_of db' (sto s))"
proof (induction db ss arbitrary: out db' out' rule: propagate_until_stable.induct)
  case (1 db ss)
  obtain db1 out1 c where scan: "scan_steps db ss = (db1, out1, c)"
    by (metis prod_cases3)
  have inv1: "pass_inv ss db0 db1 (out @ out1)"
    using scan_steps_inv [OF 1(2) _ scan] by simp
  show ?case
  proof (cases c)
    case True
    obtain db2 out2 where rec: "propagate_until_stable db1 ss = (db2, out2)" by fastforce
    have inv2: "pass_inv ss db0 db1 (out @ out1 @ [Reexecute])"
      using inv1 by (simp add: pass_inv_def)
    have "db' = db2" "out' = out1 @ Reexecute # out2"
      using 1(3) scan True rec by (simp_all add: propagate_until_stable.simps [of db])
    with 1(1) [OF scan [symmetric] refl True inv2 rec] show ?thesis by simp
  next
    case False
    have "unique_names db" using 1(2) by (simp add: pass_inv_def)
    with scan_steps_stable [of db ss db1 out1] scan False
    have "\<forall>s\<in>set ss. active s \<longrightarrow> incoming db s \<subseteq> taint_of db (sto s)" by simp
    moreover have "db1 = db"
      using scan_steps_grows [OF scan order_refl] False by simp
    moreover have "pass_inv ss db0 db1 (out @ out1 @ [Complete])"
      using inv1 by (simp add: pass_inv_def)
    moreover have "db' = db1" "out' = out1 @ [Complete]"
      using 1(3) scan False by (simp_all add: propagate_until_stable.simps [of db])
    ultimately show ?thesis by simp
  qed
qed

definition taint_within_allow :: "node list \<Rightarrow> bool" where
  "taint_within_allow db \<longleftrightarrow> (\<forall>n. taint_of db n \<subseteq> allow_of db n)"

lemma pass_inv_start:
  "unique_names db \<Longrightarrow> taint_within_allow db \<Longrightarrow> pass_inv ss db db []"
  by (auto simp: pass_inv_def taint_within_allow_def intro: flow_source)

lemma flows_closed:
  assumes "flows ss (taint_of db0) n k" "\<forall>n. taint_of db0 n \<subseteq> taint_of db n"
    and "\<forall>s\<in>set ss. active s \<longrightarrow> incoming db s \<subseteq> taint_of db (sto s)"
  shows "k \<in> taint_of db n"
  using assms(1)
proof induction
  case (flow_source k n)
  then show ?case using assms(2) by (meson subsetD)
next
  case (flow_data s k)
  then show ?case using assms(3) by (auto simp: incoming_def)
next
  case (flow_pc s p k)
  then have "k \<in> incoming db s" unfolding incoming_def by blast
  then show ?case using assms(3) flow_pc(1,2) by blast
qed

lemma propagate_exact:
  assumes "unique_names db" "taint_within_allow db"
    and "propagate_until_stable db ss = (db', out)"
  shows "k \<in> taint_of db' n \<longleftrightarrow> flows ss (taint_of db) n k"
    and "reported out n \<longleftrightarrow> (\<exists>k. flows ss (taint_of db) n k \<and> k \<notin> allow_of db n)"
    and "same_labels (get_node db' n) (get_node db n)"
proof -
  note res = propagate_inv [OF pass_inv_start [OF assms(1,2)] assms(3)]
  have iff: "k \<in> taint_of db' n \<longleftrightarrow> flows ss (taint_of db) n k" for n k
    using res flows_closed [of ss db n k db'] by (auto simp: pass_inv_def)
  then show "k \<in> taint_of db' n \<longleftrightarrow> flows ss (taint_of db) n k" .
  show "reported out n \<longleftrightarrow> (\<exists>k. flows ss (taint_of db) n k \<and> k \<notin> allow_of db n)"
    using res unfolding pass_inv_def iff [symmetric] append_Nil by blast
  show "same_labels (get_node db' n) (get_node db n)"
    using res by (simp add: pass_inv_def)
qed

end
