(* ===== verification/BackendInfer.thy ===== *)
theory BackendInfer
  imports BackendSound
begin

text \<open>
  What the inference pre-pass computes: the labels after it are exactly those that chains of
  unblocked edges carry from declared labels, and the pass changes no capability. The last
  section puts inference and propagation together into the program.
\<close>

section \<open>One inferred edge\<close>

definition basic_of :: "node list \<Rightarrow> string \<Rightarrow> nat set" where
  "basic_of db n = bits (node_basic_mask db n)"

definition taint_is_basic :: "node list \<Rightarrow> bool" where
  "taint_is_basic db \<longleftrightarrow> (\<forall>e\<in>set db. ntaint e = nbasic e)"

lemma merge_effect:
  assumes "merge_inferred_basic db t m = Some db'" "unique_names db" "taint_is_basic db"
  shows "unique_names db' \<and> taint_is_basic db' \<and>
    (\<forall>n. basic_of db' n = basic_of db n \<union> (if n = t then bits m else {})) \<and>
    set (boundary_names db') = set (boundary_names db) \<and>
    (\<forall>n. npos (get_node db' n) = npos (get_node db n)) \<and>
    nname ` set db' = insert t (nname ` set db)"
proof (cases "find_node db t")
  case None
  then have a: "t \<notin> nname ` set db" by (simp add: find_node_eq_None)
  have db': "db' = db @ [mk_node t m 0 0 m []]"
    using assms(1) a by (simp add: merge_inferred_basic_absent)
  show ?thesis
    using assms(2,3) a None
    by (auto simp: db' unique_names_def taint_is_basic_def basic_of_def node_basic_mask_def
        find_node_append boundary_names_def get_node_def default_node_def split: option.splits)
next
  case (Some e)
  then obtain xs ys where d: "db = xs @ e # ys" "nname e = t" "t \<notin> nname ` set xs"
    by (auto simp: find_node_eq_Some)
  define e' where "e' = mk_node t (nbasic e OR m) (npos e) (nneg e) (ntaint e OR m) (npath e)"
  have db': "db' = xs @ ys @ [e']"
    using assms(1) merge_inferred_basic_present [OF d] by (simp add: e'_def split: if_splits)
  have rot: "find_node db' n = (if n = t then Some e' else find_node db n)" for n
    using find_node_rotate [of xs e ys e' n] assms(2) d by (simp add: db' e'_def)
  have "unique_names db'" using assms(2) d by (auto simp: unique_names_def db' e'_def)
  moreover have "taint_is_basic db'"
    using assms(3) d by (auto simp: taint_is_basic_def db' e'_def)
  moreover have "basic_of db' n = basic_of db n \<union> (if n = t then bits m else {})" for n
    using Some by (simp add: basic_of_def node_basic_mask_def rot e'_def)
  moreover have "set (boundary_names db') = set (boundary_names db)"
    using d by (auto simp: boundary_names_def db' e'_def)
  moreover have "npos (get_node db' n) = npos (get_node db n)" for n
    using Some by (simp add: get_node_def rot e'_def)
  moreover have "nname ` set db' = insert t (nname ` set db)"
    using d by (auto simp: db' e'_def)
  ultimately show ?thesis by simp
qed

lemma blocks_cong:
  "set (boundary_names db) = set (boundary_names db0) \<Longrightarrow>
     hierarchy_boundary_blocks db f t = hierarchy_boundary_blocks db0 f t"
  by (simp add: hierarchy_boundary_blocks_def list_ex_iff)

section \<open>The labels that edges carry\<close>

inductive inherits :: "step list \<Rightarrow> node list \<Rightarrow> string \<Rightarrow> nat \<Rightarrow> bool" for edges db where
  inherit_declared: "k \<in> basic_of db n \<Longrightarrow> inherits edges db n k"
| inherit_edge: "s \<in> set edges \<Longrightarrow> \<not> hierarchy_boundary_blocks db (sfrom s) (sto s) \<Longrightarrow>
     inherits edges db (sfrom s) k \<Longrightarrow> inherits edges db (sto s) k"

definition infer_inv :: "step list \<Rightarrow> node list \<Rightarrow> node list \<Rightarrow> bool" where
  "infer_inv edges db0 db \<longleftrightarrow>
     unique_names db \<and> taint_is_basic db \<and>
     set (boundary_names db) = set (boundary_names db0) \<and>
     (\<forall>n. basic_of db0 n \<subseteq> basic_of db n) \<and>
     (\<forall>n k. k \<in> basic_of db n \<longrightarrow> inherits edges db0 n k) \<and>
     (\<forall>n. npos (get_node db n) = npos (get_node db0 n)) \<and>
     nname ` set db0 \<subseteq> nname ` set db"

lemma infer_edge_inv:
  assumes inv: "infer_inv edges db0 db" and s: "s \<in> set edges"
    and step: "infer_hierarchical_edge db s = Some db'"
  shows "infer_inv edges db0 db'"
proof -
  from step have nb: "\<not> hierarchy_boundary_blocks db (sfrom s) (sto s)"
    and merge: "merge_inferred_basic db (sto s) (node_basic_mask db (sfrom s)) = Some db'"
    by (auto simp: infer_hierarchical_edge_def Let_def split: if_splits)
  have nb0: "\<not> hierarchy_boundary_blocks db0 (sfrom s) (sto s)"
    using nb inv blocks_cong [of db db0] by (simp add: infer_inv_def)
  note eff = merge_effect [OF merge]
  have "inherits edges db0 (sto s) k" if "k \<in> basic_of db (sfrom s)" for k
    using that inv inherit_edge [OF s nb0] by (simp add: infer_inv_def)
  with eff inv show ?thesis
    by (auto simp: infer_inv_def basic_of_def split: if_splits)
qed

lemma infer_none_closed:
  assumes "infer_one_hierarchical_edge db edges = None" "s \<in> set edges"
    and "\<not> hierarchy_boundary_blocks db (sfrom s) (sto s)"
  shows "basic_of db (sfrom s) \<subseteq> basic_of db (sto s)"
proof (cases "node_basic_mask db (sfrom s) = 0")
  case False
  with assms have "merge_inferred_basic db (sto s) (node_basic_mask db (sfrom s)) = None"
    by (auto simp: infer_one_hierarchical_edge_def first_some_eq_None infer_hierarchical_edge_def
        Let_def dest: bspec)
  moreover from calculation obtain e where e: "find_node db (sto s) = Some e"
    by (cases "find_node db (sto s)") (auto simp: merge_inferred_basic_def)
  moreover from e obtain xs ys where "db = xs @ e # ys" "nname e = sto s" "sto s \<notin> nname ` set xs"
    by (auto simp: find_node_eq_Some)
  ultimately show ?thesis
    by (auto simp: merge_inferred_basic_present basic_of_def node_basic_mask_def or_absorb_iff
        split: if_splits)
qed (simp add: basic_of_def)

lemma infer_until_stable_inv:
  "infer_inv edges db0 db \<Longrightarrow>
     infer_inv edges db0 (infer_until_stable db edges) \<and>
     infer_one_hierarchical_edge (infer_until_stable db edges) edges = None"
proof (induction db edges rule: infer_until_stable.induct)
  case (1 db edges)
  show ?case
  proof (cases "infer_one_hierarchical_edge db edges")
    case None
    with 1(2) show ?thesis by (simp add: infer_until_stable.simps [of db])
  next
    case (Some db')
    then obtain s where "s \<in> set edges" "infer_hierarchical_edge db s = Some db'"
      by (auto simp: infer_one_hierarchical_edge_def dest: first_some_eq_Some)
    with 1(2) have "infer_inv edges db0 db'" by (auto intro: infer_edge_inv)
    with 1(1) [OF Some] Some show ?thesis by (simp add: infer_until_stable.simps [of db])
  qed
qed

lemma infer_inv_start:
  "unique_names db \<Longrightarrow> taint_is_basic db \<Longrightarrow> infer_inv edges db db"
  by (auto simp: infer_inv_def intro: inherit_declared)

lemma inherits_closed:
  assumes "inherits edges db0 n k" "infer_inv edges db0 db"
    and "infer_one_hierarchical_edge db edges = None"
  shows "k \<in> basic_of db n"
  using assms(1)
proof induction
  case (inherit_declared k n)
  then show ?case using assms(2) unfolding infer_inv_def by (meson subsetD)
next
  case (inherit_edge s k)
  have "\<not> hierarchy_boundary_blocks db (sfrom s) (sto s)"
    using inherit_edge(2) assms(2) blocks_cong [of db db0] by (simp add: infer_inv_def)
  with inherit_edge infer_none_closed [OF assms(3)] show ?case by blast
qed

lemma infer_exact:
  assumes "unique_names db" "taint_is_basic db"
  shows "k \<in> basic_of (infer_until_stable db edges) n \<longleftrightarrow> inherits edges db n k"
    and "npos (get_node (infer_until_stable db edges) n) = npos (get_node db n)"
    and "infer_inv edges db (infer_until_stable db edges)"
  using infer_until_stable_inv [OF infer_inv_start [OF assms]] inherits_closed
  by (auto simp: infer_inv_def)

section \<open>The loaded database\<close>

lemma taint_is_basic_load: "taint_is_basic (load_nodes split ls)"
  by (induction ls) (auto simp: taint_is_basic_def split: option.splits)

lemma taint_within_allowI: "taint_is_basic db \<Longrightarrow> taint_within_allow db"
  by (auto simp: taint_within_allow_def taint_of_def allow_of_def get_node_def taint_is_basic_def
      default_node_def dest!: find_node_in_set split: option.splits)

definition inferred :: "(string \<Rightarrow> string list) \<Rightarrow> string list \<Rightarrow> string list \<Rightarrow> node list" where
  "inferred split nl sl = infer_until_stable (load_nodes split nl) (load_steps sl)"

lemma backend_main_inferred:
  "backend_main split nl sl = propagate_until_stable (inferred split nl sl) (load_steps sl)"
  by (simp add: backend_main_def inferred_def Let_def)

lemma inferred_inv:
  "unique_names (load_nodes split nl) \<Longrightarrow>
     infer_inv (load_steps sl) (load_nodes split nl) (inferred split nl sl)"
  by (simp add: inferred_def infer_exact(3) taint_is_basic_load)

lemma inferred_ready:
  assumes "unique_names (load_nodes split nl)"
  shows "unique_names (inferred split nl sl)" "taint_within_allow (inferred split nl sl)"
  using inferred_inv [OF assms] by (auto simp: infer_inv_def intro: taint_within_allowI)

section \<open>Properties of the program\<close>

definition demo_nodes :: "string list" where
  "demo_nodes = [''S 2'', ''P 1 '', ''M 1 3'', ''M_q 1'', ''# note'']"

definition demo_steps :: "string list" where
  "demo_steps =
     [quote_char # ''p = s'' @ quote_char # '' S P'',
      quote_char # ''q = s'' @ quote_char # '' S M_q'',
      quote_char # ''p = 1'' @ quote_char # '' N_L P pc_p=S'']"

lemma demo_unique: "unique_names (load_nodes (split_on CHR '' '') demo_nodes)"
  by code_simp

text \<open>
  C1. Whatever the node and step files hold, as long as no name is declared twice, the taints
  the analysis ends with are exactly the label bits that a chain of data and pc flows of the
  step file carries to the node from the (inferred) label of some node: nothing is missed and
  nothing is added.
\<close>

theorem backend_taint_exact:
  assumes "unique_names (load_nodes split nl)"
  shows "k \<in> taint_of (fst (backend_main split nl sl)) n \<longleftrightarrow>
           flows (load_steps sl) (taint_of (inferred split nl sl)) n k"
  using propagate_exact(1) [OF inferred_ready [OF assms]]
  by (metis backend_main_inferred prod.collapse)

theorem backend_taint_exact_witness:
  "(1 \<in> taint_of (fst (backend_main (split_on CHR '' '') demo_nodes demo_steps)) ''M_q'') =
     flows (load_steps demo_steps)
       (taint_of (inferred (split_on CHR '' '') demo_nodes demo_steps)) ''M_q'' 1"
  by (rule backend_taint_exact [OF demo_unique])

text \<open>
  C2. A node is reported as a violation exactly when some bit that the flows carry to it is
  neither in its basic label nor in its capability mask. The report is complete (no offending
  flow is silent) and exact (no node is reported without one).
\<close>

theorem backend_reports_exact:
  assumes "unique_names (load_nodes split nl)"
  shows "reported (snd (backend_main split nl sl)) n \<longleftrightarrow>
           (\<exists>k. flows (load_steps sl) (taint_of (inferred split nl sl)) n k \<and>
                k \<notin> allow_of (inferred split nl sl) n)"
  using propagate_exact(2) [OF inferred_ready [OF assms]]
  by (metis backend_main_inferred prod.collapse)

theorem backend_reports_exact_witness:
  "reported (snd (backend_main (split_on CHR '' '') demo_nodes demo_steps)) ''P'' =
     (\<exists>k. flows (load_steps demo_steps)
            (taint_of (inferred (split_on CHR '' '') demo_nodes demo_steps)) ''P'' k \<and>
          k \<notin> allow_of (inferred (split_on CHR '' '') demo_nodes demo_steps) ''P'')"
  by (rule backend_reports_exact [OF demo_unique])

text \<open>
  The rule of the comment in the program: an edge into a scope is blocked only by a capability of a
  node that stands for a module or an instance. Which names these are is not marked in the node file, so
  they are an argument.
\<close>

definition documented_blocks :: "string set \<Rightarrow> node list \<Rightarrow> string \<Rightarrow> string \<Rightarrow> bool" where
  "documented_blocks boundaries db from_n to_n \<longleftrightarrow>
     (\<exists>b\<in>boundaries. npos (get_node db b) \<noteq> 0 \<and> inside_scope to_n b \<and> \<not> inside_scope from_n b)"

inductive inherits_documented :: "string set \<Rightarrow> step list \<Rightarrow> node list \<Rightarrow> string \<Rightarrow> nat \<Rightarrow> bool" for boundaries edges db where
  documented_declared: "k \<in> basic_of db n \<Longrightarrow> inherits_documented boundaries edges db n k"
| documented_edge: "s \<in> set edges \<Longrightarrow> \<not> documented_blocks boundaries db (sfrom s) (sto s) \<Longrightarrow>
     inherits_documented boundaries edges db (sfrom s) k \<Longrightarrow> inherits_documented boundaries edges db (sto s) k"

lemma node_with_capability:
  assumes "npos (get_node db b) \<noteq> 0"
  shows "b \<in> set (boundary_names db)"
  using assms by (fastforce simp: get_node_def boundary_names_def default_node_def find_node_eq_Some split: option.splits)

lemma capability_of_node:
  assumes "unique_names db" "b \<in> set (boundary_names db)"
  shows "npos (get_node db b) \<noteq> 0"
proof -
  obtain e where e: "e \<in> set db" "nname e = b" "npos e \<noteq> 0" using assms(2) by (auto simp: boundary_names_def)
  then have "find_node db b = Some e" using find_node_unique [OF assms(1)] by simp
  then show ?thesis using e(3) by (simp add: get_node_def)
qed

lemma documented_blocks_less: "documented_blocks boundaries db f t \<Longrightarrow> hierarchy_boundary_blocks db f t"
  using node_with_capability by (auto simp: documented_blocks_def hierarchy_boundary_blocks_def list_ex_iff)

lemma documented_blocks_same:
  "unique_names db \<Longrightarrow> set (boundary_names db) \<subseteq> boundaries \<Longrightarrow>
    documented_blocks boundaries db f t = hierarchy_boundary_blocks db f t"
proof (rule iffI [OF documented_blocks_less])
  assume u: "unique_names db" "set (boundary_names db) \<subseteq> boundaries" and "hierarchy_boundary_blocks db f t"
  then obtain b where "b \<in> set (boundary_names db)" "inside_scope t b" "\<not> inside_scope f b"
    by (auto simp: hierarchy_boundary_blocks_def list_ex_iff)
  then show "documented_blocks boundaries db f t"
    unfolding documented_blocks_def using u capability_of_node [OF u(1)] by blast
qed

lemma inherits_less: "inherits edges db n k \<Longrightarrow> inherits_documented boundaries edges db n k"
  by (induction rule: inherits.induct) (auto intro: inherits_documented.intros dest: documented_blocks_less)

lemma inherits_same:
  assumes "unique_names db" "set (boundary_names db) \<subseteq> boundaries"
  shows "inherits_documented boundaries edges db n k \<Longrightarrow> inherits edges db n k"
  by (induction rule: inherits_documented.induct)
    (auto intro: inherits.intros simp: documented_blocks_same [OF assms])

text \<open>
  C3. Hierarchical inference against the comment of the program, which says that capabilities block it
  at the boundary nodes of modules and instances only, and not at internal variables. Let \<open>boundaries\<close>
  be the names of those nodes, let no node be declared twice. If only boundary nodes have a positive
  capability, the labels after the inference are exactly the least ones that contain the declared
  labels and are closed under the edges that the comment does not block. If other nodes have one as
  well, every inferred tag is one of that closure, but tags may be missing, because the program takes
  every node with a capability for a boundary (\<open>internal_capability_blocks\<close> is such a case). The
  inference never changes the positive capabilities of a node.
\<close>

theorem inference_exact:
  assumes "unique_names (load_nodes split nl)"
  shows "(k \<in> basic_of (inferred split nl sl) n \<longrightarrow>
            inherits_documented boundaries (load_steps sl) (load_nodes split nl) n k) \<and>
         (set (boundary_names (load_nodes split nl)) \<subseteq> boundaries \<longrightarrow>
            (k \<in> basic_of (inferred split nl sl) n \<longleftrightarrow>
             inherits_documented boundaries (load_steps sl) (load_nodes split nl) n k)) \<and>
         npos (get_node (inferred split nl sl) n) = npos (get_node (load_nodes split nl) n)"
proof -
  have "k \<in> basic_of (inferred split nl sl) n \<longleftrightarrow> inherits (load_steps sl) (load_nodes split nl) n k"
    "npos (get_node (inferred split nl sl) n) = npos (get_node (load_nodes split nl) n)"
    using infer_exact(1,2) [OF assms taint_is_basic_load] by (simp_all add: inferred_def)
  then show ?thesis using inherits_less inherits_same [OF assms] by blast
qed

theorem inference_exact_witness:
  "(1 \<in> basic_of (inferred (split_on CHR '' '') demo_nodes demo_steps) ''P'') =
     inherits_documented {''M''} (load_steps demo_steps) (load_nodes (split_on CHR '' '') demo_nodes) ''P'' 1"
proof -
  have "boundary_names (load_nodes (split_on CHR '' '') demo_nodes) = [''M'']" by code_simp
  then show ?thesis using inference_exact [OF demo_unique, of 1 demo_steps "''P''" "{''M''}"] by simp
qed

text \<open>
  The divergence from the comment: the capability of an internal variable \<open>M_v\<close> blocks an edge to
  \<open>M_v\<close> from a node outside it, although only \<open>M\<close> is an instance.
\<close>

definition internal_nodes :: "string list" where
  "internal_nodes = [''S 2'', ''M 1'', ''M_v 1 3'']"

definition internal_steps :: "string list" where
  "internal_steps = [quote_char # ''v = s'' @ quote_char # '' S M_v'']"

lemma internal_capability_blocks:
  "1 \<notin> basic_of (inferred (split_on CHR '' '') internal_nodes internal_steps) ''M_v''"
  "inherits_documented {''M''} (load_steps internal_steps) (load_nodes (split_on CHR '' '') internal_nodes) ''M_v'' 1"
proof -
  let ?db = "load_nodes (split_on CHR '' '') internal_nodes"
  let ?s = "\<lparr>sdesc = ''v = s'', sfrom = ''S'', sto = ''M_v'', spcs = []\<rparr>"
  have "node_basic_mask (inferred (split_on CHR '' '') internal_nodes internal_steps) ''M_v'' = 1" by code_simp
  then show "1 \<notin> basic_of (inferred (split_on CHR '' '') internal_nodes internal_steps) ''M_v''"
    by (simp add: basic_of_def bits_def)
  have s: "load_steps internal_steps = [?s]" "npos (get_node ?db ''M'') = 0" "node_basic_mask ?db ''S'' = 2" by code_simp+
  have "1 \<in> basic_of ?db (sfrom ?s)" using s(3) by (simp add: basic_of_def bits_def bit_simps)
  then have "inherits_documented {''M''} (load_steps internal_steps) ?db (sfrom ?s) 1" by (rule documented_declared)
  then have "inherits_documented {''M''} (load_steps internal_steps) ?db (sto ?s) 1"
    by (rule documented_edge [rotated 2]) (simp_all add: s documented_blocks_def)
  then show "inherits_documented {''M''} (load_steps internal_steps) ?db ''M_v'' 1" by simp
qed

section \<open>What can be reported at all\<close>

lemma taint_of_declared:
  "taint_is_basic db \<Longrightarrow> n \<in> nname ` set db \<Longrightarrow> taint_of db n = basic_of db n"
  by (auto simp: taint_of_def basic_of_def get_node_def node_basic_mask_def taint_is_basic_def
      find_node_eq_None dest!: find_node_in_set split: option.splits)

lemma basic_of_declared: "k \<in> basic_of db n \<Longrightarrow> n \<in> nname ` set db"
  by (cases "find_node db n") (auto simp: basic_of_def node_basic_mask_def find_node_eq_Some)

lemma quiet_flows:
  assumes "flows ss (taint_of db) n k" "taint_is_basic db"
    and "\<forall>s\<in>set ss. active s \<longrightarrow> spcs s = [] \<and> sfrom s \<in> nname ` set db \<and>
           basic_of db (sfrom s) \<subseteq> basic_of db (sto s)"
  shows "k \<in> taint_of db n"
  using assms(1)
proof induction
  case (flow_data s k)
  then have "k \<in> basic_of db (sto s)"
    using assms(2,3) taint_of_declared [OF assms(2), of "sfrom s"] by blast
  then show ?case
    using taint_of_declared [OF assms(2)] basic_of_declared by blast
next
  case (flow_pc s p k)
  then show ?case using assms(3) by auto
qed

lemma quiet_unreported:
  assumes "unique_names (load_nodes split nl)"
    and none: "\<forall>s\<in>set (load_steps sl). active s \<longrightarrow> spcs s = [] \<and> sfrom s \<in> nname ` set (load_nodes split nl) \<and>
      \<not> hierarchy_boundary_blocks (load_nodes split nl) (sfrom s) (sto s)"
  shows "\<not> reported (snd (backend_main split nl sl)) n"
proof
  let ?db = "inferred split nl sl"
  assume rep: "reported (snd (backend_main split nl sl)) n"
  have inv: "infer_inv (load_steps sl) (load_nodes split nl) ?db" by (rule inferred_inv [OF assms(1)])
  then have tb: "taint_is_basic ?db" by (simp add: infer_inv_def)
  have stable: "infer_one_hierarchical_edge ?db (load_steps sl) = None"
    using infer_until_stable_inv [OF infer_inv_start [OF assms(1) taint_is_basic_load]]
    by (simp add: inferred_def)
  have quiet: "\<forall>s\<in>set (load_steps sl). active s \<longrightarrow> spcs s = [] \<and> sfrom s \<in> nname ` set ?db \<and>
      basic_of ?db (sfrom s) \<subseteq> basic_of ?db (sto s)"
  proof (intro ballI impI conjI)
    fix s assume s: "s \<in> set (load_steps sl)" "active s"
    show "spcs s = []" using none s by auto
    have "sfrom s \<in> nname ` set (load_nodes split nl)" using none s by auto
    moreover have "nname ` set (load_nodes split nl) \<subseteq> nname ` set ?db"
      using inv by (simp add: infer_inv_def)
    ultimately show "sfrom s \<in> nname ` set ?db" by (rule subsetD [rotated])
    have "\<not> hierarchy_boundary_blocks (load_nodes split nl) (sfrom s) (sto s)"
      using none s by auto
    moreover have "set (boundary_names ?db) = set (boundary_names (load_nodes split nl))"
      using inv by (simp add: infer_inv_def)
    ultimately have "\<not> hierarchy_boundary_blocks ?db (sfrom s) (sto s)"
      by (simp add: hierarchy_boundary_blocks_def list_ex_iff)
    with infer_none_closed [OF stable s(1)] show "basic_of ?db (sfrom s) \<subseteq> basic_of ?db (sto s)" .
  qed
  from rep obtain k where "flows (load_steps sl) (taint_of ?db) n k" "k \<notin> allow_of ?db n"
    using propagate_exact(2) [OF inferred_ready [OF assms(1)]]
    by (metis backend_main_inferred prod.collapse)
  moreover have "taint_of ?db n \<subseteq> allow_of ?db n"
    using inferred_ready(2) [OF assms(1)] by (simp add: taint_within_allow_def)
  ultimately show False using quiet_flows [OF _ tb quiet] by (meson subsetD)
qed

text \<open>
  C4. Inference silences direct flows. A node can be reported only if the step file has a step
  that names a pc variable, or whose source is not in the node file, or that a capability
  boundary blocks; plain data flows between declared nodes never lead to a report, whatever
  labels were declared, because the target has inherited the label of the source before the
  check.
\<close>

theorem reports_need_pc_or_boundary:
  assumes "unique_names (load_nodes split nl)"
    and "reported (snd (backend_main split nl sl)) n"
  shows "\<exists>s\<in>set (load_steps sl). active s \<and>
           (spcs s \<noteq> [] \<or> sfrom s \<notin> nname ` set (load_nodes split nl) \<or>
            hierarchy_boundary_blocks (load_nodes split nl) (sfrom s) (sto s))"
  using quiet_unreported [OF assms(1)] assms(2) by blast

lemma demo_reported: "reported (snd (backend_main (split_on CHR '' '') demo_nodes demo_steps)) ''M_q''"
  unfolding reported_def
proof (intro exI)
  show "Violation (''M_q'' # [''S'']) ''q = s''
      \<in> set (snd (backend_main (split_on CHR '' '') demo_nodes demo_steps))"
    by code_simp
qed

theorem reports_need_pc_or_boundary_witness:
  "\<exists>s\<in>set (load_steps demo_steps). active s \<and>
     (spcs s \<noteq> [] \<or> sfrom s \<notin> nname ` set (load_nodes (split_on CHR '' '') demo_nodes) \<or>
      hierarchy_boundary_blocks (load_nodes (split_on CHR '' '') demo_nodes) (sfrom s) (sto s))"
  by (rule reports_need_pc_or_boundary [OF demo_unique demo_reported])

end
