(* ===== verification/Verinum.thy ===== *)
theory Verinum
  imports Prelude
begin

text \<open>
  The number type of the compiler, \<open>class verinum\<close> of \<open>verinum.h\<close> and \<open>verinum.cc\<close>: four-valued
  bits in little-endian order with the flags \<open>has_len_\<close>, \<open>has_sign_\<close>, \<open>string_flag_\<close>; the bit
  operators, the constructors from integers, the predicates and the conversions to native
  integers. A failing \<open>assert\<close> (an index out of range) is the value \<open>Inl ''assert''\<close>.
\<close>

section \<open>Bits\<close>

datatype V = V0 | V1 | Vx | Vz

fun V_num :: "V \<Rightarrow> nat" where
  "V_num V0 = 0"
| "V_num V1 = 1"
| "V_num Vx = 2"
| "V_num Vz = 3"

text \<open>The enumeration is ordered by its values, as the comparisons of the code use it.\<close>

instantiation V :: linorder
begin

definition less_eq_V :: "V \<Rightarrow> V \<Rightarrow> bool" where
  "less_eq_V a b \<longleftrightarrow> V_num a \<le> V_num b"

definition less_V :: "V \<Rightarrow> V \<Rightarrow> bool" where
  "less_V a b \<longleftrightarrow> V_num a < V_num b"

instance
proof
  fix x y z :: V
  show "(x < y) = (x \<le> y \<and> \<not> y \<le> x)" by (auto simp: less_V_def less_eq_V_def)
  show "x \<le> x" by (simp add: less_eq_V_def)
  show "x \<le> y \<Longrightarrow> y \<le> z \<Longrightarrow> x \<le> z" by (simp add: less_eq_V_def)
  show "x \<le> y \<Longrightarrow> y \<le> x \<Longrightarrow> x = y" by (cases x; cases y) (auto simp: less_eq_V_def)
  show "x \<le> y \<or> y \<le> x" by (auto simp: less_eq_V_def)
qed

end

definition bit4_z2x :: "V \<Rightarrow> V" where
  "bit4_z2x b = (if b < Vx then b else Vx)"

fun V_not :: "V \<Rightarrow> V" where
  "V_not V0 = V1"
| "V_not V1 = V0"
| "V_not _ = Vx"

definition V_or :: "V \<Rightarrow> V \<Rightarrow> V" where
  "V_or l r = (if l = V1 then V1 else if r = V1 then V1 else if l \<noteq> V0 then Vx
     else if r \<noteq> V0 then Vx else V0)"

definition V_and :: "V \<Rightarrow> V \<Rightarrow> V" where
  "V_and l r = (if l = V0 then V0 else if r = V0 then V0 else if l \<noteq> V1 then Vx
     else if r \<noteq> V1 then Vx else V1)"

definition V_xor :: "V \<Rightarrow> V \<Rightarrow> V" where
  "V_xor l r = (if l = V0 then bit4_z2x r else if r = V0 then bit4_z2x l
     else if l = V1 \<and> r = V1 then V0 else Vx)"

definition add_with_carry :: "V \<Rightarrow> V \<Rightarrow> V \<Rightarrow> V \<times> V" where
  "add_with_carry l r c =
     (if c = Vx \<or> c = Vz then (Vx, Vx)
      else if l = Vx \<or> l = Vz then (Vx, Vx)
      else if r = Vx \<or> r = Vz then (Vx, Vx)
      else let sum = (if c = V1 then 1 else 0) + (if l = V1 then 1 else 0) +
                     (if r = V1 then 1 else (0::nat))
           in (if sum AND 1 \<noteq> 0 then V1 else V0, if sum AND 2 \<noteq> 0 then V1 else V0))"

section \<open>Numbers\<close>

record verinum =
  vbits :: "V list"
  has_len :: bool
  has_sign :: bool
  string_flag :: bool

definition mk_verinum :: "V list \<Rightarrow> bool \<Rightarrow> bool \<Rightarrow> bool \<Rightarrow> verinum" where
  "mk_verinum bs hl hs sf = \<lparr>vbits = bs, has_len = hl, has_sign = hs, string_flag = sf\<rparr>"

abbreviation vlen :: "verinum \<Rightarrow> nat" where
  "vlen v \<equiv> length (vbits v)"

definition set_sign :: "verinum \<Rightarrow> bool \<Rightarrow> verinum" where
  "set_sign v flag = v\<lparr>has_sign := flag\<rparr>"

definition vget :: "verinum \<Rightarrow> nat \<Rightarrow> V result" where
  "vget v idx = (if idx < vlen v then Inr (vbits v ! idx) else Inl ''assert'')"

definition vset :: "verinum \<Rightarrow> nat \<Rightarrow> V \<Rightarrow> verinum result" where
  "vset v idx val =
     (if idx < vlen v then Inr (v\<lparr>vbits := (vbits v)[idx := val]\<rparr>) else Inl ''assert'')"

definition verinum_empty :: verinum where
  "verinum_empty = mk_verinum [] False False False"

definition verinum_of_bits :: "V list \<Rightarrow> bool \<Rightarrow> verinum" where
  "verinum_of_bits bs hl = mk_verinum bs hl False False"

definition verinum_fill :: "V \<Rightarrow> nat \<Rightarrow> bool \<Rightarrow> verinum" where
  "verinum_fill val n hl = mk_verinum (replicate n val) hl False False"

fun uint_bits :: "nat \<Rightarrow> nat \<Rightarrow> V list" where
  "uint_bits 0 val = []"
| "uint_bits (Suc n) val = (if val AND 1 \<noteq> 0 then V1 else V0) # uint_bits n (drop_bit 1 val)"

definition verinum_of_uint64 :: "64 word \<Rightarrow> nat \<Rightarrow> verinum" where
  "verinum_of_uint64 val n = mk_verinum (uint_bits n (unat val)) True False False"

text \<open>The number of halvings until a value is zero; C++ division truncates towards zero.\<close>

function halvings :: "int \<Rightarrow> nat" where
  "halvings tmp = (if tmp \<noteq> 0 then Suc (halvings (sgn tmp * (\<bar>tmp\<bar> div 2))) else 0)"
  by pat_completeness auto
termination
  by (relation "measure (\<lambda>tmp. nat \<bar>tmp\<bar>)") (auto simp: abs_mult)

declare halvings.simps [simp del]

fun sint_bits :: "nat \<Rightarrow> int \<Rightarrow> V list" where
  "sint_bits 0 that = []"
| "sint_bits (Suc n) that = (if that AND 1 \<noteq> 0 then V1 else V0) # sint_bits n (drop_bit 1 that)"

definition verinum_of_int64 :: "int \<Rightarrow> verinum" where
  "verinum_of_int64 that =
     (let tmp = (if that < 0 then sgn (that + 1) * (\<bar>that + 1\<bar> div 2) else that div 2);
          nbits = 1 + halvings tmp + 1
      in mk_verinum (sint_bits nbits that) False True False)"

text \<open>Copy a number to a given width, with sign or zero extension.\<close>

definition verinum_resize :: "verinum \<Rightarrow> nat \<Rightarrow> verinum result" where
  "verinum_resize that nbits =
     (let copy = (if nbits > vlen that then vlen that else nbits);
          low = take copy (vbits that)
      in if copy < nbits then
           (if has_sign that then
              (if copy = 0 then Inl ''out of bounds''
               else Inr (mk_verinum (low @ replicate (nbits - copy) (low ! (copy - 1)))
                           True (has_sign that) False))
            else Inr (mk_verinum (low @ replicate (nbits - copy) V0) True (has_sign that) False))
         else Inr (mk_verinum low True (has_sign that) False))"

section \<open>Predicates\<close>

definition is_defined :: "verinum \<Rightarrow> bool" where
  "is_defined v \<longleftrightarrow> list_all (\<lambda>b. b \<noteq> Vx \<and> b \<noteq> Vz) (vbits v)"

definition is_zero :: "verinum \<Rightarrow> bool" where
  "is_zero v \<longleftrightarrow> list_all (\<lambda>b. b = V0) (vbits v)"

definition is_negative :: "verinum \<Rightarrow> bool result" where
  "is_negative v =
     (if vbits v = [] then Inl ''out of bounds'' else Inr (last (vbits v) = V1 \<and> has_sign v))"

fun before_bits :: "(V \<times> V) list \<Rightarrow> bool" where
  "before_bits [] = False"
| "before_bits ((a, b) # ps) = (if a < b then True else if b < a then False else before_bits ps)"

definition is_before :: "verinum \<Rightarrow> verinum \<Rightarrow> bool" where
  "is_before this that =
     (if vlen this < vlen that then True else if vlen that < vlen this then False
      else before_bits (rev (zip (vbits this) (vbits that))))"

text \<open>\<open>sign_bit\<close> of the header and \<open>get(len()-1)\<close>, which asserts on a number without bits.\<close>

definition top_bit :: "verinum \<Rightarrow> V result" where
  "top_bit v = (if vbits v = [] then Inl ''assert'' else Inr (last (vbits v)))"

definition sign_bit :: "verinum \<Rightarrow> V result" where
  "sign_bit v = (if has_sign v then top_bit v else Inr V0)"

section \<open>Conversions to native integers\<close>

fun or_masks :: "V list \<Rightarrow> nat \<Rightarrow> int \<Rightarrow> int" where
  "or_masks [] idx val = val"
| "or_masks (b # bs) idx val = or_masks bs (Suc idx) (if b = V1 then val OR 2 ^ idx else val)"

fun and_masks :: "V list \<Rightarrow> nat \<Rightarrow> int \<Rightarrow> int" where
  "and_masks [] idx val = val"
| "and_masks (b # bs) idx val =
     and_masks bs (Suc idx) (if b = V0 then val AND NOT (2 ^ idx) else val)"

definition as_ulong :: "verinum \<Rightarrow> int" where
  "as_ulong v =
     (if vlen v = 0 then 0 else if \<not> is_defined v then 0
      else let top = (if vlen v \<ge> 64 then 64 else vlen v)
           in or_masks (take top (vbits v)) 0 0)"

definition as_ulong64 :: "verinum \<Rightarrow> int" where
  "as_ulong64 v =
     (if vlen v = 0 then 0 else if \<not> is_defined v then 0
      else let top = (if vlen v \<ge> 64 then 64 else vlen v)
           in or_masks (take top (vbits v)) 0 0)"

text \<open>\<open>IVLLBITS\<close> is 63. The warning about lost bits goes to the error stream only.\<close>

definition as_long :: "verinum \<Rightarrow> int" where
  "as_long v =
     (if vlen v = 0 then 0 else if \<not> is_defined v then 0
      else let top = (if vlen v > 63 then 63 else vlen v)
           in if has_sign v \<and> last (vbits v) = V1
              then and_masks (take top (vbits v)) 0 (- 1)
              else or_masks (take top (vbits v)) 0 0)"

section \<open>Width adjustments\<close>

text \<open>
  \<open>pad_to_width\<close>, but for the last step on a string (the padded string is read again as text),
  which is in the theory of texts.
\<close>

definition pad_bit :: "verinum \<Rightarrow> V" where
  "pad_bit that =
     (let pad = last (vbits that);
          pad = (if pad = V1 \<and> \<not> has_sign that then V0 else pad)
      in if has_len that \<and> \<not> has_sign that then
           (if pad = Vx then V0 else if pad = Vz then V0 else pad)
         else pad)"

definition pad_numeric :: "verinum \<Rightarrow> nat \<Rightarrow> verinum" where
  "pad_numeric that width =
     mk_verinum (vbits that @ replicate (width - vlen that) (pad_bit that))
       (has_len that) (has_sign that) False"

text \<open>\<open>top\<close> after the loop: the highest index below a given one whose bit is not the sign, or 0.\<close>

fun scan_down :: "V list \<Rightarrow> V \<Rightarrow> nat \<Rightarrow> nat" where
  "scan_down bs sign 0 = 0"
| "scan_down bs sign (Suc hi) =
     (if bs ! Suc hi = sign then scan_down bs sign hi else Suc hi)"

definition trim_vnum :: "verinum \<Rightarrow> verinum" where
  "trim_vnum that =
     (if has_len that then that
      else if vlen that < 2 then that
      else if has_sign that then
        (let top0 = vlen that - 1;
             sign = vbits that ! top0;
             top = scan_down (vbits that) sign top0;
             top = (if vbits that ! top \<noteq> sign then top + 1 else top)
         in mk_verinum (take (top + 1) (vbits that)) False True False)
      else
        (let top = scan_down (vbits that) V0 (vlen that - 1)
         in if top + 1 = vlen that then that
            else let tlen = (if vbits that ! top = V0 then top + 1 else top + 2)
                 in mk_verinum (take tlen (vbits that)) False False False))"

text \<open>\<open>signed_trim\<close>, the private helper of the constructor from a double.\<close>

definition signed_trim :: "verinum \<Rightarrow> verinum" where
  "signed_trim v =
     (let tlen = vlen v - 1;
          sign = vbits v ! tlen;
          tlen = scan_down (vbits v) sign tlen;
          tlen = (if vbits v ! tlen \<noteq> sign then tlen + 1 else tlen);
          tlen = tlen + 1
      in if tlen < vlen v then v\<lparr>vbits := take tlen (vbits v)\<rparr> else v)"

section \<open>Values\<close>

text \<open>The integer a list of bits stands for, read as unsigned and as two's complement.\<close>

fun val_u :: "V list \<Rightarrow> int" where
  "val_u [] = 0"
| "val_u (b # bs) = (if b = V1 then 1 else 0) + 2 * val_u bs"

definition val_s :: "V list \<Rightarrow> int" where
  "val_s bs = (if bs \<noteq> [] \<and> last bs = V1 then val_u bs - 2 ^ length bs else val_u bs)"

definition vint :: "verinum \<Rightarrow> int" where
  "vint v = (if has_sign v then val_s (vbits v) else val_u (vbits v))"

definition all_defined :: "V list \<Rightarrow> bool" where
  "all_defined bs \<longleftrightarrow> (\<forall>b\<in>set bs. b = V0 \<or> b = V1)"

named_theorems val_simps \<open>values of assembled bit lists\<close>

lemma is_defined_iff: "is_defined v \<longleftrightarrow> all_defined (vbits v)"
proof -
  have "b \<noteq> Vx \<and> b \<noteq> Vz \<longleftrightarrow> b = V0 \<or> b = V1" for b by (cases b) auto
  then show ?thesis by (simp add: is_defined_def all_defined_def list_all_iff)
qed

lemma all_defined_simps [simp]:
  "all_defined []"
  "all_defined (b # bs) \<longleftrightarrow> (b = V0 \<or> b = V1) \<and> all_defined bs"
  "all_defined (xs @ ys) \<longleftrightarrow> all_defined xs \<and> all_defined ys"
  "all_defined (replicate n b) \<longleftrightarrow> n = 0 \<or> b = V0 \<or> b = V1"
  by (auto simp: all_defined_def)

lemma all_defined_take: "all_defined bs \<Longrightarrow> all_defined (take n bs)"
  by (auto simp: all_defined_def dest: in_set_takeD)

lemma all_defined_last: "all_defined bs \<Longrightarrow> bs \<noteq> [] \<Longrightarrow> last bs = V0 \<or> last bs = V1"
  by (simp add: all_defined_def)

lemma val_u_nonneg [simp]: "0 \<le> val_u bs"
  by (induction bs) auto

lemma val_u_less: "val_u bs < 2 ^ length bs"
  by (induction bs) auto

lemma val_u_append [val_simps]: "val_u (xs @ ys) = val_u xs + 2 ^ length xs * val_u ys"
  by (induction xs) (auto simp: algebra_simps)

lemma val_u_replicate [val_simps]:
  "val_u (replicate n b) = (if b = V1 then 2 ^ n - 1 else 0)"
  by (induction n) auto

lemma val_u_take_drop: "val_u bs = val_u (take n bs) + 2 ^ min n (length bs) * val_u (drop n bs)"
proof -
  have "val_u bs = val_u (take n bs @ drop n bs)" by simp
  then show ?thesis by (simp only: val_u_append) (simp add: min.commute)
qed

lemma val_u_take: "val_u (take n bs) = val_u bs mod 2 ^ n"
proof (cases "n \<le> length bs")
  case True
  have "val_u (take n bs) < 2 ^ n" using val_u_less [of "take n bs"] True by simp
  then show ?thesis using True by (subst val_u_take_drop [of bs n]) (simp add: mod_pos_pos_trivial)
next
  case False
  then have "val_u bs < 2 ^ n"
    by (intro order_less_le_trans [OF val_u_less power_increasing]) auto
  with False show ?thesis by (simp add: mod_pos_pos_trivial)
qed

lemma last_iff_val_u: "bs \<noteq> [] \<Longrightarrow> last bs = V1 \<longleftrightarrow> 2 ^ (length bs - 1) \<le> val_u bs"
proof (cases bs rule: rev_cases)
  case (snoc ys y)
  then show ?thesis using val_u_less [of ys] by (auto simp: val_simps)
qed simp

lemma val_s_snoc: "val_s (bs @ [b]) = val_u bs - (if b = V1 then 2 ^ length bs else 0)"
  by (simp add: val_s_def val_simps)

lemma val_s_bounds:
  "bs \<noteq> [] \<Longrightarrow> - (2 ^ (length bs - 1)) \<le> val_s bs \<and> val_s bs < 2 ^ (length bs - 1)"
proof (cases bs rule: rev_cases)
  case (snoc ys y)
  have "- (2 ^ length ys) \<le> val_u ys"
    by (rule order_trans [OF _ val_u_nonneg]) simp
  with val_u_less [of ys] snoc show ?thesis
    by (cases "y = V1") (simp_all add: val_s_snoc)
qed simp

lemma val_s_mod: "val_s bs mod 2 ^ length bs = val_u bs"
  by (simp add: val_s_def mod_pos_pos_trivial val_u_less)

text \<open>A list of bits with a given residue has the number in its range as two's complement value.\<close>

lemma val_s_eqI:
  assumes "bs \<noteq> []" "val_u bs = i mod 2 ^ length bs"
    and "- (2 ^ (length bs - 1)) \<le> i" "i < 2 ^ (length bs - 1)"
  shows "val_s bs = i"
proof -
  have "\<bar>val_s bs - i\<bar> < 2 ^ length bs"
  proof -
    have "(2::int) ^ length bs = 2 * 2 ^ (length bs - 1)"
      using assms(1) by (cases bs) auto
    then show ?thesis using val_s_bounds [OF assms(1)] assms(3,4) by (simp add: abs_less_iff)
  qed
  moreover have "2 ^ length bs dvd val_s bs - i"
    using assms(2) val_s_mod [of bs] by (simp add: mod_eq_dvd_iff)
  ultimately have "val_s bs - i = 0"
    by (metis dvd_imp_le_int abs_of_nonneg linorder_not_less zero_le_numeral zero_le_power)
  then show ?thesis by simp
qed

text \<open>Sign extension keeps the signed value, zero extension the unsigned one.\<close>

lemma val_s_extend:
  assumes "bs \<noteq> []"
  shows "val_s (bs @ replicate k (last bs)) = val_s bs"
proof -
  have "last (bs @ replicate k (last bs)) = last bs" using assms by (cases k) auto
  then show ?thesis using assms
    by (cases "last bs = V1") (simp_all add: val_s_def val_simps power_add algebra_simps)
qed

lemma val_u_extend: "b \<noteq> V1 \<Longrightarrow> val_u (bs @ replicate k b) = val_u bs"
  by (simp add: val_simps)

section \<open>Conversions\<close>

lemma int_or_add: "0 \<le> v \<Longrightarrow> v < 2 ^ i \<Longrightarrow> (v::int) OR 2 ^ i = v + 2 ^ i"
proof (rule disjunctive_add [symmetric])
  fix n assume "0 \<le> v" "v < 2 ^ i"
  show "\<not> bit v n \<or> \<not> bit (2 ^ i :: int) n"
  proof (cases "n = i")
    case True
    have "\<not> bit v i"
      using \<open>0 \<le> v\<close> \<open>v < 2 ^ i\<close> by (simp add: bit_iff_odd div_pos_pos_trivial)
    with True show ?thesis by simp
  qed (simp add: bit_exp_iff)
qed

lemma or_masks_val: "0 \<le> v \<Longrightarrow> v < 2 ^ i \<Longrightarrow> or_masks bs i v = v + 2 ^ i * val_u bs"
proof (induction bs arbitrary: i v)
  case (Cons b bs)
  have "or_masks bs (Suc i) w = w + 2 ^ Suc i * val_u bs"
    if "0 \<le> w" "w < 2 ^ Suc i" for w
    using Cons.IH that .
  from this [of "if b = V1 then v OR 2 ^ i else v"] Cons.prems
  show ?case by (auto simp: int_or_add algebra_simps)
qed simp

lemma int_and_not_sub:
  "0 \<le> w \<Longrightarrow> w < 2 ^ i \<Longrightarrow> (w - 2 ^ i) AND NOT (2 ^ i) = (w - 2 ^ Suc i :: int)"
proof (rule bit_eqI)
  fix n assume w: "0 \<le> w" "w < 2 ^ i"
  have r: "w - 2 ^ k = w OR NOT (mask k)" if "i \<le> k" for k
  proof -
    have "\<not> bit w n \<or> n < k" for n
    proof (cases "n < k")
      case False
      then have "(2::int) ^ i \<le> 2 ^ n" using that by (intro power_increasing) auto
      then have "w < 2 ^ n" using w by linarith
      then have "w div 2 ^ n = 0" using w by (intro div_pos_pos_trivial)
      then show ?thesis by (simp add: bit_iff_odd)
    qed simp
    then have "w OR NOT (mask k) = w + NOT (mask k)"
      by (intro disjunctive_add [symmetric]) (auto simp: bit_not_iff bit_mask_iff)
    also have "\<dots> = w - 2 ^ k" by (simp add: not_eq_complement mask_eq_exp_minus_1)
    finally show ?thesis by simp
  qed
  have "\<not> bit w i" using w by (simp add: bit_iff_odd div_pos_pos_trivial)
  moreover have "w - 2 ^ i = w OR NOT (mask i)" "w - 2 ^ Suc i = w OR NOT (mask (Suc i))"
    by (rule r, simp)+
  ultimately show "bit ((w - 2 ^ i) AND NOT (2 ^ i)) n = bit (w - 2 ^ Suc i) n"
    by (auto simp: bit_and_iff bit_or_iff bit_not_iff bit_mask_iff bit_exp_iff less_Suc_eq)
qed

lemma and_masks_val:
  "all_defined bs \<Longrightarrow> 0 \<le> w \<Longrightarrow> w < 2 ^ i \<Longrightarrow>
     and_masks bs i (w - 2 ^ i) = w + 2 ^ i * val_u bs - 2 ^ (i + length bs)"
proof (induction bs arbitrary: i w)
  case (Cons b bs)
  have ih: "and_masks bs (Suc i) (w' - 2 ^ Suc i) = w' + 2 ^ Suc i * val_u bs - 2 ^ (Suc i + length bs)"
    if "0 \<le> w'" "w' < 2 ^ Suc i" for w'
    using Cons.IH [OF _ that] Cons.prems(1) by simp
  show ?case
  proof (cases "b = V0")
    case True
    then show ?thesis using ih [of w] Cons.prems int_and_not_sub [of w i] by simp
  next
    case False
    then have "b = V1" using Cons.prems(1) by simp
    then show ?thesis using ih [of "w + 2 ^ i"] Cons.prems by (simp add: algebra_simps)
  qed
qed simp

lemma as_ulong_val: "is_defined v \<Longrightarrow> as_ulong v = val_u (vbits v) mod 2 ^ 64"
  using or_masks_val [of 0 0 "take 64 (vbits v)"]
  by (auto simp: as_ulong_def val_u_take Let_def)

lemma as_long_val:
  assumes "is_defined v" "vlen v \<le> 63"
  shows "as_long v = vint v"
proof -
  have "or_masks (vbits v) 0 0 = val_u (vbits v)"
    using or_masks_val [of 0 0 "vbits v"] by simp
  moreover have "and_masks (vbits v) 0 (- 1) = val_u (vbits v) - 2 ^ vlen v"
    using and_masks_val [of "vbits v" 0 0] assms(1) by (simp add: is_defined_iff)
  ultimately show ?thesis
    using assms by (auto simp: as_long_def Let_def vint_def val_s_def)
qed

section \<open>Width adjustments keep the value\<close>

lemma scan_down_le: "scan_down bs s hi \<le> hi"
  by (induction hi) auto

lemma scan_down_above: "scan_down bs s hi < j \<Longrightarrow> j \<le> hi \<Longrightarrow> bs ! j = s"
  by (induction hi) (auto split: if_splits simp: le_Suc_eq)

lemma scan_down_stop: "scan_down bs s hi \<noteq> 0 \<Longrightarrow> bs ! scan_down bs s hi \<noteq> s"
  by (induction hi) (auto split: if_splits)

lemma take_extend:
  assumes "\<And>j. n \<le> j \<Longrightarrow> j < length bs \<Longrightarrow> bs ! j = s"
  shows "bs = take n bs @ replicate (length bs - n) s"
  using assms by (intro nth_equalityI) (auto simp: nth_append)

lemma trim_vnum_no_len: "has_len v \<Longrightarrow> trim_vnum v = v"
  by (simp add: trim_vnum_def)

lemma trim_vnum_sign [simp]: "has_sign (trim_vnum v) = has_sign v"
  by (simp add: trim_vnum_def mk_verinum_def Let_def)

lemma trim_vnum_defined: "is_defined v \<Longrightarrow> is_defined (trim_vnum v)"
  by (auto simp: trim_vnum_def mk_verinum_def Let_def is_defined_iff intro: all_defined_take)

lemma trim_vnum_nonempty [simp]: "vbits (trim_vnum v) = [] \<longleftrightarrow> vbits v = []"
  by (auto simp: trim_vnum_def mk_verinum_def Let_def)

lemma trim_vnum_len_flag [simp]: "has_len (trim_vnum v) = has_len v"
  by (simp add: trim_vnum_def mk_verinum_def Let_def)

lemma val_s_take_extended:
  assumes "0 < n" "n \<le> length bs" "bs ! (n - 1) = s"
    and "\<And>j. n \<le> j \<Longrightarrow> j < length bs \<Longrightarrow> bs ! j = s"
  shows "val_s (take n bs) = val_s bs"
proof -
  have ne: "take n bs \<noteq> []" using assms(1,2) by auto
  then have "last (take n bs) = s" using assms(1-3) by (simp add: last_conv_nth min_absorb2)
  with ne have "val_s (take n bs @ replicate (length bs - n) s) = val_s (take n bs)"
    using val_s_extend [of "take n bs" "length bs - n"] by simp
  then show ?thesis using take_extend [of n bs s] assms(4) by simp
qed

lemma val_u_take_zeros:
  assumes "\<And>j. n \<le> j \<Longrightarrow> j < length bs \<Longrightarrow> bs ! j = V0"
  shows "val_u (take n bs) = val_u bs"
  using take_extend [of n bs V0, OF assms] val_u_extend [of V0 "take n bs" "length bs - n"] by simp

lemma trim_signed_vint:
  assumes "\<not> has_len v" "has_sign v" "\<not> vlen v < 2"
  shows "vint (trim_vnum v) = vint v"
proof -
  let ?bs = "vbits v" and ?t = "scan_down (vbits v) (vbits v ! (vlen v - 1)) (vlen v - 1)"
  let ?s = "?bs ! (vlen v - 1)"
  let ?n = "(if ?bs ! ?t \<noteq> ?s then ?t + 1 else ?t) + 1"
  have above: "?bs ! j = ?s" if "?t < j" "j < vlen v" for j
    using scan_down_above [of ?bs ?s "vlen v - 1" j] that by simp
  have t: "?t \<le> vlen v - 1" by (rule scan_down_le)
  have n: "?n \<le> vlen v"
  proof (cases "?t = vlen v - 1")
    case True
    then show ?thesis using assms(3) by auto
  qed (use t assms(3) in auto)
  have "val_s (take ?n ?bs) = val_s ?bs"
  proof (rule val_s_take_extended [where s = ?s])
    show "?bs ! (?n - 1) = ?s"
      using above [of "?t + 1"] n by (simp split: if_splits)
    show "?bs ! j = ?s" if "?n \<le> j" "j < vlen v" for j
      using above [of j] that by (auto split: if_splits)
  qed (use n in auto)
  then show ?thesis using assms
    by (auto simp: trim_vnum_def vint_def mk_verinum_def Let_def split: if_splits)
qed

lemma trim_unsigned_vint:
  assumes "\<not> has_len v" "\<not> has_sign v" "\<not> vlen v < 2"
  shows "vint (trim_vnum v) = vint v"
proof -
  let ?bs = "vbits v" and ?t = "scan_down (vbits v) V0 (vlen v - 1)"
  have above: "?bs ! j = V0" if "?t < j" "j < vlen v" for j
    using scan_down_above [of ?bs V0 "vlen v - 1" j] that by simp
  have "val_u (take (if ?bs ! ?t = V0 then ?t + 1 else ?t + 2) ?bs) = val_u ?bs"
    by (rule val_u_take_zeros) (use above in \<open>auto split: if_splits\<close>)
  then show ?thesis using assms
    by (auto simp: trim_vnum_def vint_def mk_verinum_def Let_def split: if_splits)
qed

lemma trim_vnum_vint [simp]: "vint (trim_vnum v) = vint v"
  using trim_signed_vint [of v] trim_unsigned_vint [of v]
  by (cases "has_len v \<or> vlen v < 2") (auto simp: trim_vnum_def)

lemma pad_numeric_vint:
  assumes "is_defined v" "vbits v \<noteq> []"
  shows "vint (pad_numeric v width) = vint v"
proof -
  have "last (vbits v) = V0 \<or> last (vbits v) = V1"
    using assms by (simp add: is_defined_iff all_defined_last)
  then have "pad_bit v = (if has_sign v then last (vbits v) else V0)"
    by (auto simp: pad_bit_def Let_def)
  then show ?thesis using assms(2)
    by (simp add: pad_numeric_def vint_def mk_verinum_def val_s_extend val_u_extend)
qed

lemma verinum_resize_vint:
  assumes "verinum_resize v n = Inr r" "vlen v \<le> n"
  shows "vint r = vint v"
proof (cases "vlen v = n")
  case False
  then show ?thesis using assms val_s_extend [of "vbits v" "n - vlen v"]
    by (auto simp: verinum_resize_def vint_def mk_verinum_def Let_def val_u_extend last_conv_nth
        split: if_splits)
qed (use assms in \<open>auto simp: verinum_resize_def vint_def mk_verinum_def Let_def\<close>)

section \<open>Numbers from integers\<close>

lemma sint_bits_length [simp]: "length (sint_bits n i) = n"
  by (induction n arbitrary: i) auto

lemma sint_bits_val: "val_u (sint_bits n i) = i mod 2 ^ n"
proof (induction n arbitrary: i)
  case (Suc n)
  have "i mod 2 ^ Suc n = i mod 2 + 2 * (i div 2 mod 2 ^ n)"
    by (simp add: mod_mult2_eq' [symmetric] mult.commute zmod_zmult2_eq)
  then show ?case by (simp add: Suc and_one_eq drop_bit_eq_div mod2_eq_if)
qed simp

lemma sint_bits_defined: "all_defined (sint_bits n i)"
  by (induction n arbitrary: i) auto

lemma uint_bits_sint: "uint_bits n k = sint_bits n (int k)"
proof (induction n arbitrary: k)
  case (Suc n)
  then show ?case by (simp add: and_one_eq drop_bit_eq_div even_iff_mod_2_eq_zero [symmetric] zdiv_int)
qed simp

lemma halvings_bound: "\<bar>t\<bar> < 2 ^ halvings t"
proof (induction t rule: halvings.induct)
  case (1 t)
  show ?case
  proof (cases "t = 0")
    case False
    then have "\<bar>sgn t * (\<bar>t\<bar> div 2)\<bar> = \<bar>t\<bar> div 2" by (auto simp: abs_mult)
    then have "\<bar>t\<bar> div 2 < 2 ^ halvings (sgn t * (\<bar>t\<bar> div 2))" using 1 False by simp
    moreover have "halvings t = Suc (halvings (sgn t * (\<bar>t\<bar> div 2)))"
      using False by (subst halvings.simps) simp
    ultimately show ?thesis by simp
  qed (simp add: halvings.simps)
qed

lemma verinum_of_int64_vint: "vint (verinum_of_int64 i) = i"
proof -
  define t where "t = (if i < 0 then sgn (i + 1) * (\<bar>i + 1\<bar> div 2) else i div 2)"
  have "\<bar>t\<bar> < 2 ^ halvings t" by (rule halvings_bound)
  moreover have "\<bar>t\<bar> = (if i < 0 then \<bar>i + 1\<bar> div 2 else i div 2)"
    by (auto simp: t_def abs_mult)
  ultimately have r: "- (2 * 2 ^ halvings t) \<le> i" "i < 2 * 2 ^ halvings t"
    by (auto split: if_splits)
  have "val_s (sint_bits (2 + halvings t) i) = i"
    by (rule val_s_eqI) (use r in \<open>simp_all add: sint_bits_val del: sint_bits.simps\<close>,
        simp flip: length_0_conv del: sint_bits.simps)
  then show ?thesis
    by (simp add: verinum_of_int64_def vint_def mk_verinum_def t_def Let_def del: sint_bits.simps)
qed

section \<open>The bit operators\<close>

text \<open>The truth values a bit may stand for, and the bit that describes a set of them.\<close>

definition completions :: "V \<Rightarrow> bool set" where
  "completions b = (if b = V0 then {False} else if b = V1 then {True} else {True, False})"

definition describe :: "bool set \<Rightarrow> V" where
  "describe S = (if S = {False} then V0 else if S = {True} then V1 else Vx)"

text \<open>
  C5. The four-valued operators of the number type are the exact lifting of the Boolean ones: the
  result is 0 or 1 if and only if every way of replacing the x and z bits of the operands by 0 or 1
  gives that same result, and x otherwise.
\<close>

theorem bit_operators_exact:
  "V_not a = describe (Not ` completions a) \<and>
   V_and a b = describe ((\<lambda>(x, y). x \<and> y) ` (completions a \<times> completions b)) \<and>
   V_or a b = describe ((\<lambda>(x, y). x \<or> y) ` (completions a \<times> completions b)) \<and>
   V_xor a b = describe ((\<lambda>(x, y). x \<noteq> y) ` (completions a \<times> completions b))"
proof -
  have "V_not a = describe (Not ` completions a)"
    by (cases a) (auto simp: completions_def describe_def)
  moreover have "V_and a b = describe ((\<lambda>(x, y). x \<and> y) ` (completions a \<times> completions b))"
    by (cases a; cases b) (auto simp: completions_def describe_def V_and_def)
  moreover have "V_or a b = describe ((\<lambda>(x, y). x \<or> y) ` (completions a \<times> completions b))"
    by (cases a; cases b) (auto simp: completions_def describe_def V_or_def)
  moreover have "V_xor a b = describe ((\<lambda>(x, y). x \<noteq> y) ` (completions a \<times> completions b))"
    by (cases a; cases b)
      (auto simp: completions_def describe_def V_xor_def bit4_z2x_def less_V_def)
  ultimately show ?thesis by blast
qed

text \<open>
  Changing the width of a defined number does not change the integer it stands for: trimming,
  padding by the bit that \<open>pad_to_width\<close> chooses, and the resizing copy constructor to a width that
  is not smaller; and the constructor from a native integer stands for that integer.
\<close>

theorem width_changes_keep_value:
  assumes "is_defined v" "vbits v \<noteq> []" "verinum_resize v n = Inr r" "vlen v \<le> n"
  shows "vint (trim_vnum v) = vint v \<and> vint (pad_numeric v w) = vint v \<and> vint r = vint v \<and>
    vint (verinum_of_int64 i) = i"
  using pad_numeric_vint [OF assms(1,2)] verinum_resize_vint [OF assms(3,4)]
  by (simp add: verinum_of_int64_vint)

theorem width_changes_keep_value_witness:
  "vint (mk_verinum [V1, V0, V1, V1, V1] True True False) = - 3 \<and>
   vint (verinum_of_int64 (- 3)) = - 3"
  using width_changes_keep_value [of "mk_verinum [V1, V0, V1] True True False" 5
      "mk_verinum [V1, V0, V1, V1, V1] True True False" 9 "- 3"]
  by (simp add: mk_verinum_def is_defined_def verinum_resize_def vint_def val_s_def
      numeral_2_eq_2)

end
