(* ===== verification/VerinumArith.thy ===== *)
theory VerinumArith
  imports Verinum
begin

text \<open>
  The operators of \<open>verinum.cc\<close> that need no division: comparison, complement, addition,
  subtraction, multiplication, power, shifts, and the concatenation of numbers. The operators
  extend the shorter operand by a pad bit as they go; reading a pad from a number without bits
  fails its assertion.
\<close>

section \<open>Comparison\<close>

text \<open>The two pad bits: sign bits when both operands are signed, else zeros.\<close>

definition pads :: "verinum \<Rightarrow> verinum \<Rightarrow> (V \<times> V) result" where
  "pads left right =
     (if has_sign left \<and> has_sign right then
        bind_result (top_bit left) (\<lambda>lp. bind_result (top_bit right) (\<lambda>rp. Inr (lp, rp)))
      else Inr (V0, V0))"

definition bit_at :: "verinum \<Rightarrow> V \<Rightarrow> nat \<Rightarrow> V" where
  "bit_at v pad idx = (if idx < vlen v then vbits v ! idx else pad)"

definition verinum_eq :: "verinum \<Rightarrow> verinum \<Rightarrow> V result" where
  "verinum_eq left right = bind_result (pads left right) (\<lambda>(left_pad, right_pad).
     if left_pad = V1 \<and> right_pad = V0 then Inr V0
     else if left_pad = V0 \<and> right_pad = V1 then Inr V0
     else
       (let max_len = (if vlen right > vlen left then vlen right else vlen left)
        in if list_all (\<lambda>idx. bit_at left left_pad idx = bit_at right right_pad idx) [0..<max_len]
           then Inr V1 else Inr V0))"

text \<open>The last loop of \<open><=\<close> and \<open><\<close>: bits from the top down, an answer for equal numbers.\<close>

fun compare_down :: "(V \<times> V) list \<Rightarrow> V \<Rightarrow> V" where
  "compare_down [] same = same"
| "compare_down ((l, r) # ps) same =
     (if l = Vx then Vx else if l = Vz then Vx
      else if r = Vx then Vx else if r = Vz then Vx
      else if r < l then V0 else if l < r then V1
      else compare_down ps same)"

definition verinum_order :: "V \<Rightarrow> verinum \<Rightarrow> verinum \<Rightarrow> V result" where
  "verinum_order same left right = bind_result (pads left right) (\<lambda>(left_pad, right_pad).
     let signed_calc = has_sign left \<and> has_sign right in
     if signed_calc \<and> left_pad = V1 \<and> right_pad = V0 then Inr V1
     else if signed_calc \<and> left_pad = V0 \<and> right_pad = V1 then Inr V0
     else if list_ex (\<lambda>b. b \<noteq> right_pad) (drop (vlen right) (vbits left)) then
       Inr (if signed_calc \<and> left_pad = V1 then V1 else V0)
     else if list_ex (\<lambda>b. b \<noteq> left_pad) (drop (vlen left) (vbits right)) then
       Inr (if signed_calc \<and> right_pad = V1 then V0 else V1)
     else Inr (compare_down (rev (zip (vbits left) (vbits right))) same))"

definition verinum_le :: "verinum \<Rightarrow> verinum \<Rightarrow> V result" where
  "verinum_le = verinum_order V1"

definition verinum_lt :: "verinum \<Rightarrow> verinum \<Rightarrow> V result" where
  "verinum_lt = verinum_order V0"

section \<open>Complement, sum and difference\<close>

definition v_not :: "verinum \<Rightarrow> verinum" where
  "v_not left = left\<lparr>vbits := map V_not (vbits left)\<rparr>"

text \<open>The bits of a sum and the carry out of it.\<close>

fun ripple :: "V list \<Rightarrow> V list \<Rightarrow> V \<Rightarrow> V list \<times> V" where
  "ripple (l # ls) (r # rs) carry =
     (let (s, carry) = add_with_carry l r carry;
          (ss, carry) = ripple ls rs carry
      in (s # ss, carry))"
| "ripple _ _ carry = ([], carry)"

definition padded :: "verinum \<Rightarrow> V \<Rightarrow> nat \<Rightarrow> V list" where
  "padded v pad n = map (bit_at v pad) [0..<n]"

definition verinum_add :: "verinum \<Rightarrow> verinum \<Rightarrow> verinum result" where
  "verinum_add left right = bind_result (pads left right) (\<lambda>(lpad, rpad).
     let top = (if vlen right > vlen left then vlen right else vlen left);
         signed_flag = has_sign left \<and> has_sign right;
         (val_bits, carry) = ripple (padded left lpad top) (padded right rpad top) V0;
         (last_bit, carry) = add_with_carry lpad rpad carry
     in Inr (mk_verinum (val_bits @ [last_bit]) False signed_flag False))"

definition verinum_sub :: "verinum \<Rightarrow> verinum \<Rightarrow> verinum result" where
  "verinum_sub left right = bind_result (pads left right) (\<lambda>(lpad, right_pad).
     let top = (if vlen right > vlen left then vlen right else vlen left);
         signed_flag = has_sign left \<and> has_sign right;
         rpad = (if signed_flag then V_not right_pad else V1);
         (val_bits, carry) =
           ripple (padded left lpad top) (map V_not (padded right (V_not rpad) top)) V1;
         (last_bit, carry) = add_with_carry lpad rpad carry
     in if signed_flag \<and> last_bit \<noteq> last val_bits
        then Inr (mk_verinum (val_bits @ [last_bit]) False signed_flag False)
        else Inr (mk_verinum val_bits False signed_flag False))"

section \<open>Product and power\<close>

text \<open>One pass of the outer loop: the left operand is added at position \<open>rdx\<close>.\<close>

definition mul_row :: "verinum \<Rightarrow> nat \<Rightarrow> V list \<Rightarrow> V list result" where
  "mul_row left rdx res = bind_result (sign_bit left) (\<lambda>l_sign.
     Inr (take rdx res @
       fst (ripple (padded left l_sign (length res - rdx)) (drop rdx res) V0)))"

definition mul_step :: "verinum \<Rightarrow> verinum \<Rightarrow> V \<Rightarrow> V list result \<Rightarrow> nat \<Rightarrow> V list result" where
  "mul_step left right r_sign res rdx = bind_result res (\<lambda>res.
     if bit_at right r_sign rdx = V0 then Inr res else mul_row left rdx res)"

definition verinum_mult :: "verinum \<Rightarrow> verinum \<Rightarrow> verinum result" where
  "verinum_mult left right =
     (let has_len_flag = has_len left \<and> has_len right;
          sgn_flag = has_sign left \<or> has_sign right;
          n = vlen left + vlen right
      in if \<not> (is_defined left \<and> is_defined right)
         then Inr (set_sign (verinum_fill Vx n has_len_flag) sgn_flag)
         else bind_result (sign_bit right) (\<lambda>r_sign.
           bind_result (foldl (mul_step left right r_sign) (Inr (replicate n V0)) [0..<n]) (\<lambda>bs.
             Inr (trim_vnum (mk_verinum bs has_len_flag sgn_flag False)))))"

definition verinum_one :: "verinum \<Rightarrow> verinum" where
  "verinum_one left =
     mk_verinum ((replicate (if vlen left < 2 then 2 else vlen left) V0)[0 := V1])
       (has_len left) (has_sign left) False"

definition verinum_m_one :: "verinum \<Rightarrow> verinum" where
  "verinum_m_one left = mk_verinum (replicate (vlen left) V1) (has_len left) True False"

definition pow_start :: "verinum \<Rightarrow> verinum \<Rightarrow> int \<Rightarrow> verinum result" where
  "pow_start left right pow_count =
     (let fill = (\<lambda>b. set_sign (verinum_fill b (vlen left) (has_len left)) (has_sign left))
      in if \<not> is_defined right \<or> \<not> is_defined left then Inr (fill Vx)
         else if pow_count = 0 then Inr (verinum_one left)
         else if pow_count < 0 then
           (if is_zero left then Inr (fill Vx)
            else bind_result (verinum_eq left (verinum_one left)) (\<lambda>is_one.
              if is_one \<noteq> V0 then Inr (verinum_one left)
              else if \<not> has_sign left then Inr (fill V0)
              else bind_result (verinum_eq left (verinum_m_one left)) (\<lambda>is_m_one.
                if is_m_one \<noteq> V0 then
                  Inr (if even pow_count then verinum_one left else verinum_m_one left)
                else Inr (fill V0))))
         else Inr left)"

definition verinum_pow :: "verinum \<Rightarrow> verinum \<Rightarrow> verinum result" where
  "verinum_pow left right =
     (let pow_count = as_long right
      in ((\<lambda>result. bind_result result (\<lambda>r. verinum_mult r left)) ^^ nat (pow_count - 1))
           (pow_start left right pow_count))"

section \<open>Shifts and concatenation\<close>

definition verinum_shl :: "verinum \<Rightarrow> nat \<Rightarrow> verinum" where
  "verinum_shl that shift = mk_verinum (replicate shift V0 @ vbits that) (has_len that) False False"

definition verinum_shr :: "verinum \<Rightarrow> nat \<Rightarrow> verinum result" where
  "verinum_shr that shift =
     (if shift \<ge> vlen that then
        (if has_sign that then
           bind_result (top_bit that) (\<lambda>b. Inr (mk_verinum [b] True True False))
         else Inr (mk_verinum [V0] True False False))
      else Inr (mk_verinum (drop shift (vbits that)) (has_len that) False False))"

definition concat_bits :: "verinum \<Rightarrow> verinum \<Rightarrow> verinum" where
  "concat_bits left right = mk_verinum (vbits right @ vbits left) True False False"

section \<open>Values of padded operands\<close>

text \<open>The integer an operand stands for in a calculation of the given signedness.\<close>

definition operand :: "bool \<Rightarrow> verinum \<Rightarrow> int" where
  "operand sg v = (if sg then val_s (vbits v) else val_u (vbits v))"

lemma operand_has_sign: "operand (has_sign v) v = vint v"
  by (simp add: operand_def vint_def)

lemma operand_False: "\<not> has_sign v \<Longrightarrow> operand False v = vint v"
  by (simp add: operand_def vint_def)

lemma operand_mod: "operand sg v mod 2 ^ vlen v = val_u (vbits v)"
  by (simp add: operand_def val_s_mod mod_pos_pos_trivial val_u_less)

definition pad_of :: "bool \<Rightarrow> verinum \<Rightarrow> V" where
  "pad_of sg v = (if sg then last (vbits v) else V0)"

lemma padded_append:
  "padded v pad n = take n (vbits v) @ replicate (n - vlen v) pad"
  by (rule nth_equalityI) (auto simp: padded_def bit_at_def nth_append)

lemma padded_length [simp]: "length (padded v pad n) = n"
  by (simp add: padded_def)

lemma padded_Suc: "padded v pad (Suc n) = padded v pad n @ [bit_at v pad n]"
  by (simp add: padded_def)

lemma bit_at_beyond: "vlen v \<le> n \<Longrightarrow> bit_at v pad n = pad"
  by (simp add: bit_at_def)

definition usable :: "bool \<Rightarrow> verinum \<Rightarrow> bool" where
  "usable sg v \<longleftrightarrow> is_defined v \<and> (sg \<longrightarrow> vbits v \<noteq> [])"

lemma pad_defined: "usable sg v \<Longrightarrow> pad_of sg v = V0 \<or> pad_of sg v = V1"
  by (auto simp: usable_def pad_of_def is_defined_iff dest: all_defined_last)

lemma padded_defined: "usable sg v \<Longrightarrow> all_defined (padded v (pad_of sg v) n)"
  using pad_defined [of sg v]
  by (auto simp: padded_append usable_def is_defined_iff intro: all_defined_take)

lemma padded_val:
  assumes "usable sg v"
  shows "val_u (padded v (pad_of sg v) n) = operand sg v mod 2 ^ n"
proof (cases "n \<le> vlen v")
  case True
  have "operand sg v mod 2 ^ vlen v mod 2 ^ n = operand sg v mod 2 ^ n"
    using True by (intro mod_mod_cancel le_imp_power_dvd)
  then have "val_u (vbits v) mod 2 ^ n = operand sg v mod 2 ^ n" by (simp only: operand_mod)
  with True show ?thesis by (simp add: padded_append val_u_take)
next
  case False
  show ?thesis
  proof (cases sg)
    case True
    then have "vbits v \<noteq> []" using assms by (simp add: usable_def)
    then have "val_s (padded v (pad_of sg v) n) = val_s (vbits v)"
      using False True by (simp add: padded_append pad_of_def val_s_extend)
    with val_s_mod [of "padded v (pad_of sg v) n"] True show ?thesis
      by (simp add: operand_def)
  next
    case unsigned: False
    have "val_u (vbits v) < 2 ^ n"
      using False by (intro order_less_le_trans [OF val_u_less power_increasing]) auto
    then show ?thesis using unsigned False
      by (simp add: padded_append pad_of_def val_u_extend operand_def mod_pos_pos_trivial)
  qed
qed

lemma pads_usable:
  "usable (has_sign l \<and> has_sign r) l \<Longrightarrow> usable (has_sign l \<and> has_sign r) r \<Longrightarrow>
     pads l r = Inr (pad_of (has_sign l \<and> has_sign r) l, pad_of (has_sign l \<and> has_sign r) r)"
  by (auto simp: pads_def top_bit_def pad_of_def usable_def)

lemma pads_undefined_sign:
  "has_sign l \<Longrightarrow> has_sign r \<Longrightarrow> vbits l = [] \<or> vbits r = [] \<Longrightarrow> pads l r = Inl ''assert''"
  by (auto simp: pads_def top_bit_def)

lemma val_u_inject:
  "length xs = length ys \<Longrightarrow> all_defined xs \<Longrightarrow> all_defined ys \<Longrightarrow> val_u xs = val_u ys \<longleftrightarrow> xs = ys"
proof (induction xs ys rule: list_induct2)
  case (Cons x xs y ys)
  have "(if x = V1 then 1 else 0) + 2 * val_u xs = (if y = V1 then 1 else 0) + 2 * val_u ys
    \<longleftrightarrow> (x = V1 \<longleftrightarrow> y = V1) \<and> val_u xs = val_u ys"
    by (cases "x = V1"; cases "y = V1"; simp; presburger)
  with Cons show ?case by auto
qed simp

text \<open>An operand fits its own width; this bounds it for every wider one.\<close>

lemma operand_range:
  assumes "usable sg v" "vlen v \<le> n"
  shows "(if sg then - (2 ^ (n - 1)) else 0) \<le> operand sg v"
    and "operand sg v < (if sg then 2 ^ (n - 1) else 2 ^ n)"
proof -
  have s: "- (2 ^ (n - 1)) \<le> val_s (vbits v) \<and> val_s (vbits v) < 2 ^ (n - 1)" if "sg"
  proof -
    have ne: "vbits v \<noteq> []" using assms that by (simp add: usable_def)
    have "(2::int) ^ (vlen v - 1) \<le> 2 ^ (n - 1)" using assms(2) by (intro power_increasing) auto
    with val_s_bounds [OF ne] show ?thesis by linarith
  qed
  have u: "val_u (vbits v) < 2 ^ n"
    using assms(2) by (intro order_less_le_trans [OF val_u_less power_increasing]) auto
  show "(if sg then - (2 ^ (n - 1)) else 0) \<le> operand sg v"
    "operand sg v < (if sg then 2 ^ (n - 1) else 2 ^ n)"
    using s u by (auto simp: operand_def)
qed

section \<open>Addition and subtraction\<close>

abbreviation carry_val :: "V \<Rightarrow> int" where
  "carry_val c \<equiv> (if c = V1 then 1 else 0)"

lemma add_with_carry_val:
  assumes "l = V0 \<or> l = V1" "r = V0 \<or> r = V1" "c = V0 \<or> c = V1"
  shows "\<exists>s c'. add_with_carry l r c = (s, c') \<and> (s = V0 \<or> s = V1) \<and> (c' = V0 \<or> c' = V1) \<and>
    carry_val s + 2 * carry_val c' = carry_val l + carry_val r + carry_val c"
proof -
  have two: "Suc (Suc 0) AND 2 = 2" by (metis and.idem numeral_2_eq_2)
  have "(3::nat) AND 2 = 2" by simp
  then have three: "Suc (Suc (Suc 0)) AND 2 = 2" by (simp only: numeral_3_eq_3)
  show ?thesis using assms by (elim disjE) (simp_all add: add_with_carry_def two three)
qed

lemma ripple_length:
  "length ls = length rs \<Longrightarrow> length (fst (ripple ls rs c)) = length rs"
  by (induction ls rs c rule: ripple.induct) (auto simp: Let_def split: prod.splits)

lemma ripple_snoc:
  "length ls = length rs \<Longrightarrow> ripple (ls @ [l]) (rs @ [r]) c =
     (let (ss, c) = ripple ls rs c; (s, c) = add_with_carry l r c in (ss @ [s], c))"
  by (induction ls rs arbitrary: c rule: list_induct2) (auto simp: Let_def split: prod.splits)

lemma ripple_val:
  assumes "length ls = length rs" "all_defined ls" "all_defined rs" "c = V0 \<or> c = V1"
  shows "\<exists>ss c'. ripple ls rs c = (ss, c') \<and> length ss = length rs \<and> all_defined ss \<and>
    (c' = V0 \<or> c' = V1) \<and>
    val_u ss + 2 ^ length rs * carry_val c' = val_u ls + val_u rs + carry_val c"
  using assms
proof (induction ls rs arbitrary: c rule: list_induct2)
  case (Cons l ls r rs)
  obtain s c1 where s: "add_with_carry l r c = (s, c1)" "s = V0 \<or> s = V1" "c1 = V0 \<or> c1 = V1"
    "carry_val s + 2 * carry_val c1 = carry_val l + carry_val r + carry_val c"
    using add_with_carry_val [of l r c] Cons.prems by auto
  obtain ss c2 where ss: "ripple ls rs c1 = (ss, c2)" "length ss = length rs" "all_defined ss"
    "c2 = V0 \<or> c2 = V1" "val_u ss + 2 ^ length rs * carry_val c2 = val_u ls + val_u rs + carry_val c1"
    using Cons.IH [of c1] Cons.prems s(3) by auto
  have "val_u (s # ss) + 2 ^ length (r # rs) * carry_val c2 =
    carry_val s + 2 * (val_u ss + 2 ^ length rs * carry_val c2)"
    by (simp only: val_u.simps list.size) (simp add: algebra_simps)
  also have "\<dots> = val_u (l # ls) + val_u (r # rs) + carry_val c"
    unfolding ss(5) using s(4) by (simp only: val_u.simps) (simp only: distrib_left)
  finally show ?case using s ss by (simp add: Let_def del: val_u.simps)
qed simp

lemma ripple_mod:
  assumes "length ls = length rs" "all_defined ls" "all_defined rs" "c = V0 \<or> c = V1"
    and "ripple ls rs c = (ss, c')"
  shows "length ss = length rs \<and> all_defined ss \<and> (c' = V0 \<or> c' = V1) \<and>
    val_u ss = (val_u ls + val_u rs + carry_val c) mod 2 ^ length rs"
proof -
  have *: "length ss = length rs" "all_defined ss" "c' = V0 \<or> c' = V1"
    "val_u ss + 2 ^ length rs * carry_val c' = val_u ls + val_u rs + carry_val c"
    using ripple_val [OF assms(1-4)] assms(5) by auto
  have "(val_u ss + 2 ^ length rs * carry_val c') mod 2 ^ length rs = val_u ss"
    using val_u_less [of ss] *(1) by (simp add: mod_pos_pos_trivial)
  then have "val_u ss = (val_u ls + val_u rs + carry_val c) mod 2 ^ length rs"
    by (simp only: *(4))
  with * show ?thesis by simp
qed

text \<open>Two bit lists of operands, added with a carry, hold the sum modulo their width.\<close>

lemma padded_ripple:
  assumes "usable sg l" "usable sg r"
    and "ripple (padded l (pad_of sg l) n) (padded r (pad_of sg r) n) V0 = (ss, c)"
  shows "length ss = n \<and> all_defined ss \<and> (c = V0 \<or> c = V1) \<and>
    val_u ss = (operand sg l + operand sg r) mod 2 ^ n"
  using ripple_mod [OF _ padded_defined [OF assms(1)] padded_defined [OF assms(2)] _ assms(3)]
  by (simp add: padded_val assms(1,2) mod_add_eq)

lemma map_V_not_val: "all_defined bs \<Longrightarrow> val_u (map V_not bs) = 2 ^ length bs - 1 - val_u bs"
  by (induction bs) (auto simp: algebra_simps)

lemma map_V_not_defined: "all_defined bs \<Longrightarrow> all_defined (map V_not bs)"
  by (induction bs) auto

lemma padded_ripple_sub:
  assumes "usable sg l" "usable sg r"
    and "ripple (padded l (pad_of sg l) n) (map V_not (padded r (pad_of sg r) n)) V1 = (ss, c)"
  shows "length ss = n \<and> all_defined ss \<and> (c = V0 \<or> c = V1) \<and>
    val_u ss = (operand sg l - operand sg r) mod 2 ^ n"
proof -
  have "val_u ss = (operand sg l mod 2 ^ n + (2 ^ n - 1 - operand sg r mod 2 ^ n) + 1) mod 2 ^ n"
    using ripple_mod [OF _ padded_defined [OF assms(1)] map_V_not_defined _ assms(3)] assms(1,2)
    by (simp add: padded_val padded_defined map_V_not_val)
  also have "\<dots> = (operand sg l mod 2 ^ n - operand sg r mod 2 ^ n + 2 ^ n) mod 2 ^ n"
    by (simp add: algebra_simps)
  also have "\<dots> = (operand sg l - operand sg r) mod 2 ^ n"
    by (simp only: mod_add_self2 mod_diff_eq)
  finally show ?thesis
    using ripple_mod [OF _ padded_defined [OF assms(1)] map_V_not_defined _ assms(3)] assms(1,2)
    by (simp add: padded_defined)
qed

definition top_len :: "verinum \<Rightarrow> verinum \<Rightarrow> nat" where
  "top_len l r = (if vlen r > vlen l then vlen r else vlen l)"

lemma top_len_ge: "vlen l \<le> top_len l r" "vlen r \<le> top_len l r"
  by (auto simp: top_len_def)

text \<open>The sum needs one bit more than the longer operand and never overflows.\<close>

lemma add_exact:
  assumes sg: "sg \<longleftrightarrow> has_sign l \<and> has_sign r" and l: "usable sg l" and r: "usable sg r"
  shows "\<exists>v. verinum_add l r = Inr v \<and> is_defined v \<and> vlen v = Suc (top_len l r) \<and>
    has_sign v = sg \<and> \<not> has_len v \<and> vint v = operand sg l + operand sg r"
proof -
  let ?n = "top_len l r"
  let ?p = "\<lambda>n. ripple (padded l (pad_of sg l) n) (padded r (pad_of sg r) n) V0"
  obtain ss c where ss: "?p ?n = (ss, c)" by force
  obtain b c' where b: "add_with_carry (pad_of sg l) (pad_of sg r) c = (b, c')" by force
  have full: "?p (Suc ?n) = (ss @ [b], c')"
    using ss b by (simp add: padded_Suc ripple_snoc bit_at_beyond top_len_ge)
  note v = padded_ripple [OF l r full]
  let ?s = "operand sg l + operand sg r"
  note range = operand_range [OF l top_len_ge(1) [of l r]] operand_range [OF r top_len_ge(2) [of r l]]
  have "vint (mk_verinum (ss @ [b]) False sg False) = ?s"
  proof (cases sg)
    case True
    then have ne: "0 < ?n" using l top_len_ge(1) [of l r] by (cases "vbits l") (auto simp: usable_def)
    then have "(2::int) ^ ?n = 2 * 2 ^ (?n - 1)" by (cases ?n) auto
    with range True have "- (2 ^ ?n) \<le> ?s" "?s < 2 ^ ?n" by simp_all
    then have "val_s (ss @ [b]) = ?s" by (intro val_s_eqI) (use v in simp_all)
    then show ?thesis using True by (simp add: vint_def mk_verinum_def)
  next
    case False
    then have "0 \<le> ?s" "?s < 2 ^ Suc ?n" using range by simp_all
    then show ?thesis using v False by (simp add: vint_def mk_verinum_def mod_pos_pos_trivial)
  qed
  moreover have "verinum_add l r = Inr (mk_verinum (ss @ [b]) False sg False)"
    using sg l r ss b by (simp add: verinum_add_def pads_usable top_len_def Let_def)
  ultimately show ?thesis using v by (simp add: mk_verinum_def is_defined_iff)
qed

lemma V_not_not_pad: "usable sg v \<Longrightarrow> V_not (V_not (pad_of sg v)) = pad_of sg v"
  using pad_defined [of sg v] by auto

text \<open>A difference of signed operands is exact; of unsigned ones it wraps at the longer width.\<close>

lemma sub_signed:
  assumes "has_sign l" "has_sign r" and l: "usable True l" and r: "usable True r"
  shows "\<exists>v. verinum_sub l r = Inr v \<and> is_defined v \<and> vbits v \<noteq> [] \<and> has_sign v \<and> \<not> has_len v \<and>
    top_len l r \<le> vlen v \<and> vint v = vint l - vint r"
proof -
  let ?n = "top_len l r"
  let ?p = "\<lambda>n. ripple (padded l (pad_of True l) n) (map V_not (padded r (pad_of True r) n)) V1"
  obtain ss c where ss: "?p ?n = (ss, c)" by force
  obtain b c' where b: "add_with_carry (pad_of True l) (V_not (pad_of True r)) c = (b, c')" by force
  have full: "?p (Suc ?n) = (ss @ [b], c')"
    using ss b by (simp add: padded_Suc ripple_snoc bit_at_beyond top_len_ge)
  note v = padded_ripple_sub [OF l r full]
  have v0: "length ss = ?n" using padded_ripple_sub [OF l r ss] by simp
  let ?d = "operand True l - operand True r"
  note range = operand_range [OF l top_len_ge(1) [of l r]] operand_range [OF r top_len_ge(2) [of r l]]
  have ne: "0 < ?n" using l top_len_ge(1) [of l r] by (cases "vbits l") (auto simp: usable_def)
  then have "(2::int) ^ ?n = 2 * 2 ^ (?n - 1)" by (cases ?n) auto
  with range have "- (2 ^ ?n) \<le> ?d" "?d < 2 ^ ?n" by simp_all
  then have exact: "val_s (ss @ [b]) = ?d" by (intro val_s_eqI) (use v in simp_all)
  have "ss \<noteq> []" using v0 ne by auto
  then have short: "val_s ss = ?d" if "b = last ss"
    using exact val_s_extend [of ss 1] that by simp
  have "verinum_sub l r =
    Inr (mk_verinum (if b \<noteq> last ss then ss @ [b] else ss) False True False)"
    using assms ss b
    by (simp add: verinum_sub_def pads_usable top_len_def Let_def V_not_not_pad)
  moreover have "vint l - vint r = ?d" using assms(1,2) by (simp add: operand_def vint_def)
  ultimately show ?thesis
    using v v0 short exact \<open>ss \<noteq> []\<close> by (simp add: mk_verinum_def is_defined_iff vint_def)
qed

lemma sub_unsigned:
  assumes "\<not> (has_sign l \<and> has_sign r)" and l: "is_defined l" and r: "is_defined r"
  shows "\<exists>v. verinum_sub l r = Inr v \<and> is_defined v \<and> vlen v = top_len l r \<and> \<not> has_sign v \<and>
    \<not> has_len v \<and>
    val_u (vbits v) = (val_u (vbits l) - val_u (vbits r)) mod 2 ^ top_len l r"
proof -
  let ?n = "top_len l r"
  have u: "usable False l" "usable False r" using l r by (simp_all add: usable_def)
  obtain ss c where ss:
    "ripple (padded l (pad_of False l) ?n) (map V_not (padded r (pad_of False r) ?n)) V1 = (ss, c)"
    by force
  have "verinum_sub l r = Inr (mk_verinum ss False False False)"
    using assms(1) ss u by (auto simp: verinum_sub_def pads_usable top_len_def Let_def pad_of_def
        pads_def split: prod.splits)
  then show ?thesis
    using padded_ripple_sub [OF u ss] by (simp add: mk_verinum_def is_defined_iff operand_def)
qed

lemma v_not_value:
  assumes "is_defined v" "vbits v \<noteq> []"
  shows "is_defined (v_not v) \<and> vint (v_not v) =
    (if has_sign v then - 1 - vint v else 2 ^ vlen v - 1 - vint v)"
proof -
  let ?bs = "vbits v"
  have d: "all_defined ?bs" using assms(1) by (simp add: is_defined_iff)
  have "last ?bs = V0 \<or> last ?bs = V1" using all_defined_last [OF d assms(2)] .
  then have "val_s (map V_not ?bs) = - 1 - val_s ?bs"
    using assms(2) by (auto simp: val_s_def last_map map_V_not_val [OF d])
  then show ?thesis
    by (simp add: v_not_def is_defined_iff map_V_not_defined [OF d] vint_def map_V_not_val [OF d])
qed

section \<open>Comparison of integers\<close>

text \<open>A pad bit is the sign of its operand.\<close>

lemma operand_padded:
  assumes "usable sg v" "vlen v \<le> n"
  shows "operand sg v =
    val_u (padded v (pad_of sg v) n) - (if pad_of sg v = V1 then 2 ^ n else 0)"
proof (cases sg)
  case True
  then have ne: "vbits v \<noteq> []" using assms(1) by (simp add: usable_def)
  then have "val_s (padded v (pad_of sg v) n) = val_s (vbits v)"
    using True assms(2) by (simp add: padded_append pad_of_def val_s_extend)
  moreover have "last (padded v (pad_of sg v) n) = pad_of sg v" "padded v (pad_of sg v) n \<noteq> []"
    using True assms(2) ne by (cases "n - vlen v"; simp add: padded_append pad_of_def)+
  ultimately show ?thesis using True
    by (simp add: operand_def val_s_def [of "padded v (pad_of True v) n"] flip: \<open>_ = val_s (vbits v)\<close>)
next
  case False
  then show ?thesis using assms(2)
    by (simp add: padded_append pad_of_def operand_def val_u_extend)
qed

lemma operand_order:
  assumes l: "usable sg l" "vlen l \<le> n" and r: "usable sg r" "vlen r \<le> n"
  shows "pad_of sg l = pad_of sg r \<Longrightarrow>
      operand sg l < operand sg r \<longleftrightarrow>
        val_u (padded l (pad_of sg l) n) < val_u (padded r (pad_of sg r) n)"
    and "pad_of sg l = V1 \<Longrightarrow> pad_of sg r = V0 \<Longrightarrow> operand sg l < operand sg r"
proof -
  show "pad_of sg l = pad_of sg r \<Longrightarrow> operand sg l < operand sg r \<longleftrightarrow>
      val_u (padded l (pad_of sg l) n) < val_u (padded r (pad_of sg r) n)"
    by (simp add: operand_padded [OF l] operand_padded [OF r])
  assume "pad_of sg l = V1" "pad_of sg r = V0"
  then have "operand sg l < 0" "0 \<le> operand sg r"
    using val_u_less [of "padded l (pad_of sg l) n"]
    by (simp_all add: operand_padded [OF l] operand_padded [OF r])
  then show "operand sg l < operand sg r" by simp
qed

lemma eq_iff_operands:
  assumes sg: "sg \<longleftrightarrow> has_sign l \<and> has_sign r" and l: "usable sg l" and r: "usable sg r"
  shows "verinum_eq l r = Inr (if operand sg l = operand sg r then V1 else V0)"
proof -
  let ?n = "top_len l r" and ?lp = "pad_of sg l" and ?rp = "pad_of sg r"
  note lo = operand_order [OF l top_len_ge(1) [of l r] r top_len_ge(2) [of r l]]
  note ro = operand_order [OF r top_len_ge(2) [of r l] l top_len_ge(1) [of l r]]
  have run: "verinum_eq l r = (if ?lp = V1 \<and> ?rp = V0 then Inr V0 else if ?lp = V0 \<and> ?rp = V1
    then Inr V0 else Inr (if padded l ?lp ?n = padded r ?rp ?n then V1 else V0))"
    using sg l r by (simp add: verinum_eq_def pads_usable top_len_def padded_def list_all_iff)
  show ?thesis
  proof (cases "?lp = ?rp")
    case True
    have "padded l ?lp ?n = padded r ?rp ?n \<longleftrightarrow>
        val_u (padded l ?lp ?n) = val_u (padded r ?rp ?n)"
      by (rule val_u_inject [symmetric]) (simp_all add: l r padded_defined)
    also have "\<dots> \<longleftrightarrow> operand sg l = operand sg r"
      using lo(1) ro(1) True by (simp add: linorder_neq_iff) linarith
    finally show ?thesis using run True by simp
  next
    case False
    then show ?thesis
      using run lo(2) ro(2) pad_defined [OF l] pad_defined [OF r] by auto
  qed
qed

lemma all_defined_rev [simp]: "all_defined (rev bs) = all_defined bs"
  by (simp add: all_defined_def)

lemma compare_down_append:
  "all_defined (map fst ps) \<Longrightarrow> all_defined (map snd ps) \<Longrightarrow>
     compare_down (ps @ qs) same = compare_down ps (compare_down qs same)"
  by (induction ps) (auto simp: less_V_def)

lemma compare_down_val:
  assumes "length ls = length rs" "all_defined ls" "all_defined rs"
  shows "compare_down (rev (zip ls rs)) same =
    (if val_u ls < val_u rs then V1 else if val_u rs < val_u ls then V0 else same)"
  using assms
proof (induction ls rs arbitrary: same rule: list_induct2)
  case (Cons l ls r rs)
  then have d: "all_defined (map fst (rev (zip ls rs)))" "all_defined (map snd (rev (zip ls rs)))"
    by (simp_all add: rev_map [symmetric] all_defined_def)
  have "compare_down (rev (zip (l # ls) (r # rs))) same =
    compare_down (rev (zip ls rs)) (compare_down [(l, r)] same)"
    by (simp add: compare_down_append [OF d])
  also have "\<dots> = (if val_u ls < val_u rs then V1 else if val_u rs < val_u ls then V0
    else compare_down [(l, r)] same)"
    using Cons by simp
  also have "\<dots> = (if val_u (l # ls) < val_u (r # rs) then V1
    else if val_u (r # rs) < val_u (l # ls) then V0 else same)"
    using Cons.prems by (auto simp: less_V_def)
  finally show ?case .
qed simp

text \<open>The bits of the longer operand above the shorter one, against its pad.\<close>

lemma compare_pad_left:
  assumes "all_defined hi" "p = V0 \<or> p = V1"
  shows "compare_down (rev (zip hi (replicate (length hi) p))) same =
    (if list_ex (\<lambda>b. b \<noteq> p) hi then (if p = V1 then V1 else V0) else same)"
  using assms
proof (induction hi arbitrary: same)
  case (Cons b hi)
  then have d: "all_defined (map fst (rev (zip hi (replicate (length hi) p))))"
      "all_defined (map snd (rev (zip hi (replicate (length hi) p))))"
    by (auto simp: rev_map [symmetric])
  show ?case using Cons by (auto simp: compare_down_append [OF d] less_V_def)
qed simp

lemma compare_pad_right:
  assumes "all_defined hi" "p = V0 \<or> p = V1"
  shows "compare_down (rev (zip (replicate (length hi) p) hi)) same =
    (if list_ex (\<lambda>b. b \<noteq> p) hi then (if p = V1 then V0 else V1) else same)"
  using assms
proof (induction hi arbitrary: same)
  case (Cons b hi)
  then have d: "all_defined (map fst (rev (zip (replicate (length hi) p) hi)))"
      "all_defined (map snd (rev (zip (replicate (length hi) p) hi)))"
    by (auto simp: rev_map [symmetric])
  show ?case using Cons by (auto simp: compare_down_append [OF d] less_V_def)
qed simp

lemma compare_split_left:
  assumes "all_defined ls" "p = V0 \<or> p = V1" "length rs \<le> length ls"
  shows "compare_down (rev (zip ls (rs @ replicate (length ls - length rs) p))) same =
    (if list_ex (\<lambda>b. b \<noteq> p) (drop (length rs) ls) then (if p = V1 then V1 else V0)
     else compare_down (rev (zip ls rs)) same)"
proof -
  let ?hi = "drop (length rs) ls"
  have d: "all_defined ?hi" using assms(1) by (auto simp: all_defined_def dest: in_set_dropD)
  have z: "zip ls (rs @ replicate (length ls - length rs) p) =
      zip ls rs @ zip ?hi (replicate (length ?hi) p)"
    using zip_append2 [of ls rs "[]"] by (simp add: zip_append2)
  have "map fst (rev (zip ?hi (replicate (length ?hi) p))) = rev ?hi"
    "map snd (rev (zip ?hi (replicate (length ?hi) p))) = rev (replicate (length ?hi) p)"
    by (simp_all add: rev_map [symmetric])
  then show ?thesis
    using compare_pad_left [OF d assms(2)] d assms(2)
    by (simp only: z rev_append) (simp add: compare_down_append)
qed

lemma compare_split_right:
  assumes "all_defined rs" "p = V0 \<or> p = V1" "length ls \<le> length rs"
  shows "compare_down (rev (zip (ls @ replicate (length rs - length ls) p) rs)) same =
    (if list_ex (\<lambda>b. b \<noteq> p) (drop (length ls) rs) then (if p = V1 then V0 else V1)
     else compare_down (rev (zip ls rs)) same)"
proof -
  let ?hi = "drop (length ls) rs"
  have d: "all_defined ?hi" using assms(1) by (auto simp: all_defined_def dest: in_set_dropD)
  have z: "zip (ls @ replicate (length rs - length ls) p) rs =
      zip ls rs @ zip (replicate (length ?hi) p) ?hi"
    using zip_append1 [of ls "[]" rs] by (simp add: zip_append1)
  have "map fst (rev (zip (replicate (length ?hi) p) ?hi)) = rev (replicate (length ?hi) p)"
    "map snd (rev (zip (replicate (length ?hi) p) ?hi)) = rev ?hi"
    by (simp_all add: rev_map [symmetric])
  then show ?thesis
    using compare_pad_right [OF d assms(2)] d assms(2)
    by (simp only: z rev_append) (simp add: compare_down_append)
qed

text \<open>With equal pads the three loops compare the padded operands from the top.\<close>

lemma order_loops:
  assumes l: "usable sg l" and r: "usable sg r" and p: "pad_of sg l = p" "pad_of sg r = p"
  shows "(if list_ex (\<lambda>b. b \<noteq> p) (drop (vlen r) (vbits l)) then if p = V1 then V1 else V0
    else if list_ex (\<lambda>b. b \<noteq> p) (drop (vlen l) (vbits r)) then if p = V1 then V0 else V1
    else compare_down (rev (zip (vbits l) (vbits r))) same) =
    (if operand sg l < operand sg r then V1 else if operand sg r < operand sg l then V0 else same)"
proof -
  let ?n = "top_len l r"
  have p01: "p = V0 \<or> p = V1" using pad_defined [OF l] p by simp
  have d: "all_defined (vbits l)" "all_defined (vbits r)"
    using l r by (simp_all add: usable_def is_defined_iff)
  have "compare_down (rev (zip (padded l p ?n) (padded r p ?n))) same =
    (if operand sg l < operand sg r then V1 else if operand sg r < operand sg l then V0 else same)"
    using padded_defined [OF l, of ?n] padded_defined [OF r, of ?n] p
      operand_order(1) [OF l top_len_ge(1) [of l r] r top_len_ge(2) [of r l]]
      operand_order(1) [OF r top_len_ge(2) [of r l] l top_len_ge(1) [of l r]]
    by (simp add: compare_down_val)
  moreover have "compare_down (rev (zip (padded l p ?n) (padded r p ?n))) same =
    (if list_ex (\<lambda>b. b \<noteq> p) (drop (vlen r) (vbits l)) then if p = V1 then V1 else V0
     else if list_ex (\<lambda>b. b \<noteq> p) (drop (vlen l) (vbits r)) then if p = V1 then V0 else V1
     else compare_down (rev (zip (vbits l) (vbits r))) same)"
  proof (cases "vlen r \<le> vlen l")
    case True
    then show ?thesis using compare_split_left [OF d(1) p01, of "vbits r" same]
      by (simp add: top_len_def padded_append)
  next
    case False
    then show ?thesis using compare_split_right [OF d(2) p01, of "vbits l" same]
      by (simp add: top_len_def padded_append)
  qed
  ultimately show ?thesis by simp
qed

lemma order_iff_operands:
  assumes sg: "sg \<longleftrightarrow> has_sign l \<and> has_sign r" and l: "usable sg l" and r: "usable sg r"
  shows "verinum_order same l r = Inr
    (if operand sg l < operand sg r then V1 else if operand sg r < operand sg l then V0 else same)"
proof (cases "pad_of sg l = pad_of sg r")
  case True
  have s: "sg" if "pad_of sg r = V1" using that by (auto simp: pad_of_def split: if_splits)
  have "pad_of sg r = V0 \<or> pad_of sg r = V1" by (rule pad_defined [OF r])
  then show ?thesis
    using order_loops [OF l r True refl, of same, symmetric] sg l r True s
    by (auto simp: verinum_order_def pads_usable Let_def)
next
  case False
  then have "sg" by (auto simp: pad_of_def split: if_splits)
  moreover have "pad_of sg l = V1 \<and> pad_of sg r = V0 \<or> pad_of sg l = V0 \<and> pad_of sg r = V1"
    using False pad_defined [OF l] pad_defined [OF r] by auto
  ultimately show ?thesis
    using operand_order(2) [OF l top_len_ge(1) [of l r] r top_len_ge(2) [of r l]]
      operand_order(2) [OF r top_len_ge(2) [of r l] l top_len_ge(1) [of l r]] sg l r
    by (auto simp: verinum_order_def pads_usable Let_def)
qed

section \<open>Products\<close>

abbreviation well :: "verinum \<Rightarrow> bool" where
  "well v \<equiv> usable (has_sign v) v"

lemma sign_bit_usable: "well v \<Longrightarrow> sign_bit v = Inr (pad_of (has_sign v) v)"
  by (auto simp: sign_bit_def top_bit_def pad_of_def usable_def)

lemma mul_row_val:
  assumes l: "well l" and res: "all_defined res" and k: "k \<le> length res"
  shows "\<exists>res'. mul_row l k res = Inr res' \<and> length res' = length res \<and> all_defined res' \<and>
    val_u res' = (val_u res + 2 ^ k * vint l) mod 2 ^ length res"
proof -
  let ?n = "length res" and ?lo = "take k res" and ?hi = "drop k res"
  obtain ss c where ss: "ripple (padded l (pad_of (has_sign l) l) (?n - k)) ?hi V0 = (ss, c)"
    by force
  have hi: "all_defined ?hi" using res by (auto simp: all_defined_def dest: in_set_dropD)
  have s: "length ss = ?n - k" "all_defined ss"
    "val_u ss = (vint l mod 2 ^ (?n - k) + val_u ?hi) mod 2 ^ (?n - k)"
    using ripple_mod [OF _ padded_defined [OF l] hi _ ss]
    by (simp_all add: padded_val [OF l] operand_has_sign)
  have "2 ^ k * val_u ss = (2 ^ k * (vint l + val_u ?hi)) mod (2 ^ k * 2 ^ (?n - k))"
    by (simp only: s(3) mod_add_left_eq mult_mod_right)
  moreover have "(2::int) ^ k * 2 ^ (?n - k) = 2 ^ ?n"
    using k by (simp flip: power_add)
  ultimately have "2 ^ k * val_u ss = (2 ^ k * (vint l + val_u ?hi)) mod 2 ^ ?n" by simp
  then have "(val_u ?lo + 2 ^ k * val_u ss) mod 2 ^ ?n =
    (val_u ?lo + 2 ^ k * (vint l + val_u ?hi)) mod 2 ^ ?n"
    by (simp add: mod_add_right_eq)
  moreover have "val_u (?lo @ ss) = val_u ?lo + 2 ^ k * val_u ss"
    using k by (simp add: val_simps min_absorb2)
  moreover have "val_u (?lo @ ss) mod 2 ^ ?n = val_u (?lo @ ss)"
    using val_u_less [of "?lo @ ss"] s(1) k by (simp add: mod_pos_pos_trivial)
  moreover have "val_u ?lo + 2 ^ k * (vint l + val_u ?hi) = val_u res + 2 ^ k * vint l"
    using val_u_take_drop [of res k] k by (simp add: min_absorb1 algebra_simps)
  ultimately have "val_u (?lo @ ss) = (val_u res + 2 ^ k * vint l) mod 2 ^ ?n" by simp
  with s ss k res show ?thesis
    by (simp add: mul_row_def sign_bit_usable [OF l] all_defined_take)
qed

lemma mul_step_Inr:
  "mul_step l r s (Inr res) k = (if bit_at r s k = V0 then Inr res else mul_row l k res)"
  by (simp add: mul_step_def)

lemma mul_loop_val:
  assumes l: "well l" and r: "well r" and k: "k \<le> n"
  shows "\<exists>res. foldl (mul_step l r (pad_of (has_sign r) r)) (Inr (replicate n V0)) [0..<k] = Inr res \<and>
    length res = n \<and> all_defined res \<and>
    val_u res = (vint l * val_u (padded r (pad_of (has_sign r) r) k)) mod 2 ^ n"
  using k
proof (induction k)
  case (Suc k)
  then obtain res where res:
    "foldl (mul_step l r (pad_of (has_sign r) r)) (Inr (replicate n V0)) [0..<k] = Inr res"
    "length res = n" "all_defined res"
    "val_u res = (vint l * val_u (padded r (pad_of (has_sign r) r) k)) mod 2 ^ n"
    by auto
  obtain res' where row: "mul_row l k res = Inr res'" "length res' = n" "all_defined res'"
    "val_u res' = (val_u res + 2 ^ k * vint l) mod 2 ^ n"
    using mul_row_val [OF l res(3), of k] res(2) Suc.prems by auto
  let ?b = "bit_at r (pad_of (has_sign r) r) k"
  have "all_defined (padded r (pad_of (has_sign r) r) (Suc k))" by (rule padded_defined [OF r])
  then have b: "?b = V0 \<or> ?b = V1" by (simp add: padded_Suc)
  have "vint l * val_u (padded r (pad_of (has_sign r) r) (Suc k)) =
    vint l * val_u (padded r (pad_of (has_sign r) r) k) + (if ?b = V1 then 2 ^ k * vint l else 0)"
    by (simp add: padded_Suc val_simps algebra_simps)
  with b res row show ?case by (auto simp: mul_step_Inr mod_add_left_eq)
qed (simp add: padded_def val_simps)

lemma well_range:
  assumes "well v"
  shows "if has_sign v then vbits v \<noteq> [] \<and> - (2 ^ (vlen v - 1)) \<le> vint v \<and> vint v < 2 ^ (vlen v - 1)
    else 0 \<le> vint v \<and> vint v < 2 ^ vlen v"
  using operand_range [OF assms order_refl] assms by (auto simp: operand_has_sign usable_def)

lemma pow_pred: "0 < n \<Longrightarrow> (2::int) ^ n = 2 * 2 ^ (n - 1)"
  by (cases n) auto

lemma product_bounds:
  fixes a b A B :: int
  assumes "0 \<le> a" "a < A" "- B \<le> b" "b < B"
  shows "- (A * B) \<le> a * b" "a * b < A * B"
proof -
  have "a * (- b) \<le> a * B" using assms by (intro mult_left_mono) auto
  also have "\<dots> \<le> A * B" using assms by (intro mult_right_mono) auto
  finally show "- (A * B) \<le> a * b" by simp
  have "a * b \<le> a * B" using assms by (intro mult_left_mono) auto
  also have "\<dots> < A * B" using assms by (intro mult_strict_right_mono) auto
  finally show "a * b < A * B" .
qed

lemma product_bounds_signed:
  fixes a b A B :: int
  assumes "- A \<le> a" "a < A" "- B \<le> b" "b < B"
  shows "\<bar>a * b\<bar> \<le> A * B"
  using assms by (simp only: abs_mult) (intro mult_mono; simp add: abs_le_iff)

text \<open>The product of two well formed numbers always fits the sum of their widths.\<close>

lemma product_range:
  assumes l: "well l" and r: "well r"
  shows "if has_sign l \<or> has_sign r
    then - (2 ^ (vlen l + vlen r - 1)) \<le> vint l * vint r \<and> vint l * vint r < 2 ^ (vlen l + vlen r - 1)
    else 0 \<le> vint l * vint r \<and> vint l * vint r < 2 ^ (vlen l + vlen r)"
proof -
  note rl = well_range [OF l] and rr = well_range [OF r]
  consider (ss) "has_sign l" "has_sign r" | (su) "has_sign l" "\<not> has_sign r"
    | (us) "\<not> has_sign l" "has_sign r" | (uu) "\<not> has_sign l" "\<not> has_sign r"
    by blast
  then show ?thesis
  proof cases
    case ss
    then have pos: "0 < vlen l" "0 < vlen r" using rl rr by auto
    have "\<bar>vint l * vint r\<bar> \<le> 2 ^ (vlen l - 1) * 2 ^ (vlen r - 1)"
      by (rule product_bounds_signed) (use rl rr ss in auto)
    moreover have "(2::int) ^ (vlen l + vlen r - 1) = 2 * (2 ^ (vlen l - 1) * 2 ^ (vlen r - 1))"
      using pos by (cases "vlen l"; cases "vlen r") (simp_all add: power_add)
    moreover have "0 < (2::int) ^ (vlen l - 1) * 2 ^ (vlen r - 1)" by simp
    ultimately have "- (2 ^ (vlen l + vlen r - 1)) \<le> vint l * vint r"
      "vint l * vint r < 2 ^ (vlen l + vlen r - 1)"
      by linarith+
    then show ?thesis using ss by simp
  next
    case su
    then have "0 < vlen l" using rl by auto
    then have "(2::int) ^ (vlen l + vlen r - 1) = 2 ^ vlen r * 2 ^ (vlen l - 1)"
      by (cases "vlen l") (simp_all add: power_add)
    then show ?thesis
      using product_bounds [of "vint r" "2 ^ vlen r" "2 ^ (vlen l - 1)" "vint l"] rl rr su
      by (simp add: mult.commute)
  next
    case us
    then have "0 < vlen r" using rr by auto
    then have "(2::int) ^ (vlen l + vlen r - 1) = 2 ^ vlen l * 2 ^ (vlen r - 1)"
      by (cases "vlen r") (simp_all add: power_add)
    then show ?thesis
      using product_bounds [of "vint l" "2 ^ vlen l" "2 ^ (vlen r - 1)" "vint r"] rl rr us by simp
  next
    case uu
    then show ?thesis using rl rr by (simp add: power_add mult_strict_mono')
  qed
qed

lemma mult_exact:
  assumes l: "well l" and r: "well r"
  shows "\<exists>v. verinum_mult l r = Inr v \<and> well v \<and> vint v = vint l * vint r \<and>
    has_sign v = (has_sign l \<or> has_sign r) \<and> has_len v = (has_len l \<and> has_len r)"
proof -
  let ?n = "vlen l + vlen r" and ?sg = "has_sign l \<or> has_sign r"
  obtain bs where bs:
    "foldl (mul_step l r (pad_of (has_sign r) r)) (Inr (replicate ?n V0)) [0..<?n] = Inr bs"
    "length bs = ?n" "all_defined bs"
    "val_u bs = (vint l * val_u (padded r (pad_of (has_sign r) r) ?n)) mod 2 ^ ?n"
    using mul_loop_val [OF l r order_refl] by blast
  then have m: "val_u bs = (vint l * vint r) mod 2 ^ ?n"
    by (simp add: padded_val [OF r] operand_has_sign mod_mult_right_eq)
  let ?v = "mk_verinum bs (has_len l \<and> has_len r) ?sg False"
  have "vint ?v = vint l * vint r"
  proof (cases ?sg)
    case True
    then have "0 < ?n" using well_range [OF l] well_range [OF r] by auto
    then have "val_s bs = vint l * vint r"
      using product_range [OF l r] True bs(2) m by (intro val_s_eqI) auto
    with True show ?thesis by (simp add: vint_def mk_verinum_def)
  next
    case False
    then show ?thesis
      using product_range [OF l r] m by (simp add: vint_def mk_verinum_def mod_pos_pos_trivial)
  qed
  moreover have "verinum_mult l r = Inr (trim_vnum ?v)"
    using l r bs by (simp add: verinum_mult_def usable_def sign_bit_usable [OF r])
  moreover have "is_defined (trim_vnum ?v)"
    using bs(3) by (intro trim_vnum_defined) (simp add: mk_verinum_def is_defined_iff)
  then have "well (trim_vnum ?v)"
    using well_range [OF l] well_range [OF r] bs(2)
    by (cases bs) (auto simp: usable_def mk_verinum_def split: if_splits)
  ultimately show ?thesis by (simp add: mk_verinum_def)
qed

section \<open>Powers\<close>

lemma replicate_V0_update: "\<not> n < 2 \<Longrightarrow> (replicate n V0)[0 := V1] = V1 # replicate (n - 1) V0"
  by (cases n) auto

lemma verinum_one_well: "well (verinum_one l) \<and> vint (verinum_one l) = 1"
  by (auto simp: verinum_one_def mk_verinum_def usable_def is_defined_iff vint_def val_s_def
      val_u_replicate replicate_V0_update last_replicate)

lemma verinum_m_one_well:
  "vbits l \<noteq> [] \<Longrightarrow> well (verinum_m_one l) \<and> vint (verinum_m_one l) = - 1"
  by (auto simp: verinum_m_one_def mk_verinum_def usable_def is_defined_iff vint_def val_s_def
      val_u_replicate)

lemma pow_loop:
  assumes l: "well l"
  shows "\<exists>v. ((\<lambda>res. bind_result res (\<lambda>r. verinum_mult r l)) ^^ k) (Inr l) = Inr v \<and> well v \<and>
    vint v = vint l ^ Suc k"
proof (induction k)
  case (Suc k)
  then obtain v where v: "((\<lambda>res. bind_result res (\<lambda>r. verinum_mult r l)) ^^ k) (Inr l) = Inr v"
    "well v" "vint v = vint l ^ Suc k" by blast
  with mult_exact [OF v(2) l] show ?case by auto
qed (use l in simp)

lemma is_zero_val_u: "is_defined v \<Longrightarrow> is_zero v \<longleftrightarrow> val_u (vbits v) = 0"
proof -
  have "val_u bs = 0 \<longleftrightarrow> list_all (\<lambda>b. b = V0) bs" if "all_defined bs" for bs
    using that by (induction bs) (auto simp: add_nonneg_eq_0_iff)
  then show "is_defined v \<Longrightarrow> ?thesis" by (simp add: is_zero_def is_defined_iff)
qed

lemma unsigned_vint_nonneg: "\<not> has_sign v \<Longrightarrow> 0 \<le> vint v"
  by (simp add: vint_def)

lemma is_zero_vint: "well v \<Longrightarrow> is_zero v \<longleftrightarrow> vint v = 0"
proof -
  assume "well v"
  then have z: "is_zero v \<longleftrightarrow> val_u (vbits v) = 0" by (simp add: usable_def is_zero_val_u)
  show ?thesis
  proof (cases "has_sign v")
    case True
    then have ne: "vbits v \<noteq> []" using \<open>well v\<close> by (simp add: usable_def)
    have "0 < val_u (vbits v)" if "last (vbits v) = V1"
    proof -
      have "2 ^ (vlen v - 1) \<le> val_u (vbits v)" using that last_iff_val_u [OF ne] by simp
      moreover have "0 < (2::int) ^ (vlen v - 1)" by simp
      ultimately show ?thesis by linarith
    qed
    then show ?thesis using z True val_u_less [of "vbits v"]
      by (auto simp: vint_def val_s_def)
  qed (simp add: z vint_def)
qed

text \<open>What the power operator computes for an integer exponent; \<open>None\<close> is all bits undefined.\<close>

definition int_pow :: "int \<Rightarrow> int \<Rightarrow> int option" where
  "int_pow a e =
     (if e \<ge> 0 then Some (a ^ nat e) else if a = 0 then None else if a = 1 then Some 1
      else if a = - 1 then Some (if even e then 1 else - 1) else Some 0)"

lemma pow_exact:
  assumes l: "well l" and r: "is_defined r" "vlen r \<le> 63"
  shows "case int_pow (vint l) (vint r) of
      None \<Rightarrow> verinum_pow l r = Inr (set_sign (verinum_fill Vx (vlen l) (has_len l)) (has_sign l))
    | Some i \<Rightarrow> \<exists>v. verinum_pow l r = Inr v \<and> well v \<and> vint v = i"
proof -
  have e: "as_long r = vint r" by (rule as_long_val [OF r])
  have d: "is_defined l" using l by (simp add: usable_def)
  consider "vint r = 0" | "vint r > 0" | "vint r < 0" "vint l = 0" | (neg) "vint r < 0" "vint l \<noteq> 0"
    by linarith
  then show ?thesis
  proof cases
    case 1
    then show ?thesis using verinum_one_well [of l] r(1) d
      by (simp add: verinum_pow_def e pow_start_def int_pow_def)
  next
    case 2
    obtain v where "((\<lambda>res. bind_result res (\<lambda>r. verinum_mult r l)) ^^ nat (vint r - 1)) (Inr l) = Inr v"
      "well v" "vint v = vint l ^ Suc (nat (vint r - 1))"
      using pow_loop [OF l] by blast
    moreover have "Suc (nat (vint r - 1)) = nat (vint r)" using 2 by simp
    ultimately show ?thesis using 2 r(1) d
      by (simp add: verinum_pow_def e pow_start_def int_pow_def)
  next
    case 3
    then show ?thesis using r(1) d is_zero_vint [OF l]
      by (simp add: verinum_pow_def e pow_start_def int_pow_def)
  next
    case neg
    have one: "verinum_eq l (verinum_one l) = Inr (if vint l = 1 then V1 else V0)"
      using eq_iff_operands [of "has_sign l" l "verinum_one l"] l verinum_one_well [of l]
      by (simp add: verinum_one_def mk_verinum_def operand_def vint_def)
    have m: "verinum_eq l (verinum_m_one l) = Inr (if vint l = - 1 then V1 else V0)" if "has_sign l"
      using eq_iff_operands [of True l "verinum_m_one l"] l that verinum_m_one_well [of l]
      by (auto simp: verinum_m_one_def mk_verinum_def operand_def vint_def usable_def)
    have ne: "vbits l \<noteq> []" if "has_sign l" using l that by (simp add: usable_def)
    have nn: "vint l \<noteq> - 1" if "\<not> has_sign l"
      using that val_u_nonneg [of "vbits l"] by (auto simp: vint_def simp del: val_u_nonneg)
    have fill: "well (set_sign (verinum_fill V0 (vlen l) (has_len l)) (has_sign l)) \<and>
        vint (set_sign (verinum_fill V0 (vlen l) (has_len l)) (has_sign l)) = 0"
      using l by (auto simp: set_sign_def verinum_fill_def mk_verinum_def usable_def is_defined_iff
          vint_def val_s_def val_u_replicate)
    have "nat (vint r - 1) = 0" "\<not> vint r > 0" "vint r \<noteq> 0" using neg by auto
    then have run: "verinum_pow l r = pow_start l r (vint r)" by (simp add: verinum_pow_def e)
    have start: "pow_start l r (vint r) =
      (if vint l = 1 then Inr (verinum_one l)
       else if \<not> has_sign l then Inr (set_sign (verinum_fill V0 (vlen l) (has_len l)) (has_sign l))
       else if vint l = - 1 then Inr (if even (vint r) then verinum_one l else verinum_m_one l)
       else Inr (set_sign (verinum_fill V0 (vlen l) (has_len l)) (has_sign l)))"
      using neg r(1) d is_zero_vint [OF l] one m by (auto simp: pow_start_def)
    show ?thesis
      unfolding run start int_pow_def
      using neg nn ne verinum_one_well [of l] verinum_m_one_well [of l] fill by auto
  qed
qed

section \<open>Shifts\<close>

lemma shl_value:
  "val_u (vbits (verinum_shl v k)) = 2 ^ k * val_u (vbits v) \<and>
   vlen (verinum_shl v k) = vlen v + k \<and> \<not> has_sign (verinum_shl v k) \<and>
   (is_defined v \<longrightarrow> is_defined (verinum_shl v k))"
  by (auto simp: verinum_shl_def mk_verinum_def val_simps is_defined_iff)

lemma val_u_drop: "val_u (drop n bs) = val_u bs div 2 ^ n"
proof (cases "n \<le> length bs")
  case True
  have "val_u (take n bs) < 2 ^ n" using val_u_less [of "take n bs"] True by simp
  then show ?thesis using True by (subst val_u_take_drop [of bs n]) (simp add: div_pos_pos_trivial)
next
  case False
  then have "val_u bs < 2 ^ n"
    by (intro order_less_le_trans [OF val_u_less power_increasing]) auto
  with False show ?thesis by (simp add: div_pos_pos_trivial)
qed

lemma shr_unsigned:
  assumes "\<not> has_sign v" "is_defined v"
  shows "\<exists>r. verinum_shr v k = Inr r \<and> is_defined r \<and> \<not> has_sign r \<and>
    val_u (vbits r) = val_u (vbits v) div 2 ^ k \<and> vlen r = (if vlen v \<le> k then 1 else vlen v - k)"
proof (cases "vlen v \<le> k")
  case True
  then have "val_u (vbits v) < 2 ^ k"
    by (intro order_less_le_trans [OF val_u_less power_increasing]) auto
  with True assms(1) show ?thesis
    by (simp add: verinum_shr_def mk_verinum_def is_defined_iff div_pos_pos_trivial)
next
  case False
  with assms show ?thesis
    by (auto simp: verinum_shr_def mk_verinum_def is_defined_iff val_u_drop all_defined_def
        dest: in_set_dropD)
qed

lemma concat_value:
  "val_u (vbits (concat_bits l r)) = val_u (vbits r) + 2 ^ vlen r * val_u (vbits l)"
  by (simp add: concat_bits_def mk_verinum_def val_simps)

section \<open>Properties\<close>

lemma usable_well: "sg = (has_sign l \<and> has_sign r) \<Longrightarrow> well l \<Longrightarrow> well r \<Longrightarrow> usable sg l \<and> usable sg r"
  by (auto simp: usable_def)

text \<open>
  C7. The comparisons decide the order of integers. For two fully defined numbers (with a sign bit
  if they are signed) \<open>==\<close>, \<open><=\<close> and \<open><\<close> return 1 or 0 exactly as the integers compare, where both
  are read as two's complement if both are signed and as unsigned otherwise, whatever their widths.
\<close>

theorem comparison_decides:
  assumes "well l" "well r"
  defines "sg \<equiv> has_sign l \<and> has_sign r"
  shows "verinum_eq l r = Inr (if operand sg l = operand sg r then V1 else V0) \<and>
    verinum_le l r = Inr (if operand sg l \<le> operand sg r then V1 else V0) \<and>
    verinum_lt l r = Inr (if operand sg l < operand sg r then V1 else V0)"
proof -
  have u: "usable sg l" "usable sg r" using usable_well [of sg l r] assms by auto
  note s = meta_eq_to_obj_eq [OF sg_def]
  show ?thesis
    using eq_iff_operands [OF s u] order_iff_operands [OF s u]
    by (auto simp: verinum_le_def verinum_lt_def)
qed

abbreviation snum :: "V list \<Rightarrow> verinum" where
  "snum bs \<equiv> mk_verinum bs True True False"

abbreviation unum :: "V list \<Rightarrow> verinum" where
  "unum bs \<equiv> mk_verinum bs True False False"

lemma mk_verinum_sel:
  "vbits (mk_verinum bs hl sg st) = bs" "has_sign (mk_verinum bs hl sg st) = sg"
  "has_len (mk_verinum bs hl sg st) = hl" "string_flag (mk_verinum bs hl sg st) = st"
  by (simp_all add: mk_verinum_def)

lemma num_values:
  "vint (mk_verinum bs hl sg st) = (if sg then val_s bs else val_u bs)"
  "operand b (mk_verinum bs hl sg st) = (if b then val_s bs else val_u bs)"
  "usable b (mk_verinum bs hl sg st) \<longleftrightarrow> all_defined bs \<and> (b \<longrightarrow> bs \<noteq> [])"
  "is_defined (mk_verinum bs hl sg st) \<longleftrightarrow> all_defined bs"
  by (simp_all add: mk_verinum_def vint_def operand_def usable_def is_defined_iff)

lemmas num_eval = mk_verinum_sel num_values val_s_def

theorem comparison_decides_witness:
  "verinum_lt (snum [V1, V0, V1, V1]) (snum [V1, V1]) = Inr V1 \<and>
   verinum_lt (unum [V1, V0, V1, V1]) (unum [V1, V1]) = Inr V0"
  using comparison_decides [of "snum [V1, V0, V1, V1]" "snum [V1, V1]"]
    comparison_decides [of "unum [V1, V0, V1, V1]" "unum [V1, V1]"]
  by (simp add: num_eval)

text \<open>
  C8. Addition never overflows. The sum of two defined numbers is defined, is one bit wider than the
  longer operand, has no fixed length, is signed if and only if both operands are, and stands for
  the sum of the integers that the operands stand for in a calculation of that signedness.
\<close>

theorem sum_exact:
  assumes "well l" "well r"
  defines "sg \<equiv> has_sign l \<and> has_sign r"
  shows "\<exists>v. verinum_add l r = Inr v \<and> is_defined v \<and> vlen v = Suc (max (vlen l) (vlen r)) \<and>
    has_sign v = sg \<and> \<not> has_len v \<and> vint v = operand sg l + operand sg r"
proof -
  have "top_len l r = max (vlen l) (vlen r)" by (simp add: top_len_def)
  then show ?thesis
    using add_exact [OF meta_eq_to_obj_eq [OF sg_def]] usable_well [of sg l r] assms by simp
qed

theorem sum_exact_witness:
  "\<exists>v. verinum_add (snum [V1, V1]) (snum [V0, V0, V1]) = Inr v \<and> vint v = - 5"
  using sum_exact [of "snum [V1, V1]" "snum [V0, V0, V1]"] by (auto simp: num_eval)

text \<open>
  C9. Subtraction of signed numbers is exact (the result grows by a bit when it must); a difference
  with an unsigned operand is the difference of the unsigned values modulo two to the longer width.
\<close>

theorem difference_exact:
  assumes "well l" "well r"
  shows "\<exists>v. verinum_sub l r = Inr v \<and> is_defined v \<and> \<not> has_len v \<and>
    has_sign v = (has_sign l \<and> has_sign r) \<and>
    vint v = (if has_sign l \<and> has_sign r then vint l - vint r
      else (val_u (vbits l) - val_u (vbits r)) mod 2 ^ max (vlen l) (vlen r))"
proof (cases "has_sign l \<and> has_sign r")
  case True
  then show ?thesis using sub_signed [of l r] assms by auto
next
  case False
  have "top_len l r = max (vlen l) (vlen r)" by (simp add: top_len_def)
  then show ?thesis using sub_unsigned [OF False] assms False
    by (auto simp: usable_def vint_def)
qed

theorem difference_exact_witness:
  "(\<exists>v. verinum_sub (snum [V0, V1]) (snum [V1, V0]) = Inr v \<and> vint v = - 3) \<and>
   (\<exists>v. verinum_sub (unum [V0, V1]) (unum [V1, V1]) = Inr v \<and> vint v = 3)"
  using difference_exact [of "snum [V0, V1]" "snum [V1, V0]"]
    difference_exact [of "unum [V0, V1]" "unum [V1, V1]"]
  by (auto simp: num_eval)

text \<open>
  C10. The shift and add multiplication is exact for every mixture of signed and unsigned operands:
  the result is defined, is signed if either operand is, has a fixed length if both have one, and
  stands for the product of the two integers.
\<close>

theorem product_exact:
  assumes "well l" "well r"
  shows "\<exists>v. verinum_mult l r = Inr v \<and> is_defined v \<and> vint v = vint l * vint r \<and>
    has_sign v = (has_sign l \<or> has_sign r) \<and> has_len v = (has_len l \<and> has_len r)"
  using mult_exact [OF assms] by (auto simp: usable_def)

theorem product_exact_witness:
  "\<exists>v. verinum_mult (snum [V1, V0, V1]) (unum [V1, V1, V1]) = Inr v \<and> vint v = - 21"
  using product_exact [of "snum [V1, V0, V1]" "unum [V1, V1, V1]"] by (auto simp: num_eval)

text \<open>
  C11. The power operator raises to the integer exponent of the right operand (at most 63 bits):
  the power itself for an exponent that is not negative; for a negative one all bits x if the base
  is 0, the base 1 gives 1, -1 gives 1 or -1 by parity, and every other base gives 0.
\<close>

theorem power_exact:
  assumes "well l" "is_defined r" "vlen r \<le> 63"
  shows "case int_pow (vint l) (vint r) of
      None \<Rightarrow> verinum_pow l r = Inr (set_sign (verinum_fill Vx (vlen l) (has_len l)) (has_sign l))
    | Some i \<Rightarrow> \<exists>v. verinum_pow l r = Inr v \<and> is_defined v \<and> vint v = i"
  using pow_exact [OF assms] by (auto simp: usable_def split: option.splits)

theorem power_exact_witness:
  "(\<exists>v. verinum_pow (snum [V1, V0, V1]) (unum [V1, V1]) = Inr v \<and> vint v = - 27) \<and>
   (\<exists>v. verinum_pow (snum [V1, V1]) (snum [V1, V0, V1]) = Inr v \<and> vint v = - 1)"
  using power_exact [of "snum [V1, V0, V1]" "unum [V1, V1]"]
    power_exact [of "snum [V1, V1]" "snum [V1, V0, V1]"]
  by (auto simp: num_eval int_pow_def)

end
