(* ===== verification/VerinumText.thy ===== *)
theory VerinumText
  imports VerinumArith
begin

text \<open>
  Numbers and text: the escapes of a Verilog string literal, the number that a string stands for
  (eight bits per character, the first one on top), its text again, the last step of
  \<open>pad_to_width\<close>, and the printing operators, which write the numbers inside the expressions that
  the checker compares and prints. A byte is a \<open>char\<close>; the C++ \<open>char\<close> of an octal escape wraps
  at 256.
\<close>

section \<open>Escapes\<close>

definition is_octal :: "char \<Rightarrow> bool" where
  "is_octal c \<longleftrightarrow> CHR ''0'' \<le> c \<and> c \<le> CHR ''7''"

definition octal_value :: "char \<Rightarrow> nat" where
  "octal_value c = of_char c - 48"

fun octal_digits :: "nat \<Rightarrow> string \<Rightarrow> nat \<Rightarrow> nat \<times> string" where
  "octal_digits (Suc k) (c # cs) byte_val =
     (if is_octal c then octal_digits k cs ((8 * byte_val + octal_value c) mod 256)
      else (byte_val, c # cs))"
| "octal_digits _ cs byte_val = (byte_val, cs)"

lemma octal_digits_length: "length (snd (octal_digits k cs v)) \<le> length cs"
  by (induction k cs v rule: octal_digits.induct) auto

definition put_char :: "char \<Rightarrow> string result \<Rightarrow> string result" where
  "put_char c r = bind_result r (\<lambda>s. Inr (c # s))"

function process_verilog_string_quotes :: "string \<Rightarrow> string result" where
  "process_verilog_string_quotes [] = Inr []"
| "process_verilog_string_quotes (c # cs) =
     (if c = CHR 0x5C then
        (case cs of
           [] \<Rightarrow> Inl ''assert''
         | d # ds \<Rightarrow>
             if d = CHR ''n'' then put_char (CHR 0x0A) (process_verilog_string_quotes ds)
             else if d = CHR ''t'' then put_char (CHR 0x09) (process_verilog_string_quotes ds)
             else if is_octal d then
               (let r = octal_digits 3 (d # ds) 0
                in put_char (char_of (fst r)) (process_verilog_string_quotes (snd r)))
             else put_char d (process_verilog_string_quotes ds))
      else put_char c (process_verilog_string_quotes cs))"
  by pat_completeness auto
termination
proof (relation "measure length")
  fix c :: char and cs ds :: string and d :: char and r
  assume "cs = d # ds" "is_octal d" "r = octal_digits 3 (d # ds) 0"
  then show "(snd r, c # cs) \<in> measure length"
    using octal_digits_length [of 3 "d # ds" 0] by simp
qed auto

section \<open>Numbers from strings and back\<close>

definition char_bits :: "char \<Rightarrow> V list" where
  "char_bits ch = map (\<lambda>i. if bit (of_char ch :: nat) i then V1 else V0) [0..<8]"

definition verinum_of_string :: "string \<Rightarrow> verinum result" where
  "verinum_of_string s = bind_result (process_verilog_string_quotes s) (\<lambda>str.
     Inr (mk_verinum (if str = [] then replicate 8 V0 else concat (map char_bits (rev str)))
       True False True))"

definition octal_text :: "nat \<Rightarrow> string" where
  "octal_text n = [CHR 0x5C, digit_char (n div 64), digit_char (n div 8 mod 8), digit_char (n mod 8)]"

definition is_print :: "char \<Rightarrow> bool" where
  "is_print c \<longleftrightarrow> 32 \<le> (of_char c :: nat) \<and> (of_char c :: nat) \<le> 126"

definition escape_char :: "char \<Rightarrow> string" where
  "escape_char c =
     (if c = CHR 0x22 \<or> c = CHR 0x5C then octal_text (of_char c)
      else if is_print c then [c] else octal_text (of_char c))"

definition byte_char :: "V list \<Rightarrow> char" where
  "byte_char bs = char_of (nat (val_u bs))"

fun bytes_of :: "nat \<Rightarrow> V list \<Rightarrow> V list list" where
  "bytes_of 0 bs = []"
| "bytes_of (Suc n) bs = take 8 bs # bytes_of n (drop 8 bs)"

definition as_string :: "verinum \<Rightarrow> string result" where
  "as_string v =
     (if vlen v mod 8 \<noteq> 0 then Inl ''assert''
      else Inr (concat (map (escape_char \<circ> byte_char) (rev (bytes_of (vlen v div 8) (vbits v))))))"

definition pad_to_width :: "verinum \<Rightarrow> nat \<Rightarrow> verinum result" where
  "pad_to_width that width =
     (if vlen that \<ge> width then Inr that
      else if vlen that = 0 then
        Inr (set_sign (verinum_fill V0 width (has_len that)) (has_sign that))
      else
        let val = pad_numeric that width
        in if string_flag that \<and> width mod 8 = 0 then bind_result (as_string val) verinum_of_string
           else Inr val)"

definition concat_verinum :: "verinum \<Rightarrow> verinum \<Rightarrow> verinum result" where
  "concat_verinum left right =
     (if string_flag left \<and> string_flag right then
        bind_result (as_string left) (\<lambda>l. bind_result (as_string right) (\<lambda>r.
          verinum_of_string (l @ r)))
      else Inr (concat_bits left right))"

section \<open>Printing\<close>

fun print_V :: "V \<Rightarrow> string" where
  "print_V V0 = ''0''"
| "print_V V1 = ''1''"
| "print_V Vx = ''x''"
| "print_V Vz = ''z''"

text \<open>The run of bits equal to the top one, of which a signed number prints one.\<close>

fun trim_run :: "V \<Rightarrow> V list \<Rightarrow> V list" where
  "trim_run b [] = []"
| "trim_run b (c # cs) = (if b \<noteq> c then c # cs else trim_run b cs)"

definition print_verinum :: "verinum \<Rightarrow> string result" where
  "print_verinum v =
     (if string_flag v then
        bind_result (as_string v) (\<lambda>s. Inr (CHR 0x22 # s @ [CHR 0x22]))
      else if is_defined v \<and> vlen v < 64 then
        Inr (string_of_int (if has_sign v then as_long v else as_ulong v))
      else
        let prefix = (if has_sign v then [CHR 0x27, CHR ''s'', CHR ''b''] else [CHR 0x27, CHR ''b''])
        in if vlen v = 0 then Inr (prefix @ ''0'')
           else
             let trim_left = last (vbits v);
                 rest = rev (butlast (vbits v))
             in Inr (prefix @ print_V trim_left @
                  concat (map print_V (if has_sign v then trim_run trim_left rest else rest))))"

section \<open>Reading back what was written\<close>

lemma octal_digit: "d < 8 \<Longrightarrow> is_octal (digit_char d) \<and> octal_value (digit_char d) = d"
  by (simp add: is_octal_def octal_value_def digit_char_def less_eq_char_def)

lemma octal_not_letter: "is_octal c \<Longrightarrow> c \<noteq> CHR ''n'' \<and> c \<noteq> CHR ''t''"
  by (auto simp: is_octal_def less_eq_char_def)

lemma read_octal_text:
  assumes "n < 256"
  shows "process_verilog_string_quotes (octal_text n @ rest) =
    put_char (char_of n) (process_verilog_string_quotes rest)"
proof -
  have d: "n div 64 < 8" "n div 8 mod 8 < 8" "n mod 8 < 8" using assms by auto
  have "8 * (n div 64) + n div 8 mod 8 = n div 8"
    using div_mult2_eq [of n 8 8] mult_div_mod_eq [of 8 "n div 8"] by simp
  moreover have "8 * (n div 8) + n mod 8 = n" by simp
  moreover have "n div 8 < 256" "n div 64 < 256" using assms by auto
  ultimately have "octal_digits 3 (tl (octal_text n) @ rest) 0 = (n, rest)"
    using octal_digit [OF d(1)] octal_digit [OF d(2)] octal_digit [OF d(3)] assms
    by (simp add: octal_text_def numeral_3_eq_3)
  then show ?thesis
    using octal_digit [OF d(1)] octal_not_letter [of "digit_char (n div 64)"]
    by (simp add: octal_text_def Let_def)
qed

lemma read_escape_char:
  "process_verilog_string_quotes (escape_char c @ rest) =
     put_char c (process_verilog_string_quotes rest)"
proof -
  have "(of_char c :: nat) < 256" by simp
  then show ?thesis
    using read_octal_text [of "of_char c" rest] by (auto simp: escape_char_def)
qed

lemma read_escaped: "process_verilog_string_quotes (concat (map escape_char s)) = Inr s"
  by (induction s) (simp_all add: read_escape_char put_char_def)

lemma bit_val_u: "bit (val_u bs) i \<longleftrightarrow> i < length bs \<and> bs ! i = V1"
proof (induction bs arbitrary: i)
  case (Cons b bs)
  show ?case
    using Cons.IH [of "i - 1"]
    by (cases i) (auto simp: bit_0 bit_Suc)
qed simp

text \<open>A number that is read from text has no x or z: they are written as 0.\<close>

definition zeroed :: "V list \<Rightarrow> V list" where
  "zeroed bs = map (\<lambda>b. if b = V1 then V1 else V0) bs"

lemma char_bits_byte_char: "length bs = 8 \<Longrightarrow> char_bits (byte_char bs) = zeroed bs"
proof -
  assume len: "length bs = 8"
  then have "val_u bs < 256" using val_u_less [of bs] by simp
  then have "nat (val_u bs) < 256" using val_u_nonneg [of bs] by linarith
  then have "(of_char (byte_char bs) :: nat) = nat (val_u bs)" by (simp add: byte_char_def)
  then show ?thesis using len
    by (intro nth_equalityI) (auto simp: char_bits_def zeroed_def bit_nat_iff bit_val_u)
qed

lemma bytes_of_zeroed:
  "length bs = 8 * n \<Longrightarrow> concat (map (char_bits \<circ> byte_char) (bytes_of n bs)) = zeroed bs"
proof (induction n bs rule: bytes_of.induct)
  case (2 n bs)
  then have "concat (map (char_bits \<circ> byte_char) (bytes_of n (drop 8 bs))) = zeroed (drop 8 bs)"
    by (simp add: comp_def)
  moreover have "char_bits (byte_char (take 8 bs)) = zeroed (take 8 bs)"
    using 2 by (intro char_bits_byte_char) simp
  moreover have "zeroed (take 8 bs) @ zeroed (drop 8 bs) = zeroed bs"
    by (simp add: zeroed_def flip: map_append)
  ultimately show ?case by (simp add: comp_def)
qed (simp add: zeroed_def)

lemma bytes_of_Nil: "bytes_of n bs = [] \<longleftrightarrow> n = 0"
  by (cases n) auto

lemma text_round_trip:
  assumes "8 dvd vlen v" "vbits v \<noteq> []"
  shows "bind_result (as_string v) verinum_of_string =
    Inr (mk_verinum (zeroed (vbits v)) True False True)"
proof -
  let ?n = "vlen v div 8"
  have n: "vlen v = 8 * ?n" using assms(1) by simp
  have n0: "?n \<noteq> 0" using n assms(2) by (metis length_0_conv mult_0_right)
  let ?s = "map byte_char (rev (bytes_of ?n (vbits v)))"
  have "as_string v = Inr (concat (map escape_char ?s))"
    using assms(1) by (simp add: as_string_def dvd_eq_mod_eq_0 comp_def)
  moreover have "?s \<noteq> []" using n0 by (simp add: bytes_of_Nil)
  ultimately show ?thesis
    using read_escaped [of ?s] bytes_of_zeroed [OF n]
    by (simp add: verinum_of_string_def rev_map comp_def)
qed

text \<open>
  The text of a number survives a round trip: for a width that is a positive multiple of 8 the
  text of the number, with its octal escapes for quotes, backslashes and characters that do not
  print, is read back to the same bits (x and z bits, which have no text, become 0).
\<close>

theorem string_round_trip:
  assumes "8 dvd vlen v" "vbits v \<noteq> []"
  shows "\<exists>s. as_string v = Inr s \<and>
    verinum_of_string s = Inr (mk_verinum (zeroed (vbits v)) True False True)"
proof -
  have "vlen v mod 8 = 0" using assms(1) by (simp add: dvd_eq_mod_eq_0)
  then show ?thesis using text_round_trip [OF assms] by (auto simp: as_string_def)
qed

theorem string_round_trip_witness:
  "\<exists>s. as_string (mk_verinum [V0, V1, V0, V0, V0, V1, Vx, V0] True False True) = Inr s \<and>
     verinum_of_string s = Inr (mk_verinum [V0, V1, V0, V0, V0, V1, V0, V0] True False True)"
  using string_round_trip [of "mk_verinum [V0, V1, V0, V0, V0, V1, Vx, V0] True False True"]
  by (simp add: num_eval zeroed_def eval_nat_numeral)

text \<open>
  Padding a defined string to a wider multiple of 8 bits puts zero characters in front of its
  text and keeps it a string, although the code goes through the text; padding a defined number
  that is not a string keeps its integer.
\<close>

theorem pad_keeps_value:
  assumes "well v" "vbits v \<noteq> []" "vlen v < width" "string_flag v \<longrightarrow> 8 dvd width \<and> \<not> has_sign v"
  shows "\<exists>p. pad_to_width v width = Inr p \<and> vlen p = width \<and> string_flag p = string_flag v \<and>
    vint p = vint v \<and>
    (string_flag v \<longrightarrow> vbits p = vbits v @ replicate (width - vlen v) V0)"
proof -
  have d: "is_defined v" using assms(1) by (simp add: usable_def)
  have n: "vint (pad_numeric v width) = vint v" "vlen (pad_numeric v width) = width"
    using pad_numeric_vint [OF d assms(2)] assms(3) by (simp_all add: pad_numeric_def mk_verinum_def)
  show ?thesis
  proof (cases "string_flag v")
    case False
    then show ?thesis using n assms(2,3)
      by (simp add: pad_to_width_def Let_def) (simp add: pad_numeric_def mk_verinum_def)
  next
    case True
    then have s: "8 dvd width" "\<not> has_sign v" using assms(4) by auto
    have all: "all_defined (vbits v)" using d by (simp add: is_defined_iff)
    then have pad: "pad_bit v = V0"
      using all_defined_last [OF all assms(2)] s(2) by (auto simp: pad_bit_def Let_def)
    then have bits: "vbits (pad_numeric v width) = vbits v @ replicate (width - vlen v) V0"
      by (simp add: pad_numeric_def mk_verinum_def)
    have "zeroed bs = bs" if "all_defined bs" for bs
      using that by (induction bs) (auto simp: zeroed_def)
    then have "zeroed (vbits (pad_numeric v width)) = vbits (pad_numeric v width)"
      using all by (simp add: bits)
    then have "pad_to_width v width = Inr (mk_verinum (vbits (pad_numeric v width)) True False True)"
      using text_round_trip [of "pad_numeric v width"] True s n(2) assms(2,3) bits
      by (simp add: pad_to_width_def Let_def dvd_eq_mod_eq_0)
    then show ?thesis using True s(2) bits n(2) assms(3)
      by (simp add: mk_verinum_def vint_def val_u_extend)
  qed
qed

theorem pad_keeps_value_witness:
  "\<exists>p. pad_to_width (mk_verinum [V1, V0, V0, V0, V0, V1, V0, V0] True False True) 16 = Inr p \<and>
     vint p = 33 \<and> vlen p = 16"
  using pad_keeps_value [of "mk_verinum [V1, V0, V0, V0, V0, V1, V0, V0] True False True" 16]
  by (auto simp: num_eval)

text \<open>
  The printing operator writes a defined number below 64 bits that is not a string as the
  decimal text of the integer it stands for, so that reading the digits of a nonnegative one gives
  the integer back.
\<close>

theorem print_decimal:
  assumes "is_defined v" "vlen v < 64" "\<not> string_flag v"
  shows "print_verinum v = Inr (string_of_int (vint v)) \<and>
    (0 \<le> vint v \<longrightarrow> (\<exists>t. print_verinum v = Inr t \<and> int (nat_of_digits t) = vint v))"
proof -
  have "val_u (vbits v) < 2 ^ 64"
    using assms(2) by (intro order_less_le_trans [OF val_u_less power_increasing]) auto
  then have "as_ulong v = val_u (vbits v)"
    using as_ulong_val [OF assms(1)] by (simp add: mod_pos_pos_trivial)
  then have p: "print_verinum v = Inr (string_of_int (vint v))"
    using assms as_long_val [of v] by (auto simp: print_verinum_def vint_def)
  then show ?thesis by (simp add: string_of_int_def nat_of_digits_string_of_nat)
qed

theorem print_decimal_witness:
  "print_verinum (mk_verinum [V1, V0, V1] True False False) = Inr ''5'' \<and>
   print_verinum (mk_verinum [V1, V0, V1] True True False) = Inr (string_of_int (- 3))"
  using print_decimal [of "mk_verinum [V1, V0, V1] True False False"]
    print_decimal [of "mk_verinum [V1, V0, V1] True True False"]
  by (simp add: num_eval string_of_int_def string_of_nat.simps digit_char_def char_of_def bit_0)

end
