(* ===== verification/PForm.thy ===== *)
theory PForm
  imports VerinumText
begin

text \<open>
  The expressions and statements of the parse form (\<open>PExpr.h\<close>, \<open>PExpr.cc\<close>, \<open>pform_types.h\<close>,
  \<open>Statement.h\<close>, \<open>Statement.cc\<close>, \<open>pform_dump.cc\<close>), as far as the checker uses them: printing,
  names, the signals that an expression mentions, well formed conditions, substitution, the
  translation of conditional expressions, and what a statement must modify.

  A \<open>perm_string\<close> is its text, since its operators compare texts; the null one is \<open>None\<close>.
  \<open>PExpr::get_name\<close> returns a pointer to the text of a string that is already destroyed; the model
  takes the text that was written there.
\<close>

section \<open>Expressions\<close>

datatype ctype_t = SEL_NONE | SEL_BIT | SEL_PART | SEL_IDX_UP | SEL_IDX_DO

datatype 'e index_component = Index ctype_t "'e option" "'e option"

datatype 'e name_component = Component string "'e index_component list"

datatype edge_t = ANYEDGE | POSEDGE | NEGEDGE | POSITIVE

text \<open>The classes derived from \<open>PEBinary\<close> share its printing and its checks.\<close>

datatype binary_class = EBinary | EBComp | EBLogic | EBPower | EBShift

type_synonym lineinfo = "string option \<times> nat"

text \<open>
  A real number is carried as the text that the stream prints for it. Line information of an
  expression matters for a conditional expression only, which passes it on to its translation.
\<close>

datatype pexpr =
    PEConcat "pexpr option list" "pexpr option"
  | PEEvent edge_t pexpr
  | PEFNumber string
  | PEIdent "pexpr name_component list"
  | PENumber verinum
  | PEString string
  | PEUnary char pexpr
  | PEBinary binary_class char pexpr pexpr
  | PETernary lineinfo pexpr pexpr pexpr
  | PECallFunction "pexpr name_component list" "pexpr option list"

section \<open>Printing\<close>

definition text_of :: "string option \<Rightarrow> string" where
  "text_of t = (case t of None \<Rightarrow> [] | Some s \<Rightarrow> s)"

fun print_index :: "string index_component \<Rightarrow> string" where
  "print_index (Index sel msb lsb) = ''['' @
     (case sel of
        SEL_BIT \<Rightarrow> text_of msb
      | SEL_PART \<Rightarrow> text_of msb @ '':'' @ text_of lsb
      | SEL_IDX_UP \<Rightarrow> text_of msb @ ''+:'' @ text_of lsb
      | SEL_IDX_DO \<Rightarrow> text_of msb @ ''-:'' @ text_of lsb
      | SEL_NONE \<Rightarrow> ''???'') @ '']''"

fun print_component :: "string name_component \<Rightarrow> string" where
  "print_component (Component name index) = name @ concat (map print_index index)"

definition print_path :: "string name_component list \<Rightarrow> string" where
  "print_path path = join_with ''.'' (map print_component path)"

definition print_concat :: "string option list \<Rightarrow> string option \<Rightarrow> string" where
  "print_concat parms repeat =
     (case repeat of None \<Rightarrow> [] | Some r \<Rightarrow> ''{'' @ r) @
     (if parms = [] then ''{}''
      else ''{'' @ join_with '', '' (map text_of parms) @ ''}'' @
        (case repeat of None \<Rightarrow> [] | Some r \<Rightarrow> ''}''))"

fun print_edge :: "edge_t \<Rightarrow> string" where
  "print_edge ANYEDGE = ''''"
| "print_edge POSEDGE = ''posedge ''"
| "print_edge NEGEDGE = ''negedge ''"
| "print_edge POSITIVE = ''positive ''"

definition print_unary_op :: "char \<Rightarrow> string" where
  "print_unary_op oper = (if oper = CHR ''m'' then ''abs'' else if oper = CHR ''N'' then ''not'' else [oper])"

definition print_binary_op :: "char \<Rightarrow> string" where
  "print_binary_op oper =
     (if oper = CHR ''E'' then ''==='' else if oper = CHR ''l'' then ''<<''
      else if oper = CHR ''N'' then ''!=='' else if oper = CHR ''p'' then ''**''
      else if oper = CHR ''R'' then ''>>>'' else if oper = CHR ''r'' then ''>>'' else [oper])"

definition print_binary :: "char \<Rightarrow> string \<Rightarrow> string \<Rightarrow> string" where
  "print_binary oper left right =
     (if oper = CHR ''m'' then ''min('' @ left @ '','' @ right @ '')''
      else if oper = CHR ''M'' then ''min('' @ left @ '','' @ right @ '')''
      else if oper = CHR ''e'' then ''= '' @ left @ '' '' @ right
      else if oper = CHR ''o'' then ''or ('' @ left @ '') ('' @ right @ '')''
      else if oper = CHR ''a'' then ''and ('' @ left @ '') ('' @ right @ '')''
      else if oper = CHR ''L'' then ''<= ('' @ left @ '') ('' @ right @ '')''
      else if oper = CHR ''n'' then ''not( = '' @ left @ '' '' @ right @ '')''
      else ''('' @ left @ '')'' @ print_binary_op oper @ ''('' @ right @ '')'')"

text \<open>
  Printing a number cannot fail its assertion: only \<open>verinum_of_string\<close> makes a string, of whole
  bytes (\<open>verinum_of_string_bytes\<close>).
\<close>

definition print_number :: "verinum \<Rightarrow> string" where
  "print_number v = (case print_verinum v of Inl e \<Rightarrow> e | Inr t \<Rightarrow> t)"

primrec dump :: "pexpr \<Rightarrow> string" where
  "dump (PEConcat parms repeat) =
     print_concat (map (map_option dump) parms) (map_option dump repeat)"
| "dump (PEEvent edge expr) = print_edge edge @ dump expr"
| "dump (PEFNumber text) = text"
| "dump (PEIdent path) = print_path (map (map_name_component dump) path)"
| "dump (PENumber num) = print_number num"
| "dump (PEString txt) = CHR 0x22 # txt @ [CHR 0x22]"
| "dump (PEUnary oper expr) = print_unary_op oper @ ''('' @ dump expr @ '')''"
| "dump (PEBinary cls oper left right) = print_binary oper (dump left) (dump right)"
| "dump (PETernary li expr tru fal) =
     ''('' @ dump expr @ '')?('' @ dump tru @ ''):('' @ dump fal @ '')''"
| "dump (PECallFunction path parms) =
     print_path (map (map_name_component dump) path) @ ''('' @
     join_with '', '' (map text_of (map (map_option dump) parms)) @ '')''"

definition get_name :: "pexpr \<Rightarrow> string" where
  "get_name e = dump e"

definition simple_ident :: "string \<Rightarrow> pexpr" where
  "simple_ident s = PEIdent [Component s []]"

text \<open>\<open>peek_tail_name\<close>; a path of the parser is never empty.\<close>

fun component_name :: "'e name_component \<Rightarrow> string" where
  "component_name (Component name index) = name"

definition peek_tail_name :: "'e name_component list \<Rightarrow> string" where
  "peek_tail_name path = component_name (last path)"

section \<open>The signals of an expression\<close>

text \<open>\<open>get_index_expressions\<close>: a part select counts both bounds, an indexed one its base only.\<close>

fun index_expressions :: "'e index_component \<Rightarrow> 'e list" where
  "index_expressions (Index sel msb lsb) =
     (case sel of
        SEL_BIT \<Rightarrow> (case msb of None \<Rightarrow> [] | Some m \<Rightarrow> [m])
      | SEL_PART \<Rightarrow> (case msb of None \<Rightarrow> [] | Some m \<Rightarrow> [m]) @ (case lsb of None \<Rightarrow> [] | Some l \<Rightarrow> [l])
      | SEL_IDX_UP \<Rightarrow> (case msb of None \<Rightarrow> [] | Some m \<Rightarrow> [m])
      | SEL_IDX_DO \<Rightarrow> (case msb of None \<Rightarrow> [] | Some m \<Rightarrow> [m])
      | SEL_NONE \<Rightarrow> [])"

fun component_index :: "'e name_component \<Rightarrow> 'e list" where
  "component_index (Component name index) = concat (map index_expressions index)"

definition get_index_expressions :: "'e name_component list \<Rightarrow> 'e list" where
  "get_index_expressions path = concat (map component_index path)"

definition or_empty :: "'a list option \<Rightarrow> 'a list" where
  "or_empty r = (case r of None \<Rightarrow> [] | Some xs \<Rightarrow> xs)"

primrec typecheckstring :: "pexpr \<Rightarrow> string list" where
  "typecheckstring (PEConcat parms repeat) =
     concat (map or_empty (map (map_option typecheckstring) parms))"
| "typecheckstring (PEEvent edge expr) = typecheckstring expr"
| "typecheckstring (PEFNumber text) = []"
| "typecheckstring (PEIdent path) =
     peek_tail_name path #
     concat (get_index_expressions (map (map_name_component typecheckstring) path))"
| "typecheckstring (PENumber num) = []"
| "typecheckstring (PEString txt) = []"
| "typecheckstring (PEUnary oper expr) = typecheckstring expr"
| "typecheckstring (PEBinary cls oper left right) = typecheckstring left @ typecheckstring right"
| "typecheckstring (PETernary li expr tru fal) =
     typecheckstring expr @ typecheckstring tru @ typecheckstring fal"
| "typecheckstring (PECallFunction path parms) =
     concat (map or_empty (map (map_option typecheckstring) parms))"

section \<open>Conditions\<close>

primrec contains_expr :: "pexpr \<Rightarrow> string \<Rightarrow> bool" where
  "contains_expr (PEConcat parms repeat) that = (get_name (PEConcat parms repeat) = that)"
| "contains_expr (PEEvent edge expr) that = (get_name (PEEvent edge expr) = that)"
| "contains_expr (PEFNumber text) that = (get_name (PEFNumber text) = that)"
| "contains_expr (PEIdent path) that = (get_name (PEIdent path) = that)"
| "contains_expr (PENumber num) that = (get_name (PENumber num) = that)"
| "contains_expr (PEString txt) that = (get_name (PEString txt) = that)"
| "contains_expr (PEUnary oper expr) that = contains_expr expr that"
| "contains_expr (PEBinary cls oper left right) that =
     (contains_expr left that \<or> contains_expr right that)"
| "contains_expr (PETernary li expr tru fal) that = (get_name (PETernary li expr tru fal) = that)"
| "contains_expr (PECallFunction path parms) that = (get_name (PECallFunction path parms) = that)"

definition compare_op :: "char \<Rightarrow> bool" where
  "compare_op oper \<longleftrightarrow> oper = CHR ''e'' \<or> oper = CHR ''L'' \<or> oper = CHR ''n''"

primrec is_wellformed :: "pexpr \<Rightarrow> string set \<Rightarrow> bool" where
  "is_wellformed (PEConcat parms repeat) s = False"
| "is_wellformed (PEEvent edge expr) s = False"
| "is_wellformed (PEFNumber text) s = False"
| "is_wellformed (PEIdent path) s = (get_name (PEIdent path) \<in> s)"
| "is_wellformed (PENumber num) s = True"
| "is_wellformed (PEString txt) s = False"
| "is_wellformed (PEUnary oper expr) s = (oper = CHR ''N'')"
| "is_wellformed (PEBinary cls oper left right) s =
     (if compare_op oper \<or> oper = CHR ''o'' then is_wellformed left s \<and> is_wellformed right s
      else if oper = CHR ''a'' then is_wellformed left s \<or> is_wellformed right s
      else False)"
| "is_wellformed (PETernary li expr tru fal) s = False"
| "is_wellformed (PECallFunction path parms) s = False"

text \<open>A null result is \<open>None\<close>; a rebuilt node is a plain \<open>PEBinary\<close>.\<close>

definition rebuild :: "char \<Rightarrow> pexpr option \<Rightarrow> pexpr option \<Rightarrow> pexpr option" where
  "rebuild oper left right =
     (case left of None \<Rightarrow> None | Some l \<Rightarrow>
       (case right of None \<Rightarrow> None | Some r \<Rightarrow> Some (PEBinary EBinary oper l r)))"

primrec to_wellformed :: "pexpr \<Rightarrow> string set \<Rightarrow> pexpr option" where
  "to_wellformed (PEConcat parms repeat) s = None"
| "to_wellformed (PEEvent edge expr) s = None"
| "to_wellformed (PEFNumber text) s = None"
| "to_wellformed (PEIdent path) s =
     (if get_name (PEIdent path) \<in> s then Some (PEIdent path) else None)"
| "to_wellformed (PENumber num) s = Some (PENumber num)"
| "to_wellformed (PEString txt) s = None"
| "to_wellformed (PEUnary oper expr) s =
     (if oper = CHR ''N'' then Some (PEUnary oper expr) else None)"
| "to_wellformed (PEBinary cls oper left right) s =
     (if (compare_op oper \<or> oper = CHR ''o'') \<and> is_wellformed left s \<and> is_wellformed right s
      then rebuild oper (to_wellformed left s) (to_wellformed right s)
      else if oper = CHR ''a'' then
        (if is_wellformed left s \<and> is_wellformed right s
         then rebuild oper (to_wellformed left s) (to_wellformed right s)
         else if is_wellformed left s then to_wellformed left s
         else if is_wellformed right s then to_wellformed right s
         else None)
      else None)"
| "to_wellformed (PETernary li expr tru fal) s = None"
| "to_wellformed (PECallFunction path parms) s = None"

primrec is_neg_wellformed :: "pexpr \<Rightarrow> string set \<Rightarrow> bool" where
  "is_neg_wellformed (PEConcat parms repeat) s = is_wellformed (PEConcat parms repeat) s"
| "is_neg_wellformed (PEEvent edge expr) s = is_wellformed (PEEvent edge expr) s"
| "is_neg_wellformed (PEFNumber text) s = is_wellformed (PEFNumber text) s"
| "is_neg_wellformed (PEIdent path) s = is_wellformed (PEIdent path) s"
| "is_neg_wellformed (PENumber num) s = is_wellformed (PENumber num) s"
| "is_neg_wellformed (PEString txt) s = is_wellformed (PEString txt) s"
| "is_neg_wellformed (PEUnary oper expr) s = is_wellformed (PEUnary oper expr) s"
| "is_neg_wellformed (PEBinary cls oper left right) s =
     (if compare_op oper \<or> oper = CHR ''a'' then is_neg_wellformed left s \<and> is_neg_wellformed right s
      else if oper = CHR ''o'' then is_neg_wellformed left s \<or> is_neg_wellformed right s
      else False)"
| "is_neg_wellformed (PETernary li expr tru fal) s = is_wellformed (PETernary li expr tru fal) s"
| "is_neg_wellformed (PECallFunction path parms) s = is_wellformed (PECallFunction path parms) s"

primrec neg_to_wellformed :: "pexpr \<Rightarrow> string set \<Rightarrow> pexpr option" where
  "neg_to_wellformed (PEConcat parms repeat) s = to_wellformed (PEConcat parms repeat) s"
| "neg_to_wellformed (PEEvent edge expr) s = to_wellformed (PEEvent edge expr) s"
| "neg_to_wellformed (PEFNumber text) s = to_wellformed (PEFNumber text) s"
| "neg_to_wellformed (PEIdent path) s = to_wellformed (PEIdent path) s"
| "neg_to_wellformed (PENumber num) s = to_wellformed (PENumber num) s"
| "neg_to_wellformed (PEString txt) s = to_wellformed (PEString txt) s"
| "neg_to_wellformed (PEUnary oper expr) s = to_wellformed (PEUnary oper expr) s"
| "neg_to_wellformed (PEBinary cls oper left right) s =
     (if (compare_op oper \<or> oper = CHR ''a'') \<and> is_neg_wellformed left s \<and> is_neg_wellformed right s
      then rebuild oper (neg_to_wellformed left s) (neg_to_wellformed right s)
      else if oper = CHR ''o'' then
        (if is_neg_wellformed left s \<and> is_neg_wellformed right s
         then rebuild oper (neg_to_wellformed left s) (neg_to_wellformed right s)
         else if is_neg_wellformed left s then neg_to_wellformed left s
         else if is_neg_wellformed right s then neg_to_wellformed right s
         else None)
      else None)"
| "neg_to_wellformed (PETernary li expr tru fal) s = to_wellformed (PETernary li expr tru fal) s"
| "neg_to_wellformed (PECallFunction path parms) s = to_wellformed (PECallFunction path parms) s"

section \<open>Substitution and copies\<close>

primrec subst_expr :: "pexpr \<Rightarrow> (string \<rightharpoonup> string) \<Rightarrow> pexpr" where
  "subst_expr (PEConcat parms repeat) m = PEConcat parms repeat"
| "subst_expr (PEEvent edge expr) m = PEEvent edge expr"
| "subst_expr (PEFNumber text) m = PEFNumber text"
| "subst_expr (PEIdent path) m =
     (case m (get_name (PEIdent path)) of None \<Rightarrow> PEIdent path | Some n \<Rightarrow> simple_ident n)"
| "subst_expr (PENumber num) m = PENumber num"
| "subst_expr (PEString txt) m = PEString txt"
| "subst_expr (PEUnary oper expr) m = PEUnary oper (subst_expr expr m)"
| "subst_expr (PEBinary cls oper left right) m =
     PEBinary EBinary oper (subst_expr left m) (subst_expr right m)"
| "subst_expr (PETernary li expr tru fal) m = PETernary li expr tru fal"
| "subst_expr (PECallFunction path parms) m = PECallFunction path parms"

text \<open>\<open>clone\<close> copies the parameters, but an identifier keeps its path; line information is lost.\<close>

primrec clone :: "pexpr \<Rightarrow> pexpr" where
  "clone (PEConcat parms repeat) =
     PEConcat (map (map_option clone) parms) (map_option clone repeat)"
| "clone (PEEvent edge expr) = PEEvent edge (clone expr)"
| "clone (PEFNumber text) = PEFNumber text"
| "clone (PEIdent path) = PEIdent path"
| "clone (PENumber num) = PENumber num"
| "clone (PEString txt) = PEString txt"
| "clone (PEUnary oper expr) = PEUnary oper (clone expr)"
| "clone (PEBinary cls oper left right) = PEBinary cls oper (clone left) (clone right)"
| "clone (PETernary li expr tru fal) = PETernary (None, 0) (clone expr) (clone tru) (clone fal)"
| "clone (PECallFunction path parms) = PECallFunction path (map (map_option clone) parms)"

section \<open>Wires and scopes\<close>

datatype PortType = NOT_A_PORT | PIMPLICIT | PINPUT | POUTPUT | PINOUT

text \<open>A label is a reference to an object of the label heap (theory \<open>SecTypes\<close>).\<close>

type_synonym ref = nat

record pwire =
  wname :: string
  port_type :: PortType
  sectype :: ref
  port_range :: "(pexpr \<times> pexpr) option"
  net_range :: "(pexpr \<times> pexpr) option"

text \<open>\<open>PWire::getRange\<close>, with the two ranges \<open>None\<close> when they are not set or scalar.\<close>

definition range_bounds :: "pexpr \<times> pexpr \<Rightarrow> int" where
  "range_bounds r =
     (case r of
        (PENumber msb, PENumber lsb) \<Rightarrow> as_long msb - as_long lsb
      | _ \<Rightarrow> - 1)"

definition getRange :: "pwire \<Rightarrow> int" where
  "getRange w =
     (case port_range w of
        Some r \<Rightarrow> range_bounds r
      | None \<Rightarrow> (case net_range w of Some r \<Rightarrow> range_bounds r | None \<Rightarrow> 0))"

text \<open>A lexical scope: the maps in the order of their keys.\<close>

record lexical_scope =
  parameters :: "(string \<times> ref option) list"
  localparams :: "(string \<times> ref option) list"
  wires :: "(string \<times> pwire) list"

section \<open>Statements\<close>

datatype stmt =
    PAssign lineinfo pexpr pexpr
  | PAssignNB lineinfo pexpr pexpr
  | PBlock "lexical_scope option" "stmt option list"
  | PCallTask "pexpr name_component list" "pexpr option list"
  | PCase "pexpr option" "(pexpr list \<times> stmt option) option list"
  | PCAssign pexpr pexpr
  | PCondit pexpr "stmt option" "stmt option"
  | PDeassign pexpr
  | PDelayStatement pexpr "stmt option"
  | PDisable "pexpr name_component list"
  | PEventStatement "(edge_t \<times> pexpr) option list" "stmt option"
  | PForce pexpr pexpr
  | PForever "stmt option"
  | PForStatement pexpr pexpr pexpr pexpr pexpr "stmt option"
  | PNoop
  | PRelease pexpr
  | PRepeat pexpr "stmt option"
  | PTrigger "pexpr name_component list"
  | PWhile pexpr "stmt option"

text \<open>\<open>PETernary::translate\<close>: a branch that is no conditional expression becomes an assignment.\<close>

primrec translate_branch :: "lineinfo \<Rightarrow> pexpr \<Rightarrow> pexpr \<Rightarrow> stmt" where
  "translate_branch li lhs (PETernary li' expr tru fal) =
     PCondit expr (Some (translate_branch li' lhs tru)) (Some (translate_branch li' lhs fal))"
| "translate_branch li lhs (PEConcat parms repeat) = PAssign li lhs (PEConcat parms repeat)"
| "translate_branch li lhs (PEEvent edge expr) = PAssign li lhs (PEEvent edge expr)"
| "translate_branch li lhs (PEFNumber text) = PAssign li lhs (PEFNumber text)"
| "translate_branch li lhs (PEIdent path) = PAssign li lhs (PEIdent path)"
| "translate_branch li lhs (PENumber num) = PAssign li lhs (PENumber num)"
| "translate_branch li lhs (PEString txt) = PAssign li lhs (PEString txt)"
| "translate_branch li lhs (PEUnary oper expr) = PAssign li lhs (PEUnary oper expr)"
| "translate_branch li lhs (PEBinary cls oper left right) = PAssign li lhs (PEBinary cls oper left right)"
| "translate_branch li lhs (PECallFunction path parms) = PAssign li lhs (PECallFunction path parms)"

definition is_ternary :: "pexpr \<Rightarrow> bool" where
  "is_ternary e = (case e of PETernary li c t f \<Rightarrow> True | _ \<Rightarrow> False)"

text \<open>
  What a statement assigns on every path. The code's set holds one expression per name and is used
  for its names only.
\<close>

definition or_nothing :: "('a \<Rightarrow> 'b set) option \<Rightarrow> 'a \<Rightarrow> 'b set" where
  "or_nothing f x = (case f of None \<Rightarrow> {} | Some g \<Rightarrow> g x)"

primrec mustmodify :: "stmt \<Rightarrow> string set \<Rightarrow> string set" where
  "mustmodify (PAssign li lval rval) dep = (if get_name lval \<in> dep then {get_name lval} else {})"
| "mustmodify (PAssignNB li lval rval) dep = (if get_name lval \<in> dep then {get_name lval} else {})"
| "mustmodify (PBlock sc list) dep =
     \<Union> (set (map (\<lambda>f. or_nothing f dep) (map (map_option mustmodify) list)))"
| "mustmodify (PCallTask path parms) dep = {}"
| "mustmodify (PCase expr items) dep = {}"
| "mustmodify (PCAssign lval expr) dep = {}"
| "mustmodify (PCondit expr i e) dep =
     or_nothing (map_option mustmodify i) dep \<inter> or_nothing (map_option mustmodify e) dep"
| "mustmodify (PDeassign lval) dep = {}"
| "mustmodify (PDelayStatement delay st) dep = {}"
| "mustmodify (PDisable sc) dep = {}"
| "mustmodify (PEventStatement expr st) dep = {}"
| "mustmodify (PForce lval expr) dep = {}"
| "mustmodify (PForever st) dep = {}"
| "mustmodify (PForStatement n1 e1 cond n2 e2 st) dep = {}"
| "mustmodify PNoop dep = {}"
| "mustmodify (PRelease lval) dep = {}"
| "mustmodify (PRepeat expr st) dep = {}"
| "mustmodify (PTrigger event) dep = {}"
| "mustmodify (PWhile cond st) dep = {}"

section \<open>Properties\<close>

lemma char_bits_length: "length (char_bits c) = 8"
  by (simp add: char_bits_def)

lemma verinum_of_string_bytes: "verinum_of_string s = Inr v \<Longrightarrow> 8 dvd vlen v"
proof -
  assume "verinum_of_string s = Inr v"
  then obtain str where "vbits v = (if str = [] then replicate 8 V0 else concat (map char_bits (rev str)))"
    by (auto simp: verinum_of_string_def bind_result_eq_Inr mk_verinum_def)
  moreover have "8 dvd length (concat (map char_bits cs))" for cs
    by (induction cs) (simp_all add: char_bits_length)
  ultimately show ?thesis by simp
qed

lemma rebuild_eq_Some:
  "rebuild oper l r = Some e \<longleftrightarrow> (\<exists>l' r'. l = Some l' \<and> r = Some r' \<and> e = PEBinary EBinary oper l' r')"
  by (auto simp: rebuild_def split: option.splits)

lemma rebuild_None: "rebuild oper l r = None \<longleftrightarrow> l = None \<or> r = None"
  by (auto simp: rebuild_def split: option.splits)

lemma to_wellformed_None: "to_wellformed e s = None \<longleftrightarrow> \<not> is_wellformed e s"
  by (induction e) (auto simp: rebuild_None compare_op_def)

lemma neg_to_wellformed_None: "neg_to_wellformed e s = None \<longleftrightarrow> \<not> is_neg_wellformed e s"
  by (induction e) (auto simp: rebuild_None compare_op_def to_wellformed_None)

text \<open>
  The truth of a condition, for any meaning of its comparisons and of its other atoms. A condition
  is plain if no operand of a comparison is itself a binary expression.
\<close>

primrec holds :: "(char \<Rightarrow> pexpr \<Rightarrow> pexpr \<Rightarrow> bool) \<Rightarrow> (pexpr \<Rightarrow> bool) \<Rightarrow> pexpr \<Rightarrow> bool" where
  "holds cmp atom (PEConcat parms repeat) = atom (PEConcat parms repeat)"
| "holds cmp atom (PEEvent edge expr) = atom (PEEvent edge expr)"
| "holds cmp atom (PEFNumber text) = atom (PEFNumber text)"
| "holds cmp atom (PEIdent path) = atom (PEIdent path)"
| "holds cmp atom (PENumber num) = atom (PENumber num)"
| "holds cmp atom (PEString txt) = atom (PEString txt)"
| "holds cmp atom (PEUnary oper expr) =
     (if oper = CHR ''N'' then \<not> holds cmp atom expr else atom (PEUnary oper expr))"
| "holds cmp atom (PEBinary cls oper left right) =
     (if oper = CHR ''a'' then holds cmp atom left \<and> holds cmp atom right
      else if oper = CHR ''o'' then holds cmp atom left \<or> holds cmp atom right
      else cmp oper left right)"
| "holds cmp atom (PETernary li expr tru fal) = atom (PETernary li expr tru fal)"
| "holds cmp atom (PECallFunction path parms) = atom (PECallFunction path parms)"

definition is_binary :: "pexpr \<Rightarrow> bool" where
  "is_binary e = (case e of PEBinary c oper l r \<Rightarrow> True | _ \<Rightarrow> False)"

primrec plain :: "pexpr \<Rightarrow> bool" where
  "plain (PEConcat parms repeat) = True"
| "plain (PEEvent edge expr) = True"
| "plain (PEFNumber text) = True"
| "plain (PEIdent path) = True"
| "plain (PENumber num) = True"
| "plain (PEString txt) = True"
| "plain (PEUnary oper expr) = True"
| "plain (PEBinary cls oper left right) =
     (if compare_op oper then \<not> is_binary left \<and> \<not> is_binary right else plain left \<and> plain right)"
| "plain (PETernary li expr tru fal) = True"
| "plain (PECallFunction path parms) = True"

lemma to_wellformed_atom: "\<not> is_binary e \<Longrightarrow> to_wellformed e s = Some w \<Longrightarrow> w = e"
  by (cases e) (auto simp: is_binary_def split: if_splits)

lemma neg_to_wellformed_atom: "\<not> is_binary e \<Longrightarrow> neg_to_wellformed e s = Some w \<Longrightarrow> w = e"
  by (cases e) (auto simp: is_binary_def split: if_splits)

lemma to_wellformed_weaker:
  "plain e \<Longrightarrow> to_wellformed e s = Some w \<Longrightarrow> holds cmp atom e \<Longrightarrow> holds cmp atom w"
proof (induction e arbitrary: w)
  case (PEBinary cls oper l r)
  show ?case
  proof (cases "compare_op oper")
    case True
    then have c: "oper \<noteq> CHR ''a''" "oper \<noteq> CHR ''o''" by (auto simp: compare_op_def)
    then obtain l' r' where lr: "to_wellformed l s = Some l'" "to_wellformed r s = Some r'"
      "w = PEBinary EBinary oper l' r'"
      using PEBinary.prems(2) by (auto simp: rebuild_eq_Some split: if_splits)
    have "\<not> is_binary l" "\<not> is_binary r" using True PEBinary.prems(1) by simp_all
    then have "l' = l" "r' = r" using lr to_wellformed_atom by blast+
    then show ?thesis using PEBinary.prems(3) lr(3) c by simp
  next
    case False
    then show ?thesis using PEBinary by (auto simp: rebuild_eq_Some split: if_splits)
  qed
qed (auto split: if_splits)

lemma neg_to_wellformed_stronger:
  "plain e \<Longrightarrow> neg_to_wellformed e s = Some w \<Longrightarrow> holds cmp atom w \<Longrightarrow> holds cmp atom e"
proof (induction e arbitrary: w)
  case (PEBinary cls oper l r)
  show ?case
  proof (cases "compare_op oper")
    case True
    then have c: "oper \<noteq> CHR ''a''" "oper \<noteq> CHR ''o''" by (auto simp: compare_op_def)
    then obtain l' r' where lr: "neg_to_wellformed l s = Some l'" "neg_to_wellformed r s = Some r'"
      "w = PEBinary EBinary oper l' r'"
      using PEBinary.prems(2) by (auto simp: rebuild_eq_Some split: if_splits)
    have "\<not> is_binary l" "\<not> is_binary r" using True PEBinary.prems(1) by simp_all
    then have "l' = l" "r' = r" using lr neg_to_wellformed_atom by blast+
    then show ?thesis using PEBinary.prems(3) lr(3) c by simp
  next
    case False
    then show ?thesis using PEBinary by (auto simp: rebuild_eq_Some split: if_splits)
  qed
qed (auto split: if_splits)

text \<open>
  C18. The hypotheses that the checker records for the two branches of an \<open>if\<close> follow from the
  condition: a condition that passes \<open>is_wellformed\<close> is turned into an expression (never a null
  pointer) that holds whenever the condition does, and one that passes \<open>is_neg_wellformed\<close> into an
  expression whose negation holds whenever the condition does not, for every meaning of the
  comparisons and signals, if no comparison compares logical expressions.
\<close>

theorem branch_hypotheses_follow:
  assumes "plain e"
  shows "(is_wellformed e s \<longrightarrow>
      (\<exists>w. to_wellformed e s = Some w \<and> (holds cmp atom e \<longrightarrow> holds cmp atom w))) \<and>
    (is_neg_wellformed e s \<longrightarrow>
      (\<exists>w. neg_to_wellformed e s = Some w \<and>
        (\<not> holds cmp atom e \<longrightarrow> holds cmp atom (PEUnary (CHR ''N'') w))))"
proof (intro conjI impI)
  assume "is_wellformed e s"
  then obtain w where "to_wellformed e s = Some w" using to_wellformed_None [of e s] by auto
  then show "\<exists>w. to_wellformed e s = Some w \<and> (holds cmp atom e \<longrightarrow> holds cmp atom w)"
    using to_wellformed_weaker [OF assms] by blast
next
  assume "is_neg_wellformed e s"
  then obtain w where "neg_to_wellformed e s = Some w" using neg_to_wellformed_None [of e s] by auto
  then show "\<exists>w. neg_to_wellformed e s = Some w \<and>
      (\<not> holds cmp atom e \<longrightarrow> holds cmp atom (PEUnary (CHR ''N'') w))"
    using neg_to_wellformed_stronger [OF assms] by auto
qed

theorem branch_hypotheses_follow_witness:
  "to_wellformed (PEBinary EBLogic (CHR ''a'') (simple_ident ''p'') (simple_ident ''q'')) {''p''} =
     Some (simple_ident ''p'') \<and>
   is_wellformed (PEBinary EBLogic (CHR ''a'') (simple_ident ''p'') (simple_ident ''q'')) {''p''}"
  using branch_hypotheses_follow
    [of "PEBinary EBLogic (CHR ''a'') (simple_ident ''p'') (simple_ident ''q'')" "{''p''}"]
  by (simp add: compare_op_def simple_ident_def get_name_def print_path_def)

text \<open>A copy prints as its original, so comparisons of names do not tell them apart.\<close>

lemma map_option_cong_set: "(\<And>x. x \<in> set_option o' \<Longrightarrow> f x = g x) \<Longrightarrow> map_option f o' = map_option g o'"
  by (cases o') auto

lemma dump_clone: "dump (clone e) = dump e"
proof (induction e)
  case (PEConcat parms repeat)
  have "map_option dump (map_option clone p) = map_option dump p" if "p \<in> set parms" for p
    using PEConcat(1) that by (cases p) auto
  moreover have "map_option dump (map_option clone repeat) = map_option dump repeat"
    using PEConcat(2) by (cases repeat) auto
  ultimately show ?case by (simp cong: map_cong)
next
  case (PECallFunction path parms)
  have "map_option dump (map_option clone p) = map_option dump p" if "p \<in> set parms" for p
    using PECallFunction(2) that by (cases p) auto
  then show ?case by (simp cong: map_cong)
qed simp_all

end
