(* ===== verification/SecTypes.thy ===== *)
theory SecTypes
  imports PForm
begin

text \<open>
  Security labels (\<open>sectypes.h\<close>, \<open>sectypes.cc\<close>). The code shares label objects by pointer and
  \<open>simplify\<close> changes them in place, so the model has an explicit heap of label objects: a list,
  with references as its indices. An object is created after the objects it points to, so
  references only point backwards (\<open>wf_heap\<close>, kept by every operation); the recursions over a
  label follow that order.
\<close>

section \<open>Objects\<close>

datatype sec_kind =
    SecType
  | ConstType "string option"
  | VarType string
  | IndexType string string
  | JoinType ref ref
  | MeetType ref ref

record secobj =
  kind :: sec_kind
  basic :: "int set"
  positive :: "int set"
  negative :: "int set"

type_synonym heap = "secobj list"

definition new_object :: "sec_kind \<Rightarrow> secobj" where
  "new_object k = \<lparr>kind = k, basic = {}, positive = {}, negative = {}\<rparr>"

definition alloc :: "heap \<Rightarrow> sec_kind \<Rightarrow> ref \<times> heap" where
  "alloc h k = (length h, h @ [new_object k])"

text \<open>The constructor of a named constant normalises its name.\<close>

definition const_name :: "string \<Rightarrow> string" where
  "const_name n =
     (if n = ''Low'' \<or> n = ''L'' then ''LOW'' else if n = ''High'' \<or> n = ''H'' then ''HIGH'' else n)"

text \<open>The static objects \<open>ConstType::TOP\<close>, \<open>ConstType::BOT\<close>, \<open>IndexType::RL\<close>, \<open>IndexType::WL\<close>.\<close>

definition TOP :: ref where "TOP = 0"

definition BOT :: ref where "BOT = 1"

definition static_heap :: heap where
  "static_heap =
     [new_object (ConstType None), new_object (ConstType None),
      new_object (IndexType ''Par'' ''ReadLabel''), new_object (IndexType ''Par'' ''WriteLabel'')]"

fun components :: "sec_kind \<Rightarrow> (ref \<times> ref) option" where
  "components (JoinType c1 c2) = Some (c1, c2)"
| "components (MeetType c1 c2) = Some (c1, c2)"
| "components _ = None"

text \<open>The components of an object, when it has some, in the order in which they were created.\<close>

definition parts :: "heap \<Rightarrow> ref \<Rightarrow> (ref \<times> ref) option" where
  "parts h r =
     (case components (kind (h ! r)) of
        None \<Rightarrow> None
      | Some (c1, c2) \<Rightarrow> if c1 < r \<and> c2 < r then Some (c1, c2) else None)"

fun with_first :: "ref \<Rightarrow> sec_kind \<Rightarrow> sec_kind" where
  "with_first c (JoinType c1 c2) = JoinType c c2"
| "with_first c (MeetType c1 c2) = MeetType c c2"
| "with_first c k = k"

fun with_second :: "ref \<Rightarrow> sec_kind \<Rightarrow> sec_kind" where
  "with_second c (JoinType c1 c2) = JoinType c1 c"
| "with_second c (MeetType c1 c2) = MeetType c1 c"
| "with_second c k = k"

definition set_first :: "heap \<Rightarrow> ref \<Rightarrow> ref \<Rightarrow> heap" where
  "set_first h r c = h[r := (h ! r)\<lparr>kind := with_first c (kind (h ! r))\<rparr>]"

definition set_second :: "heap \<Rightarrow> ref \<Rightarrow> ref \<Rightarrow> heap" where
  "set_second h r c = h[r := (h ! r)\<lparr>kind := with_second c (kind (h ! r))\<rparr>]"

definition unionSets :: "int set \<Rightarrow> int set \<Rightarrow> int set" where
  "unionSets set1 set2 = set1 \<union> set2"

definition merge_basic :: "heap \<Rightarrow> ref \<Rightarrow> ref \<Rightarrow> heap" where
  "merge_basic h c1 c2 =
     h[c1 := (h ! c1)\<lparr>basic := unionSets (basic (h ! c1)) (basic (h ! c2))\<rparr>]"

section \<open>Operations\<close>

lemma parts_less: "parts h r = Some (c1, c2) \<Longrightarrow> c1 < r \<and> c2 < r"
  by (auto simp: parts_def split: option.splits if_splits)

text \<open>\<open>JoinType::simplify\<close> and \<open>MeetType::simplify\<close>, which are the same; other labels are simple.\<close>

function simplify :: "heap \<Rightarrow> ref \<Rightarrow> ref \<times> heap" where
  "simplify h r =
     (case parts h r of
        None \<Rightarrow> (r, h)
      | Some (c1, c2) \<Rightarrow>
          if basic (h ! c1) \<noteq> {} \<and> basic (h ! c2) \<noteq> {} then (c1, merge_basic h c1 c2)
          else
            let (c1', h) = (if basic (h ! c1) = {} then simplify h c1 else (c1, h));
                h = set_first h r c1';
                (c2', h) = (if basic (h ! c2) = {} then simplify h c2 else (c2, h));
                h = set_second h r c2'
            in (c1', merge_basic h c1' c2'))"
  by pat_completeness auto
termination
  by (relation "measure snd") (auto dest: parts_less)

declare simplify.simps [simp del]

fun is_join :: "sec_kind \<Rightarrow> bool" where
  "is_join (JoinType c1 c2) = True"
| "is_join _ = False"

function equals :: "heap \<Rightarrow> ref \<Rightarrow> ref \<Rightarrow> bool" where
  "equals h r st =
     (case parts h r of
        Some (c1, c2) \<Rightarrow>
          (case parts h st of
             Some (d1, d2) \<Rightarrow>
               is_join (kind (h ! r)) = is_join (kind (h ! st)) \<and> equals h c1 d1 \<and> equals h c2 d2
           | None \<Rightarrow> False)
      | None \<Rightarrow>
          (case kind (h ! r) of
             ConstType n \<Rightarrow> (case kind (h ! st) of ConstType n' \<Rightarrow> n = n' | _ \<Rightarrow> False)
           | VarType n \<Rightarrow> (case kind (h ! st) of VarType n' \<Rightarrow> n = n' | _ \<Rightarrow> False)
           | IndexType n e \<Rightarrow>
               (case kind (h ! st) of IndexType n' e' \<Rightarrow> n = n' \<and> e = e' | _ \<Rightarrow> False)
           | _ \<Rightarrow> False))"
  by pat_completeness auto
termination
  by (relation "measure (\<lambda>(h, r, st). r)") (auto dest: parts_less)

declare equals.simps [simp del]

function hasExpr :: "heap \<Rightarrow> ref \<Rightarrow> string \<Rightarrow> bool" where
  "hasExpr h r s =
     (case parts h r of
        Some (c1, c2) \<Rightarrow> hasExpr h c1 s \<or> hasExpr h c2 s
      | None \<Rightarrow> (case kind (h ! r) of VarType n \<Rightarrow> n = s | IndexType n e \<Rightarrow> e = s | _ \<Rightarrow> False))"
  by pat_completeness auto
termination
  by (relation "measure (\<lambda>(h, r, s). r)") (auto dest: parts_less)

declare hasExpr.simps [simp del]

text \<open>Index expressions that are not decimal numbers.\<close>

function collect_dep_expr :: "heap \<Rightarrow> ref \<Rightarrow> string set" where
  "collect_dep_expr h r =
     (case parts h r of
        Some (c1, c2) \<Rightarrow> collect_dep_expr h c1 \<union> collect_dep_expr h c2
      | None \<Rightarrow> (case kind (h ! r) of
            IndexType n e \<Rightarrow> if list_all is_digit e then {} else {e} | _ \<Rightarrow> {}))"
  by pat_completeness auto
termination
  by (relation "measure snd") (auto dest: parts_less)

declare collect_dep_expr.simps [simp del]

text \<open>
  The four predicates; a constant is the bottom (top) if it is named LOW (HIGH), and the two
  compositions differ in how they combine the answers.
\<close>

function isBottom :: "heap \<Rightarrow> ref \<Rightarrow> bool" where
  "isBottom h r =
     (case parts h r of
        Some (c1, c2) \<Rightarrow>
          (case kind (h ! r) of JoinType _ _ \<Rightarrow> isBottom h c1 \<and> isBottom h c2
           | _ \<Rightarrow> isBottom h c1 \<or> isBottom h c2)
      | None \<Rightarrow> (case kind (h ! r) of ConstType n \<Rightarrow> n = Some ''LOW'' | _ \<Rightarrow> False))"
  by pat_completeness auto
termination
  by (relation "measure snd") (auto dest: parts_less)

function isTop :: "heap \<Rightarrow> ref \<Rightarrow> bool" where
  "isTop h r =
     (case parts h r of
        Some (c1, c2) \<Rightarrow>
          (case kind (h ! r) of JoinType _ _ \<Rightarrow> isTop h c1 \<or> isTop h c2
           | _ \<Rightarrow> isTop h c1 \<and> isTop h c2)
      | None \<Rightarrow> (case kind (h ! r) of ConstType n \<Rightarrow> n = Some ''HIGH'' | _ \<Rightarrow> False))"
  by pat_completeness auto
termination
  by (relation "measure snd") (auto dest: parts_less)

declare isBottom.simps [simp del] isTop.simps [simp del]

text \<open>
  Substitution of one index expression. A composition whose components change is rebuilt, after a
  second substitution in each component.
\<close>

definition remake :: "sec_kind \<Rightarrow> ref \<Rightarrow> ref \<Rightarrow> sec_kind" where
  "remake k c1 c2 = with_second c2 (with_first c1 k)"

function subst_type :: "heap \<Rightarrow> ref \<Rightarrow> (string \<rightharpoonup> string) \<Rightarrow> ref \<times> heap" where
  "subst_type h r m =
     (case parts h r of
        Some (c1, c2) \<Rightarrow>
          let (c1new, h1) = subst_type h c1 m;
              (c2new, h2) = subst_type h1 c2 m
          in if c1 \<noteq> c1new \<or> c2 \<noteq> c2new then
               (let (d1, h3) = subst_type h2 c1 m;
                    (d2, h4) = subst_type h3 c2 m
                in alloc h4 (remake (kind (h ! r)) d1 d2))
             else (r, h2)
      | None \<Rightarrow> (case kind (h ! r) of
            IndexType n e \<Rightarrow> (case m e of Some e2 \<Rightarrow> alloc h (IndexType n e2) | None \<Rightarrow> (r, h))
          | _ \<Rightarrow> (r, h)))"
  by pat_completeness auto
termination
  by (relation "measure (\<lambda>(h, r, m). r)") (auto dest: parts_less)

declare subst_type.simps [simp del]

text \<open>Fresh copies: variables and index expressions get the line number as a suffix.\<close>

function freshVars :: "heap \<Rightarrow> ref \<Rightarrow> nat \<Rightarrow> (string \<rightharpoonup> string) \<Rightarrow> ref \<times> heap \<times> (string \<rightharpoonup> string)" where
  "freshVars h r lineno m =
     (case parts h r of
        Some (c1, c2) \<Rightarrow>
          let (d1, h1, m1) = freshVars h c1 lineno m;
              (d2, h2, m2) = freshVars h1 c2 lineno m1;
              (d, h3) = alloc h2 (remake (kind (h ! r)) d1 d2)
          in (d, h3, m2)
      | None \<Rightarrow> (case kind (h ! r) of
            VarType n \<Rightarrow> let new = n @ string_of_nat lineno; (d, h1) = alloc h (VarType new)
                        in (d, h1, m(n \<mapsto> new))
          | IndexType n e \<Rightarrow> let new = e @ string_of_nat lineno; (d, h1) = alloc h (IndexType n new)
                            in (d, h1, m(e \<mapsto> new))
          | _ \<Rightarrow> (r, h, m)))"
  by pat_completeness auto
termination
  by (relation "measure (\<lambda>(h, r, l, m). r)") (auto dest: parts_less)

declare freshVars.simps [simp del]

section \<open>Well formed heaps\<close>

definition wf_heap :: "heap \<Rightarrow> bool" where
  "wf_heap h \<longleftrightarrow> (\<forall>r<length h. case components (kind (h ! r)) of
     None \<Rightarrow> True | Some (c1, c2) \<Rightarrow> c1 < r \<and> c2 < r \<and> basic (h ! r) = {})"

lemma wf_heap_parts: "wf_heap h \<Longrightarrow> r < length h \<Longrightarrow> parts h r = components (kind (h ! r))"
  by (auto simp: wf_heap_def parts_def split: option.splits)

lemma wf_heap_basic: "wf_heap h \<Longrightarrow> r < length h \<Longrightarrow> parts h r \<noteq> None \<Longrightarrow> basic (h ! r) = {}"
  by (fastforce simp: wf_heap_def parts_def split: option.splits if_splits)

lemma wf_heapI:
  assumes "\<And>r. r < length h \<Longrightarrow> parts h r = components (kind (h ! r))"
    and "\<And>r. r < length h \<Longrightarrow> parts h r \<noteq> None \<Longrightarrow> basic (h ! r) = {}"
  shows "wf_heap h"
  unfolding wf_heap_def
proof (intro allI impI)
  fix r assume r: "r < length h"
  show "case components (kind (h ! r)) of None \<Rightarrow> True
      | Some (c1, c2) \<Rightarrow> c1 < r \<and> c2 < r \<and> basic (h ! r) = {}"
    using assms(1) [OF r] assms(2) [OF r] parts_less [of h r]
    by (auto split: option.splits)
qed

lemma wf_static_heap: "wf_heap static_heap"
  by (auto simp: wf_heap_def static_heap_def new_object_def less_Suc_eq numeral_eq_Suc)

lemma parts_append: "r < length h \<Longrightarrow> parts (h @ h') r = parts h r"
  by (simp add: parts_def nth_append)

lemma wf_heap_alloc:
  assumes "wf_heap h" "\<And>c1 c2. components k = Some (c1, c2) \<Longrightarrow> c1 < length h \<and> c2 < length h"
  shows "wf_heap (snd (alloc h k))"
  using assms
  by (auto simp: wf_heap_def alloc_def new_object_def nth_append less_Suc_eq split: option.splits)

text \<open>The tags of a label: those of its simple parts.\<close>

function tags :: "heap \<Rightarrow> ref \<Rightarrow> int set" where
  "tags h r =
     (case parts h r of None \<Rightarrow> basic (h ! r) | Some (c1, c2) \<Rightarrow> tags h c1 \<union> tags h c2)"
  by pat_completeness auto
termination
  by (relation "measure snd") (auto dest: parts_less)

declare tags.simps [simp del]

lemma tags_leaf: "parts h r = None \<Longrightarrow> tags h r = basic (h ! r)"
  by (subst tags.simps) simp

lemma tags_node: "parts h r = Some (c1, c2) \<Longrightarrow> tags h r = tags h c1 \<union> tags h c2"
  by (subst tags.simps) simp

lemma tags_append: "wf_heap h \<Longrightarrow> r < length h \<Longrightarrow> tags (h @ h') r = tags h r"
proof (induction r rule: less_induct)
  case (less r)
  show ?case
  proof (cases "parts h r")
    case None
    then show ?thesis using less.prems by (simp add: tags_leaf parts_append nth_append)
  next
    case (Some p)
    obtain c1 c2 where p: "p = (c1, c2)" by force
    then have "c1 < r" "c2 < r" using Some parts_less by auto
    then have "tags (h @ h') c1 = tags h c1" "tags (h @ h') c2 = tags h c2"
      using less by auto
    then show ?thesis using Some p less.prems by (simp add: tags_node parts_append)
  qed
qed

section \<open>Updates of one object\<close>

lemma components_with_first: "components (with_first c k) = map_option (\<lambda>(c1, c2). (c, c2)) (components k)"
  by (cases k) auto

lemma components_with_second: "components (with_second c k) = map_option (\<lambda>(c1, c2). (c1, c)) (components k)"
  by (cases k) auto

lemma nth_list_update': "xs[i := v] ! j = (if i = j \<and> i < length xs then v else xs ! j)"
  by (cases "i < length xs") (simp_all add: nth_list_update list_update_beyond)

lemma length_updates [simp]:
  "length (set_first h r c) = length h" "length (set_second h r c) = length h"
  "length (merge_basic h c1 c2) = length h"
  by (simp_all add: set_first_def set_second_def merge_basic_def)

lemma nth_updates:
  "x \<noteq> r \<Longrightarrow> set_first h r c ! x = h ! x"
  "x \<noteq> r \<Longrightarrow> set_second h r c ! x = h ! x"
  "x \<noteq> c1 \<Longrightarrow> merge_basic h c1 c2 ! x = h ! x"
  by (simp_all add: set_first_def set_second_def merge_basic_def)

lemma basic_updates:
  "basic (set_first h r c ! x) = basic (h ! x)"
  "basic (set_second h r c ! x) = basic (h ! x)"
  by (simp_all add: set_first_def set_second_def nth_list_update')

lemma kind_updates:
  "r < length h \<Longrightarrow> kind (set_first h r c ! x) = (if x = r then with_first c (kind (h ! r)) else kind (h ! x))"
  "r < length h \<Longrightarrow> kind (set_second h r c ! x) = (if x = r then with_second c (kind (h ! r)) else kind (h ! x))"
  by (simp_all add: set_first_def set_second_def)

lemma kind_merge_basic [simp]: "kind (merge_basic h c1 c2 ! x) = kind (h ! x)"
  by (simp add: merge_basic_def nth_list_update')

lemma parts_set_first:
  assumes "parts h r = Some (c1, c2)" "r < length h" "c < r"
  shows "parts (set_first h r c) x = (if x = r then Some (c, c2) else parts h x)"
proof (cases "x = r")
  case True
  then show ?thesis using assms
    by (auto simp: parts_def kind_updates components_with_first split: option.splits if_splits)
qed (simp add: parts_def nth_updates)

lemma parts_set_second:
  assumes "parts h r = Some (c1, c2)" "r < length h" "c < r"
  shows "parts (set_second h r c) x = (if x = r then Some (c1, c) else parts h x)"
proof (cases "x = r")
  case True
  then show ?thesis using assms
    by (auto simp: parts_def kind_updates components_with_second split: option.splits if_splits)
qed (simp add: parts_def nth_updates)

lemma parts_merge_basic [simp]: "parts (merge_basic h c1 c2) x = parts h x"
  by (simp add: parts_def)

lemma wf_set_first:
  assumes "wf_heap h" "parts h r = Some (c1, c2)" "r < length h" "c < r"
  shows "wf_heap (set_first h r c)"
proof (rule wf_heapI)
  fix x assume x: "x < length (set_first h r c)"
  then have "parts h x = components (kind (h ! x))" using assms(1) by (simp add: wf_heap_parts)
  then show "parts (set_first h r c) x = components (kind (set_first h r c ! x))"
    using assms x wf_heap_parts [OF assms(1,3), symmetric]
    by (auto simp: parts_set_first kind_updates components_with_first)
  assume "parts (set_first h r c) x \<noteq> None"
  then have "parts h x \<noteq> None" using assms by (auto simp: parts_set_first split: if_splits)
  then show "basic (set_first h r c ! x) = {}"
    using wf_heap_basic [OF assms(1), of x] x by (simp add: basic_updates)
qed

lemma wf_set_second:
  assumes "wf_heap h" "parts h r = Some (c1, c2)" "r < length h" "c < r"
  shows "wf_heap (set_second h r c)"
proof (rule wf_heapI)
  fix x assume x: "x < length (set_second h r c)"
  then have "parts h x = components (kind (h ! x))" using assms(1) by (simp add: wf_heap_parts)
  then show "parts (set_second h r c) x = components (kind (set_second h r c ! x))"
    using assms x wf_heap_parts [OF assms(1,3), symmetric]
    by (auto simp: parts_set_second kind_updates components_with_second)
  assume "parts (set_second h r c) x \<noteq> None"
  then have "parts h x \<noteq> None" using assms by (auto simp: parts_set_second split: if_splits)
  then show "basic (set_second h r c ! x) = {}"
    using wf_heap_basic [OF assms(1), of x] x by (simp add: basic_updates)
qed

lemma wf_merge_basic:
  assumes "wf_heap h" "parts h c1 = None"
  shows "wf_heap (merge_basic h c1 c2)"
proof (rule wf_heapI)
  fix x assume x: "x < length (merge_basic h c1 c2)"
  then show "parts (merge_basic h c1 c2) x = components (kind (merge_basic h c1 c2 ! x))"
    using assms(1) by (simp add: wf_heap_parts)
  assume "parts (merge_basic h c1 c2) x \<noteq> None"
  then have "x \<noteq> c1" "parts h x \<noteq> None" using assms(2) by auto
  then show "basic (merge_basic h c1 c2 ! x) = {}"
    using wf_heap_basic [OF assms(1), of x] x by (simp add: nth_updates)
qed

text \<open>Replacing a component by one with the same tags changes the tags of no label.\<close>

lemma tags_same_parts:
  assumes "\<And>x. parts h' x = (if x = r then Some (d1, d2) else parts h x)"
    and "\<And>x. basic (h' ! x) = basic (h ! x)"
    and "parts h r = Some (c1, c2)" "d1 < r" "d2 < r"
    and "tags h d1 \<union> tags h d2 = tags h c1 \<union> tags h c2"
  shows "tags h' x = tags h x"
proof (induction x rule: less_induct)
  case (less x)
  show ?case
  proof (cases "x = r")
    case True
    have "tags h' r = tags h' d1 \<union> tags h' d2" using assms(1) by (intro tags_node) simp
    also have "\<dots> = tags h d1 \<union> tags h d2" using less True assms(4,5) by simp
    also have "\<dots> = tags h r" using assms(3,6) by (simp add: tags_node)
    finally show ?thesis using True by simp
  next
    case False
    show ?thesis
    proof (cases "parts h x")
      case None
      then show ?thesis using False assms(1,2) by (simp add: tags_leaf)
    next
      case (Some p)
      obtain e1 e2 where p: "p = (e1, e2)" by force
      then have "e1 < x" "e2 < x" using Some parts_less by auto
      then show ?thesis using Some p False assms(1) less by (simp add: tags_node)
    qed
  qed
qed

lemma tags_merge_basic:
  assumes "c1 < length h" "parts h c1 = None"
  shows "tags h x \<subseteq> tags (merge_basic h c1 c2) x \<and>
    tags (merge_basic h c1 c2) x \<subseteq> tags h x \<union> basic (h ! c2)"
proof (induction x rule: less_induct)
  case (less x)
  show ?case
  proof (cases "parts h x")
    case None
    then show ?thesis using assms
      by (cases "x = c1") (auto simp: tags_leaf nth_updates merge_basic_def unionSets_def parts_def)
  next
    case (Some p)
    obtain e1 e2 where p: "p = (e1, e2)" by force
    then have e: "e1 < x" "e2 < x" using Some parts_less by auto
    have "tags (merge_basic h c1 c2) x = tags (merge_basic h c1 c2) e1 \<union> tags (merge_basic h c1 c2) e2"
      "tags h x = tags h e1 \<union> tags h e2"
      using Some p by (simp_all add: tags_node)
    then show ?thesis using less [OF e(1)] less [OF e(2)] by blast
  qed
qed

section \<open>Simplification\<close>

text \<open>On a well formed heap the two cases of the code are one.\<close>

lemma with_same:
  "components k = Some (c1, c2) \<Longrightarrow> with_first c1 k = k"
  "components k = Some (c1, c2) \<Longrightarrow> with_second c2 k = k"
  by (cases k; simp)+

lemma set_kind_same: "h[r := (h ! r)\<lparr>kind := kind (h ! r)\<rparr>] = h"
proof -
  have "(h ! r)\<lparr>kind := kind (h ! r)\<rparr> = h ! r" by (cases "h ! r") simp
  then show ?thesis by simp
qed

lemma set_same:
  assumes "parts h r = Some (c1, c2)"
  shows "set_first h r c1 = h" "set_second h r c2 = h"
proof -
  have "components (kind (h ! r)) = Some (c1, c2)"
    using assms by (auto simp: parts_def split: option.splits if_splits)
  then show "set_first h r c1 = h" "set_second h r c2 = h"
    by (simp_all add: set_first_def set_second_def with_same set_kind_same)
qed

lemma simplify_leaf: "parts h r = None \<Longrightarrow> simplify h r = (r, h)"
  by (subst simplify.simps) simp

lemma simplify_guarded:
  "wf_heap h \<Longrightarrow> r < length h \<Longrightarrow>
    (if basic (h ! r) = {} then simplify h r else (r, h)) = simplify h r"
  using wf_heap_basic [of h r] by (cases "parts h r") (auto simp: simplify_leaf)

definition simplified :: "heap \<Rightarrow> ref \<Rightarrow> ref \<Rightarrow> heap \<Rightarrow> bool" where
  "simplified h r r' h' \<longleftrightarrow>
     wf_heap h' \<and> length h' = length h \<and> r' \<le> r \<and> parts h' r' = None \<and>
     basic (h' ! r') = tags h r \<and>
     (\<forall>x. tags h x \<subseteq> tags h' x \<and> tags h' x \<subseteq> tags h x \<union> tags h r) \<and>
     (\<forall>x. (parts h' x = None) = (parts h x = None)) \<and>
     (\<forall>x>r. h' ! x = h ! x)"

lemma simplified_leaf: "wf_heap h \<Longrightarrow> parts h r = None \<Longrightarrow> simplified h r r h"
  by (auto simp: simplified_def tags_leaf)

lemma simplified_node:
  assumes wf: "wf_heap h" and r: "r < length h" and p: "parts h r = Some (c1, c2)"
    and s1: "simplified h c1 d1 h1" and s2: "simplified (set_first h1 r d1) c2 d2 h3"
  shows "simplified h r d1 (merge_basic (set_second h3 r d2) d1 d2)"
proof -
  define h2 where "h2 = set_first h1 r d1"
  define h4 where "h4 = set_second h3 r d2"
  have c: "c1 < r" "c2 < r" using p parts_less by auto
  have k1: "wf_heap h1" "length h1 = length h" "d1 \<le> c1" "parts h1 d1 = None"
    "basic (h1 ! d1) = tags h c1" "h1 ! r = h ! r"
    "\<And>x. (parts h1 x = None) = (parts h x = None)" "\<And>x. r < x \<Longrightarrow> h1 ! x = h ! x"
    "\<And>x. tags h x \<subseteq> tags h1 x" "\<And>x. tags h1 x \<subseteq> tags h x \<union> tags h c1"
    using s1 c by (auto simp: simplified_def)
  have p1: "parts h1 r = Some (c1, c2)" using p k1(6) by (simp add: parts_def)
  have d1: "d1 < r" using k1(3) c by simp
  have p2: "parts h2 x = (if x = r then Some (d1, c2) else parts h1 x)" for x
    using p1 r k1(2) d1 by (simp add: h2_def parts_set_first)
  have t1: "tags h1 d1 = tags h1 c1"
    using k1(4,5) k1(9) [of c1] k1(10) [of c1] by (auto simp: tags_leaf)
  have t2: "tags h2 x = tags h1 x" for x
    by (rule tags_same_parts [OF p2 _ p1 d1 c(2)]) (simp_all add: h2_def basic_updates t1)
  have len2: "length h2 = length h1" by (simp add: h2_def)
  have k2: "wf_heap h3" "length h3 = length h" "d2 \<le> c2" "parts h3 d2 = None"
    "basic (h3 ! d2) = tags h1 c2" "h3 ! r = h2 ! r"
    "\<And>x. (parts h3 x = None) = (parts h2 x = None)" "\<And>x. r < x \<Longrightarrow> h3 ! x = h2 ! x"
    "\<And>x. tags h1 x \<subseteq> tags h3 x" "\<And>x. tags h3 x \<subseteq> tags h1 x \<union> tags h1 c2"
    using s2 c k1(2) unfolding h2_def [symmetric] by (auto simp: simplified_def t2 len2)
  have d2: "d2 < r" using k2(3) c by simp
  have p3: "parts h3 r = Some (d1, c2)" using p2 [of r] k2(6) by (simp add: parts_def)
  have p4: "parts h4 x = (if x = r then Some (d1, d2) else parts h3 x)" for x
    using p3 r k2(2) d2 by (simp add: h4_def parts_set_second)
  have t3: "tags h3 d2 = tags h3 c2"
    using k2(4,5) k2(9) [of c2] k2(10) [of c2] by (auto simp: tags_leaf)
  have t4: "tags h4 x = tags h3 x" for x
    by (rule tags_same_parts [OF p4 _ p3 d1 d2]) (simp_all add: h4_def basic_updates t3)
  have leaf: "parts h4 d1 = None" using p4 k2(7) p2 k1(4) d1 by auto
  have wf4: "wf_heap h4" unfolding h4_def using k2 p3 r d2 by (intro wf_set_second) auto
  have len: "length h4 = length h" using k2 by (simp add: h4_def)
  have b2: "basic (h4 ! d2) = tags h1 c2" by (simp add: h4_def basic_updates k2(5))
  have b1: "basic (h4 ! d1) = tags h3 d1" using leaf t4 [of d1] by (simp add: tags_leaf)
  have r_tags: "tags h r = tags h c1 \<union> tags h c2" using p by (rule tags_node)
  have lo1: "tags h c1 \<subseteq> tags h3 d1"
    using k1(4,5) k2(9) [of d1] by (simp add: tags_leaf)
  have hi1: "tags h3 d1 \<subseteq> tags h c1 \<union> tags h1 c2"
    using k1(4,5) k2(10) [of d1] by (simp add: tags_leaf)
  have result: "tags h3 d1 \<union> tags h1 c2 = tags h r"
    using lo1 hi1 k1(9) [of c2] k1(10) [of c2] r_tags by blast
  have tags5: "tags h x \<subseteq> tags (merge_basic h4 d1 d2) x \<and>
      tags (merge_basic h4 d1 d2) x \<subseteq> tags h x \<union> tags h r" for x
  proof -
    have "tags h4 x \<subseteq> tags (merge_basic h4 d1 d2) x"
      "tags (merge_basic h4 d1 d2) x \<subseteq> tags h4 x \<union> tags h1 c2"
      using tags_merge_basic [of d1 h4 x d2] leaf d1 r len b2 by simp_all
    moreover have "tags h1 c2 \<subseteq> tags h r" "tags h c1 \<subseteq> tags h r" using result r_tags by blast+
    ultimately show ?thesis
      using t4 [of x] k1(9) [of x] k1(10) [of x] k2(9) [of x] k2(10) [of x] by blast
  qed
  have basic5: "basic (merge_basic h4 d1 d2 ! d1) = tags h r"
    using d1 r len b1 b2 result by (simp add: merge_basic_def unionSets_def)
  have parts5: "(parts (merge_basic h4 d1 d2) x = None) = (parts h x = None)" for x
    using p4 k2(7) p2 k1(7) p by simp
  have rest5: "r < x \<Longrightarrow> merge_basic h4 d1 d2 ! x = h ! x" for x
    using d1 k2(8) k1(8) by (simp add: nth_updates h4_def h2_def)
  show ?thesis unfolding h4_def [symmetric] simplified_def
    using wf_merge_basic [OF wf4 leaf] len d1 leaf basic5 tags5 parts5 rest5 by simp
qed

lemma simplify_spec:
  "wf_heap h \<Longrightarrow> r < length h \<Longrightarrow> simplify h r = (r', h') \<Longrightarrow> simplified h r r' h'"
proof (induction r arbitrary: h r' h' rule: less_induct)
  case (less r)
  show ?case
  proof (cases "parts h r")
    case None
    then show ?thesis using less.prems by (auto simp: simplify_leaf simplified_leaf)
  next
    case (Some q)
    obtain c1 c2 where p: "parts h r = Some (c1, c2)" using Some by (cases q) auto
    have c: "c1 < r" "c2 < r" using p parts_less by auto
    obtain d1 h1 where e1: "simplify h c1 = (d1, h1)" by force
    have s1: "simplified h c1 d1 h1" using less.IH e1 c less.prems by simp
    then have k1: "wf_heap h1" "length h1 = length h" "d1 < r" "h1 ! r = h ! r"
      using c by (auto simp: simplified_def)
    have p1: "parts h1 r = Some (c1, c2)" using p k1(4) by (simp add: parts_def)
    have wf2: "wf_heap (set_first h1 r d1)" using k1 p1 less.prems by (intro wf_set_first) auto
    obtain d2 h3 where e2: "simplify (set_first h1 r d1) c2 = (d2, h3)" by force
    have s2: "simplified (set_first h1 r d1) c2 d2 h3" using less.IH e2 c wf2 less.prems k1 by simp
    have "simplify h r = (d1, merge_basic (set_second h3 r d2) d1 d2)"
    proof (cases "basic (h ! c1) \<noteq> {} \<and> basic (h ! c2) \<noteq> {}")
      case True
      then have "parts h c1 = None" "parts h c2 = None"
        using wf_heap_basic [of h] less.prems c by fastforce+
      then have "d1 = c1" "h1 = h" "d2 = c2" "h3 = h"
        using e1 e2 p by (auto simp: simplify_leaf set_same)
      then show ?thesis using True p
        by (subst simplify.simps) (simp add: set_same)
    next
      case False
      then have F: "(basic (h ! c1) \<noteq> {} \<and> basic (h ! c2) \<noteq> {}) = False" by blast
      have g1: "(if basic (h ! c1) = {} then simplify h c1 else (c1, h)) = (d1, h1)"
        using simplify_guarded [of h c1] less.prems c e1 by (simp del: if_split)
      have g2: "(if basic (set_first h1 r d1 ! c2) = {} then simplify (set_first h1 r d1) c2
          else (c2, set_first h1 r d1)) = (d2, h3)"
        using simplify_guarded [of "set_first h1 r d1" c2] less.prems c e2 wf2 k1
        by (simp del: if_split)
      have g2': "(if basic (h1 ! c2) = {} then simplify (set_first h1 r d1) c2
          else (c2, set_first h1 r d1)) = (d2, h3)"
        using g2 by (simp add: basic_updates)
      show ?thesis
        by (subst simplify.simps)
          (simp only: p F option.case prod.case if_False g1 Let_def basic_updates g2')
    qed
    then show ?thesis using simplified_node [OF less.prems(1,2) p s1 s2] less.prems(3) by simp
  qed
qed

text \<open>
  C19. Simplifying a label of a well formed heap returns a simple label that carries exactly the
  basic tags of all its parts; the heap stays well formed, and every other label keeps its tags and
  gains at most tags of the simplified one.
\<close>

theorem simplify_collects_tags:
  assumes "wf_heap h" "r < length h" "simplify h r = (r', h')"
  shows "parts h' r' = None \<and> basic (h' ! r') = tags h r \<and> wf_heap h' \<and> length h' = length h \<and>
    (\<forall>x. tags h x \<subseteq> tags h' x \<and> tags h' x \<subseteq> tags h x \<union> tags h r)"
  using simplify_spec [OF assms] by (simp add: simplified_def)

definition sample_heap :: heap where
  "sample_heap =
     static_heap @
     [(new_object (ConstType (Some ''A'')))\<lparr>basic := {3}\<rparr>,
      (new_object (ConstType (Some ''B'')))\<lparr>basic := {5, 7}\<rparr>,
      new_object (JoinType 4 5), new_object (JoinType 6 1)]"

lemma wf_sample_heap: "wf_heap sample_heap"
  by (auto simp: wf_heap_def sample_heap_def static_heap_def new_object_def less_Suc_eq numeral_eq_Suc)

lemma length_sample_heap: "length sample_heap = 8"
  by (simp add: sample_heap_def static_heap_def)

lemma sample_parts:
  "parts sample_heap 7 = Some (6, 1)" "parts sample_heap 6 = Some (4, 5)"
  "parts sample_heap 5 = None" "parts sample_heap 4 = None" "parts sample_heap 1 = None"
  by (simp_all add: parts_def sample_heap_def static_heap_def new_object_def)

lemma sample_basic:
  "basic (sample_heap ! 4) = {3}" "basic (sample_heap ! 5) = {5, 7}" "basic (sample_heap ! 1) = {}"
  by (simp_all add: sample_heap_def static_heap_def new_object_def)

lemma sample_tags:
  "tags sample_heap 4 = {3}" "tags sample_heap 5 = {5, 7}" "tags sample_heap 7 = {3, 5, 7}"
  by (auto simp: tags_node [OF sample_parts(1)] tags_node [OF sample_parts(2)]
      tags_leaf sample_parts sample_basic simp del: One_nat_def)

theorem simplify_collects_tags_witness:
  "\<exists>r' h'. simplify sample_heap 7 = (r', h') \<and> basic (h' ! r') = {3, 5, 7}"
proof -
  obtain r' h' where s: "simplify sample_heap 7 = (r', h')" by force
  have "7 < length sample_heap" by (simp add: length_sample_heap)
  then show ?thesis using simplify_collects_tags [OF wf_sample_heap _ s] s sample_tags by auto
qed

text \<open>
  Simplifying a composition of two tagged labels returns the first of them, the object that the
  program declared, and gives it the tags of the second: from then on the declared label itself
  carries both.
\<close>

theorem simplify_changes_declared_label:
  assumes "parts h r = Some (c1, c2)" "c1 < length h" "parts h c1 = None" "parts h c2 = None"
    and "basic (h ! c1) \<noteq> {}" "basic (h ! c2) \<noteq> {}"
  shows "fst (simplify h r) = c1 \<and> tags (snd (simplify h r)) c1 = tags h c1 \<union> tags h c2"
proof -
  have e: "simplify h r = (c1, merge_basic h c1 c2)"
    using assms by (subst simplify.simps) simp
  have "tags (merge_basic h c1 c2) c1 = basic (merge_basic h c1 c2 ! c1)"
    using assms(3) by (intro tags_leaf) simp
  then show ?thesis using assms by (simp add: e merge_basic_def unionSets_def tags_leaf)
qed

theorem simplify_changes_declared_label_witness:
  "tags sample_heap 4 = {3} \<and> tags (snd (simplify sample_heap 6)) 4 = {3, 5, 7}"
proof -
  have "tags (snd (simplify sample_heap 6)) 4 = tags sample_heap 4 \<union> tags sample_heap 5"
    using simplify_changes_declared_label [OF sample_parts(2) _ sample_parts(4,3)]
    by (simp add: length_sample_heap sample_basic)
  then show ?thesis by (auto simp: sample_tags)
qed

section \<open>Substitution\<close>

text \<open>The index types in a label.\<close>

function index_types :: "heap \<Rightarrow> ref \<Rightarrow> (string \<times> string) set" where
  "index_types h r =
     (case parts h r of
        Some (c1, c2) \<Rightarrow> index_types h c1 \<union> index_types h c2
      | None \<Rightarrow> (case kind (h ! r) of IndexType n e \<Rightarrow> {(n, e)} | _ \<Rightarrow> {}))"
  by pat_completeness auto
termination
  by (relation "measure snd") (auto dest: parts_less)

declare index_types.simps [simp del]

lemma index_types_leaf:
  "parts h r = None \<Longrightarrow>
    index_types h r = (case kind (h ! r) of IndexType n e \<Rightarrow> {(n, e)} | _ \<Rightarrow> {})"
  by (subst index_types.simps) simp

lemma index_types_node:
  "parts h r = Some (c1, c2) \<Longrightarrow> index_types h r = index_types h c1 \<union> index_types h c2"
  by (subst index_types.simps) simp

lemma index_types_append: "r < length h \<Longrightarrow> index_types (h @ h') r = index_types h r"
proof (induction r rule: less_induct)
  case (less r)
  show ?case
  proof (cases "parts h r")
    case None
    then show ?thesis using less.prems by (simp add: index_types_leaf parts_append nth_append)
  next
    case (Some p)
    obtain c1 c2 where p: "parts h r = Some (c1, c2)" using Some by (cases p) auto
    then have "c1 < r" "c2 < r" using parts_less by auto
    then show ?thesis using p less by (simp add: index_types_node parts_append)
  qed
qed

definition renamed :: "(string \<rightharpoonup> string) \<Rightarrow> string \<times> string \<Rightarrow> string \<times> string" where
  "renamed m p = (fst p, case m (snd p) of None \<Rightarrow> snd p | Some e \<Rightarrow> e)"

definition extends :: "heap \<Rightarrow> heap \<Rightarrow> bool" where
  "extends h h' \<longleftrightarrow> (\<exists>xs. h' = h @ xs)"

lemma extends_refl: "extends h h" by (simp add: extends_def)

lemma extends_trans: "extends h1 h2 \<Longrightarrow> extends h2 h3 \<Longrightarrow> extends h1 h3"
  by (auto simp: extends_def)

lemma extends_alloc: "extends h (snd (alloc h k))"
  by (simp add: extends_def alloc_def)

lemma extends_length: "extends h h' \<Longrightarrow> length h \<le> length h'"
  by (auto simp: extends_def)

lemma extends_facts:
  assumes "extends h h'" "r < length h"
  shows "r < length h'" "parts h' r = parts h r" "kind (h' ! r) = kind (h ! r)"
    "index_types h' r = index_types h r"
  using assms by (auto simp: extends_def parts_append nth_append index_types_append)

lemma components_remake:
  "components k = Some p \<Longrightarrow> components (remake k d1 d2) = Some (d1, d2)"
  by (cases k) (auto simp: remake_def)

lemma index_types_alloc_node:
  assumes "components k = Some p" "d1 < length h" "d2 < length h"
  shows "index_types (snd (alloc h (remake k d1 d2))) (length h) = index_types h d1 \<union> index_types h d2"
proof -
  let ?h = "h @ [new_object (remake k d1 d2)]"
  have "parts ?h (length h) = Some (d1, d2)"
    using assms by (simp add: parts_def new_object_def components_remake)
  then show ?thesis using assms by (simp add: alloc_def index_types_node index_types_append)
qed

definition substituted :: "(string \<rightharpoonup> string) \<Rightarrow> heap \<Rightarrow> ref \<Rightarrow> ref \<Rightarrow> heap \<Rightarrow> bool" where
  "substituted m h r r' h' \<longleftrightarrow>
     extends h h' \<and> r' < length h' \<and> index_types h' r' = renamed m ` index_types h r"

lemma substituted_extends:
  "substituted m h r r' h' \<Longrightarrow> extends h' h'' \<Longrightarrow> substituted m h r r' h''"
  using extends_facts [of h' h'' r'] extends_trans [of h h' h''] by (auto simp: substituted_def)

lemma subst_leaf:
  assumes "parts h r = None" "r < length h" "subst_type h r m = (r', h')"
  shows "substituted m h r r' h'"
proof (cases "kind (h ! r)")
  case (IndexType n e)
  show ?thesis
  proof (cases "m e")
    case None
    then have "r' = r" "h' = h" using assms(1,3) IndexType by (simp_all add: subst_type.simps)
    then show ?thesis using assms IndexType None
      by (simp add: substituted_def extends_refl index_types_leaf renamed_def)
  next
    case (Some e2)
    then have "r' = length h" "h' = h @ [new_object (IndexType n e2)]"
      using assms(1,3) IndexType by (simp_all add: subst_type.simps alloc_def)
    moreover have "parts (h @ [new_object (IndexType n e2)]) (length h) = None"
      by (simp add: parts_def new_object_def)
    ultimately show ?thesis using assms IndexType Some
      by (simp add: substituted_def extends_def index_types_leaf renamed_def new_object_def)
  qed
qed (use assms in \<open>auto simp: subst_type.simps substituted_def extends_refl index_types_leaf\<close>)

lemma subst_spec:
  "r < length h \<Longrightarrow> subst_type h r m = (r', h') \<Longrightarrow> substituted m h r r' h'"
proof (induction r arbitrary: h r' h' rule: less_induct)
  case (less r)
  show ?case
  proof (cases "parts h r")
    case None
    then show ?thesis using less.prems by (auto intro: subst_leaf)
  next
    case (Some q)
    obtain c1 c2 where p: "parts h r = Some (c1, c2)" using Some by (cases q) auto
    have c: "c1 < r" "c2 < r" using p parts_less by auto
    obtain n1 h1 where e1: "subst_type h c1 m = (n1, h1)" by force
    obtain n2 h2 where e2: "subst_type h1 c2 m = (n2, h2)" by force
    obtain d1 h3 where e3: "subst_type h2 c1 m = (d1, h3)" by force
    obtain d2 h4 where e4: "subst_type h3 c2 m = (d2, h4)" by force
    have s1: "substituted m h c1 n1 h1" using less e1 c by simp
    then have l1: "extends h h1" by (simp add: substituted_def)
    have s2: "substituted m h1 c2 n2 h2"
      using less e2 c extends_length [OF l1] by simp
    then have l2: "extends h h2" "extends h1 h2"
      using l1 extends_trans by (auto simp: substituted_def)
    have s3: "substituted m h2 c1 d1 h3"
      using less e3 c extends_length [OF l2(1)] by simp
    then have l3: "extends h h3" using l2 extends_trans by (auto simp: substituted_def)
    have s4: "substituted m h3 c2 d2 h4"
      using less e4 c extends_length [OF l3] by simp
    then have l4: "extends h h4" "extends h3 h4"
      using l3 extends_trans by (auto simp: substituted_def)
    show ?thesis
    proof (cases "c1 \<noteq> n1 \<or> c2 \<noteq> n2")
      case True
      then have r': "(r', h') = alloc h4 (remake (kind (h ! r)) d1 d2)"
        using less.prems(2) p e1 e2 e3 e4 by (subst (asm) subst_type.simps) simp
      obtain k where k: "components (kind (h ! r)) = Some k"
        using p by (auto simp: parts_def split: option.splits)
      have i1: "index_types h4 d1 = renamed m ` index_types h c1" "d1 < length h4"
        using substituted_extends [OF s3 l4(2)] extends_facts(4) [OF l2(1), of c1] c less.prems
        by (simp_all add: substituted_def)
      have i2: "index_types h4 d2 = renamed m ` index_types h c2" "d2 < length h4"
        using s4 extends_facts(4) [OF l3, of c2] c less.prems by (simp_all add: substituted_def)
      have "index_types h' r' = renamed m ` index_types h r"
        using index_types_alloc_node [OF k i1(2) i2(2)] r' i1(1) i2(1) p
        by (auto simp: alloc_def index_types_node)
      then show ?thesis using r' l4(1) extends_trans [OF l4(1) extends_alloc]
        by (auto simp: substituted_def alloc_def)
    next
      case False
      then have r': "r' = r" "h' = h2"
        using less.prems(2) p e1 e2 by (simp_all add: subst_type.simps [of h r])
      have "index_types h2 c1 = renamed m ` index_types h c1"
        using substituted_extends [OF s1 l2(2)] False by (simp add: substituted_def)
      moreover have "index_types h2 c2 = renamed m ` index_types h c2"
        using s2 False extends_facts(4) [OF l1, of c2] c less.prems by (simp add: substituted_def)
      moreover have "parts h2 r = Some (c1, c2)"
        using extends_facts(2) [OF l2(1)] less.prems p by simp
      ultimately show ?thesis
        using r' l2(1) less.prems p extends_length [OF l2(1)]
        by (simp add: substituted_def index_types_node image_Un)
    qed
  qed
qed

text \<open>
  Substituting index expressions in a label changes no existing label, returns a label of the
  extended heap, and renames every index type of the label simultaneously: the types whose
  expression the map mentions get its image, all the others stay.
\<close>

theorem substitution_exact:
  assumes "r < length h" "subst_type h r m = (r', h')"
  shows "(\<exists>new. h' = h @ new) \<and> r' < length h' \<and>
    index_types h' r' = (\<lambda>(n, e). (n, case m e of None \<Rightarrow> e | Some e2 \<Rightarrow> e2)) ` index_types h r"
proof -
  have "renamed m = (\<lambda>(n, e). (n, case m e of None \<Rightarrow> e | Some e2 \<Rightarrow> e2))"
    by (auto simp: renamed_def fun_eq_iff split: option.splits)
  then show ?thesis using subst_spec [OF assms] by (simp add: substituted_def extends_def)
qed

definition index_heap :: heap where
  "index_heap =
     [new_object (IndexType ''Par'' ''x''), new_object (IndexType ''Par'' ''y''),
      new_object (MeetType 0 1)]"

theorem substitution_exact_witness:
  "\<exists>r' h'. subst_type index_heap 2 [''x'' \<mapsto> ''y'', ''y'' \<mapsto> ''x''] = (r', h') \<and>
     index_types h' r' = {(''Par'', ''y''), (''Par'', ''x'')} \<and> take 3 h' = index_heap"
proof -
  obtain r' h' where s: "subst_type index_heap 2 [''x'' \<mapsto> ''y'', ''y'' \<mapsto> ''x''] = (r', h')"
    by force
  have i: "index_types index_heap 2 = {(''Par'', ''x''), (''Par'', ''y'')}"
  proof -
    have "parts index_heap 2 = Some (0, 1)" "parts index_heap 0 = None" "parts index_heap 1 = None"
      by (simp_all add: parts_def index_heap_def new_object_def)
    moreover have "kind (index_heap ! 0) = IndexType ''Par'' ''x''"
      "kind (index_heap ! 1) = IndexType ''Par'' ''y''"
      by (simp_all add: index_heap_def new_object_def)
    ultimately show ?thesis
      by (auto simp: index_types_node [of index_heap 2 0 1] index_types_leaf simp del: One_nat_def)
  qed
  have "2 < length index_heap" by (simp add: index_heap_def)
  from substitution_exact [OF this s] obtain new where e: "h' = index_heap @ new"
    "index_types h' r' = {(''Par'', ''y''), (''Par'', ''x'')}"
    by (auto simp: i)
  have "take 3 h' = index_heap" by (simp add: e(1) index_heap_def)
  then show ?thesis using s e(2) by blast
qed

end
