(* ===== verification/Steps.thy ===== *)
theory Steps
  imports SecTypes
begin

text \<open>
  The lines that the front end writes for the backend: the constraints of the step file
  (\<open>sectypes.h\<close>, class \<open>Constraint\<close>), the nodes of the node file and the text of the controlling
  conditions (\<open>typecheck.cc\<close>).
\<close>

section \<open>Maps in key order\<close>

type_synonym vars = "(string \<times> ref) list"

fun map_insert :: "string \<Rightarrow> 'a \<Rightarrow> (string \<times> 'a) list \<Rightarrow> (string \<times> 'a) list" where
  "map_insert k v [] = [(k, v)]"
| "map_insert k v ((k', v') # m) =
     (if k < k' then (k, v) # (k', v') # m
      else if k = k' then (k, v) # m
      else (k', v') # map_insert k v m)"

lemma map_of_map_insert [simp]: "map_of (map_insert k v m) = (map_of m)(k \<mapsto> v)"
  by (induction k v m rule: map_insert.induct) (auto simp: fun_eq_iff)

lemma keys_map_insert [simp]: "fst ` set (map_insert k v m) = insert k (fst ` set m)"
  by (induction k v m rule: map_insert.induct) auto

lemma set_map_insert: "set (map_insert k v m) \<subseteq> insert (k, v) (set m)"
  by (induction k v m rule: map_insert.induct) auto

lemma sorted_map_insert:
  "sorted_wrt (<) (map fst m) \<Longrightarrow> sorted_wrt (<) (map fst (map_insert k v m))"
proof (induction k v m rule: map_insert.induct)
  case (2 k v k' v' m)
  have "set (map fst (map_insert k v m)) \<subseteq> insert k (set (map fst m))"
    using set_map_insert [of k v m] by auto
  then show ?case using 2 by (auto simp: neq_iff dest: order.strict_trans)
qed simp

section \<open>Texts\<close>

text \<open>\<open>std::toupper\<close> in the C locale, on the first character.\<close>

definition toupper :: "char \<Rightarrow> char" where
  "toupper c =
     (if 97 \<le> (of_char c :: nat) \<and> (of_char c :: nat) \<le> 122 then char_of ((of_char c :: nat) - 32) else c)"

definition capitalize :: "string \<Rightarrow> string" where
  "capitalize s = (case s of [] \<Rightarrow> [] | c # cs \<Rightarrow> toupper c # cs)"

definition setToString :: "int set \<Rightarrow> string" where
  "setToString s = join_with '','' (map string_of_int (sorted_list_of_set s))"

definition printSet :: "int set \<Rightarrow> string" where
  "printSet s = join_with '','' (map string_of_int (sorted_list_of_set s))"

definition quote :: string where "quote = [CHR 0x22]"

definition line_end :: string where "line_end = [CHR 0x0A]"

definition nodeToString :: "string \<Rightarrow> int set \<Rightarrow> int set \<Rightarrow> int set \<Rightarrow> string" where
  "nodeToString name A B C =
     (if B = {} \<and> C = {} then ''new_basic_node('' @ quote @ name @ quote @ '', '' @ setToString A @ '')''
      else ''new_capability_node('' @ quote @ name @ quote @ '', '' @ setToString A @ '', '' @
        setToString B @ '', '' @ setToString C @ '')'')"

definition printNodeToFile :: "string \<Rightarrow> int set \<Rightarrow> int set \<Rightarrow> int set \<Rightarrow> string" where
  "printNodeToFile name A B C =
     (if B = {} \<and> C = {} then name @ '' '' @ printSet A @ line_end
      else name @ '' '' @ printSet A @ '' '' @ printSet B @ '' '' @ printSet C @ line_end)"

section \<open>The variables named by a condition\<close>

text \<open>The longest key that the text starts with; the empty text if there is none.\<close>

definition longer_match :: "string \<Rightarrow> string \<Rightarrow> string \<Rightarrow> string" where
  "longer_match s best key =
     (if length best < length key \<and> length key \<le> length s \<and> take (length key) s = key
      then key else best)"

definition longest_match :: "string list \<Rightarrow> string \<Rightarrow> string" where
  "longest_match keys s = foldl (longer_match s) [] keys"

definition prefixed :: "string \<Rightarrow> string \<Rightarrow> string" where
  "prefixed instance_str key = (if instance_str \<noteq> [] then instance_str @ ''_'' @ key else key)"

function format_from :: "string list \<Rightarrow> string \<Rightarrow> string \<Rightarrow> string set \<Rightarrow> string \<Rightarrow> string" where
  "format_from keys instance_str s seen result =
     (if s = [] then result
      else let key = longest_match keys s
           in if key \<noteq> [] then
                (if key \<notin> seen then
                   format_from keys instance_str (drop (length key) s) (insert key seen)
                     ((if result \<noteq> [] then result @ '','' else result) @ prefixed instance_str key)
                 else format_from keys instance_str (drop (length key) s) seen result)
              else format_from keys instance_str (drop 1 s) seen result)"
  by pat_completeness auto
termination
  by (relation "measure (\<lambda>(keys, i, s, seen, result). length s)") auto

declare format_from.simps [simp del]

definition formatStringByMap :: "string \<Rightarrow> vars \<Rightarrow> string \<Rightarrow> string" where
  "formatStringByMap pc_positive vars instance_str =
     format_from (map fst vars) instance_str pc_positive {} []"

section \<open>Constraints\<close>

text \<open>
  A constraint as far as it is printed; its constructor replaces empty texts. A line of the step
  file has a note, a source, a target and a condition; \<open>Raw\<close> is other text.
\<close>

record constraint =
  c_note :: string
  c_ls :: string
  c_rs :: string
  c_rs_tokens :: "string list"
  c_ls_tokens :: "string list"
  c_direct :: nat
  c_pc :: string
  c_mod :: string
  c_mor :: string

definition or_default :: "string \<Rightarrow> string \<Rightarrow> string" where
  "or_default d s = (if s = [] then d else s)"

definition mk_constraint ::
  "string \<Rightarrow> string \<Rightarrow> string \<Rightarrow> string list \<Rightarrow> string list \<Rightarrow> nat \<Rightarrow> string \<Rightarrow> string \<Rightarrow> string \<Rightarrow> constraint" where
  "mk_constraint no ls1 rs1 rstok lstok dir pc_p md mor =
     \<lparr>c_note = or_default ''unknown_constraint'' no, c_ls = or_default ''unknown_ls'' ls1,
      c_rs = or_default ''unknown_rs'' rs1, c_rs_tokens = rstok, c_ls_tokens = lstok, c_direct = dir,
      c_pc = or_default ''1'' pc_p, c_mod = or_default ''unknown_mod'' md,
      c_mor = or_default ''unknown_mor'' mor\<rparr>"

datatype out_line =
    Step (step_note: string) (step_from: string) (step_to: string) (step_pc: string)
  | Raw string

fun print_line :: "out_line \<Rightarrow> string" where
  "print_line (Step no from to pc) =
     quote @ no @ quote @ '' '' @ from @ '' '' @ to @ '' '' @
     quote @ ''pc_p='' @ pc @ quote @ '' '' @ line_end"
| "print_line (Raw s) = s"

text \<open>
  The exceptions of the checker, which the top level catches, and undefined behaviour, here a use of
  a null pointer or of the first element of an empty vector.
\<close>

datatype failure = Throw string | Undefined string

text \<open>\<open>operator<<\<close>: by the direction, one line per pair of tokens, or against one end of a port.\<close>

definition print_constraint :: "constraint \<Rightarrow> failure + out_line list" where
  "print_constraint c =
     (let local_name = (\<lambda>t. c_mod c @ ''_'' @ t)
      in if c_direct c = 0 then
           Inr (concat (map (\<lambda>l. map (\<lambda>r. Step (c_note c) (local_name r) (local_name l) (c_pc c))
             (c_rs_tokens c)) (c_ls_tokens c)))
         else if c_direct c = 1 then
           Inr (map (\<lambda>r. Step (c_note c) (local_name r) (c_mor c @ ''_'' @ c_ls c) (c_pc c))
             (c_rs_tokens c))
         else if c_direct c = 2 then
           (case c_ls_tokens c of
              [] \<Rightarrow> Inl (Undefined ''ls_tokens[0]'')
            | l # others \<Rightarrow>
                Inr [Step (c_note c) (c_mor c @ ''_'' @ c_rs c) (local_name l) (c_pc c)])
         else Inr [])"

end
