(* ===== verification/TypeCheck.thy ===== *)
theory TypeCheck
  imports Steps
begin

text \<open>
  The checker of the front end: labels of expressions (\<open>check_expr.cc\<close>), the hypotheses about
  conditions (\<open>absinterp.cc\<close>), statements, gates, generate blocks, modules and the traversal of the
  instance hierarchy (\<open>typecheck.cc\<close>). The debug output is off. The index \<open>i\<close> that every check
  takes and returns unchanged, and the text \<open>r\<close> that none reads, are left out.
\<close>

section \<open>Labels of expressions\<close>

type_synonym typer = "vars \<Rightarrow> heap \<Rightarrow> (failure + ref) \<times> heap"

definition bottom_type :: typer where
  "bottom_type vars h = (Inr BOT, h)"

definition join_type :: "typer \<Rightarrow> typer \<Rightarrow> typer" where
  "join_type left right vars h =
     (case left vars h of
        (Inl e, h) \<Rightarrow> (Inl e, h)
      | (Inr ty1, h) \<Rightarrow>
          (case right vars h of
             (Inl e, h) \<Rightarrow> (Inl e, h)
           | (Inr ty2, h) \<Rightarrow> (case alloc h (JoinType ty1 ty2) of (r, h) \<Rightarrow> (Inr r, h))))"

definition null_type :: typer where
  "null_type vars h = (Inl (Undefined ''null expression''), h)"

text \<open>The loop over the parts of a concatenation, starting from the label of the repeat count.\<close>

definition concat_type :: "typer option list \<Rightarrow> typer option \<Rightarrow> typer" where
  "concat_type parms repeat =
     foldl (\<lambda>last p. join_type last (case p of None \<Rightarrow> null_type | Some t \<Rightarrow> t))
       (case repeat of None \<Rightarrow> bottom_type | Some t \<Rightarrow> t) parms"

definition ident_type :: "string \<Rightarrow> typer" where
  "ident_type n vars h = (Inr (case map_of vars n of Some r \<Rightarrow> r | None \<Rightarrow> TOP), h)"

primrec expr_type :: "pexpr \<Rightarrow> typer" where
  "expr_type (PEConcat parms repeat) =
     concat_type (map (map_option expr_type) parms) (map_option expr_type repeat)"
| "expr_type (PEEvent edge expr) =
     (\<lambda>vars h. (Inl (Throw ''PEEvent: type checking not implemented for events''), h))"
| "expr_type (PEFNumber text) = bottom_type"
| "expr_type (PEIdent path) = ident_type (peek_tail_name path)"
| "expr_type (PENumber num) = bottom_type"
| "expr_type (PEString txt) = bottom_type"
| "expr_type (PEUnary oper expr) = expr_type expr"
| "expr_type (PEBinary cls oper left right) = join_type (expr_type left) (expr_type right)"
| "expr_type (PETernary li expr tru fal) = bottom_type"
| "expr_type (PECallFunction path parms) = bottom_type"

section \<open>Modules\<close>

text \<open>
  A pin of an instance is a port name and the expression connected to it. An instance whose ports
  are connected by position has no pins here (\<open>PGModule\<close> keeps them in its base class).
\<close>

datatype gate =
    PGAssign lineinfo pexpr pexpr
  | PGModule lineinfo string "string option" "(string \<times> pexpr option) list"
  | PGBuiltin

record pprocess =
  initial :: bool
  process_body :: stmt

text \<open>Analog processes and specify paths are counted only: each one throws.\<close>

datatype pgenerate =
    PGenerate (gen_scope: lexical_scope) (gen_gates: "gate list") (gen_behaviors: "pprocess list")
      (gen_analog: nat) (gen_genvars: "string list") (gen_schemes: "pgenerate list")

record pmodule =
  mod_name :: string
  mod_scope :: lexical_scope
  sec_label :: "ref option"
  genvars :: "string list"
  specparams :: nat
  defparms :: nat
  generate_schemes :: "pgenerate list"
  mod_gates :: "gate list"
  behaviors :: "pprocess list"
  analog_behaviors :: nat
  specify_paths :: nat

section \<open>State\<close>

text \<open>
  A hypothesis lies at an address, and a set of hypotheses iterates in the order of the addresses,
  which the allocator chooses: \<open>addresses\<close> is the sequence of the addresses it hands out, \<open>allocs\<close>
  the number handed out so far.

  The fields \<open>heap\<close> to \<open>dep_exprs\<close> and \<open>hypotheses\<close> are the environment of the module being checked
  (\<open>TypeEnv\<close>, \<open>Predicate\<close>); the next three are the output files, then the static sets of the names
  that were seen, and the assignments that were marked as checked.
\<close>

type_synonym hypothesis = "nat \<times> pexpr"

record tstate =
  heap :: heap
  varsToType :: vars
  pc_label :: ref
  pcstring :: string
  env_module :: pmodule
  instance_name :: "string option"
  parent_name :: "string option"
  alive :: "string set"
  dep_exprs :: "string set"
  hypotheses :: "hypothesis list"
  addresses :: "nat \<Rightarrow> nat"
  allocs :: nat
  check_write :: bool
  stepfile :: "out_line list"
  nodefile :: "string list"
  portfile :: "string list"
  seen_ports :: "string set"
  seen_modules :: "string set"
  seen_generates :: "string set"
  checked_assigns :: "(string \<times> nat) set"
  children :: "(string \<times> string \<times> string option) list"

type_synonym 'a tc = "tstate \<Rightarrow> (failure + 'a) \<times> tstate"

definition ret :: "'a \<Rightarrow> 'a tc" where "ret x s = (Inr x, s)"

definition fail :: "failure \<Rightarrow> 'a tc" where "fail e s = (Inl e, s)"

definition throw :: "string \<Rightarrow> 'a tc" where "throw m = fail (Throw m)"

definition bind :: "'a tc \<Rightarrow> ('a \<Rightarrow> 'b tc) \<Rightarrow> 'b tc" where
  "bind m f s = (case m s of (Inl e, s') \<Rightarrow> (Inl e, s') | (Inr x, s') \<Rightarrow> f x s')"

definition seq :: "'a tc \<Rightarrow> 'b tc \<Rightarrow> 'b tc" where
  "seq m n = bind m (\<lambda>_. n)"

definition get :: "(tstate \<Rightarrow> 'a) \<Rightarrow> 'a tc" where "get f s = (Inr (f s), s)"

definition change :: "(tstate \<Rightarrow> tstate) \<Rightarrow> unit tc" where "change f s = (Inr (), f s)"

fun foreach :: "'a list \<Rightarrow> ('a \<Rightarrow> unit tc) \<Rightarrow> unit tc" where
  "foreach [] f = ret ()"
| "foreach (x # xs) f = seq (f x) (foreach xs f)"

lemma bind_cong [fundef_cong]:
  "m = m' \<Longrightarrow> (\<And>x. f x = f' x) \<Longrightarrow> bind m f = bind m' f'"
proof -
  assume "m = m'" "\<And>x. f x = f' x"
  then have "m = m'" "f = f'" by (simp_all add: fun_eq_iff)
  then show ?thesis by simp
qed

lemma seq_cong [fundef_cong]: "m = m' \<Longrightarrow> n = n' \<Longrightarrow> seq m n = seq m' n'"
  by simp

lemma foreach_cong [fundef_cong]:
  "xs = ys \<Longrightarrow> (\<And>x. x \<in> set ys \<Longrightarrow> f x = f' x) \<Longrightarrow> foreach xs f = foreach ys f'"
  by (induction ys arbitrary: xs) auto

definition emit :: "out_line list \<Rightarrow> unit tc" where
  "emit ls = change (\<lambda>s. s\<lparr>stepfile := stepfile s @ ls\<rparr>)"

definition type_of :: "pexpr \<Rightarrow> ref tc" where
  "type_of e s = (case expr_type e (varsToType s) (heap s) of (r, h) \<Rightarrow> (r, s\<lparr>heap := h\<rparr>))"

definition simplify_label :: "ref \<Rightarrow> ref tc" where
  "simplify_label r s = (case simplify (heap s) r of (r', h) \<Rightarrow> (Inr r', s\<lparr>heap := h\<rparr>))"

definition new_label :: "sec_kind \<Rightarrow> ref tc" where
  "new_label k s = (case alloc (heap s) k of (r, h) \<Rightarrow> (Inr r, s\<lparr>heap := h\<rparr>))"

definition set_pc :: "ref \<Rightarrow> unit tc" where
  "set_pc r = change (\<lambda>s. s\<lparr>pc_label := r\<rparr>)"

definition set_pcstring :: "string \<Rightarrow> unit tc" where
  "set_pcstring t = change (\<lambda>s. s\<lparr>pcstring := t\<rparr>)"

definition set_hypotheses :: "hypothesis list \<Rightarrow> unit tc" where
  "set_hypotheses hs = change (\<lambda>s. s\<lparr>hypotheses := hs\<rparr>)"

definition set_alive :: "string set \<Rightarrow> unit tc" where
  "set_alive a = change (\<lambda>s. s\<lparr>alive := a\<rparr>)"

section \<open>Hypotheses\<close>

definition invalidate :: "hypothesis list \<Rightarrow> string \<Rightarrow> hypothesis list" where
  "invalidate hs name = filter (\<lambda>h. \<not> contains_expr (snd h) name) hs"

text \<open>A new hypothesis copies its expression and is put at a new address.\<close>

definition add_hypothesis :: "pexpr \<Rightarrow> unit tc" where
  "add_hypothesis e =
     change (\<lambda>s. s\<lparr>hypotheses := insort_key fst (addresses s (allocs s), clone e) (hypotheses s),
                  allocs := Suc (allocs s)\<rparr>)"

definition equation :: "pexpr \<Rightarrow> pexpr \<Rightarrow> pexpr" where
  "equation l r = PEBinary EBComp (CHR ''e'') l r"

definition is_number :: "pexpr \<Rightarrow> bool" where
  "is_number e = (case e of PENumber v \<Rightarrow> True | _ \<Rightarrow> False)"

definition PAssign_absintp :: "pexpr \<Rightarrow> pexpr \<Rightarrow> unit tc" where
  "PAssign_absintp lval rval =
     seq (change (\<lambda>s. s\<lparr>hypotheses := invalidate (hypotheses s) (get_name lval)\<rparr>))
       (bind (get dep_exprs) (\<lambda>dep.
          if (is_number rval \<or> get_name rval \<in> dep) \<and> get_name lval \<in> dep
          then add_hypothesis (equation lval rval) else ret ()))"

text \<open>The results are never null when the tests succeed (\<open>to_wellformed_None\<close>).\<close>

definition PCondit_absintp :: "pexpr \<Rightarrow> stmt option \<Rightarrow> stmt option \<Rightarrow> bool \<Rightarrow> unit tc" where
  "PCondit_absintp expr if_st else_st istrue =
     bind (get dep_exprs) (\<lambda>dep.
       if istrue \<and> if_st \<noteq> None then
         (if is_wellformed expr dep then
            (case to_wellformed expr dep of Some w \<Rightarrow> add_hypothesis w | None \<Rightarrow> ret ())
          else ret ())
       else if else_st \<noteq> None then
         (if is_neg_wellformed expr dep then
            (case neg_to_wellformed expr dep of
               Some w \<Rightarrow> add_hypothesis (PEUnary (CHR ''N'') w) | None \<Rightarrow> ret ())
          else ret ())
       else ret ())"

text \<open>
  \<open>PCondit::merge\<close>: the loop of \<open>std::set_intersection\<close> with an order by names, on two sequences
  that are in the order of the addresses.
\<close>

fun merge_hypotheses :: "hypothesis list \<Rightarrow> hypothesis list \<Rightarrow> hypothesis list" where
  "merge_hypotheses [] ys = []"
| "merge_hypotheses (x # xs) [] = []"
| "merge_hypotheses (x # xs) (y # ys) =
     (if get_name (snd x) < get_name (snd y) then merge_hypotheses xs (y # ys)
      else if get_name (snd y) < get_name (snd x) then merge_hypotheses (x # xs) ys
      else x # merge_hypotheses xs ys)"

section \<open>Assignments\<close>

definition current_module_name :: "tstate \<Rightarrow> string" where
  "current_module_name s =
     (case (instance_name s, parent_name s) of
        (Some i, Some p) \<Rightarrow> p @ ''_'' @ i
      | _ \<Rightarrow> mod_name (env_module s))"

definition write_constraint :: "constraint \<Rightarrow> unit tc" where
  "write_constraint c = (case print_constraint c of Inl e \<Rightarrow> fail e | Inr ls \<Rightarrow> emit ls)"

definition write_text :: "string \<Rightarrow> unit tc" where
  "write_text t = emit (if t = [] then [] else [Raw t])"

definition condition_text :: "string \<Rightarrow> string tc" where
  "condition_text inst = get (\<lambda>s. formatStringByMap (pcstring s) (varsToType s) inst)"

definition typecheck_assignment_constraint ::
  "string \<Rightarrow> string \<Rightarrow> pexpr \<Rightarrow> pexpr \<Rightarrow> string list \<Rightarrow> string list \<Rightarrow> unit tc" where
  "typecheck_assignment_constraint no vardecl lexpr rexpr rs ls =
     seq (write_text vardecl)
       (bind (get (\<lambda>s. capitalize (current_module_name s))) (\<lambda>inst.
        bind (condition_text inst) (\<lambda>pc_p.
        bind (get check_write) (\<lambda>twice.
          let c = mk_constraint no (get_name lexpr) (get_name rexpr) (sorted_set rs) ls 0 pc_p inst inst
          in seq (write_constraint c)
               (if twice then seq (write_text vardecl) (write_constraint c) else ret ())))))"

text \<open>The largest value of a signal, \<open>(1 << (range + 1)) - 1\<close>, as the 32-bit shift computes it.\<close>

definition largest_value :: "int \<Rightarrow> int" where
  "largest_value r = sint (push_bit (nat ((r + 1) mod 32)) 1 - 1 :: 32 word)"

definition fresh_declaration :: "pmodule \<Rightarrow> string \<Rightarrow> string \<Rightarrow> string" where
  "fresh_declaration m name newname =
     ''(declare-fun '' @ newname @ '' () Int)'' @ line_end @
     (case map_of (wires (mod_scope m)) name of
        None \<Rightarrow> []
      | Some w \<Rightarrow>
          ''(assert (<= 0  '' @ newname @ ''))'' @ line_end @
          ''(assert (<= '' @ newname @ '' '' @ string_of_int (largest_value (getRange w)) @ ''))'' @
          line_end)"

text \<open>\<open>typecheck_assignment\<close> when the right side is not a conditional expression.\<close>

definition simple_assignment :: "nat \<Rightarrow> string \<Rightarrow> pexpr \<Rightarrow> pexpr \<Rightarrow> unit tc" where
  "simple_assignment lineno no lhs rhs =
     bind (type_of lhs) (\<lambda>ty.
     bind (get (\<lambda>s. hasExpr (heap s) ty (get_name lhs))) (\<lambda>dependent.
       let rs = typecheckstring rhs; ls = typecheckstring lhs
       in if \<not> dependent then typecheck_assignment_constraint no [] lhs rhs rs ls
          else
            let newname = get_name lhs @ string_of_nat lineno
            in bind (get (\<lambda>s. (fresh_declaration (env_module s) (get_name lhs) newname,
                 get_name lhs \<in> alive s, is_number rhs \<or> get_name rhs \<in> dep_exprs s)))
               (\<lambda>(vardecl, upgrade, known).
                 seq (if upgrade then
                        typecheck_assignment_constraint (''no-sensitive-upgrade check '' @ no) [] lhs rhs rs ls
                      else ret ())
                 (seq (if known then add_hypothesis (equation (simple_ident newname) rhs) else ret ())
                   (typecheck_assignment_constraint no vardecl lhs rhs rs ls)))))"

definition get_fileline :: "lineinfo \<Rightarrow> string" where
  "get_fileline li = (case fst li of None \<Rightarrow> [] | Some f \<Rightarrow> f) @ '':'' @ string_of_nat (snd li)"

definition assignment_note :: "string \<Rightarrow> lineinfo \<Rightarrow> pexpr \<Rightarrow> pexpr \<Rightarrow> string" where
  "assignment_note oper li lval rval = dump lval @ oper @ dump rval @ '' @'' @ get_fileline li"

text \<open>
  A part of the check works on a copy of the hypotheses: the assignment is checked with those before
  it, and afterwards those after it are in force.
\<close>

definition with_hypotheses :: "hypothesis list \<Rightarrow> unit tc \<Rightarrow> unit tc" where
  "with_hypotheses precond m =
     bind (get hypotheses) (\<lambda>post. seq (set_hypotheses precond) (seq m (set_hypotheses post)))"

lemma with_hypotheses_cong [fundef_cong]:
  "hs = hs' \<Longrightarrow> m = m' \<Longrightarrow> with_hypotheses hs m = with_hypotheses hs' m'"
  by simp

section \<open>Statements\<close>

definition declare_parameters :: "(string \<times> ref option) list \<Rightarrow> unit tc" where
  "declare_parameters ps =
     change (\<lambda>s. s\<lparr>varsToType :=
       fold (\<lambda>(n, t). map_insert n (case t of None \<Rightarrow> BOT | Some r \<Rightarrow> r)) ps (varsToType s)\<rparr>)"

definition declare_wires :: "(string \<times> pwire) list \<Rightarrow> unit tc" where
  "declare_wires ws =
     change (\<lambda>s. s\<lparr>varsToType := fold (\<lambda>(n, w). map_insert (wname w) (sectype w)) ws (varsToType s)\<rparr>)"

definition declare_scope :: "lexical_scope \<Rightarrow> unit tc" where
  "declare_scope sc =
     seq (declare_parameters (parameters sc))
       (seq (declare_parameters (localparams sc)) (declare_wires (wires sc)))"

text \<open>
  The number of assignments that a statement stands for once conditional expressions are translated
  bounds the recursion.
\<close>

primrec branches :: "pexpr \<Rightarrow> nat" where
  "branches (PEConcat parms repeat) = 0"
| "branches (PEEvent edge expr) = 0"
| "branches (PEFNumber text) = 0"
| "branches (PEIdent path) = 0"
| "branches (PENumber num) = 0"
| "branches (PEString txt) = 0"
| "branches (PEUnary oper expr) = 0"
| "branches (PEBinary cls oper left right) = 0"
| "branches (PETernary li expr tru fal) = 4 + branches tru + branches fal"
| "branches (PECallFunction path parms) = 0"

definition or_zero :: "nat option \<Rightarrow> nat" where
  "or_zero n = (case n of None \<Rightarrow> 0 | Some k \<Rightarrow> k)"

primrec weight :: "stmt \<Rightarrow> nat" where
  "weight (PAssign li lval rval) = Suc (branches rval)"
| "weight (PAssignNB li lval rval) = Suc (branches rval)"
| "weight (PBlock sc list) = Suc (sum_list (map or_zero (map (map_option weight) list)))"
| "weight (PCallTask path parms) = 1"
| "weight (PCase expr items) =
     Suc (sum_list (map (\<lambda>it. case it of None \<Rightarrow> 0 | Some (es, st) \<Rightarrow> or_zero st)
       (map (map_option (map_prod id (map_option weight))) items)))"
| "weight (PCAssign lval expr) = 1"
| "weight (PCondit expr i e) =
     Suc (or_zero (map_option weight i) + or_zero (map_option weight e))"
| "weight (PDeassign lval) = 1"
| "weight (PDelayStatement delay st) = 1"
| "weight (PDisable sc) = 1"
| "weight (PEventStatement expr st) = Suc (or_zero (map_option weight st))"
| "weight (PForce lval expr) = 1"
| "weight (PForever st) = 1"
| "weight (PForStatement n1 e1 cond n2 e2 st) = 1"
| "weight PNoop = 1"
| "weight (PRelease lval) = 1"
| "weight (PRepeat expr st) = 1"
| "weight (PTrigger event) = 1"
| "weight (PWhile cond st) = 1"

lemma weight_translate_branch: "weight (translate_branch li lhs e) \<le> Suc (branches e)"
proof (induction e arbitrary: li)
  case (PETernary li' c t f)
  show ?case using PETernary.IH(2) [of li'] PETernary.IH(3) [of li'] by (simp add: or_zero_def)
qed simp_all

lemma weight_translate:
  "is_ternary e \<Longrightarrow> weight (translate_branch li lhs e) < Suc (branches e)"
proof (cases e)
  case (PETernary li' c t f)
  then show ?thesis
    using weight_translate_branch [of li' lhs t] weight_translate_branch [of li' lhs f]
    by (simp add: or_zero_def)
qed (simp_all add: is_ternary_def)

lemma weight_block: "Some st \<in> set list \<Longrightarrow> weight st < weight (PBlock sc list)"
  using member_le_sum_list [of "weight st" "map or_zero (map (map_option weight) list)"]
  by (force simp: or_zero_def image_iff)

lemma weight_case: "Some (es, Some st) \<in> set items \<Longrightarrow> weight st < weight (PCase expr items)"
  using member_le_sum_list [of "weight st" "map (\<lambda>it. case it of None \<Rightarrow> 0 | Some (es, st) \<Rightarrow> or_zero st)
       (map (map_option (map_prod id (map_option weight))) items)"]
  by (force simp: or_zero_def image_iff)

text \<open>
  The condition of a branch: its label joins the label of the context, and its text becomes the text
  of the context.
\<close>

definition enter_condition :: "pexpr \<Rightarrow> string \<Rightarrow> unit tc" where
  "enter_condition expr text =
     bind (get pc_label) (\<lambda>oldpc.
     bind (type_of expr) (\<lambda>etype.
     bind (new_label (JoinType etype oldpc)) (\<lambda>ty.
     bind (simplify_label ty) (\<lambda>ty.
       seq (set_pc ty) (set_pcstring text)))))"

definition restore :: "ref \<Rightarrow> string \<Rightarrow> unit tc" where
  "restore oldpc oldpcstring = seq (set_pc oldpc) (set_pcstring oldpcstring)"

definition enter_event :: "(edge_t \<times> pexpr) option \<Rightarrow> unit tc" where
  "enter_event ev =
     (case ev of
        None \<Rightarrow> ret ()
      | Some (edge, e) \<Rightarrow>
          bind (get (\<lambda>s. (pc_label s, pcstring s))) (\<lambda>(oldpc, oldpcstring).
          bind (type_of e) (\<lambda>ty.
          bind (new_label (JoinType oldpc ty)) (\<lambda>ty.
            seq (set_pc ty) (set_pcstring (oldpcstring @ dump e))))))"

definition keep_alive :: "string set \<Rightarrow> unit tc" where
  "keep_alive modified = change (\<lambda>s. s\<lparr>alive := alive s \<union> (dep_exprs s - modified)\<rparr>)"

section \<open>The checks of the statements\<close>

text \<open>
  One definition per statement class, over the checks of its parts. \<open>translated\<close> is the check of
  the statement that a conditional expression on the right side is translated to.
\<close>

definition typecheck_assignment ::
  "nat \<Rightarrow> string \<Rightarrow> pexpr \<Rightarrow> pexpr \<Rightarrow> unit tc \<Rightarrow> unit tc" where
  "typecheck_assignment lineno no lhs rhs translated =
     (if is_ternary rhs then translated else simple_assignment lineno no lhs rhs)"

definition PAssign_typecheck :: "lineinfo \<Rightarrow> pexpr \<Rightarrow> pexpr \<Rightarrow> unit tc \<Rightarrow> unit tc" where
  "PAssign_typecheck li lval rval translated =
     bind (get hypotheses) (\<lambda>precond.
       seq (PAssign_absintp lval rval)
         (with_hypotheses precond
           (typecheck_assignment (snd li) (assignment_note '' = '' li lval rval) lval rval translated)))"

definition PAssignNB_typecheck :: "lineinfo \<Rightarrow> pexpr \<Rightarrow> pexpr \<Rightarrow> unit tc \<Rightarrow> unit tc" where
  "PAssignNB_typecheck li lval rval translated =
     bind (get hypotheses) (\<lambda>precond.
       with_hypotheses precond
         (typecheck_assignment (snd li) (assignment_note '' <= '' li lval rval) lval rval translated))"

definition run_option :: "unit tc option \<Rightarrow> unit tc" where
  "run_option m = (case m of None \<Rightarrow> ret () | Some c \<Rightarrow> c)"

definition PBlock_typecheck :: "lexical_scope option \<Rightarrow> unit tc option list \<Rightarrow> unit tc" where
  "PBlock_typecheck sc list =
     seq (case sc of None \<Rightarrow> ret () | Some scope \<Rightarrow> declare_scope scope) (foreach list run_option)"

text \<open>
  In a case statement the deletion of old hypotheses compares an address inside a hypothesis, which is
  a copy, with that of the case expression and so never succeeds; and the assignment
  \<open>pred = oldh\<close> after an item calls an operator that assigns nothing.
\<close>

definition case_item :: "pexpr \<Rightarrow> pexpr list \<Rightarrow> unit tc option \<Rightarrow> unit tc" where
  "case_item e exprs stat =
     bind (get (\<lambda>s. (pc_label s, pcstring s, get_name e \<in> dep_exprs s)))
       (\<lambda>(oldpc, oldpcstring, need_hypo).
         seq (enter_condition e (dump e @ oldpcstring))
         (seq (case exprs of
                 [] \<Rightarrow> ret ()
               | e0 # others \<Rightarrow> if need_hypo then add_hypothesis (equation e e0) else ret ())
         (seq (run_option stat) (restore oldpc oldpcstring))))"

definition PCase_typecheck :: "pexpr option \<Rightarrow> (pexpr list \<times> unit tc option) option list \<Rightarrow> unit tc" where
  "PCase_typecheck expr items =
     (case expr of
        None \<Rightarrow> ret ()
      | Some e \<Rightarrow>
          foreach items (\<lambda>item.
            case item of None \<Rightarrow> ret () | Some (exprs, stat) \<Rightarrow> case_item e exprs stat))"

text \<open>\<open>check_if\<close> and \<open>check_else\<close> are the checks of the two branches.\<close>

definition branch :: "pexpr \<Rightarrow> stmt option \<Rightarrow> stmt option \<Rightarrow> bool \<Rightarrow> unit tc option \<Rightarrow> unit tc" where
  "branch expr if_st else_st istrue check =
     (case check of None \<Rightarrow> ret () | Some c \<Rightarrow> seq (PCondit_absintp expr if_st else_st istrue) c)"

definition PCondit_typecheck ::
  "pexpr \<Rightarrow> stmt option \<Rightarrow> stmt option \<Rightarrow> unit tc option \<Rightarrow> unit tc option \<Rightarrow> unit tc" where
  "PCondit_typecheck expr if_st else_st check_if check_else =
     bind (get (\<lambda>s. (pc_label s, pcstring s, hypotheses s, alive s, dep_exprs s)))
       (\<lambda>(oldpc, oldpcstring, beforeif, oldalive, dep).
         seq (enter_condition expr (dump expr))
         (seq (keep_alive (mustmodify (PCondit expr if_st else_st) dep))
         (seq (branch expr if_st else_st True check_if)
         (bind (get hypotheses) (\<lambda>afterif.
          seq (set_hypotheses beforeif)
         (seq (branch expr if_st else_st False check_else)
         (bind (get hypotheses) (\<lambda>afterelse.
          seq (restore oldpc oldpcstring)
         (seq (set_alive oldalive)
           (set_hypotheses (merge_hypotheses afterif afterelse)))))))))))"

definition PEventStatement_typecheck :: "(edge_t \<times> pexpr) option list \<Rightarrow> unit tc option \<Rightarrow> unit tc" where
  "PEventStatement_typecheck exprs st =
     bind (get (\<lambda>s. (pc_label s, pcstring s))) (\<lambda>(oldpc, oldpcstring).
       seq (foreach exprs enter_event)
         (seq (run_option st) (restore oldpc oldpcstring)))"

text \<open>The other statements: a loop only marks itself, the rest throw their name.\<close>

definition PCallTask_typecheck :: "unit tc" where "PCallTask_typecheck = throw ''PCallTask''"

definition PCAssign_typecheck :: "unit tc" where "PCAssign_typecheck = throw ''PCAssign''"

definition PDeassign_typecheck :: "unit tc" where "PDeassign_typecheck = throw ''PDeassign''"

definition PDelayStatement_typecheck :: "unit tc" where "PDelayStatement_typecheck = throw ''PDelay''"

definition PDisable_typecheck :: "unit tc" where "PDisable_typecheck = throw ''PDisable''"

definition PForce_typecheck :: "unit tc" where "PForce_typecheck = throw ''PForce''"

definition PForever_typecheck :: "unit tc" where "PForever_typecheck = throw ''PForever''"

definition PForStatement_typecheck :: "unit tc" where "PForStatement_typecheck = ret ()"

definition PNoop_typecheck :: "unit tc" where "PNoop_typecheck = throw ''PNoop''"

definition PRelease_typecheck :: "unit tc" where "PRelease_typecheck = throw ''PRelease''"

definition PRepeat_typecheck :: "unit tc" where "PRepeat_typecheck = throw ''PRepeat''"

definition PTrigger_typecheck :: "unit tc" where "PTrigger_typecheck = throw ''PTrigger''"

definition PWhile_typecheck :: "unit tc" where "PWhile_typecheck = throw ''PWhile''"

lemmas trivial_checks = PCallTask_typecheck_def PCAssign_typecheck_def PDeassign_typecheck_def
  PDelayStatement_typecheck_def PDisable_typecheck_def PForce_typecheck_def PForever_typecheck_def
  PForStatement_typecheck_def PNoop_typecheck_def PRelease_typecheck_def PRepeat_typecheck_def
  PTrigger_typecheck_def PWhile_typecheck_def

function check_stmt :: "stmt \<Rightarrow> unit tc" where
  "check_stmt (PAssign li lval rval) =
     PAssign_typecheck li lval rval
       (if is_ternary rval then check_stmt (translate_branch li lval rval) else ret ())"
| "check_stmt (PAssignNB li lval rval) =
     PAssignNB_typecheck li lval rval
       (if is_ternary rval then check_stmt (translate_branch li lval rval) else ret ())"
| "check_stmt (PBlock sc list) = PBlock_typecheck sc (map (map_option check_stmt) list)"
| "check_stmt (PCallTask path parms) = PCallTask_typecheck"
| "check_stmt (PCase expr items) =
     PCase_typecheck expr
       (map (\<lambda>item. case item of None \<Rightarrow> None | Some (exprs, stat) \<Rightarrow> Some (exprs, map_option check_stmt stat))
         items)"
| "check_stmt (PCAssign lval expr) = PCAssign_typecheck"
| "check_stmt (PCondit expr if_st else_st) =
     PCondit_typecheck expr if_st else_st (map_option check_stmt if_st) (map_option check_stmt else_st)"
| "check_stmt (PDeassign lval) = PDeassign_typecheck"
| "check_stmt (PDelayStatement delay st) = PDelayStatement_typecheck"
| "check_stmt (PDisable sc) = PDisable_typecheck"
| "check_stmt (PEventStatement exprs st) = PEventStatement_typecheck exprs (map_option check_stmt st)"
| "check_stmt (PForce lval expr) = PForce_typecheck"
| "check_stmt (PForever st) = PForever_typecheck"
| "check_stmt (PForStatement n1 e1 cond n2 e2 st) = PForStatement_typecheck"
| "check_stmt PNoop = PNoop_typecheck"
| "check_stmt (PRelease lval) = PRelease_typecheck"
| "check_stmt (PRepeat expr st) = PRepeat_typecheck"
| "check_stmt (PTrigger event) = PTrigger_typecheck"
| "check_stmt (PWhile cond st) = PWhile_typecheck"
  by pat_completeness auto
termination
proof (relation "measure weight", goal_cases)
  case 1 then show ?case by simp
next
  case (2 li lval rval) then show ?case by (simp add: weight_translate)
next
  case (3 li lval rval) then show ?case by (simp add: weight_translate)
next
  case 4 then show ?case by (auto intro: weight_block simp del: weight.simps)
next
  case 5 then show ?case by (auto intro: weight_case simp del: weight.simps)
qed (auto simp: or_zero_def)

declare check_stmt.simps [simp del]

end
