(* ===== verification/Hierarchy.thy ===== *)
theory Hierarchy
  imports TypeCheck
begin

text \<open>
  The checks above statements (\<open>typecheck.cc\<close>): processes, continuous assignments, instances,
  generate blocks, modules, the node file, and the traversal of the instance hierarchy by levels.
\<close>

type_synonym modules = "(string \<times> pmodule) list"

section \<open>Processes and continuous assignments\<close>

definition check_process :: "pprocess \<Rightarrow> unit tc" where
  "check_process p =
     (if initial p then ret () else seq (set_hypotheses []) (check_stmt (process_body p)))"

definition check_assign :: "lineinfo \<Rightarrow> pexpr \<Rightarrow> pexpr \<Rightarrow> unit tc" where
  "check_assign li lhs rhs =
     seq (set_hypotheses [])
       (typecheck_assignment (snd li) (''assign '' @ assignment_note '' = '' li lhs rhs) lhs rhs
         (check_stmt (translate_branch li lhs rhs)))"

section \<open>Instances\<close>

definition colored :: "string \<Rightarrow> string" where
  "colored t = [CHR 0x1B] @ ''[34m'' @ t @ [CHR 0x1B] @ ''[0m'' @ line_end"

definition unconnected :: "string \<Rightarrow> string \<Rightarrow> string \<Rightarrow> lineinfo \<Rightarrow> string" where
  "unconnected what pin_name ty li =
     colored (what @ '' port '' @ [CHR 0x27] @ pin_name @ [CHR 0x27] @ '' unconnected in module '' @ ty @
       '' @'' @ get_fileline li)"

text \<open>The messages for one pin; an input without a connection is reported by both tests.\<close>

definition port_messages :: "string \<Rightarrow> lineinfo \<Rightarrow> string \<Rightarrow> PortType \<Rightarrow> bool \<Rightarrow> string list" where
  "port_messages ty li pin_name pt connected =
     (if connected then []
      else (if pt = PINPUT \<or> pt = PINOUT then [unconnected ''Error: input'' pin_name ty li] else []) @
           (if pt = POUTPUT \<or> pt = PINOUT then [unconnected ''Waring: output'' pin_name ty li]
            else [unconnected ''Error: input'' pin_name ty li]))"

definition check_port :: "(string \<times> pwire) list \<Rightarrow> string \<Rightarrow> lineinfo \<Rightarrow> string \<times> pexpr option \<Rightarrow> unit tc" where
  "check_port mwires ty li pin =
     (case map_of mwires (fst pin) of
        None \<Rightarrow> ret ()
      | Some port \<Rightarrow>
          change (\<lambda>s. s\<lparr>portfile := portfile s @
            port_messages ty li (fst pin) (port_type port) (snd pin \<noteq> None)\<rparr>))"

text \<open>
  The steps of one pin: into an input or inout port from every signal of the expression, out of an
  output port to the first one. \<open>md\<close> names the enclosing instance, \<open>inst\<close> the one that is created.
\<close>

definition connect_pin ::
  "(string \<times> pwire) list \<Rightarrow> string \<Rightarrow> lineinfo \<Rightarrow> string \<Rightarrow> string \<Rightarrow> string \<times> pexpr option \<Rightarrow> unit tc" where
  "connect_pin mwires ty li md inst pin =
     (case (map_of mwires (fst pin), snd pin) of
        (Some port, Some param) \<Rightarrow>
          bind (condition_text inst) (\<lambda>pcs.
            let no = fst pin @ '' in module '' @ ty @ '' @'' @ get_fileline li
            in if port_type port = PINPUT \<or> port_type port = PINOUT then
                 write_constraint (mk_constraint no (wname port) (get_name param)
                   (typecheckstring param) [wname port] 1 pcs md inst)
               else if port_type port = POUTPUT then
                 write_constraint (mk_constraint no (get_name param) (wname port)
                   [wname port] (typecheckstring param) 2 pcs md inst)
               else ret ())
      | _ \<Rightarrow> ret ())"

definition PGModule_typecheck ::
  "modules \<Rightarrow> lineinfo \<Rightarrow> string \<Rightarrow> (string \<times> pexpr option) list \<Rightarrow> unit tc" where
  "PGModule_typecheck modules li ty pins =
     bind (get (\<lambda>s. (capitalize (text_of (parent_name s)), capitalize (current_module_name s))))
       (\<lambda>(md, inst).
         case map_of modules ty of
           None \<Rightarrow> ret ()
         | Some m \<Rightarrow>
             let mwires = wires (mod_scope m)
             in seq (foreach pins (check_port mwires ty li))
                  (foreach pins (connect_pin mwires ty li md inst)))"

definition child_path :: "string \<Rightarrow> tstate \<Rightarrow> string" where
  "child_path this s =
     (case parent_name s of None \<Rightarrow> [] | Some p \<Rightarrow> p @ ''_'') @
     (case instance_name s of None \<Rightarrow> this | Some i \<Rightarrow> i)"

definition set_instance :: "string option \<Rightarrow> string option \<Rightarrow> unit tc" where
  "set_instance inst parent = change (\<lambda>s. s\<lparr>instance_name := inst, parent_name := parent\<rparr>)"

definition check_instance ::
  "modules \<Rightarrow> string \<Rightarrow> lineinfo \<Rightarrow> string \<Rightarrow> string option \<Rightarrow> (string \<times> pexpr option) list \<Rightarrow> unit tc" where
  "check_instance modules this li ty inst pins =
     bind (get (\<lambda>s. (instance_name s, parent_name s, child_path this s)))
       (\<lambda>(old_inst, old_parent, path).
         seq (set_instance inst (Some path))
         (seq (PGModule_typecheck modules li ty pins)
         (seq (set_instance old_inst old_parent)
           (if map_of modules ty \<noteq> None
            then change (\<lambda>s. s\<lparr>children := children s @ [(ty, path, inst)]\<rparr>) else ret ()))))"

section \<open>Generate blocks\<close>

fun generate_gate :: "modules \<Rightarrow> string \<Rightarrow> gate \<Rightarrow> unit tc" where
  "generate_gate modules this (PGModule li ty inst pins) = check_instance modules this li ty inst pins"
| "generate_gate modules this (PGAssign li lhs rhs) = check_assign li lhs rhs"
| "generate_gate modules this PGBuiltin = ret ()"

text \<open>A block whose instance name was seen is skipped; the blocks inside a block have its name.\<close>

primrec check_generate :: "pgenerate \<Rightarrow> modules \<Rightarrow> string \<Rightarrow> unit tc" where
  "check_generate (PGenerate sc gates behavs analog gvars schemes) modules this =
     bind (get (\<lambda>s. (current_module_name s, current_module_name s \<in> seen_generates s)))
       (\<lambda>(n, seen).
         if seen then ret ()
         else
           seq (change (\<lambda>s. s\<lparr>seen_generates := insert n (seen_generates s)\<rparr>))
           (seq (declare_scope sc)
           (seq (foreach gates (generate_gate modules this))
           (seq (foreach behavs check_process)
           (seq (if analog \<noteq> 0 then throw ''AProcess'' else ret ())
           (seq (if gvars \<noteq> [] then throw ''genvars'' else ret ())
             (foreach (map check_generate schemes) (\<lambda>f. f modules this))))))))"

section \<open>Modules\<close>

definition node_line :: "heap \<Rightarrow> string \<Rightarrow> int set \<Rightarrow> string \<times> ref \<Rightarrow> string" where
  "node_line h inst B v =
     (let A = basic (h ! snd v); C = negative (h ! snd v); ps = inst @ ''_'' @ fst v
      in if A \<noteq> {} then printNodeToFile ps A B C else printNodeToFile ps {1} {} {})"

definition module_line :: "string \<Rightarrow> int set \<Rightarrow> string list" where
  "module_line inst B = (if B \<noteq> {} then [printNodeToFile inst {1} B {}] else [])"

definition outputPorts :: "unit tc" where
  "outputPorts =
     bind (get (\<lambda>s. (current_module_name s, current_module_name s \<in> seen_ports s)))
       (\<lambda>(n, seen).
         if seen then ret ()
         else
           seq (change (\<lambda>s. s\<lparr>seen_ports := insert n (seen_ports s)\<rparr>))
           (bind (get (\<lambda>s. (sec_label (env_module s), heap s, varsToType s))) (\<lambda>(label, h, vs).
             case label of
               None \<Rightarrow> if vs = [] then ret () else fail (Undefined ''sec_label'')
             | Some l \<Rightarrow>
                 let inst = capitalize n; B = positive (h ! l)
                 in change (\<lambda>s. s\<lparr>nodefile := nodefile s @ module_line inst B @ map (node_line h inst B) vs\<rparr>))))"

text \<open>An assignment is identified by its module and its place among the gates.\<close>

fun check_gate :: "modules \<Rightarrow> string \<Rightarrow> nat \<times> gate \<Rightarrow> unit tc" where
  "check_gate modules this (k, PGModule li ty inst pins) = check_instance modules this li ty inst pins"
| "check_gate modules this (k, PGAssign li lhs rhs) =
     bind (get (\<lambda>s. (this, k) \<in> checked_assigns s)) (\<lambda>is_checked.
       if is_checked then ret ()
       else seq (check_assign li lhs rhs)
              (change (\<lambda>s. s\<lparr>checked_assigns := insert (this, k) (checked_assigns s)\<rparr>)))"
| "check_gate modules this (k, PGBuiltin) = ret ()"

definition Module_typecheck :: "modules \<Rightarrow> unit tc" where
  "Module_typecheck modules =
     bind (get (\<lambda>s. (env_module s, current_module_name s, current_module_name s \<in> seen_modules s)))
       (\<lambda>(m, n, seen).
         if seen then ret ()
         else
           seq (change (\<lambda>s. s\<lparr>seen_modules := insert n (seen_modules s)\<rparr>))
           (seq (declare_parameters (parameters (mod_scope m)))
           (seq (declare_parameters (localparams (mod_scope m)))
           (seq (declare_parameters (map (\<lambda>g. (g, None)) (genvars m)))
           (seq (if specparams m \<noteq> 0 then throw ''specparm'' else ret ())
           (seq (if defparms m \<noteq> 0 then throw ''defparam'' else ret ())
           (seq (declare_wires (wires (mod_scope m)))
           (seq (foreach (generate_schemes m) (\<lambda>g. check_generate g modules (mod_name m)))
           (seq outputPorts
           (seq (foreach (enumerate 0 (mod_gates m)) (check_gate modules (mod_name m)))
           (seq (foreach (behaviors m) check_process)
           (seq (if analog_behaviors m \<noteq> 0 then throw ''AProcess'' else ret ())
             (if specify_paths m \<noteq> 0 then throw ''PSpecPath'' else ret ())))))))))))))"

section \<open>The hierarchy\<close>

type_synonym task = "string \<times> string option \<times> string option"

text \<open>
  The environment of a task is new; the output, the static sets, the labels and the marks persist.
  A thrown text is caught, and the children that were found before it count.
\<close>

definition new_env :: "pmodule \<Rightarrow> string option \<Rightarrow> string option \<Rightarrow> tstate \<Rightarrow> tstate" where
  "new_env m parent inst s =
     s\<lparr>varsToType := [], pc_label := BOT, pcstring := [], env_module := m, instance_name := inst,
       parent_name := parent, alive := {}, dep_exprs := {}, hypotheses := [], children := []\<rparr>"

definition check_task :: "modules \<Rightarrow> task \<Rightarrow> tstate \<Rightarrow> string + (task list \<times> tstate)" where
  "check_task modules t s =
     (case t of (module_type, parent, inst) \<Rightarrow>
        case map_of modules module_type of
          None \<Rightarrow> Inr ([], s)
        | Some m \<Rightarrow>
            (case Module_typecheck modules (new_env m parent inst s) of
               (Inl (Undefined u), s') \<Rightarrow> Inl u
             | (_, s') \<Rightarrow> Inr (map (\<lambda>(ty, path, i). (ty, Some path, i)) (children s'), s')))"

fun check_level :: "modules \<Rightarrow> task list \<Rightarrow> tstate \<Rightarrow> string + (task list \<times> tstate)" where
  "check_level modules [] s = Inr ([], s)"
| "check_level modules (t # ts) s =
     (case check_task modules t s of
        Inl u \<Rightarrow> Inl u
      | Inr (next1, s1) \<Rightarrow>
          (case check_level modules ts s1 of
             Inl u \<Rightarrow> Inl u
           | Inr (next2, s2) \<Rightarrow> Inr (next1 @ next2, s2)))"

text \<open>The loop over the levels, which ends when a level has no children; \<open>None\<close>: the fuel is spent.\<close>

fun traverse :: "nat \<Rightarrow> modules \<Rightarrow> task list \<Rightarrow> tstate \<Rightarrow> (string + tstate) option" where
  "traverse fuel modules [] s = Some (Inr s)"
| "traverse 0 modules (t # ts) s = None"
| "traverse (Suc fuel) modules (t # ts) s =
     (case check_level modules (t # ts) s of
        Inl u \<Rightarrow> Some (Inl u)
      | Inr (next_level, s') \<Rightarrow> traverse fuel modules next_level s')"

definition root_tasks :: "modules \<Rightarrow> string list \<Rightarrow> task list" where
  "root_tasks modules roots =
     map (\<lambda>r. (r, None, None)) (filter (\<lambda>r. map_of modules r \<noteq> None) roots)"

definition typecheck :: "nat \<Rightarrow> modules \<Rightarrow> string list \<Rightarrow> tstate \<Rightarrow> (string + tstate) option" where
  "typecheck fuel modules roots s = traverse fuel modules (root_tasks modules roots) s"

definition tolower :: "char \<Rightarrow> char" where
  "tolower c =
     (if 65 \<le> (of_char c :: nat) \<and> (of_char c :: nat) \<le> 90 then char_of ((of_char c :: nat) + 32) else c)"

text \<open>The stem of the names of the three files, from the first root or the file of a module.\<close>

definition output_stem :: "string list \<Rightarrow> string \<Rightarrow> string" where
  "output_stem roots module_file =
     map tolower (case roots of
         r # others \<Rightarrow> r
       | [] \<Rightarrow> takeWhile (\<lambda>c. c \<noteq> CHR ''.'') (rev (takeWhile (\<lambda>c. c \<noteq> CHR ''/'') (rev module_file))))"

end
