(* ===== verification/ConditionText.thy ===== *)
theory ConditionText
  imports Steps
begin

text \<open>
  What \<open>formatStringByMap\<close> finds in the text of a condition (\<open>typecheck.cc\<close>): the variables of the
  condition, each once, in the order of their first occurrence, when the text separates them.
\<close>

lemma longest_match_cases:
  "foldl (longer_match s) b keys = b \<or>
   (foldl (longer_match s) b keys \<in> set keys \<and>
    take (length (foldl (longer_match s) b keys)) s = foldl (longer_match s) b keys \<and>
    length (foldl (longer_match s) b keys) \<le> length s)"
proof (induction keys arbitrary: b)
  case (Cons k keys)
  show ?case
  proof (cases "longer_match s b k = b")
    case True
    then show ?thesis using Cons [of b] by auto
  next
    case False
    then have k: "longer_match s b k = k" "length k \<le> length s" "take (length k) s = k"
      by (auto simp: longer_match_def split: if_splits)
    then show ?thesis using Cons [of k] by auto
  qed
qed simp

lemma longest_match_length:
  "length b \<le> length (foldl (longer_match s) b keys) \<and>
   (\<forall>k\<in>set keys. length k \<le> length s \<longrightarrow> take (length k) s = k \<longrightarrow>
     length k \<le> length (foldl (longer_match s) b keys))"
proof (induction keys arbitrary: b)
  case (Cons k keys)
  have b: "length b \<le> length (longer_match s b k)"
    by (simp add: longer_match_def)
  have k: "length k \<le> length s \<Longrightarrow> take (length k) s = k \<Longrightarrow> length k \<le> length (longer_match s b k)"
    by (simp add: longer_match_def)
  show ?case using Cons [of "longer_match s b k"] b k by (auto intro: order.trans)
qed simp

lemma longest_match_eqI:
  assumes "k \<in> set keys" "take (length k) s = k" "length k \<le> length s"
    and "\<And>k'. k' \<in> set keys \<Longrightarrow> take (length k') s = k' \<Longrightarrow> length k' \<le> length s \<Longrightarrow> length k' \<le> length k"
  shows "longest_match keys s = k"
proof (cases "k = []")
  case True
  then have "length (longest_match keys s) = 0"
    using assms(4) longest_match_cases [of s "[]" keys] by (auto simp: longest_match_def)
  then show ?thesis using True by simp
next
  case False
  let ?m = "longest_match keys s"
  have "length k \<le> length ?m"
    using longest_match_length [of "[]" s keys] assms(1-3) by (auto simp: longest_match_def)
  then have "?m \<noteq> []" using False by auto
  then have m: "?m \<in> set keys" "take (length ?m) s = ?m" "length ?m \<le> length s"
    using longest_match_cases [of s "[]" keys] unfolding longest_match_def by blast+
  then have "length ?m \<le> length k" using assms(4) by blast
  then have l: "length ?m = length k" using \<open>length k \<le> length ?m\<close> by simp
  have "?m = take (length ?m) s" by (rule m(2) [symmetric])
  also have "\<dots> = k" unfolding l by (rule assms(2))
  finally show ?thesis .
qed

lemma longest_match_none:
  assumes "\<And>k. k \<in> set keys \<Longrightarrow> k \<noteq> [] \<Longrightarrow> take (length k) s \<noteq> k"
  shows "longest_match keys s = []"
proof (rule ccontr)
  assume ne: "longest_match keys s \<noteq> []"
  then have "longest_match keys s \<in> set keys"
    "take (length (longest_match keys s)) s = longest_match keys s"
    using longest_match_cases [of s "[]" keys] unfolding longest_match_def by blast+
  then show False using assms ne by blast
qed

text \<open>The text, once read, is a list of keys that the loop has met so far.\<close>

definition add_key :: "string \<Rightarrow> string set \<times> string \<Rightarrow> string \<Rightarrow> string set \<times> string" where
  "add_key inst acc key =
     (if key \<in> fst acc then acc
      else (insert key (fst acc),
        (if snd acc \<noteq> [] then snd acc @ '','' else snd acc) @ prefixed inst key))"

lemma format_from_Nil: "format_from keys inst [] seen result = result"
  by (subst format_from.simps) simp

lemma format_from_key:
  assumes "longest_match keys s = k" "k \<noteq> []" "s \<noteq> []"
  shows "format_from keys inst s seen result =
    (case add_key inst (seen, result) k of (seen', result') \<Rightarrow>
      format_from keys inst (drop (length k) s) seen' result')"
  using assms by (subst format_from.simps) (simp add: add_key_def insert_absorb)

lemma format_from_skip:
  assumes "longest_match keys s = []" "s \<noteq> []"
  shows "format_from keys inst s seen result = format_from keys inst (drop 1 s) seen result"
  using assms by (subst format_from.simps) simp

text \<open>A text of keys and separators: every key is made of word characters, the separators of others.\<close>

lemma format_from_separator:
  assumes "\<forall>k\<in>set keys. set k \<subseteq> wd" "set sep \<inter> wd = {}"
  shows "format_from keys inst (sep @ s) seen result = format_from keys inst s seen result"
  using assms(2)
proof (induction sep)
  case (Cons c sep)
  have "longest_match keys (c # sep @ s) = []"
  proof (rule longest_match_none)
    fix k assume k: "k \<in> set keys" "k \<noteq> []"
    then have "hd k \<in> wd" using assms(1) hd_in_set by blast
    then show "take (length k) (c # sep @ s) \<noteq> k" using k(2) Cons.prems by (cases k) auto
  qed
  then show ?case using Cons by (simp add: format_from_skip)
qed simp

lemma format_from_word:
  assumes keys: "\<forall>k\<in>set keys. set k \<subseteq> wd" and k: "k \<in> set keys" "k \<noteq> []"
    and rest: "rest = [] \<or> hd rest \<notin> wd"
  shows "format_from keys inst (k @ rest) seen result =
    (case add_key inst (seen, result) k of (seen', result') \<Rightarrow> format_from keys inst rest seen' result')"
proof -
  have "longest_match keys (k @ rest) = k"
  proof (rule longest_match_eqI)
    fix k' assume k': "k' \<in> set keys" "take (length k') (k @ rest) = k'" "length k' \<le> length (k @ rest)"
    show "length k' \<le> length k"
    proof (rule ccontr)
      assume "\<not> length k' \<le> length k"
      then have l: "length k < length k'" by simp
      then have "rest \<noteq> []" using k'(3) by auto
      moreover have "k' ! length k = (k @ rest) ! length k"
        using k'(2) l by (metis nth_take)
      ultimately have "k' ! length k = hd rest" by (simp add: hd_conv_nth nth_append)
      then have "hd rest \<in> set k'" using l nth_mem [of "length k" k'] by simp
      then show False using rest keys k'(1) \<open>rest \<noteq> []\<close> by auto
    qed
  qed (use k in auto)
  then show ?thesis using k by (simp add: format_from_key)
qed

definition condition :: "string \<Rightarrow> (string \<times> string) list \<Rightarrow> string" where
  "condition lead ws = lead @ concat (map (\<lambda>(k, sep). k @ sep) ws)"

lemma format_from_condition:
  assumes keys: "\<forall>k\<in>set keys. set k \<subseteq> wd"
    and "set lead \<inter> wd = {}"
    and "\<And>k sep. (k, sep) \<in> set ws \<Longrightarrow> k \<in> set keys \<and> k \<noteq> [] \<and> sep \<noteq> [] \<and> set sep \<inter> wd = {}"
  shows "format_from keys inst (condition lead ws) seen result =
    snd (foldl (add_key inst) (seen, result) (map fst ws))"
  using assms(2,3)
proof (induction ws arbitrary: lead seen result)
  case Nil
  then show ?case using format_from_separator [OF keys, of lead inst "[]" seen result]
    by (simp add: condition_def format_from_Nil)
next
  case (Cons w ws)
  obtain k sep where w: "w = (k, sep)" by force
  have ks: "k \<in> set keys" "k \<noteq> []" "sep \<noteq> []" "set sep \<inter> wd = {}"
    using Cons.prems(2) w by auto
  have "hd sep \<notin> wd" using ks(3,4) hd_in_set by blast
  then have r: "condition sep ws = [] \<or> hd (condition sep ws) \<notin> wd"
    using ks(3) by (simp add: condition_def)
  have "condition lead (w # ws) = lead @ k @ condition sep ws" by (simp add: condition_def w)
  then have "format_from keys inst (condition lead (w # ws)) seen result =
      (case add_key inst (seen, result) k of (seen', result') \<Rightarrow>
        format_from keys inst (condition sep ws) seen' result')"
    using format_from_separator [OF keys Cons.prems(1)] format_from_word [OF keys ks(1,2) r]
    by simp
  also have "\<dots> = snd (foldl (add_key inst) (add_key inst (seen, result) k) (map fst ws))"
  proof -
    obtain seen' result' where "add_key inst (seen, result) k = (seen', result')" by force
    moreover have "format_from keys inst (condition sep ws) seen' result' =
        snd (foldl (add_key inst) (seen', result') (map fst ws))"
      by (rule Cons.IH [OF ks(4)]) (rule Cons.prems(2), simp)
    ultimately show ?thesis by simp
  qed
  finally show ?case by (simp add: w)
qed

text \<open>Each key at its first occurrence.\<close>

fun first_occurrences :: "string set \<Rightarrow> string list \<Rightarrow> string list" where
  "first_occurrences seen [] = []"
| "first_occurrences seen (k # ks) =
     (if k \<in> seen then first_occurrences seen ks else k # first_occurrences (insert k seen) ks)"

lemma set_first_occurrences: "set (first_occurrences seen ks) = set ks - seen"
  by (induction ks arbitrary: seen) auto

lemma distinct_first_occurrences: "distinct (first_occurrences seen ks)"
  by (induction ks arbitrary: seen) (auto simp: set_first_occurrences)

lemma join_with_snoc:
  "xs \<noteq> [] \<Longrightarrow> join_with sep (xs @ [x]) = join_with sep xs @ sep @ x"
  by (induction sep xs rule: join_with.induct) auto

lemma join_with_Nil: "\<forall>x\<in>set xs. x \<noteq> [] \<Longrightarrow> join_with sep xs = [] \<longleftrightarrow> xs = []"
  by (induction sep xs rule: join_with.induct) auto

lemma add_keys:
  assumes "\<forall>k\<in>set (done_keys @ ks). k \<noteq> []"
  shows "snd (foldl (add_key inst) (seen, join_with '','' (map (prefixed inst) done_keys)) ks) =
    join_with '','' (map (prefixed inst) (done_keys @ first_occurrences seen ks))"
  using assms
proof (induction ks arbitrary: seen done_keys)
  case (Cons k ks)
  show ?case
  proof (cases "k \<in> seen")
    case True
    then show ?thesis using Cons by (simp add: add_key_def)
  next
    case False
    have ne: "\<forall>x\<in>set (map (prefixed inst) done_keys). x \<noteq> []"
      using Cons.prems by (auto simp: prefixed_def)
    have "add_key inst (seen, join_with '','' (map (prefixed inst) done_keys)) k =
        (insert k seen, join_with '','' (map (prefixed inst) (done_keys @ [k])))"
      using False join_with_Nil [OF ne, of "'',''"]
        join_with_snoc [of "map (prefixed inst) done_keys" "'',''" "prefixed inst k"]
      by (auto simp: add_key_def)
    then show ?thesis using Cons.IH [of "done_keys @ [k]" "insert k seen"] Cons.prems False by simp
  qed
qed simp

text \<open>
  C22. The condition recorded with a step: if the text of the condition is a sequence of variables
  separated by characters that occur in no variable, the result lists the variables of the text,
  each once and in the order of their first occurrence, with the instance as a prefix.
\<close>

theorem condition_text_exact:
  assumes "\<And>k. k \<in> fst ` set vars \<Longrightarrow> set k \<subseteq> wd" "set lead \<inter> wd = {}"
    and "\<And>k sep. (k, sep) \<in> set ws \<Longrightarrow>
      k \<in> fst ` set vars \<and> k \<noteq> [] \<and> sep \<noteq> [] \<and> set sep \<inter> wd = {}"
  shows "\<exists>ks. formatStringByMap (condition lead ws) vars inst = join_with '','' (map (prefixed inst) ks) \<and>
    distinct ks \<and> set ks = fst ` set ws \<and> ks = first_occurrences {} (map fst ws)"
proof -
  have "formatStringByMap (condition lead ws) vars inst =
      snd (foldl (add_key inst) ({}, []) (map fst ws))"
    unfolding formatStringByMap_def
    by (rule format_from_condition [of "map fst vars" wd]) (use assms in auto)
  also have "\<dots> = join_with '','' (map (prefixed inst) (first_occurrences {} (map fst ws)))"
    using add_keys [of "[]" "map fst ws" inst "{}"] assms(3) by force
  finally show ?thesis
    by (intro exI [of _ "first_occurrences {} (map fst ws)"])
      (simp add: distinct_first_occurrences set_first_occurrences)
qed

definition word_chars :: "char set" where
  "word_chars = set ''abcdefghijklmnopqrstuvwxyzABCDEFGHIJKLMNOPQRSTUVWXYZ0123456789_''"

theorem condition_text_exact_witness:
  "formatStringByMap ''(sel)+(ab)-(sel) '' [(''a'', 4), (''ab'', 5), (''sel'', 6)] ''Top'' =
     ''Top_sel,Top_ab''"
proof -
  let ?vars = "[(''a'', 4), (''ab'', 5), (''sel'', 6)] :: vars"
  let ?ws = "[(''sel'', '')+(''), (''ab'', '')-(''), (''sel'', '') '')]"
  have "\<exists>ks. formatStringByMap (condition ''('' ?ws) ?vars ''Top'' =
      join_with '','' (map (prefixed ''Top'') ks) \<and>
      distinct ks \<and> set ks = fst ` set ?ws \<and> ks = first_occurrences {} (map fst ?ws)"
    by (rule condition_text_exact [where wd = word_chars]) (auto simp: word_chars_def)
  then show ?thesis by (simp add: condition_def prefixed_def)
qed

end
