(* ===== verification/Flows.thy ===== *)
theory Flows
  imports TypeCheck ConditionText
begin

text \<open>
  The steps of a statement. A logic of checks relates every check to the effect of its assignments;
  the two instances of the logic say which pairs of signals a statement records, and which parts of
  the state no statement touches.
\<close>

section \<open>The assignments of a statement\<close>

primrec leaf_values :: "pexpr \<Rightarrow> pexpr list" where
  "leaf_values (PEConcat parms repeat) = [PEConcat parms repeat]"
| "leaf_values (PEEvent edge expr) = [PEEvent edge expr]"
| "leaf_values (PEFNumber text) = [PEFNumber text]"
| "leaf_values (PEIdent path) = [PEIdent path]"
| "leaf_values (PENumber num) = [PENumber num]"
| "leaf_values (PEString txt) = [PEString txt]"
| "leaf_values (PEUnary oper expr) = [PEUnary oper expr]"
| "leaf_values (PEBinary cls oper left right) = [PEBinary cls oper left right]"
| "leaf_values (PETernary li expr tru fal) = leaf_values tru @ leaf_values fal"
| "leaf_values (PECallFunction path parms) = [PECallFunction path parms]"

text \<open>
  The assignments that the checker visits, in the order of the statement. A for loop is passed over
  with everything inside it (\<open>PForStatement::typecheck\<close> prints a line on the console and returns), as
  is a case statement without an expression; the other loops, delays, task calls and procedural
  continuous assignments make the check fail. \<open>skips_part\<close> says whether a statement has such a part
  and \<open>all_assignments\<close> lists the assignments of a statement wherever they stand.
\<close>

primrec checked_assignments :: "stmt \<Rightarrow> (pexpr \<times> pexpr) list" where
  "checked_assignments (PAssign li lval rval) = map (Pair lval) (leaf_values rval)"
| "checked_assignments (PAssignNB li lval rval) = map (Pair lval) (leaf_values rval)"
| "checked_assignments (PBlock sc list) = concat (map or_empty (map (map_option checked_assignments) list))"
| "checked_assignments (PCallTask path parms) = []"
| "checked_assignments (PCase expr items) =
     (if expr = None then []
      else concat (map (\<lambda>it. case it of None \<Rightarrow> [] | Some (es, st) \<Rightarrow> or_empty st)
        (map (map_option (map_prod id (map_option checked_assignments))) items)))"
| "checked_assignments (PCAssign lval expr) = []"
| "checked_assignments (PCondit expr i e) = or_empty (map_option checked_assignments i) @ or_empty (map_option checked_assignments e)"
| "checked_assignments (PDeassign lval) = []"
| "checked_assignments (PDelayStatement delay st) = []"
| "checked_assignments (PDisable sc) = []"
| "checked_assignments (PEventStatement expr st) = or_empty (map_option checked_assignments st)"
| "checked_assignments (PForce lval expr) = []"
| "checked_assignments (PForever st) = []"
| "checked_assignments (PForStatement n1 e1 cond n2 e2 st) = []"
| "checked_assignments PNoop = []"
| "checked_assignments (PRelease lval) = []"
| "checked_assignments (PRepeat expr st) = []"
| "checked_assignments (PTrigger event) = []"
| "checked_assignments (PWhile cond st) = []"

definition any_of :: "bool option \<Rightarrow> bool" where
  "any_of b = (b = Some True)"

primrec skips_part :: "stmt \<Rightarrow> bool" where
  "skips_part (PAssign li lval rval) = False"
| "skips_part (PAssignNB li lval rval) = False"
| "skips_part (PBlock sc list) = list_ex any_of (map (map_option skips_part) list)"
| "skips_part (PCallTask path parms) = False"
| "skips_part (PCase expr items) =
     (expr = None \<or> list_ex (\<lambda>it. case it of None \<Rightarrow> False | Some (es, st) \<Rightarrow> any_of st)
        (map (map_option (map_prod id (map_option skips_part))) items))"
| "skips_part (PCAssign lval expr) = True"
| "skips_part (PCondit expr i e) = (any_of (map_option skips_part i) \<or> any_of (map_option skips_part e))"
| "skips_part (PDeassign lval) = False"
| "skips_part (PDelayStatement delay st) = True"
| "skips_part (PDisable sc) = False"
| "skips_part (PEventStatement expr st) = any_of (map_option skips_part st)"
| "skips_part (PForce lval expr) = True"
| "skips_part (PForever st) = True"
| "skips_part (PForStatement n1 e1 cond n2 e2 st) = True"
| "skips_part PNoop = False"
| "skips_part (PRelease lval) = False"
| "skips_part (PRepeat expr st) = True"
| "skips_part (PTrigger event) = False"
| "skips_part (PWhile cond st) = True"

primrec all_assignments :: "stmt \<Rightarrow> (pexpr \<times> pexpr) list" where
  "all_assignments (PAssign li lval rval) = map (Pair lval) (leaf_values rval)"
| "all_assignments (PAssignNB li lval rval) = map (Pair lval) (leaf_values rval)"
| "all_assignments (PBlock sc list) = concat (map or_empty (map (map_option all_assignments) list))"
| "all_assignments (PCallTask path parms) = []"
| "all_assignments (PCase expr items) =
     concat (map (\<lambda>it. case it of None \<Rightarrow> [] | Some (es, st) \<Rightarrow> or_empty st)
       (map (map_option (map_prod id (map_option all_assignments))) items))"
| "all_assignments (PCAssign lval expr) = map (Pair lval) (leaf_values expr)"
| "all_assignments (PCondit expr i e) =
     or_empty (map_option all_assignments i) @ or_empty (map_option all_assignments e)"
| "all_assignments (PDeassign lval) = []"
| "all_assignments (PDelayStatement delay st) = or_empty (map_option all_assignments st)"
| "all_assignments (PDisable sc) = []"
| "all_assignments (PEventStatement expr st) = or_empty (map_option all_assignments st)"
| "all_assignments (PForce lval expr) = map (Pair lval) (leaf_values expr)"
| "all_assignments (PForever st) = or_empty (map_option all_assignments st)"
| "all_assignments (PForStatement n1 e1 cond n2 e2 st) =
     map (Pair n1) (leaf_values e1) @ or_empty (map_option all_assignments st) @ map (Pair n2) (leaf_values e2)"
| "all_assignments PNoop = []"
| "all_assignments (PRelease lval) = []"
| "all_assignments (PRepeat expr st) = or_empty (map_option all_assignments st)"
| "all_assignments (PTrigger event) = []"
| "all_assignments (PWhile cond st) = or_empty (map_option all_assignments st)"

lemma set_concat_map_mono:
  "(\<And>x. x \<in> set xs \<Longrightarrow> set (f x) \<subseteq> set (g x)) \<Longrightarrow> set (concat (map f xs)) \<subseteq> set (concat (map g xs))"
  by auto

lemma checked_in_all: "set (checked_assignments st) \<subseteq> set (all_assignments st)"
proof (induction st)
  case (PBlock sc list)
  then show ?case by (fastforce simp: or_empty_def split: option.splits)
next
  case (PCase expr items)
  have "set (case map_option (map_prod id (map_option checked_assignments)) it of None \<Rightarrow> [] | Some (es, st) \<Rightarrow> or_empty st)
      \<subseteq> set (case map_option (map_prod id (map_option all_assignments)) it of None \<Rightarrow> [] | Some (es, st) \<Rightarrow> or_empty st)"
    if "it \<in> set items" for it
  proof (cases it)
    case (Some p)
    show ?thesis
    proof (cases "snd p")
      case (Some st)
      have "set (checked_assignments st) \<subseteq> set (all_assignments st)"
        using PCase [of it p "snd p" st] that \<open>it = Some p\<close> Some by (cases p) auto
      then show ?thesis using \<open>it = Some p\<close> Some by (cases p) (simp add: or_empty_def)
    qed (cases p, simp add: Some or_empty_def)
  qed simp
  then show ?case by (cases "expr = None") (simp_all only: checked_assignments.simps all_assignments.simps
      if_True if_False list.set empty_subsetI set_concat_map_mono map_map comp_def option.distinct simp_thms)
qed (auto simp: or_empty_def split: option.splits)

lemma checked_are_all: "\<not> skips_part st \<Longrightarrow> checked_assignments st = all_assignments st"
proof (induction st)
  case (PBlock sc list)
  have "or_empty (map_option checked_assignments st) = or_empty (map_option all_assignments st)" if "st \<in> set list" for st
  proof (cases st)
    case (Some a)
    have "\<not> any_of (map_option skips_part st)" using PBlock.prems that by (force simp: list_ex_iff)
    then have "\<not> skips_part a" by (simp add: Some any_of_def)
    then show ?thesis using PBlock.IH [of st a] that Some by (simp add: or_empty_def)
  qed (simp add: or_empty_def)
  then show ?case by (simp add: comp_def cong: map_cong)
next
  case (PCase expr items)
  have "(case map_option (map_prod id (map_option checked_assignments)) it of None \<Rightarrow> [] | Some (es, st) \<Rightarrow> or_empty st) =
      (case map_option (map_prod id (map_option all_assignments)) it of None \<Rightarrow> [] | Some (es, st) \<Rightarrow> or_empty st)"
    if "it \<in> set items" for it
  proof (cases it)
    case (Some p)
    have b: "\<not> (case map_option (map_prod id (map_option skips_part)) it of None \<Rightarrow> False | Some (es, st) \<Rightarrow> any_of st)"
      using PCase.prems that by (auto simp: list_ex_iff)
    show ?thesis
    proof (cases "snd p")
      case (Some st)
      have "checked_assignments st = all_assignments st"
        using PCase.IH [of it p "snd p" st] b that \<open>it = Some p\<close> Some by (cases p) (auto simp: any_of_def)
      then show ?thesis using \<open>it = Some p\<close> Some by (cases p) (simp add: or_empty_def)
    qed (cases p, simp add: Some or_empty_def)
  qed simp
  then show ?case using PCase.prems by (cases expr) (simp_all add: comp_def cong: map_cong)
qed (auto simp: or_empty_def any_of_def split: option.splits)

lemma checked_assignments_translate: "checked_assignments (translate_branch li lhs e) = map (Pair lhs) (leaf_values e)"
proof (induction e arbitrary: li)
  case (PETernary li' c t f)
  show ?case using PETernary.IH(2) [of li'] PETernary.IH(3) [of li'] by (simp add: or_empty_def)
qed simp_all

lemma leaf_values_simple: "\<not> is_ternary e \<Longrightarrow> leaf_values e = [e]"
  by (cases e) (simp_all add: is_ternary_def)

lemma UN_concat: "(\<Union>x\<in>set (concat (map g xs)). B x) = (\<Union>y\<in>set xs. \<Union>x\<in>set (g y). B x)"
  by auto

lemma foreach_map: "foreach (map g xs) f = foreach xs (\<lambda>x. f (g x))"
  by (induction xs) simp_all

section \<open>A logic of checks\<close>

lemma bind_get: "bind (get g) f = bind (get (\<lambda>s. s)) (\<lambda>s. f (g s))"
  by (simp add: bind_def get_def fun_eq_iff)

locale statement_logic =
  fixes J :: "unit tc \<Rightarrow> 'e set \<Rightarrow> bool"
    and A :: "pexpr \<Rightarrow> pexpr \<Rightarrow> 'e set"
  assumes J_ret: "J (ret ()) {}"
    and J_throw: "J (throw t) E"
    and J_seq: "J m E \<Longrightarrow> J n F \<Longrightarrow> J (seq m n) (E \<union> F)"
    and J_state: "(\<And>s. J (f s) E) \<Longrightarrow> J (bind (get (\<lambda>s. s)) f) E"
    and J_scope: "J (declare_scope sc) {}"
    and J_hypotheses: "J (change (\<lambda>s. s\<lparr>hypotheses := fh s, allocs := fa s\<rparr>)) {}"
    and J_enter: "J (enter_condition cond text) {}"
    and J_event: "J (enter_event ev) {}"
    and J_pc: "J (set_pc ty) {}"
    and J_pcstring: "J (set_pcstring text) {}"
    and J_alive: "J (change (\<lambda>s. s\<lparr>alive := fv s\<rparr>)) {}"
    and J_assign: "J (simple_assignment k no lval rval) (A lval rval)"
begin

lemma J_get: "(\<And>x. J (f x) E) \<Longrightarrow> J (bind (get g) f) E"
  by (subst bind_get) (rule J_state)

lemma J_seq_left: "J m E \<Longrightarrow> J n {} \<Longrightarrow> J (seq m n) E"
  using J_seq [of m E n "{}"] by simp

lemma J_seq_right: "J m {} \<Longrightarrow> J n E \<Longrightarrow> J (seq m n) E"
  using J_seq [of m "{}" n E] by simp

lemma J_foreach: "(\<And>x. x \<in> set xs \<Longrightarrow> J (f x) (E x)) \<Longrightarrow> J (foreach xs f) (\<Union>x\<in>set xs. E x)"
proof (induction xs)
  case (Cons x xs)
  have "J (seq (f x) (foreach xs f)) (E x \<union> (\<Union>x\<in>set xs. E x))"
    using Cons by (intro J_seq) auto
  then show ?case by simp
qed (simp add: J_ret)

lemma J_foreach_none: "(\<And>x. x \<in> set xs \<Longrightarrow> J (f x) {}) \<Longrightarrow> J (foreach xs f) {}"
  using J_foreach [of xs f "\<lambda>_. {}"] by simp

lemma J_set_hypotheses: "J (set_hypotheses hs) {}"
proof -
  have e: "set_hypotheses hs = change (\<lambda>s. s\<lparr>hypotheses := hs, allocs := allocs s\<rparr>)"
    by (simp add: set_hypotheses_def change_def fun_eq_iff)
  show ?thesis unfolding e by (rule J_hypotheses)
qed

lemma J_add_hypothesis: "J (add_hypothesis e) {}"
  unfolding add_hypothesis_def by (rule J_hypotheses)

lemma J_absintp: "J (PAssign_absintp l r) {}"
proof -
  have e: "change (\<lambda>s. s\<lparr>hypotheses := invalidate (hypotheses s) (get_name l)\<rparr>) =
      change (\<lambda>s. s\<lparr>hypotheses := invalidate (hypotheses s) (get_name l), allocs := allocs s\<rparr>)"
    by (simp add: change_def fun_eq_iff)
  have "J (change (\<lambda>s. s\<lparr>hypotheses := invalidate (hypotheses s) (get_name l)\<rparr>)) {}"
    unfolding e by (rule J_hypotheses)
  then show ?thesis unfolding PAssign_absintp_def
    by (rule J_seq_right) (auto intro!: J_get J_ret J_add_hypothesis)
qed

lemma J_condit: "J (PCondit_absintp e i l b) {}"
  unfolding PCondit_absintp_def
  by (auto intro!: J_get J_ret J_add_hypothesis split: option.split)

lemma J_with_hypotheses: "J m E \<Longrightarrow> J (with_hypotheses hs m) E"
  unfolding with_hypotheses_def
  by (intro J_get J_seq_right J_set_hypotheses J_seq_left)

lemma J_restore: "J (restore r t) {}"
  unfolding restore_def by (intro J_seq_left J_pc J_pcstring)

lemma J_option: "(\<And>x. p = Some x \<Longrightarrow> J (f x) (E x)) \<Longrightarrow>
    J (case p of None \<Rightarrow> ret () | Some x \<Rightarrow> f x) (case p of None \<Rightarrow> {} | Some x \<Rightarrow> E x)"
  by (cases p) (auto intro: J_ret)

abbreviation effects :: "stmt \<Rightarrow> 'e set" where
  "effects st \<equiv> (\<Union>(l, r)\<in>set (checked_assignments st). A l r)"

lemma J_assignment:
  assumes "is_ternary r \<Longrightarrow> J translated (\<Union>(l, r)\<in>set (map (Pair l) (leaf_values r)). A l r)"
  shows "J (typecheck_assignment k no l r translated) (\<Union>(l, r)\<in>set (map (Pair l) (leaf_values r)). A l r)"
  using assms J_assign by (simp add: typecheck_assignment_def leaf_values_simple)

lemma J_run_option: "(\<And>c. m = Some c \<Longrightarrow> J c E) \<Longrightarrow> (m = None \<Longrightarrow> E = {}) \<Longrightarrow> J (run_option m) E"
  by (cases m) (simp_all add: run_option_def J_ret)

lemma J_case_item: "J (run_option stat) E \<Longrightarrow> J (case_item e exprs stat) E"
proof -
  assume s: "J (run_option stat) E"
  have h: "J (case exprs of [] \<Rightarrow> ret ()
      | e0 # others \<Rightarrow> if b then add_hypothesis (equation e e0) else ret ()) {}" for b
    by (auto intro: J_ret J_add_hypothesis split: list.split)
  show ?thesis unfolding case_item_def
    by (rule J_get) (auto intro!: J_seq_right [OF J_enter] J_seq_right [OF h] J_seq_left [OF s J_restore])
qed

lemma J_branch: "(\<And>c. m = Some c \<Longrightarrow> J c E) \<Longrightarrow> (m = None \<Longrightarrow> E = {}) \<Longrightarrow> J (branch e i l b m) E"
  by (cases m) (simp_all add: branch_def J_ret J_seq_right [OF J_condit])

lemma J_PCondit:
  assumes i: "\<And>b. J (branch e si sl b ci) E" and l: "\<And>b. J (branch e si sl b cl) F"
  shows "J (PCondit_typecheck e si sl ci cl) (E \<union> F)"
proof -
  have k: "J (keep_alive m) {}" for m unfolding keep_alive_def by (rule J_alive)
  have a: "J (set_alive m) {}" for m unfolding set_alive_def by (rule J_alive)
  show ?thesis unfolding PCondit_typecheck_def
    apply (rule J_get, clarsimp)
    apply (intro J_seq_right [OF J_enter] J_seq_right [OF k] J_seq [OF i])
    apply (intro J_get J_seq_right [OF J_set_hypotheses] J_seq_left [OF l])
    apply (intro J_get J_seq_right [OF J_restore] J_seq_right [OF a] J_set_hypotheses)
    done
qed

definition option_effects :: "stmt option \<Rightarrow> 'e set" where
  "option_effects st = (\<Union>(l, r)\<in>set (or_empty (map_option checked_assignments st)). A l r)"

lemma J_map_option:
  assumes "\<And>s. st = Some s \<Longrightarrow> J (check_stmt s) (effects s)"
  shows "map_option check_stmt st = Some c \<Longrightarrow> J c (option_effects st)"
    "map_option check_stmt st = None \<Longrightarrow> option_effects st = {}"
  using assms by (auto simp: option_effects_def or_empty_def)

theorem check_stmt_effects: "J (check_stmt st) (effects st)"
proof (induction st rule: check_stmt.induct)
  case (1 li l r)
  show ?case unfolding check_stmt.simps(1) checked_assignments.simps(1) PAssign_typecheck_def
    by (intro J_get J_seq_right J_absintp J_with_hypotheses J_assignment)
      (use 1 in \<open>simp add: checked_assignments_translate\<close>)
next
  case (2 li l r)
  show ?case unfolding check_stmt.simps(2) checked_assignments.simps(2) PAssignNB_typecheck_def
    by (intro J_get J_with_hypotheses J_assignment) (use 2 in \<open>simp add: checked_assignments_translate\<close>)
next
  case (3 sc list)
  have "J (foreach list (\<lambda>st. run_option (map_option check_stmt st))) (\<Union>st\<in>set list. option_effects st)"
  proof (rule J_foreach)
    fix st assume "st \<in> set list"
    then have "\<And>s. st = Some s \<Longrightarrow> J (check_stmt s) (effects s)" using 3 by auto
    then show "J (run_option (map_option check_stmt st)) (option_effects st)"
      by (intro J_run_option J_map_option)
  qed
  moreover have "J (case sc of None \<Rightarrow> ret () | Some scope \<Rightarrow> declare_scope scope) {}"
    by (cases sc) (auto intro: J_ret J_scope)
  ultimately show ?case
    by (auto simp: PBlock_typecheck_def check_stmt.simps foreach_map option_effects_def UN_concat
        intro: J_seq_right)
next
  case (5 expr items)
  show ?case
  proof (cases expr)
    case None
    then show ?thesis by (simp add: check_stmt.simps PCase_typecheck_def J_ret)
  next
    case (Some e)
    define stats where "stats = (\<lambda>item :: (pexpr list \<times> stmt option) option.
      case item of None \<Rightarrow> None | Some (exprs, stat) \<Rightarrow> stat)"
    have "J (foreach items (\<lambda>item. case (case item of None \<Rightarrow> None
          | Some (exprs, stat) \<Rightarrow> Some (exprs, map_option check_stmt stat)) of
          None \<Rightarrow> ret () | Some (exprs, stat) \<Rightarrow> case_item e exprs stat))
        (\<Union>item\<in>set items. option_effects (stats item))"
    proof (rule J_foreach)
      fix item assume item: "item \<in> set items"
      show "J (case (case item of None \<Rightarrow> None
            | Some (exprs, stat) \<Rightarrow> Some (exprs, map_option check_stmt stat)) of
            None \<Rightarrow> ret () | Some (exprs, stat) \<Rightarrow> case_item e exprs stat) (option_effects (stats item))"
      proof (cases item)
        case None
        then show ?thesis by (simp add: stats_def option_effects_def or_empty_def J_ret)
      next
        case (Some p)
        obtain exprs stat where p: "p = (exprs, stat)" by force
        have "\<And>s. stat = Some s \<Longrightarrow> J (check_stmt s) (effects s)" using 5 item Some p by auto
        then have "J (case_item e exprs (map_option check_stmt stat)) (option_effects stat)"
          by (intro J_case_item J_run_option J_map_option)
        then show ?thesis by (simp add: Some p stats_def)
      qed
    qed
    moreover have "option_effects (stats item) = (\<Union>(l, r)\<in>set (case map_option (map_prod id (map_option checked_assignments)) item
        of None \<Rightarrow> [] | Some (es, st) \<Rightarrow> or_empty st). A l r)" for item
      by (cases item; cases "snd (the item)") (auto simp: stats_def option_effects_def or_empty_def)
    ultimately show ?thesis
      by (simp only: check_stmt.simps PCase_typecheck_def foreach_map Some option.case
          checked_assignments.simps UN_concat map_map comp_def option.distinct if_False)
  qed
next
  case (7 expr if_st else_st)
  have "J (check_stmt (PCondit expr if_st else_st)) (option_effects if_st \<union> option_effects else_st)"
    unfolding check_stmt.simps by (intro J_PCondit J_branch J_map_option) (use 7 in auto)
  then show ?case by (simp add: option_effects_def Un_assoc [symmetric] UN_Un)
next
  case (11 exprs st)
  have s: "J (run_option (map_option check_stmt st)) (option_effects st)"
    by (intro J_run_option J_map_option) (use 11 in auto)
  have e: "J (foreach exprs enter_event) {}" by (rule J_foreach_none) (rule J_event)
  have "J (check_stmt (PEventStatement exprs st)) (option_effects st)"
    unfolding check_stmt.simps PEventStatement_typecheck_def
    by (rule J_get) (auto intro!: J_seq_right [OF e] J_seq_left [OF s J_restore])
  then show ?case by (simp add: option_effects_def)
qed (simp_all add: check_stmt.simps trivial_checks J_throw J_ret)

end

section \<open>Running checks\<close>

lemma seq_run: "seq m n s = (case m s of (Inl e, s') \<Rightarrow> (Inl e, s') | (Inr x, s') \<Rightarrow> n s')"
  by (simp add: seq_def bind_def)

lemmas run_simps = ret_def fail_def throw_def get_def change_def seq_run bind_def emit_def
  set_pc_def set_pcstring_def set_hypotheses_def set_alive_def restore_def

lemma seq_Inr: "seq m n s = (Inr y, s'') \<longleftrightarrow> (\<exists>x s'. m s = (Inr x, s') \<and> n s' = (Inr y, s''))"
  by (auto simp: seq_run split: prod.splits sum.splits)

lemma bind_Inr: "bind m f s = (Inr y, s'') \<longleftrightarrow> (\<exists>x s'. m s = (Inr x, s') \<and> f x s' = (Inr y, s''))"
  by (auto simp: bind_def split: prod.splits sum.splits)

section \<open>The part of the state that statements leave alone\<close>

definition same_files :: "tstate \<Rightarrow> tstate \<Rightarrow> bool" where
  "same_files s s' \<longleftrightarrow>
     env_module s' = env_module s \<and> instance_name s' = instance_name s \<and> parent_name s' = parent_name s \<and>
     dep_exprs s' = dep_exprs s \<and> addresses s' = addresses s \<and> check_write s' = check_write s \<and>
     nodefile s' = nodefile s \<and> portfile s' = portfile s \<and> seen_ports s' = seen_ports s \<and>
     seen_modules s' = seen_modules s \<and> seen_generates s' = seen_generates s \<and>
     checked_assigns s' = checked_assigns s \<and> children s' = children s"

lemma same_files_refl: "same_files s s"
  by (simp add: same_files_def)

lemma same_files_trans: "same_files s s' \<Longrightarrow> same_files s' s'' \<Longrightarrow> same_files s s''"
  by (simp add: same_files_def)

lemma same_files_name: "same_files s s' \<Longrightarrow> current_module_name s' = current_module_name s"
  by (auto simp: same_files_def current_module_name_def split: option.split)

definition leaves_files :: "'a tc \<Rightarrow> bool" where
  "leaves_files m \<longleftrightarrow> (\<forall>s. same_files s (snd (m s)))"

lemma leaves_filesI: "(\<And>s. same_files s (snd (m s))) \<Longrightarrow> leaves_files m"
  by (simp add: leaves_files_def)

lemma leaves_files_bind:
  assumes "leaves_files m" "\<And>x. leaves_files (f x)"
  shows "leaves_files (bind m f)"
proof (rule leaves_filesI)
  fix s
  obtain r s' where m: "m s = (r, s')" by force
  have "same_files s s'" using assms(1) m by (simp add: leaves_files_def) (metis snd_conv)
  then show "same_files s (snd (bind m f s))"
    using assms(2) m same_files_trans by (auto simp: bind_def leaves_files_def split: sum.split)
qed

lemma leaves_files_seq: "leaves_files m \<Longrightarrow> leaves_files n \<Longrightarrow> leaves_files (seq m n)"
  unfolding seq_def by (rule leaves_files_bind)

lemma leaves_files_basic:
  "leaves_files (ret x)" "leaves_files (fail err)" "leaves_files (throw msg)" "leaves_files (get g)"
  "leaves_files (emit ls)" "leaves_files (type_of e)" "leaves_files (simplify_label r)"
  "leaves_files (new_label k)" "leaves_files (set_pc r)" "leaves_files (set_pcstring t)"
  by (auto simp: leaves_files_def same_files_def run_simps type_of_def simplify_label_def new_label_def
      split: prod.splits)

lemma leaves_files_if: "leaves_files m \<Longrightarrow> leaves_files n \<Longrightarrow> leaves_files (if b then m else n)"
  by simp

lemma leaves_files_enter: "leaves_files (enter_condition e t)"
  unfolding enter_condition_def by (intro leaves_files_bind leaves_files_seq leaves_files_basic)

lemma leaves_files_event: "leaves_files (enter_event ev)"
  unfolding enter_event_def
  by (auto intro!: leaves_files_bind leaves_files_seq leaves_files_basic split: option.split)

lemma leaves_files_write: "leaves_files (write_constraint c)" "leaves_files (write_text t)"
  "leaves_files (condition_text t)"
  unfolding write_constraint_def write_text_def condition_text_def
  by (auto intro: leaves_files_basic split: sum.split)

lemma leaves_files_constraint:
  "leaves_files (typecheck_assignment_constraint no vd l r rs ls)"
  unfolding typecheck_assignment_constraint_def Let_def
  by (intro leaves_files_bind leaves_files_seq leaves_files_basic leaves_files_write leaves_files_if)

lemma leaves_files_hypothesis: "leaves_files (add_hypothesis e)"
  by (simp add: leaves_files_def add_hypothesis_def change_def same_files_def)

lemma leaves_files_assign: "leaves_files (simple_assignment k no l r)"
  unfolding simple_assignment_def Let_def
  by (intro leaves_files_bind)
    (auto intro!: leaves_files_bind leaves_files_seq leaves_files_basic leaves_files_constraint
      leaves_files_hypothesis)

lemma leaves_files_scope: "leaves_files (declare_scope sc)"
  unfolding declare_scope_def declare_parameters_def declare_wires_def
  by (intro leaves_files_seq) (simp_all add: leaves_files_def change_def same_files_def)

lemma leaves_files_changes:
  "leaves_files (change (\<lambda>s. s\<lparr>hypotheses := fh s, allocs := fa s\<rparr>))"
  "leaves_files (change (\<lambda>s. s\<lparr>alive := fv s\<rparr>))"
  by (simp_all add: leaves_files_def change_def same_files_def)

interpretation untouched: statement_logic "\<lambda>m (E :: unit set). leaves_files m" "\<lambda>l r. {}"
  by unfold_locales
    (rule leaves_files_basic leaves_files_scope leaves_files_enter leaves_files_event
      leaves_files_assign leaves_files_changes
    | rule leaves_files_seq, assumption, assumption
    | rule leaves_files_bind [OF leaves_files_basic(4)], blast)+

lemma check_stmt_leaves_files: "leaves_files (check_stmt st)"
  by (rule untouched.check_stmt_effects)

section \<open>The pairs of signals that a check records\<close>

definition edges :: "out_line list \<Rightarrow> (string \<times> string) set" where
  "edges ls = {(f, t). \<exists>no p. Step no f t p \<in> set ls}"

lemma edges_append [simp]: "edges (xs @ ys) = edges xs \<union> edges ys"
  by (auto simp: edges_def)

lemma edges_Nil [simp]: "edges [] = {}"
  by (simp add: edges_def)

definition instance_prefix :: "tstate \<Rightarrow> string" where
  "instance_prefix s = or_default ''unknown_mod'' (capitalize (current_module_name s))"

definition placed :: "tstate \<Rightarrow> string \<times> string \<Rightarrow> string \<times> string" where
  "placed s e = (instance_prefix s @ ''_'' @ fst e, instance_prefix s @ ''_'' @ snd e)"

definition produces :: "'a tc \<Rightarrow> (string \<times> string) set \<Rightarrow> bool" where
  "produces m E \<longleftrightarrow> (\<forall>s x s'. m s = (Inr x, s') \<longrightarrow> same_files s s' \<and>
     (\<exists>new. stepfile s' = stepfile s @ new \<and> edges new = placed s ` E))"

lemma producesD: "produces m E \<Longrightarrow> m s = (Inr x, s') \<Longrightarrow>
    same_files s s' \<and> (\<exists>new. stepfile s' = stepfile s @ new \<and> edges new = placed s ` E)"
  unfolding produces_def by blast

definition token_pairs :: "pexpr \<Rightarrow> pexpr \<Rightarrow> (string \<times> string) set" where
  "token_pairs l r = set (typecheckstring r) \<times> set (typecheckstring l)"

lemma placed_same: "same_files s s' \<Longrightarrow> placed s' = placed s"
  by (simp add: placed_def instance_prefix_def same_files_name fun_eq_iff)

lemma produces_bind:
  assumes "produces m E" "\<And>x. produces (f x) F"
  shows "produces (bind m f) (E \<union> F)"
  unfolding produces_def
proof (intro allI impI)
  fix s y s''
  assume "bind m f s = (Inr y, s'')"
  then obtain x s' where 1: "m s = (Inr x, s')" and 2: "f x s' = (Inr y, s'')"
    by (auto simp: bind_Inr)
  obtain new1 where n1: "same_files s s'" "stepfile s' = stepfile s @ new1" "edges new1 = placed s ` E"
    using assms(1) 1 unfolding produces_def by blast
  obtain new2 where n2: "same_files s' s''" "stepfile s'' = stepfile s' @ new2"
    "edges new2 = placed s' ` F"
    using assms(2) 2 unfolding produces_def by blast
  show "same_files s s'' \<and> (\<exists>new. stepfile s'' = stepfile s @ new \<and> edges new = placed s ` (E \<union> F))"
    using n1 n2 same_files_trans placed_same [OF n1(1)]
    by (intro conjI exI [of _ "new1 @ new2"]) (auto simp: image_Un)
qed

lemma produces_seq: "produces m E \<Longrightarrow> produces n F \<Longrightarrow> produces (seq m n) (E \<union> F)"
  unfolding seq_def by (rule produces_bind)

text \<open>A check that leaves the files alone and writes no step produces no pair.\<close>

definition silent :: "'a tc \<Rightarrow> bool" where
  "silent m \<longleftrightarrow> (\<forall>s. stepfile (snd (m s)) = stepfile s)"

lemma produces_silent: "leaves_files m \<Longrightarrow> silent m \<Longrightarrow> produces m {}"
  unfolding produces_def
proof (intro allI impI)
  fix s x s'
  assume a: "leaves_files m" "silent m" "m s = (Inr x, s')"
  have "same_files s (snd (m s))" "stepfile (snd (m s)) = stepfile s"
    using a(1,2) unfolding leaves_files_def silent_def by blast+
  then show "same_files s s' \<and> (\<exists>new. stepfile s' = stepfile s @ new \<and> edges new = placed s ` {})"
    using a(3) by simp
qed

lemma silent_bind: "silent m \<Longrightarrow> (\<And>x. silent (f x)) \<Longrightarrow> silent (bind m f)"
  unfolding silent_def
proof (intro allI)
  fix s assume a: "\<forall>s. stepfile (snd (m s)) = stepfile s" "\<And>x. \<forall>s. stepfile (snd (f x s)) = stepfile s"
  obtain r s' where m: "m s = (r, s')" by force
  then have "stepfile s' = stepfile s" using a(1) [rule_format, of s] by simp
  then show "stepfile (snd (bind m f s)) = stepfile s"
    using a(2) m by (simp add: bind_def split: sum.split)
qed

lemma silent_seq: "silent m \<Longrightarrow> silent n \<Longrightarrow> silent (seq m n)"
  unfolding seq_def by (rule silent_bind)

lemma silent_basic:
  "silent (ret x)" "silent (fail err)" "silent (throw msg)" "silent (get g)"
  "silent (type_of e)" "silent (simplify_label r)"
  "silent (new_label k)" "silent (set_pc r)" "silent (set_pcstring t)" "silent (add_hypothesis h)"
  by (auto simp: silent_def run_simps type_of_def simplify_label_def new_label_def add_hypothesis_def
      split: prod.splits)

lemma silent_enter: "silent (enter_condition e t)"
  unfolding enter_condition_def by (intro silent_bind silent_seq silent_basic)

lemma silent_event: "silent (enter_event ev)"
  unfolding enter_event_def
  by (auto intro!: silent_bind silent_seq silent_basic split: option.split)

lemma silent_scope: "silent (declare_scope sc)"
  unfolding declare_scope_def declare_parameters_def declare_wires_def
  by (intro silent_seq) (simp_all add: silent_def change_def)

lemma edges_write_constraint:
  assumes "write_constraint (mk_constraint no ls1 rs1 (sorted_set rs) ls 0 pc_p inst inst) s = (Inr x, s')"
  shows "\<exists>new. s' = s\<lparr>stepfile := stepfile s @ new\<rparr> \<and>
    edges new = {(or_default ''unknown_mod'' inst @ ''_'' @ f, or_default ''unknown_mod'' inst @ ''_'' @ t) |f t.
      f \<in> set rs \<and> t \<in> set ls}"
proof -
  let ?new = "concat (map (\<lambda>l. map (\<lambda>r. Step (or_default ''unknown_constraint'' no)
    (or_default ''unknown_mod'' inst @ ''_'' @ r) (or_default ''unknown_mod'' inst @ ''_'' @ l)
    (or_default ''1'' pc_p)) (sorted_set rs)) ls)"
  have "s' = s\<lparr>stepfile := stepfile s @ ?new\<rparr>"
    using assms
    by (simp add: write_constraint_def print_constraint_def mk_constraint_def Let_def run_simps)
  moreover have "edges ?new = {(or_default ''unknown_mod'' inst @ ''_'' @ f,
      or_default ''unknown_mod'' inst @ ''_'' @ t) |f t. f \<in> set rs \<and> t \<in> set ls}"
    by (auto simp: edges_def)
  ultimately show ?thesis by blast
qed

lemma write_text_result: "write_text t s = (Inr (), s\<lparr>stepfile := stepfile s @ (if t = [] then [] else [Raw t])\<rparr>)"
  by (simp add: write_text_def run_simps)

lemma edges_raw [simp]: "edges (if t = [] then [] else [Raw t]) = {}"
  by (simp add: edges_def)

lemma produces_constraint:
  "produces (typecheck_assignment_constraint no vd l r rs ls) (set rs \<times> set ls)"
  unfolding produces_def
proof (intro allI impI)
  fix s x s'
  assume run: "typecheck_assignment_constraint no vd l r rs ls s = (Inr x, s')"
  let ?m = "typecheck_assignment_constraint no vd l r rs ls"
  define E where "E = set rs \<times> set ls"
  define inst where "inst = capitalize (current_module_name s)"
  define c where "c = mk_constraint no (get_name l) (get_name r) (sorted_set rs) ls 0
    (formatStringByMap (pcstring s) (varsToType s) inst) inst inst"
  have name: "current_module_name (s\<lparr>stepfile := w\<rparr>) = current_module_name s" for w
    by (auto simp: current_module_name_def split: option.split)
  have E: "placed s ` E = {(or_default ''unknown_mod'' inst @ ''_'' @ f,
      or_default ''unknown_mod'' inst @ ''_'' @ t) |f t. f \<in> set rs \<and> t \<in> set ls}"
    by (force simp: E_def placed_def instance_prefix_def inst_def image_iff)
  let ?s1 = "s\<lparr>stepfile := stepfile s @ (if vd = [] then [] else [Raw vd])\<rparr>"
  obtain y s1 where w1: "write_constraint c ?s1 = (Inr y, s1)"
    and rest: "(if check_write s then seq (write_text vd) (write_constraint c) else ret ()) s1 = (Inr x, s')"
    using run by (auto simp: typecheck_assignment_constraint_def Let_def seq_Inr bind_Inr write_text_result
        condition_text_def get_def name inst_def c_def cong: if_cong)
  obtain n1 where n1: "s1 = ?s1\<lparr>stepfile := stepfile ?s1 @ n1\<rparr>" "edges n1 = placed s ` E"
    using edges_write_constraint [OF w1 [unfolded c_def]] unfolding E by auto
  have "\<exists>n2. s' = s1\<lparr>stepfile := stepfile s1 @ n2\<rparr> \<and> edges n2 \<subseteq> placed s ` E"
  proof (cases "check_write s")
    case True
    then obtain z where w2: "write_constraint c (s1\<lparr>stepfile := stepfile s1 @ (if vd = [] then [] else [Raw vd])\<rparr>) =
        (Inr z, s')"
      using rest by (auto simp: seq_Inr write_text_result)
    obtain n2 where "s' = s1\<lparr>stepfile := stepfile s1 @ (if vd = [] then [] else [Raw vd]) @ n2\<rparr>"
      "edges n2 = placed s ` E"
      using edges_write_constraint [OF w2 [unfolded c_def]] unfolding E by auto
    then show ?thesis
      by (intro exI [of _ "(if vd = [] then [] else [Raw vd]) @ n2"]) auto
  next
    case False
    then show ?thesis using rest by (auto simp: ret_def intro!: exI [of _ "[]"])
  qed
  then obtain n2 where n2: "s' = s1\<lparr>stepfile := stepfile s1 @ n2\<rparr>" "edges n2 \<subseteq> placed s ` E" by blast
  have "stepfile s' = stepfile s @ (if vd = [] then [] else [Raw vd]) @ n1 @ n2"
    using n1(1) n2(1) by simp
  moreover have "edges ((if vd = [] then [] else [Raw vd]) @ n1 @ n2) = placed s ` E"
    using n1(2) n2(2) by auto
  moreover have "same_files s s'"
    using n1(1) n2(1) by (simp add: same_files_def)
  ultimately show "same_files s s' \<and> (\<exists>new. stepfile s' = stepfile s @ new \<and> edges new = placed s ` E)"
    by blast
qed

lemma produces_if: "(b \<Longrightarrow> produces m E) \<Longrightarrow> (\<not> b \<Longrightarrow> produces n E) \<Longrightarrow> produces (if b then m else n) E"
  by simp

lemma produces_bind_silent:
  "leaves_files m \<Longrightarrow> silent m \<Longrightarrow> (\<And>x. produces (f x) F) \<Longrightarrow> produces (bind m f) F"
  using produces_bind [OF produces_silent, of m f F] by simp

lemma produces_seq_same: "produces m E \<Longrightarrow> produces n F \<Longrightarrow> E \<subseteq> F \<Longrightarrow> produces (seq m n) F"
  using produces_seq [of m E n F] by (simp add: Un_absorb1)

lemma produces_ret: "produces (ret x) {}"
  by (intro produces_silent leaves_files_basic silent_basic)

lemma produces_assign: "produces (simple_assignment k no l r) (token_pairs l r)"
proof -
  let ?E = "set (typecheckstring r) \<times> set (typecheckstring l)"
  have c: "produces (typecheck_assignment_constraint n vd l r (typecheckstring r) (typecheckstring l)) ?E" for n vd
    by (rule produces_constraint)
  have h: "produces (if known then add_hypothesis e else ret ()) {}" for known e
    by (cases known) (auto intro: produces_silent leaves_files_basic leaves_files_hypothesis silent_basic)
  have last: "produces (seq (if known then add_hypothesis e else ret ())
      (typecheck_assignment_constraint n vd l r (typecheckstring r) (typecheckstring l))) ?E" for known e n vd
    by (rule produces_seq_same [OF h c]) simp
  have up: "produces (seq (if up then typecheck_assignment_constraint n' [] l r (typecheckstring r) (typecheckstring l)
        else ret ())
      (seq (if known then add_hypothesis e else ret ())
        (typecheck_assignment_constraint n vd l r (typecheckstring r) (typecheckstring l)))) ?E" for up n' known e n vd
    by (cases up; simp only: if_True if_False)
      (rule produces_seq_same [OF c last], simp, rule produces_seq_same [OF produces_ret last], simp)
  show ?thesis unfolding simple_assignment_def Let_def token_pairs_def
    apply (rule produces_bind_silent [OF leaves_files_basic(6) silent_basic(5)])
    apply (rule produces_bind_silent [OF leaves_files_basic(4) silent_basic(4)])
    apply (rule produces_if, rule c)
    apply (rule produces_bind_silent [OF leaves_files_basic(4) silent_basic(4)])
    apply (simp only: split_beta, rule up)
    done
qed

interpretation recorded: statement_logic produces token_pairs
proof (unfold_locales, goal_cases)
  case 1 show ?case by (rule produces_ret)
next
  case 2 show ?case by (simp add: produces_def throw_def fail_def)
next
  case 3 then show ?case by (rule produces_seq)
next
  case 4 then show ?case by (intro produces_bind_silent leaves_files_basic silent_basic)
qed (auto intro!: produces_silent produces_assign leaves_files_basic leaves_files_scope leaves_files_enter
    leaves_files_event leaves_files_changes silent_scope silent_enter silent_event silent_basic
    simp: silent_def change_def)

text \<open>
  C23. The steps of a statement that is checked without an error: the pairs of the new step lines are
  exactly the pairs of a signal of the right side and a signal of the left side of an assignment that
  the checker visits, with conditional expressions taken apart and the instance as a prefix; no
  other output and no static set changes. The visited assignments are among the assignments of
  the statement, and are all of them unless it has a part that \<open>skips_part\<close> finds: a for loop, whose
  header assignments and body give no step at all because the checker passes over it, a case statement
  without an expression, or one of the statements that no check passes.
\<close>

theorem statement_steps_exact:
  assumes "check_stmt st s = (Inr (), s')"
  shows "same_files s s' \<and> (\<exists>new. stepfile s' = stepfile s @ new \<and>
    edges new = (\<Union>(l, r)\<in>set (checked_assignments st).
      {placed s (f, t) |f t. f \<in> set (typecheckstring r) \<and> t \<in> set (typecheckstring l)})) \<and>
    set (checked_assignments st) \<subseteq> set (all_assignments st) \<and>
    (skips_part st \<or> checked_assignments st = all_assignments st)"
proof -
  have "produces (check_stmt st) (\<Union>(l, r)\<in>set (checked_assignments st). token_pairs l r)"
    by (rule recorded.check_stmt_effects)
  then have p: "same_files s s' \<and> (\<exists>new. stepfile s' = stepfile s @ new \<and>
      edges new = placed s ` (\<Union>(l, r)\<in>set (checked_assignments st). token_pairs l r))"
    using assms unfolding produces_def by blast
  have i: "placed s ` token_pairs (fst p) (snd p) = {placed s (f, t) |f t.
      f \<in> set (typecheckstring (snd p)) \<and> t \<in> set (typecheckstring (fst p))}" for p
    unfolding token_pairs_def by blast
  have a: "set (checked_assignments st) \<subseteq> set (all_assignments st) \<and>
      (skips_part st \<or> checked_assignments st = all_assignments st)"
    using checked_in_all checked_are_all by blast
  show ?thesis using p a unfolding image_UN split_beta i by blast
qed

text \<open>
  A for loop that copies a secret leaves no trace in the step file, although it contains three
  assignments.
\<close>

definition demo_loop :: stmt where
  "demo_loop = PForStatement (simple_ident ''i'') (simple_ident ''a'') (simple_ident ''c'')
     (simple_ident ''i'') (simple_ident ''b'')
     (Some (PAssign (Some ''t.v'', 4) (simple_ident ''y'') (simple_ident ''a'')))"

text \<open>A step of the enclosing scope, to apply the theorem to.\<close>

definition empty_scope :: lexical_scope where
  "empty_scope = \<lparr>parameters = [], localparams = [], wires = []\<rparr>"

definition demo_module :: pmodule where
  "demo_module = \<lparr>mod_name = ''top'', mod_scope = empty_scope, sec_label = Some 1, genvars = [],
     specparams = 0, defparms = 0, generate_schemes = [], mod_gates = [], behaviors = [],
     analog_behaviors = 0, specify_paths = 0\<rparr>"

definition demo_state :: tstate where
  "demo_state = \<lparr>heap = static_heap, varsToType = [(''a'', 1), (''b'', 1), (''c'', 1), (''d'', 1), (''y'', 1)],
     pc_label = BOT, pcstring = [], env_module = demo_module, instance_name = None, parent_name = None,
     alive = {}, dep_exprs = {}, hypotheses = [], addresses = (\<lambda>n. n), allocs = 0, check_write = False,
     stepfile = [], nodefile = [], portfile = [], seen_ports = {}, seen_modules = {},
     seen_generates = {}, checked_assigns = {}, children = []\<rparr>"

definition demo_choice :: stmt where
  "demo_choice = PAssign (Some ''t.v'', 3) (simple_ident ''y'')
     (PETernary (Some ''t.v'', 3) (simple_ident ''c'') (simple_ident ''a'') (simple_ident ''b''))"

lemma demo_choice_runs: "fst (check_stmt demo_choice demo_state) = Inr ()"
  by code_simp

lemma for_loop_gives_no_step:
  "check_stmt demo_loop demo_state = (Inr (), demo_state) \<and> checked_assignments demo_loop = [] \<and>
   all_assignments demo_loop = [(simple_ident ''i'', simple_ident ''a''), (simple_ident ''y'', simple_ident ''a''),
     (simple_ident ''i'', simple_ident ''b'')]"
  by (simp add: demo_loop_def check_stmt.simps PForStatement_typecheck_def ret_def or_empty_def simple_ident_def)

lemma demo_prefix: "instance_prefix demo_state = ''Top''"
  by code_simp

lemma demo_files: "stepfile demo_state = []"
  by (simp add: demo_state_def)

theorem statement_steps_exact_witness:
  "edges (stepfile (snd (check_stmt demo_choice demo_state))) = {(''Top_a'', ''Top_y''), (''Top_b'', ''Top_y'')}"
proof -
  obtain s' where run: "check_stmt demo_choice demo_state = (Inr (), s')"
    using demo_choice_runs by (metis prod.collapse)
  have "checked_assignments demo_choice =
      [(simple_ident ''y'', simple_ident ''a''), (simple_ident ''y'', simple_ident ''b'')]"
    by (simp add: demo_choice_def simple_ident_def)
  moreover have "typecheckstring (simple_ident x) = [x]" for x
    by (simp add: simple_ident_def peek_tail_name_def get_index_expressions_def)
  ultimately have "edges (stepfile s') = {(''Top_a'', ''Top_y''), (''Top_b'', ''Top_y'')}"
    using statement_steps_exact [OF run] by (auto simp: placed_def demo_prefix demo_files)
  then show ?thesis by (simp add: run)
qed

end
