(* ===== verification/StmtProps.thy ===== *)
theory StmtProps
  imports Flows
begin

text \<open>
  Further properties of the check of a statement: it does not depend on the hypotheses it collects,
  it restores the context, and a conditional statement ignores the text of the conditions around it.
\<close>

section \<open>The hypotheses have no influence\<close>

text \<open>Two states agree if they differ in the hypotheses and the addresses of the allocator only.\<close>

definition visible :: "tstate \<Rightarrow> tstate" where
  "visible s = s\<lparr>hypotheses := [], addresses := (\<lambda>n. n), allocs := 0\<rparr>"

definition agree :: "tstate \<Rightarrow> tstate \<Rightarrow> bool" where
  "agree s1 s2 \<longleftrightarrow> visible s2 = visible s1"

lemma agree_iff: "agree s1 s2 \<longleftrightarrow> (\<exists>hs ad k. s2 = s1\<lparr>hypotheses := hs, addresses := ad, allocs := k\<rparr>)"
  by (cases s1; cases s2) (auto simp: agree_def visible_def)

lemma agree_fields:
  assumes "agree s1 s2"
  shows "heap s2 = heap s1" "varsToType s2 = varsToType s1" "pc_label s2 = pc_label s1"
    "pcstring s2 = pcstring s1" "env_module s2 = env_module s1" "instance_name s2 = instance_name s1"
    "parent_name s2 = parent_name s1" "alive s2 = alive s1" "dep_exprs s2 = dep_exprs s1"
    "check_write s2 = check_write s1"
  using assms by (auto simp: agree_iff)

lemma agree_name: "agree s1 s2 \<Longrightarrow> current_module_name s2 = current_module_name s1"
  by (simp add: agree_fields current_module_name_def cong: option.case_cong)

lemma agree_trans: "agree s t \<Longrightarrow> agree t u \<Longrightarrow> agree s u"
  by (simp add: agree_def)

lemma agree_sym: "agree s t \<Longrightarrow> agree t s"
  by (simp add: agree_def)

definition indep :: "'a tc \<Rightarrow> 'a tc \<Rightarrow> bool" where
  "indep m n \<longleftrightarrow> (\<forall>s1 s2. agree s1 s2 \<longrightarrow> fst (m s1) = fst (n s2) \<and> agree (snd (m s1)) (snd (n s2)))"

lemma indepI:
  assumes "\<And>s hs ad k. fst (n (s\<lparr>hypotheses := hs, addresses := ad, allocs := k\<rparr>)) = fst (m s) \<and>
    visible (snd (n (s\<lparr>hypotheses := hs, addresses := ad, allocs := k\<rparr>))) = visible (snd (m s))"
  shows "indep m n"
  unfolding indep_def
proof (intro allI impI)
  fix s1 s2 assume "agree s1 s2"
  then obtain hs ad k where "s2 = s1\<lparr>hypotheses := hs, addresses := ad, allocs := k\<rparr>"
    by (auto simp: agree_iff)
  then show "fst (m s1) = fst (n s2) \<and> agree (snd (m s1)) (snd (n s2))"
    using assms by (simp add: agree_def)
qed

lemma indepD: "indep m n \<Longrightarrow> agree s1 s2 \<Longrightarrow> fst (m s1) = fst (n s2) \<and> agree (snd (m s1)) (snd (n s2))"
  by (simp add: indep_def)

lemma indep_bind:
  assumes "indep m n" "\<And>x. indep (f x) (g x)"
  shows "indep (bind m f) (bind n g)"
  unfolding indep_def
proof (intro allI impI)
  fix s1 s2 assume "agree s1 s2"
  obtain r1 t1 r2 t2 where r: "m s1 = (r1, t1)" "n s2 = (r2, t2)" by force
  then have "r1 = r2" "agree t1 t2" using indepD [OF assms(1) \<open>agree s1 s2\<close>] by simp_all
  then show "fst (bind m f s1) = fst (bind n g s2) \<and> agree (snd (bind m f s1)) (snd (bind n g s2))"
    using r indepD [OF assms(2)] by (auto simp: bind_def split: sum.split)
qed

lemma indep_seq: "indep m m' \<Longrightarrow> indep n n' \<Longrightarrow> indep (seq m n) (seq m' n')"
  unfolding seq_def by (rule indep_bind)

lemma indep_get:
  assumes "\<And>s1 s2. agree s1 s2 \<Longrightarrow> indep (f (g s1)) (f' (g s2))"
  shows "indep (bind (get g) f) (bind (get g) f')"
  using assms by (simp add: indep_def bind_def get_def)

lemma indep_read:
  assumes "\<And>s1 s2. agree s1 s2 \<Longrightarrow> g s2 = g s1" "\<And>x. indep (f x) (f' x)"
  shows "indep (bind (get g) f) (bind (get g) f')"
  using assms by (intro indep_get) simp

lemma indep_foreach: "(\<And>x. x \<in> set xs \<Longrightarrow> indep (f x) (f x)) \<Longrightarrow> indep (foreach xs f) (foreach xs f)"
proof (induction xs)
  case (Cons x xs)
  have "indep (foreach xs f) (foreach xs f)" by (rule Cons.IH) (simp add: Cons.prems)
  then show ?case unfolding foreach.simps by (intro indep_seq Cons.prems) simp
qed (simp add: indep_def ret_def)

lemma indep_basic:
  "indep (ret x) (ret x)" "indep (fail err) (fail err)" "indep (throw t) (throw t)"
  "indep (emit ls) (emit ls)" "indep (type_of e) (type_of e)" "indep (simplify_label r) (simplify_label r)"
  "indep (new_label k) (new_label k)" "indep (set_pc r) (set_pc r)"
  "indep (set_pcstring p) (set_pcstring p)" "indep (set_alive a) (set_alive a)"
  "indep (keep_alive a) (keep_alive a)" "indep (declare_parameters ps) (declare_parameters ps)"
  "indep (declare_wires ws) (declare_wires ws)"
  by (rule indepI, simp add: visible_def run_simps type_of_def simplify_label_def new_label_def
      keep_alive_def declare_parameters_def declare_wires_def split: prod.split)+

lemmas indep_compose = indep_bind indep_seq indep_basic

lemma indep_if: "indep m m' \<Longrightarrow> indep n n' \<Longrightarrow> indep (if b then m else n) (if b then m' else n')"
  by simp

lemma indep_write: "indep (write_constraint c) (write_constraint c)" "indep (write_text t) (write_text t)"
  unfolding write_constraint_def write_text_def by (auto intro: indep_compose split: sum.split)

lemma indep_enter: "indep (enter_condition e t) (enter_condition e t)"
  unfolding enter_condition_def by (rule indep_get) (auto simp: agree_fields intro!: indep_compose)

lemma indep_event: "indep (enter_event ev) (enter_event ev)"
  unfolding enter_event_def
  by (auto intro!: indep_get indep_compose simp: agree_fields split: option.split)

lemma indep_constraint:
  "indep (typecheck_assignment_constraint no vd l r rs ls) (typecheck_assignment_constraint no vd l r rs ls)"
  unfolding typecheck_assignment_constraint_def condition_text_def Let_def
  by (intro indep_seq indep_write indep_read indep_if indep_basic) (simp_all add: agree_fields agree_name)

text \<open>Checks that only change the hypotheses.\<close>

definition hidden :: "unit tc \<Rightarrow> bool" where
  "hidden m \<longleftrightarrow> (\<forall>s. fst (m s) = Inr () \<and> agree s (snd (m s)))"

lemma indep_hidden: "hidden m \<Longrightarrow> hidden n \<Longrightarrow> indep m n"
  unfolding hidden_def indep_def using agree_trans agree_sym by metis

lemma hidden_seq: "hidden m \<Longrightarrow> hidden n \<Longrightarrow> hidden (seq m n)"
  unfolding hidden_def
proof
  fix s assume h: "\<forall>s. fst (m s) = Inr () \<and> agree s (snd (m s))" "\<forall>s. fst (n s) = Inr () \<and> agree s (snd (n s))"
  obtain s' where m: "m s = (Inr (), s')" "agree s s'" using h(1) by (metis prod.collapse)
  then show "fst (seq m n s) = Inr () \<and> agree s (snd (seq m n s))"
    using h(2) agree_trans by (auto simp: seq_run)
qed

lemma hidden_get: "(\<And>x. hidden (f x)) \<Longrightarrow> hidden (bind (get g) f)"
  by (simp add: hidden_def bind_def get_def)

lemma hidden_basic: "hidden (ret ())" "hidden (add_hypothesis e)" "hidden (set_hypotheses hs)"
  by (simp_all add: hidden_def run_simps add_hypothesis_def agree_def visible_def)

lemma hidden_absintp: "hidden (PAssign_absintp l r)" "hidden (PCondit_absintp e i el b)"
proof -
  have "hidden (change (\<lambda>s. s\<lparr>hypotheses := invalidate (hypotheses s) n\<rparr>))" for n
    by (simp add: hidden_def change_def agree_def visible_def)
  then show "hidden (PAssign_absintp l r)" unfolding PAssign_absintp_def
    by (auto intro!: hidden_seq hidden_get hidden_basic)
  show "hidden (PCondit_absintp e i el b)" unfolding PCondit_absintp_def
    by (auto intro!: hidden_get hidden_basic split: option.split)
qed

lemma indep_hypotheses:
  "indep (add_hypothesis e) (add_hypothesis e')" "indep (set_hypotheses hs) (set_hypotheses hs')"
  "indep (PAssign_absintp l r) (PAssign_absintp l r)"
  by (intro indep_hidden hidden_basic hidden_absintp)+

lemma indep_with_hypotheses: "indep m n \<Longrightarrow> indep (with_hypotheses hs m) (with_hypotheses hs' n)"
  unfolding with_hypotheses_def
  by (intro indep_get indep_seq) (auto intro: indep_hidden hidden_basic)

lemma indep_assign: "indep (simple_assignment k no l r) (simple_assignment k no l r)"
  unfolding simple_assignment_def Let_def split_beta
  by (intro indep_bind indep_basic indep_read indep_if indep_seq indep_constraint
      indep_hidden [OF hidden_basic(2) hidden_basic(2)]) (simp_all add: agree_fields)

lemma indep_run_option: "(\<And>c. m = Some c \<Longrightarrow> indep c c) \<Longrightarrow> indep (run_option m) (run_option m)"
  by (cases m) (auto simp: run_option_def indep_basic)

lemma indep_branch:
  "(\<And>c. m = Some c \<Longrightarrow> indep c c) \<Longrightarrow> indep (branch e i l b m) (branch e i l b m)"
  by (cases m) (auto simp: branch_def intro: indep_seq indep_hidden hidden_absintp indep_basic)

lemma indep_typecheck_assignment:
  "(is_ternary r \<Longrightarrow> indep t t) \<Longrightarrow>
    indep (typecheck_assignment k no l r t) (typecheck_assignment k no l r t)"
  by (auto simp: typecheck_assignment_def intro: indep_assign)

lemma indep_case_item:
  "indep (run_option st) (run_option st) \<Longrightarrow> indep (case_item e es st) (case_item e es st)"
  unfolding case_item_def restore_def split_beta
  by (intro indep_read indep_seq indep_enter indep_basic)
    (auto simp: agree_fields intro: indep_basic indep_hypotheses split: list.split)

lemma indep_PCondit:
  assumes "\<And>b. indep (branch e i l b ci) (branch e i l b ci)" "\<And>b. indep (branch e i l b cl) (branch e i l b cl)"
  shows "indep (PCondit_typecheck e i l ci cl) (PCondit_typecheck e i l ci cl)"
  unfolding PCondit_typecheck_def restore_def split_beta
  by (rule indep_get, simp only: fst_conv snd_conv agree_fields)
    (intro indep_seq indep_enter indep_basic indep_get assms indep_hypotheses)

lemma indep_check_stmt: "indep (check_stmt st) (check_stmt st)"
proof (induction st rule: check_stmt.induct)
  case (1 li l r)
  show ?case unfolding check_stmt.simps PAssign_typecheck_def
    by (intro indep_get indep_seq indep_with_hypotheses indep_typecheck_assignment indep_hypotheses)
      (use 1 in simp)
next
  case (2 li l r)
  show ?case unfolding check_stmt.simps PAssignNB_typecheck_def
    by (intro indep_get indep_with_hypotheses indep_typecheck_assignment) (use 2 in simp)
next
  case (3 sc list)
  have "indep (case sc of None \<Rightarrow> ret () | Some scope \<Rightarrow> declare_scope scope)
      (case sc of None \<Rightarrow> ret () | Some scope \<Rightarrow> declare_scope scope)"
    by (auto simp: declare_scope_def intro!: indep_seq indep_basic split: option.split)
  then show ?case unfolding check_stmt.simps PBlock_typecheck_def
    by (rule indep_seq) (rule indep_foreach, rule indep_run_option, use 3 in \<open>auto simp: eq_commute [of "Some c" for c]\<close>)
next
  case (5 expr items)
  show ?case
  proof (cases expr)
    case (Some e)
    show ?thesis unfolding check_stmt.simps PCase_typecheck_def Some option.case
    proof (rule indep_foreach)
      fix item
      assume "item \<in> set (map (\<lambda>item. case item of None \<Rightarrow> None
        | Some (exprs, stat) \<Rightarrow> Some (exprs, map_option check_stmt stat)) items)"
      then obtain it where it: "it \<in> set items" "item = (case it of None \<Rightarrow> None
        | Some (exprs, stat) \<Rightarrow> Some (exprs, map_option check_stmt stat))" by auto
      show "indep (case item of None \<Rightarrow> ret () | Some (exprs, stat) \<Rightarrow> case_item e exprs stat)
          (case item of None \<Rightarrow> ret () | Some (exprs, stat) \<Rightarrow> case_item e exprs stat)"
      proof (cases it)
        case (Some p)
        obtain exprs stat where p: "p = (exprs, stat)" by force
        have "indep (case_item e exprs (map_option check_stmt stat)) (case_item e exprs (map_option check_stmt stat))"
          by (rule indep_case_item, rule indep_run_option) (use 5 it Some p \<open>expr = Some e\<close> in auto)
        then show ?thesis by (simp add: it Some p)
      qed (simp add: it indep_basic)
    qed
  qed (simp add: check_stmt.simps PCase_typecheck_def indep_basic)
next
  case (7 expr if_st else_st)
  show ?case unfolding check_stmt.simps
    by (intro indep_PCondit indep_branch) (use 7 in auto)
next
  case (11 exprs st)
  have s: "indep (run_option (map_option check_stmt st)) (run_option (map_option check_stmt st))"
    by (rule indep_run_option) (use 11 in auto)
  show ?case unfolding check_stmt.simps PEventStatement_typecheck_def restore_def
    by (rule indep_get)
      (auto intro!: indep_seq indep_foreach indep_event s indep_basic simp: agree_fields)
qed (simp_all add: check_stmt.simps trivial_checks indep_basic)

text \<open>
  C24. The hypotheses that the checker collects about conditions never matter: from two states that
  differ only in the hypotheses and in the addresses the allocator hands out, a statement has the
  same outcome, and the states after it again differ in nothing else, so in no line of output.
\<close>

theorem hypotheses_irrelevant:
  "fst (check_stmt st (s\<lparr>hypotheses := hs, addresses := ad, allocs := k\<rparr>)) = fst (check_stmt st s) \<and>
   (\<exists>hs' ad' k'. snd (check_stmt st (s\<lparr>hypotheses := hs, addresses := ad, allocs := k\<rparr>)) =
     (snd (check_stmt st s))\<lparr>hypotheses := hs', addresses := ad', allocs := k'\<rparr>)"
proof -
  have "agree s (s\<lparr>hypotheses := hs, addresses := ad, allocs := k\<rparr>)" by (simp add: agree_def visible_def)
  then show ?thesis using indepD [OF indep_check_stmt] unfolding agree_iff by metis
qed

section \<open>The context is restored\<close>

text \<open>\<open>keeps p m\<close>: a run of \<open>m\<close> without an error does not change \<open>p\<close>; \<open>leaves p v m\<close>: it ends with \<open>v\<close>.\<close>

definition keeps :: "(tstate \<Rightarrow> 'p) \<Rightarrow> 'a tc \<Rightarrow> bool" where
  "keeps p m \<longleftrightarrow> (\<forall>s x s'. m s = (Inr x, s') \<longrightarrow> p s' = p s)"

definition leaves :: "(tstate \<Rightarrow> 'p) \<Rightarrow> 'p \<Rightarrow> 'a tc \<Rightarrow> bool" where
  "leaves p v m \<longleftrightarrow> (\<forall>s x s'. m s = (Inr x, s') \<longrightarrow> p s' = v)"

lemma keeps_bind: "keeps p m \<Longrightarrow> (\<And>x. keeps p (f x)) \<Longrightarrow> keeps p (bind m f)"
  unfolding keeps_def bind_Inr by metis

lemma keeps_seq: "keeps p m \<Longrightarrow> keeps p n \<Longrightarrow> keeps p (seq m n)"
  unfolding seq_def by (rule keeps_bind)

lemma leaves_bind: "(\<And>x. leaves p v (f x)) \<Longrightarrow> leaves p v (bind m f)"
  unfolding leaves_def bind_Inr by blast

lemma leaves_seq: "leaves p v n \<Longrightarrow> leaves p v (seq m n)"
  unfolding seq_def by (rule leaves_bind)

lemma leaves_keeps: "leaves p v m \<Longrightarrow> keeps p n \<Longrightarrow> leaves p v (seq m n)"
  unfolding leaves_def keeps_def seq_Inr by metis

lemma keeps_leaves: "(\<And>s. leaves p (p s) (f (g s))) \<Longrightarrow> keeps p (bind (get g) f)"
  unfolding leaves_def keeps_def bind_Inr get_def by auto

lemma keeps_foreach: "(\<And>x. x \<in> set xs \<Longrightarrow> keeps p (f x)) \<Longrightarrow> keeps p (foreach xs f)"
proof (induction xs)
  case Nil
  then show ?case by (simp add: keeps_def ret_def)
next
  case (Cons x xs)
  have "keeps p (foreach xs f)" by (rule Cons.IH) (simp add: Cons.prems)
  then show ?case unfolding foreach.simps by (intro keeps_seq Cons.prems) simp
qed

lemma keeps_if: "keeps p m \<Longrightarrow> keeps p n \<Longrightarrow> keeps p (if b then m else n)"
  by simp

definition context_of :: "tstate \<Rightarrow> ref \<times> string" where
  "context_of s = (pc_label s, pcstring s)"

lemma keeps_throw: "keeps p (throw t)" "keeps p (fail e)"
  by (simp_all add: keeps_def throw_def fail_def)

lemma keeps_ret: "keeps p (ret x)" "keeps p (get g)"
  by (simp_all add: keeps_def ret_def get_def)

text \<open>Only the brackets of the statements change the context and the set of live signals.\<close>

definition plain :: "(tstate \<Rightarrow> 'p) \<Rightarrow> bool" where
  "plain p \<longleftrightarrow> (\<forall>s h vs hs k sf. p (s\<lparr>heap := h\<rparr>) = p s \<and> p (s\<lparr>varsToType := vs\<rparr>) = p s \<and>
     p (s\<lparr>hypotheses := hs\<rparr>) = p s \<and> p (s\<lparr>allocs := k\<rparr>) = p s \<and> p (s\<lparr>stepfile := sf\<rparr>) = p s)"

lemma plain_context: "plain context_of" "plain alive"
  unfolding plain_def context_of_def by (intro allI conjI; simp)+

lemma keeps_plain:
  assumes "plain p"
  shows "keeps p (emit ls)" "keeps p (type_of e)" "keeps p (simplify_label r)" "keeps p (new_label k)"
    "keeps p (add_hypothesis e)" "keeps p (set_hypotheses hs)" "keeps p (declare_parameters ps)"
    "keeps p (declare_wires ws)" "keeps p (change (\<lambda>s. s\<lparr>hypotheses := invalidate (hypotheses s) n\<rparr>))"
proof -
  have e: "p (s\<lparr>heap := h\<rparr>) = p s" "p (s\<lparr>varsToType := vs\<rparr>) = p s" "p (s\<lparr>hypotheses := hs\<rparr>) = p s"
    "p (s\<lparr>allocs := k\<rparr>) = p s" "p (s\<lparr>stepfile := sf\<rparr>) = p s" for s h vs hs k sf
    using assms unfolding plain_def by blast+
  have c: "keeps p (change f)" if "\<And>s. p (f s) = p s" for f
    using that by (auto simp: keeps_def change_def)
  have "p (s\<lparr>hypotheses := hs, allocs := k\<rparr>) = p s" for s hs k
    by (rule trans [OF e(4) e(3)])
  then show "keeps p (add_hypothesis e)" unfolding add_hypothesis_def by (rule c)
  show "keeps p (emit ls)" unfolding emit_def by (rule c) (rule e)
  show "keeps p (set_hypotheses hs)" unfolding set_hypotheses_def by (rule c) (rule e)
  show "keeps p (declare_parameters ps)" unfolding declare_parameters_def by (rule c) (rule e)
  show "keeps p (declare_wires ws)" unfolding declare_wires_def by (rule c) (rule e)
  show "keeps p (change (\<lambda>s. s\<lparr>hypotheses := invalidate (hypotheses s) n\<rparr>))" by (rule c) (rule e)
  show "keeps p (type_of e)" "keeps p (simplify_label r)" "keeps p (new_label k)"
    by (auto simp: keeps_def type_of_def simplify_label_def new_label_def e(1) split: prod.splits)
qed

lemma keeps_constraint: "plain p \<Longrightarrow> keeps p (typecheck_assignment_constraint no vd l r rs ls)"
proof -
  assume p: "plain p"
  have "keeps p (write_constraint c)" "keeps p (write_text t)" for c t
    unfolding write_constraint_def write_text_def using keeps_plain(1) [OF p]
    by (auto intro: keeps_throw split: sum.split)
  then show ?thesis unfolding typecheck_assignment_constraint_def condition_text_def Let_def
    by (intro keeps_seq keeps_bind keeps_if keeps_ret)
qed

lemma keeps_assign: "plain p \<Longrightarrow> keeps p (simple_assignment k no l r)"
  unfolding simple_assignment_def Let_def split_beta
  by (intro keeps_bind keeps_seq keeps_if keeps_ret keeps_constraint keeps_plain)

lemma keeps_typecheck_assignment: "plain p \<Longrightarrow> (is_ternary r \<Longrightarrow> keeps p t) \<Longrightarrow>
    keeps p (typecheck_assignment k no l r t)"
  by (simp add: typecheck_assignment_def keeps_assign)

lemma keeps_absintp: "plain p \<Longrightarrow> keeps p (PAssign_absintp l r)" "plain p \<Longrightarrow> keeps p (PCondit_absintp e i el b)"
  unfolding PAssign_absintp_def PCondit_absintp_def
  by (auto intro!: keeps_seq keeps_bind keeps_if keeps_ret keeps_plain split: option.split)

lemma keeps_with_hypotheses: "plain p \<Longrightarrow> keeps p m \<Longrightarrow> keeps p (with_hypotheses hs m)"
  unfolding with_hypotheses_def by (intro keeps_bind keeps_seq keeps_ret keeps_plain)

lemma keeps_run_option: "(\<And>c. m = Some c \<Longrightarrow> keeps p c) \<Longrightarrow> keeps p (run_option m)"
  by (cases m) (simp_all add: run_option_def keeps_ret)

lemma leaves_restore: "leaves context_of (r, t) (restore r t)"
  by (simp add: leaves_def run_simps context_of_def)

lemma keeps_alive_pc: "keeps alive (set_pc r)" "keeps alive (set_pcstring t)"
  by (simp_all add: keeps_def run_simps)

lemma keeps_alive_enter: "keeps alive (enter_condition e t)" "keeps alive (enter_event ev)"
    "keeps alive (restore r t)"
  unfolding enter_condition_def enter_event_def restore_def
  by (auto intro!: keeps_bind keeps_seq keeps_ret keeps_alive_pc keeps_plain plain_context split: option.split)

lemma keeps_case_item: "keeps context_of (case_item e es st)"
    "keeps alive (run_option st) \<Longrightarrow> keeps alive (case_item e es st)"
proof -
  show "keeps context_of (case_item e es st)" unfolding case_item_def split_beta
    by (rule keeps_leaves, intro leaves_seq) (simp add: leaves_restore context_of_def)
  show "keeps alive (run_option st) \<Longrightarrow> keeps alive (case_item e es st)"
    unfolding case_item_def split_beta
    by (intro keeps_bind keeps_seq keeps_ret keeps_alive_enter)
      (auto intro: keeps_ret keeps_plain plain_context split: list.split)
qed

lemma keeps_PCondit: "keeps context_of (PCondit_typecheck e i l ci cl)"
    "keeps alive (PCondit_typecheck e i l ci cl)"
proof -
  have "keeps context_of (seq (set_alive a) (set_hypotheses hs))" for a hs
    by (simp add: keeps_def run_simps context_of_def)
  then have "leaves context_of (context_of s) (seq (restore (pc_label s) (pcstring s))
      (seq (set_alive a) (set_hypotheses hs)))" for s a hs
    by (intro leaves_keeps) (simp_all add: leaves_restore context_of_def)
  then show "keeps context_of (PCondit_typecheck e i l ci cl)"
    unfolding PCondit_typecheck_def split_beta
    by (intro keeps_leaves) (simp, rule leaves_seq, rule leaves_seq, rule leaves_seq, rule leaves_bind,
      rule leaves_seq, rule leaves_seq, rule leaves_bind, simp)
  have "leaves alive a (seq (set_alive a) (set_hypotheses hs))" for a hs
    by (simp add: leaves_def run_simps)
  then show "keeps alive (PCondit_typecheck e i l ci cl)"
    unfolding PCondit_typecheck_def split_beta
    by (intro keeps_leaves) (simp, rule leaves_seq, rule leaves_seq, rule leaves_seq, rule leaves_bind,
      rule leaves_seq, rule leaves_seq, rule leaves_bind, rule leaves_seq, simp)
qed

lemma check_stmt_keeps: "keeps context_of (check_stmt st) \<and> keeps alive (check_stmt st)"
proof (induction st rule: check_stmt.induct)
  case (1 li l r)
  then show ?case unfolding check_stmt.simps PAssign_typecheck_def
    by (auto intro!: keeps_bind keeps_seq keeps_ret keeps_with_hypotheses keeps_typecheck_assignment
        keeps_absintp plain_context)
next
  case (2 li l r)
  then show ?case unfolding check_stmt.simps PAssignNB_typecheck_def
    by (auto intro!: keeps_bind keeps_ret keeps_with_hypotheses keeps_typecheck_assignment plain_context)
next
  case (3 sc list)
  have "keeps context_of (case sc of None \<Rightarrow> ret () | Some scope \<Rightarrow> declare_scope scope)"
    "keeps alive (case sc of None \<Rightarrow> ret () | Some scope \<Rightarrow> declare_scope scope)"
    by (auto simp: declare_scope_def intro!: keeps_seq keeps_ret keeps_plain plain_context split: option.split)
  moreover have "keeps context_of (run_option (map_option check_stmt st)) \<and>
      keeps alive (run_option (map_option check_stmt st))" if "st \<in> set list" for st
    using 3 that by (auto intro!: keeps_run_option)
  ultimately show ?case unfolding check_stmt.simps PBlock_typecheck_def foreach_map
    by (auto intro!: keeps_seq keeps_foreach plain_context)
next
  case (5 expr items)
  have "keeps alive (run_option (map_option check_stmt st))" if "Some (es, st) \<in> set items" for es st
    using 5 that by (auto intro!: keeps_run_option)
  then show ?case unfolding check_stmt.simps PCase_typecheck_def foreach_map
    by (auto intro!: keeps_foreach keeps_ret keeps_case_item split: option.split)
next
  case (7 expr if_st else_st)
  show ?case by (simp add: check_stmt.simps keeps_PCondit)
next
  case (11 exprs st)
  have "keeps alive (run_option (map_option check_stmt st))"
    using 11 by (auto intro!: keeps_run_option)
  then have "keeps alive (check_stmt (PEventStatement exprs st))"
    unfolding check_stmt.simps PEventStatement_typecheck_def split_beta
    by (intro keeps_bind keeps_seq keeps_ret keeps_foreach keeps_alive_enter)
  moreover have "keeps context_of (check_stmt (PEventStatement exprs st))"
    unfolding check_stmt.simps PEventStatement_typecheck_def split_beta
    by (rule keeps_leaves, intro leaves_seq) (simp add: leaves_restore context_of_def)
  ultimately show ?case by blast
qed (simp_all add: check_stmt.simps trivial_checks keeps_throw keeps_ret)

text \<open>
  C25. A statement that is checked without an error puts the context back, however its branches are
  nested: the context refers to the same label object as before (\<open>env.pc\<close> is a pointer), and the text
  of the conditions and the set of live signals are those it found. Which object it is says nothing of
  its contents: \<open>simplify\<close> may have added tags to that object on the way, even when it is the static
  \<open>BOT\<close> (C27 bounds the change and \<open>nested_conditions_change_bot\<close> shows that it happens).
\<close>

theorem context_restored:
  assumes "check_stmt st s = (Inr (), s')"
  shows "pc_label s' = pc_label s \<and> pcstring s' = pcstring s \<and> alive s' = alive s"
  using check_stmt_keeps [of st] assms unfolding keeps_def context_of_def by blast

definition demo_nested :: stmt where
  "demo_nested = PEventStatement [Some (POSEDGE, simple_ident ''d'')]
     (Some (PCondit (simple_ident ''c'') (Some demo_choice) None))"

lemma demo_nested_runs: "fst (check_stmt demo_nested demo_state) = Inr ()"
  by code_simp

theorem context_restored_witness: "pcstring (snd (check_stmt demo_nested demo_state)) = ''''"
proof -
  obtain s' where run: "check_stmt demo_nested demo_state = (Inr (), s')"
    using demo_nested_runs by (metis prod.collapse)
  have "pcstring demo_state = []" by (simp add: demo_state_def)
  then show ?thesis using context_restored [OF run] by (simp add: run)
qed

section \<open>Nested conditions\<close>

lemma enter_condition_text:
  "enter_condition e text (s\<lparr>pcstring := t\<rparr>) =
     (case enter_condition e text s of (Inl x, s') \<Rightarrow> (Inl x, s'\<lparr>pcstring := t\<rparr>) | (Inr x, s') \<Rightarrow> (Inr x, s'))"
  by (simp add: enter_condition_def run_simps type_of_def new_label_def simplify_label_def
      split: prod.split sum.split)

definition same_but_text :: "unit tc \<Rightarrow> unit tc \<Rightarrow> bool" where
  "same_but_text m n \<longleftrightarrow> (\<forall>s. fst (n s) = fst (m s) \<and> (\<exists>u. snd (n s) = (snd (m s))\<lparr>pcstring := u\<rparr>))"

lemma same_but_text_bind: "(\<And>x. same_but_text (f x) (g x)) \<Longrightarrow> same_but_text (bind m f) (bind m g)"
  unfolding same_but_text_def
proof
  fix s assume a: "\<And>x. \<forall>s. fst (g x s) = fst (f x s) \<and> (\<exists>u. snd (g x s) = (snd (f x s))\<lparr>pcstring := u\<rparr>)"
  obtain r s' where m: "m s = (r, s')" by force
  show "fst (bind m g s) = fst (bind m f s) \<and> (\<exists>u. snd (bind m g s) = (snd (bind m f s))\<lparr>pcstring := u\<rparr>)"
    using a by (cases r) (auto simp: bind_def m intro: exI [of _ "pcstring s'"])
qed

lemma same_but_text_seq: "same_but_text n n' \<Longrightarrow> same_but_text (seq m n) (seq m n')"
  unfolding seq_def by (rule same_but_text_bind)

lemma same_but_text_end:
  "same_but_text (seq (restore r t) (seq (set_alive a) (set_hypotheses hs)))
     (seq (restore r t') (seq (set_alive a) (set_hypotheses hs)))"
  unfolding same_but_text_def
proof (intro allI conjI)
  fix s :: tstate
  let ?u = "s\<lparr>pc_label := r, pcstring := t', alive := a, hypotheses := hs\<rparr>"
  show "fst (seq (restore r t') (seq (set_alive a) (set_hypotheses hs)) s) =
      fst (seq (restore r t) (seq (set_alive a) (set_hypotheses hs)) s)"
    by (simp add: run_simps)
  show "\<exists>u. snd (seq (restore r t') (seq (set_alive a) (set_hypotheses hs)) s) =
      (snd (seq (restore r t) (seq (set_alive a) (set_hypotheses hs)) s))\<lparr>pcstring := u\<rparr>"
    by (rule exI [of _ t']) (simp add: run_simps)
qed

text \<open>
  A conditional statement replaces the text of the conditions around it: whatever that text is,
  the outcome of its check is the same, and so is the state after it apart from that text. So a
  conditional inside another one records the inner condition only.
\<close>

theorem inner_condition_only:
  "fst (check_stmt (PCondit e i l) (s\<lparr>pcstring := t\<rparr>)) = fst (check_stmt (PCondit e i l) s) \<and>
   (\<exists>u. snd (check_stmt (PCondit e i l) (s\<lparr>pcstring := t\<rparr>)) = (snd (check_stmt (PCondit e i l) s))\<lparr>pcstring := u\<rparr>)"
proof -
  define rest where "rest = (\<lambda>t. seq (keep_alive (mustmodify (PCondit e i l) (dep_exprs s)))
    (seq (branch e i l True (map_option check_stmt i))
    (bind (get hypotheses) (\<lambda>afterif. seq (set_hypotheses (hypotheses s))
    (seq (branch e i l False (map_option check_stmt l))
    (bind (get hypotheses) (\<lambda>afterelse. seq (restore (pc_label s) t)
    (seq (set_alive (alive s)) (set_hypotheses (merge_hypotheses afterif afterelse))))))))))"
  have "same_but_text (rest t1) (rest t2)" for t1 t2 unfolding rest_def
    by (intro same_but_text_seq same_but_text_bind same_but_text_end)
  then have eq: "fst (rest t2 s') = fst (rest t1 s') \<and> (\<exists>u. snd (rest t2 s') = (snd (rest t1 s'))\<lparr>pcstring := u\<rparr>)"
    for t1 t2 s' unfolding same_but_text_def by blast
  have "check_stmt (PCondit e i l) s = seq (enter_condition e (dump e)) (rest (pcstring s)) s"
    "check_stmt (PCondit e i l) (s\<lparr>pcstring := t\<rparr>) =
      seq (enter_condition e (dump e)) (rest t) (s\<lparr>pcstring := t\<rparr>)"
    unfolding check_stmt.simps PCondit_typecheck_def rest_def by (simp_all add: bind_def get_def)
  then show ?thesis
    using eq [of t _ "pcstring s"] by (auto simp: seq_run enter_condition_text split: prod.splits sum.splits)
qed

end
