(* ===== verification/Labels.thy ===== *)
theory Labels
  imports StmtProps
begin

text \<open>
  The labels while a statement is checked: every reference that the state holds points into the heap,
  the heap stays well formed, and labels only gain tags. The judgement \<open>lab n m q\<close> says so of a check
  \<open>m\<close> that starts with at least \<open>n\<close> labels, whose result satisfies \<open>q\<close> for the number of labels after it.
\<close>

section \<open>Valid states\<close>

definition valid :: "tstate \<Rightarrow> bool" where
  "valid s \<longleftrightarrow> wf_heap (heap s) \<and> 4 \<le> length (heap s) \<and> pc_label s < length (heap s) \<and>
     (\<forall>(v, r)\<in>set (varsToType s). r < length (heap s))"

definition grown :: "heap \<Rightarrow> heap \<Rightarrow> bool" where
  "grown h h' \<longleftrightarrow> length h \<le> length h' \<and> (\<forall>r<length h. tags h r \<subseteq> tags h' r)"

lemma grown_refl: "grown h h"
  by (simp add: grown_def)

lemma grown_trans: "grown h h1 \<Longrightarrow> grown h1 h2 \<Longrightarrow> grown h h2"
  unfolding grown_def by (meson dual_order.trans less_le_trans)

lemma grown_append: "wf_heap h \<Longrightarrow> grown h (h @ h')"
  by (simp add: grown_def tags_append)

definition lab :: "nat \<Rightarrow> 'a tc \<Rightarrow> ('a \<Rightarrow> nat \<Rightarrow> bool) \<Rightarrow> bool" where
  "lab n m q \<longleftrightarrow> (\<forall>s r s'. valid s \<longrightarrow> n \<le> length (heap s) \<longrightarrow> m s = (r, s') \<longrightarrow>
     valid s' \<and> grown (heap s) (heap s') \<and> (\<forall>x. r = Inr x \<longrightarrow> q x (length (heap s'))))"

abbreviation (input) any :: "'a \<Rightarrow> nat \<Rightarrow> bool" where "any \<equiv> \<lambda>x k. True"

abbreviation (input) inside :: "ref \<Rightarrow> nat \<Rightarrow> bool" where "inside \<equiv> \<lambda>r k. r < k"

lemma labD: "lab n m q \<Longrightarrow> valid s \<Longrightarrow> n \<le> length (heap s) \<Longrightarrow> m s = (r, s') \<Longrightarrow>
    valid s' \<and> grown (heap s) (heap s') \<and> (\<forall>x. r = Inr x \<longrightarrow> q x (length (heap s')))"
  unfolding lab_def by blast

lemma lab_any: "lab n m q \<Longrightarrow> lab n m any"
  unfolding lab_def by blast

lemma lab_bind:
  assumes m: "lab n m q" and f: "\<And>x k. n \<le> k \<Longrightarrow> q x k \<Longrightarrow> lab k (f x) q'"
  shows "lab n (bind m f) q'"
  unfolding lab_def
proof (intro allI impI)
  fix s r s'' assume s: "valid s" "n \<le> length (heap s)" and run: "bind m f s = (r, s'')"
  obtain r1 s' where 1: "m s = (r1, s')" by force
  have v: "valid s'" "grown (heap s) (heap s')" and x: "\<And>x. r1 = Inr x \<Longrightarrow> q x (length (heap s'))"
    using labD [OF m s 1] by blast+
  show "valid s'' \<and> grown (heap s) (heap s'') \<and> (\<forall>x. r = Inr x \<longrightarrow> q' x (length (heap s'')))"
  proof (cases r1)
    case (Inl e)
    then show ?thesis using v 1 run by (auto simp: bind_def)
  next
    case (Inr y)
    have "lab (length (heap s')) (f y) q'" using f x Inr s(2) v(2) by (simp add: grown_def)
    moreover have "f y s' = (r, s'')" using run 1 Inr by (simp add: bind_def)
    ultimately have "valid s'' \<and> grown (heap s') (heap s'') \<and> (\<forall>x. r = Inr x \<longrightarrow> q' x (length (heap s'')))"
      using labD [OF _ v(1) order.refl] by blast
    then show ?thesis using grown_trans v(2) by blast
  qed
qed

lemma lab_seq: "lab n m any \<Longrightarrow> (\<And>k. n \<le> k \<Longrightarrow> lab k m' q) \<Longrightarrow> lab n (seq m m') q"
  unfolding seq_def by (rule lab_bind)

lemma lab_mono: "lab n m q \<Longrightarrow> n \<le> k \<Longrightarrow> lab k m q"
  unfolding lab_def using order.trans by blast

lemma lab_get:
  assumes "\<And>s. valid s \<Longrightarrow> n \<le> length (heap s) \<Longrightarrow> lab (length (heap s)) (f (g s)) q"
  shows "lab n (bind (get g) f) q"
  unfolding lab_def
proof (intro allI impI)
  fix s r s' assume s: "valid s" "n \<le> length (heap s)" and run: "bind (get g) f s = (r, s')"
  have "f (g s) s = (r, s')" using run by (simp add: bind_def get_def)
  then show "valid s' \<and> grown (heap s) (heap s') \<and> (\<forall>x. r = Inr x \<longrightarrow> q x (length (heap s')))"
    using labD [OF assms [OF s] s(1)] by blast
qed

lemma lab_foreach: "(\<And>x. x \<in> set xs \<Longrightarrow> lab n (f x) any) \<Longrightarrow> lab n (foreach xs f) any"
proof (induction xs)
  case Nil
  then show ?case by (simp add: lab_def ret_def grown_refl)
next
  case (Cons x xs)
  have "lab n (foreach xs f) any" by (rule Cons.IH) (simp add: Cons.prems)
  then have "lab n (seq (f x) (foreach xs f)) any" by (intro lab_seq Cons.prems) (simp, rule lab_mono)
  then show ?case by simp
qed

section \<open>Checks without labels\<close>

definition neutral :: "'a tc \<Rightarrow> bool" where
  "neutral m \<longleftrightarrow> (\<forall>s. heap (snd (m s)) = heap s \<and> pc_label (snd (m s)) = pc_label s \<and>
     varsToType (snd (m s)) = varsToType s)"

lemma lab_neutral: "neutral m \<Longrightarrow> lab n m any"
  unfolding lab_def neutral_def
proof (intro allI impI)
  fix s r s'
  assume "\<forall>s. heap (snd (m s)) = heap s \<and> pc_label (snd (m s)) = pc_label s \<and>
     varsToType (snd (m s)) = varsToType s" and s: "valid s" and m: "m s = (r, s')"
  then have "heap s' = heap s" "pc_label s' = pc_label s" "varsToType s' = varsToType s"
    by (metis snd_conv)+
  then show "valid s' \<and> grown (heap s) (heap s') \<and> (\<forall>x. r = Inr x \<longrightarrow> True)"
    using s by (simp add: valid_def grown_refl)
qed

lemma neutral_bind: "neutral m \<Longrightarrow> (\<And>x. neutral (f x)) \<Longrightarrow> neutral (bind m f)"
  unfolding neutral_def
proof (rule allI)
  fix s
  assume a: "\<forall>s. heap (snd (m s)) = heap s \<and> pc_label (snd (m s)) = pc_label s \<and>
     varsToType (snd (m s)) = varsToType s"
    "\<And>x. \<forall>s. heap (snd (f x s)) = heap s \<and> pc_label (snd (f x s)) = pc_label s \<and>
     varsToType (snd (f x s)) = varsToType s"
  obtain r s' where m: "m s = (r, s')" by force
  show "heap (snd (bind m f s)) = heap s \<and> pc_label (snd (bind m f s)) = pc_label s \<and>
     varsToType (snd (bind m f s)) = varsToType s"
    using a(1) [rule_format, of s] a(2) m by (auto simp: bind_def split: sum.split)
qed

lemma neutral_seq: "neutral m \<Longrightarrow> neutral n \<Longrightarrow> neutral (seq m n)"
  unfolding seq_def by (rule neutral_bind)

lemma neutral_basic:
  "neutral (ret x)" "neutral (fail err)" "neutral (throw t)" "neutral (get g)" "neutral (emit ls)"
  "neutral (add_hypothesis e)" "neutral (set_hypotheses hs)" "neutral (set_pcstring t)"
  "neutral (set_alive a)" "neutral (keep_alive a)"
  by (simp_all add: neutral_def run_simps add_hypothesis_def keep_alive_def)

lemma neutral_if: "neutral m \<Longrightarrow> neutral n \<Longrightarrow> neutral (if b then m else n)"
  by simp

lemma neutral_constraint: "neutral (typecheck_assignment_constraint no vd l r rs ls)"
proof -
  have "neutral (write_constraint c)" "neutral (write_text t)" for c t
    unfolding write_constraint_def write_text_def by (auto intro: neutral_basic split: sum.split)
  then show ?thesis unfolding typecheck_assignment_constraint_def condition_text_def Let_def
    by (intro neutral_seq neutral_bind neutral_if neutral_basic)
qed

lemma neutral_absintp: "neutral (PAssign_absintp l r)" "neutral (PCondit_absintp e i el b)"
proof -
  have "neutral (change (\<lambda>s. s\<lparr>hypotheses := invalidate (hypotheses s) n\<rparr>))" for n
    by (simp add: neutral_def change_def)
  then show "neutral (PAssign_absintp l r)" "neutral (PCondit_absintp e i el b)"
    unfolding PAssign_absintp_def PCondit_absintp_def
    by (auto intro!: neutral_seq neutral_bind neutral_if neutral_basic split: option.split)
qed

section \<open>Checks with labels\<close>

text \<open>The label of an expression is a label of the heap, to which new ones are appended.\<close>

definition typer_ok :: "typer \<Rightarrow> bool" where
  "typer_ok t \<longleftrightarrow> (\<forall>vars h r h'. wf_heap h \<longrightarrow> 4 \<le> length h \<longrightarrow> (\<forall>(v, r)\<in>set vars. r < length h) \<longrightarrow>
     t vars h = (r, h') \<longrightarrow> wf_heap h' \<and> (\<exists>new. h' = h @ new) \<and> (\<forall>x. r = Inr x \<longrightarrow> x < length h'))"

lemma typer_okD:
  "typer_ok t \<Longrightarrow> wf_heap h \<Longrightarrow> 4 \<le> length h \<Longrightarrow> \<forall>(v, r)\<in>set vars. r < length h \<Longrightarrow> t vars h = (r, h') \<Longrightarrow>
     wf_heap h' \<and> (\<exists>new. h' = h @ new) \<and> (\<forall>x. r = Inr x \<longrightarrow> x < length h')"
  unfolding typer_ok_def by blast

lemma typer_ok_basic: "typer_ok bottom_type" "typer_ok null_type" "typer_ok (\<lambda>vars h. (Inl e, h))"
    "typer_ok (ident_type n)"
  by (auto simp: typer_ok_def bottom_type_def null_type_def ident_type_def BOT_def TOP_def
      dest: map_of_SomeD split: option.splits)

lemma typer_ok_join: "typer_ok l \<Longrightarrow> typer_ok r \<Longrightarrow> typer_ok (join_type l r)"
  unfolding typer_ok_def [of "join_type l r"]
proof (intro allI impI)
  fix vars h res h'
  assume ok: "typer_ok l" "typer_ok r" and h: "wf_heap h" "4 \<le> length h" "\<forall>(v, r)\<in>set vars. r < length h"
    and run: "join_type l r vars h = (res, h')"
  obtain r1 h1 where 1: "l vars h = (r1, h1)" by force
  obtain n1 where h1: "wf_heap h1" "h1 = h @ n1" "\<And>x. r1 = Inr x \<Longrightarrow> x < length h1"
    using typer_okD [OF ok(1) h 1] by blast
  obtain r2 h2 where 2: "r vars h1 = (r2, h2)" by force
  have "4 \<le> length h1" "\<forall>(v, r)\<in>set vars. r < length h1" using h h1(2) by auto
  then obtain n2 where h2: "wf_heap h2" "h2 = h1 @ n2" "\<And>x. r2 = Inr x \<Longrightarrow> x < length h2"
    using typer_okD [OF ok(2) h1(1) _ _ 2] by blast
  show "wf_heap h' \<and> (\<exists>new. h' = h @ new) \<and> (\<forall>x. res = Inr x \<longrightarrow> x < length h')"
  proof (cases "\<exists>x y. r1 = Inr x \<and> r2 = Inr y")
    case True
    then obtain x y where xy: "r1 = Inr x" "r2 = Inr y" by blast
    then have e: "h' = snd (alloc h2 (JoinType x y))" "res = Inr (length h2)"
      using run 1 2 by (auto simp: join_type_def alloc_def)
    have "x < length h2" "y < length h2" using h1(3) h2(2,3) xy by fastforce+
    then have "wf_heap h'" unfolding e by (intro wf_heap_alloc h2(1)) auto
    then show ?thesis using e h1(2) h2(2) by (auto simp: alloc_def)
  next
    case False
    then show ?thesis using run 1 2 h1 h2 by (cases r1; cases r2) (auto simp: join_type_def)
  qed
qed

lemma typer_ok_concat:
  "(\<And>p. Some p \<in> set parms \<Longrightarrow> typer_ok p) \<Longrightarrow> (\<And>t. repeat = Some t \<Longrightarrow> typer_ok t) \<Longrightarrow>
    typer_ok (concat_type parms repeat)"
proof -
  have "typer_ok t0 \<Longrightarrow> (\<And>p. Some p \<in> set parms \<Longrightarrow> typer_ok p) \<Longrightarrow>
      typer_ok (foldl (\<lambda>last p. join_type last (case p of None \<Rightarrow> null_type | Some t \<Rightarrow> t)) t0 parms)" for t0
  proof (induction parms arbitrary: t0)
    case (Cons p parms)
    have "typer_ok (case p of None \<Rightarrow> null_type | Some t \<Rightarrow> t)"
      using Cons.prems(2) by (auto intro: typer_ok_basic split: option.split)
    then show ?case using Cons by (auto intro: typer_ok_join)
  qed simp
  moreover assume "\<And>p. Some p \<in> set parms \<Longrightarrow> typer_ok p" "\<And>t. repeat = Some t \<Longrightarrow> typer_ok t"
  ultimately show ?thesis unfolding concat_type_def by (auto intro: typer_ok_basic split: option.split)
qed

lemma typer_ok_expr: "typer_ok (expr_type e)"
proof (induction e)
  case (PEConcat parms repeat)
  show ?case unfolding expr_type.simps
  proof (rule typer_ok_concat)
    fix p assume "Some p \<in> set (map (map_option expr_type) parms)"
    then obtain e where "Some e \<in> set parms" "p = expr_type e" by (auto simp: eq_commute [of "Some p"])
    then show "typer_ok p" using PEConcat.IH(1) [of "Some e" e] by simp
  next
    fix t assume "map_option expr_type repeat = Some t"
    then show "typer_ok t" using PEConcat.IH(2) by auto
  qed
qed (simp_all add: typer_ok_basic typer_ok_join)

lemma lab_type_of: "lab n (type_of e) inside"
  unfolding lab_def
proof (intro allI impI)
  fix s r s' assume s: "valid s" "n \<le> length (heap s)" and run: "type_of e s = (r, s')"
  obtain r1 h where 1: "expr_type e (varsToType s) (heap s) = (r1, h)" by force
  obtain new where h: "wf_heap h" "h = heap s @ new" "\<And>x. r1 = Inr x \<Longrightarrow> x < length h"
    using typer_okD [OF typer_ok_expr _ _ _ 1] s by (auto simp: valid_def)
  have "r = r1" "s' = s\<lparr>heap := h\<rparr>" using run 1 by (simp_all add: type_of_def)
  then show "valid s' \<and> grown (heap s) (heap s') \<and> (\<forall>x. r = Inr x \<longrightarrow> x < length (heap s'))"
    using s h grown_append [of "heap s" new] by (auto simp: valid_def)
qed

lemma lab_simplify: "r < n \<Longrightarrow> lab n (simplify_label r) inside"
  unfolding lab_def
proof (intro allI impI)
  fix s x s' assume s: "valid s" "n \<le> length (heap s)" "r < n" and run: "simplify_label r s = (x, s')"
  obtain r' h where 1: "simplify (heap s) r = (r', h)" by force
  have "simplified (heap s) r r' h" using simplify_spec [OF _ _ 1] s by (simp add: valid_def)
  then have h: "wf_heap h" "length h = length (heap s)" "r' \<le> r" "grown (heap s) h"
    by (simp_all add: simplified_def grown_def)
  have "x = Inr r'" "s' = s\<lparr>heap := h\<rparr>" using run 1 by (simp_all add: simplify_label_def)
  then show "valid s' \<and> grown (heap s) (heap s') \<and> (\<forall>y. x = Inr y \<longrightarrow> y < length (heap s'))"
    using s h by (simp add: valid_def)
qed

lemma lab_join: "a < n \<Longrightarrow> b < n \<Longrightarrow> lab n (new_label (JoinType a b)) inside"
  unfolding lab_def
proof (intro allI impI)
  fix s x s' assume s: "valid s" "n \<le> length (heap s)" "a < n" "b < n"
    and run: "new_label (JoinType a b) s = (x, s')"
  have e: "x = Inr (length (heap s))" "s' = s\<lparr>heap := heap s @ [new_object (JoinType a b)]\<rparr>"
    using run by (simp_all add: new_label_def alloc_def)
  have "wf_heap (snd (alloc (heap s) (JoinType a b)))"
    using s by (intro wf_heap_alloc) (auto simp: valid_def)
  then show "valid s' \<and> grown (heap s) (heap s') \<and> (\<forall>y. x = Inr y \<longrightarrow> y < length (heap s'))"
    using s e grown_append [of "heap s" "[new_object (JoinType a b)]"]
    by (auto simp: valid_def alloc_def)
qed

lemma lab_pc: "r < n \<Longrightarrow> lab n (set_pc r) any"
  by (auto simp: lab_def set_pc_def change_def valid_def grown_refl)

lemma lab_enter: "lab n (enter_condition e t) any"
  unfolding enter_condition_def
  by (rule lab_get, rule lab_bind [OF lab_type_of], rule lab_bind [OF lab_join],
      assumption, simp add: valid_def, rule lab_bind [OF lab_simplify], assumption)
    (intro lab_seq lab_pc lab_neutral neutral_basic)

lemma lab_event: "lab n (enter_event ev) any"
proof (cases ev)
  case None
  then show ?thesis by (simp add: enter_event_def lab_neutral neutral_basic)
next
  case (Some p)
  show ?thesis unfolding enter_event_def Some option.case split_beta
    by (rule lab_get, rule lab_bind [OF lab_type_of], rule lab_bind [OF lab_join])
      (auto simp: valid_def intro!: lab_seq lab_pc lab_neutral [OF neutral_basic(8)])
qed

lemma lab_restore: "r < n \<Longrightarrow> lab n (restore r t) any"
  unfolding restore_def by (intro lab_seq lab_pc lab_neutral neutral_basic)

text \<open>The references of the declarations of a scope.\<close>

definition label_refs :: "lexical_scope \<Rightarrow> ref set" where
  "label_refs sc = {r. \<exists>n. (n, Some r) \<in> set (parameters sc) \<union> set (localparams sc)} \<union>
     {sectype w |w n. (n, w) \<in> set (wires sc)}"

lemma set_fold_insert:
  "set (fold (\<lambda>x. map_insert (k x) (v x)) xs m) \<subseteq> set m \<union> {(k x, v x) |x. x \<in> set xs}"
proof (induction xs arbitrary: m)
  case (Cons x xs)
  show ?case using Cons [of "map_insert (k x) (v x) m"] set_map_insert [of "k x" "v x" m] by auto
qed simp

lemma lab_declare:
  assumes "\<And>x. x \<in> set xs \<Longrightarrow> v x < n"
  shows "lab n (change (\<lambda>s. s\<lparr>varsToType := fold (\<lambda>x. map_insert (k x) (v x)) xs (varsToType s)\<rparr>)) any"
  unfolding lab_def
proof (intro allI impI)
  fix s r s' assume s: "valid s" "n \<le> length (heap s)"
    and run: "change (\<lambda>s. s\<lparr>varsToType := fold (\<lambda>x. map_insert (k x) (v x)) xs (varsToType s)\<rparr>) s = (r, s')"
  have e: "s' = s\<lparr>varsToType := fold (\<lambda>x. map_insert (k x) (v x)) xs (varsToType s)\<rparr>"
    using run by (simp add: change_def)
  have "\<forall>(v, r)\<in>set (varsToType s'). r < length (heap s')"
    using set_fold_insert [of k v xs "varsToType s"] s assms e by (fastforce simp: valid_def)
  then show "valid s' \<and> grown (heap s) (heap s') \<and> (\<forall>x. r = Inr x \<longrightarrow> True)"
    using s e by (simp add: valid_def grown_refl)
qed

lemma lab_scope: "label_refs sc \<subseteq> {..<n} \<Longrightarrow> 4 \<le> n \<Longrightarrow> lab n (declare_scope sc) any"
proof -
  assume sc: "label_refs sc \<subseteq> {..<n}" "4 \<le> n"
  have p: "lab k (declare_parameters ps) any" if "set ps \<subseteq> set (parameters sc) \<union> set (localparams sc)" "n \<le> k" for ps k
  proof -
    have "(case snd x of None \<Rightarrow> BOT | Some r \<Rightarrow> r) < k" if "x \<in> set ps" for x
    proof (cases "snd x")
      case None
      then show ?thesis using sc(2) \<open>n \<le> k\<close> by (simp add: BOT_def)
    next
      case (Some r)
      have "x \<in> set (parameters sc) \<union> set (localparams sc)"
        by (rule subsetD [OF \<open>set ps \<subseteq> _\<close> that])
      then have "(fst x, Some r) \<in> set (parameters sc) \<union> set (localparams sc)"
        unfolding Some [symmetric] by simp
      then have "r \<in> label_refs sc" unfolding label_refs_def by blast
      then have "r < n" using sc(1) by blast
      then show ?thesis using \<open>n \<le> k\<close> by (simp add: Some)
    qed
    then show ?thesis unfolding declare_parameters_def split_beta
      by (rule lab_declare [where k = fst and v = "\<lambda>x. case snd x of None \<Rightarrow> BOT | Some r \<Rightarrow> r"])
  qed
  have w: "lab k (declare_wires (wires sc)) any" if "n \<le> k" for k
  proof -
    have "sectype (snd x) < k" if "x \<in> set (wires sc)" for x
    proof -
      have "(fst x, snd x) \<in> set (wires sc)" using that by simp
      then have "sectype (snd x) \<in> label_refs sc" unfolding label_refs_def by blast
      then show ?thesis using sc(1) \<open>n \<le> k\<close> by auto
    qed
    then show ?thesis unfolding declare_wires_def split_beta
      by (rule lab_declare [where k = "\<lambda>x. wname (snd x)" and v = "\<lambda>x. sectype (snd x)"])
  qed
  show ?thesis unfolding declare_scope_def by (intro lab_seq p w) simp_all
qed

section \<open>Statements\<close>

text \<open>The scopes that the check of a statement declares.\<close>

primrec scopes :: "stmt \<Rightarrow> lexical_scope list" where
  "scopes (PAssign li lval rval) = []"
| "scopes (PAssignNB li lval rval) = []"
| "scopes (PBlock sc list) =
     (case sc of None \<Rightarrow> [] | Some c \<Rightarrow> [c]) @ concat (map or_empty (map (map_option scopes) list))"
| "scopes (PCallTask path parms) = []"
| "scopes (PCase expr items) =
     concat (map (\<lambda>it. case it of None \<Rightarrow> [] | Some (es, st) \<Rightarrow> or_empty st)
       (map (map_option (map_prod id (map_option scopes))) items))"
| "scopes (PCAssign lval expr) = []"
| "scopes (PCondit expr i e) = or_empty (map_option scopes i) @ or_empty (map_option scopes e)"
| "scopes (PDeassign lval) = []"
| "scopes (PDelayStatement delay st) = []"
| "scopes (PDisable sc) = []"
| "scopes (PEventStatement expr st) = or_empty (map_option scopes st)"
| "scopes (PForce lval expr) = []"
| "scopes (PForever st) = []"
| "scopes (PForStatement n1 e1 cond n2 e2 st) = []"
| "scopes PNoop = []"
| "scopes (PRelease lval) = []"
| "scopes (PRepeat expr st) = []"
| "scopes (PTrigger event) = []"
| "scopes (PWhile cond st) = []"

lemma scopes_translate: "scopes (translate_branch li lhs e) = []"
  by (induction e arbitrary: li) (simp_all add: or_empty_def)

definition scopes_inside :: "nat \<Rightarrow> lexical_scope list \<Rightarrow> bool" where
  "scopes_inside n scs \<longleftrightarrow> 4 \<le> n \<and> (\<forall>sc\<in>set scs. label_refs sc \<subseteq> {..<n})"

lemma scopes_inside_mono: "scopes_inside n scs \<Longrightarrow> n \<le> k \<Longrightarrow> set scs' \<subseteq> set scs \<Longrightarrow> scopes_inside k scs'"
  unfolding scopes_inside_def by fastforce

lemma lab_write: "lab n (typecheck_assignment_constraint no vd l r rs ls) any"
  by (rule lab_neutral) (rule neutral_constraint)

lemma lab_assign: "lab n (simple_assignment k no l r) any"
  unfolding simple_assignment_def Let_def split_beta
  by (rule lab_bind [OF lab_type_of], rule lab_neutral)
    (intro neutral_bind neutral_seq neutral_if neutral_basic neutral_constraint)

lemma lab_assignment: "(is_ternary r \<Longrightarrow> lab n t any) \<Longrightarrow> lab n (typecheck_assignment k no l r t) any"
  by (simp add: typecheck_assignment_def lab_assign)

lemma lab_run_option: "(\<And>c. m = Some c \<Longrightarrow> lab n c any) \<Longrightarrow> lab n (run_option m) any"
  by (cases m) (simp_all add: run_option_def lab_neutral neutral_basic)

lemma lab_case_item:
  assumes "\<And>k. n \<le> k \<Longrightarrow> lab k (run_option st) any"
  shows "lab n (case_item e es st) any"
  unfolding case_item_def split_beta
proof (rule lab_get)
  fix s assume s: "valid s" "n \<le> length (heap s)"
  have h: "lab k (case es of [] \<Rightarrow> ret ()
      | e0 # others \<Rightarrow> if b then add_hypothesis (equation e e0) else ret ()) any" for k b
    by (rule lab_neutral) (auto intro: neutral_basic split: list.split)
  have "pc_label s < length (heap s)" using s by (simp add: valid_def)
  then show "lab (length (heap s)) (seq (enter_condition e (dump e @ fst (snd (pc_label s, pcstring s, get_name e \<in> dep_exprs s))))
      (seq (case es of [] \<Rightarrow> ret () | e0 # others \<Rightarrow>
          if snd (snd (pc_label s, pcstring s, get_name e \<in> dep_exprs s)) then add_hypothesis (equation e e0) else ret ())
      (seq (run_option st) (restore (fst (pc_label s, pcstring s, get_name e \<in> dep_exprs s))
          (fst (snd (pc_label s, pcstring s, get_name e \<in> dep_exprs s))))))) any"
    using s(2) by (auto intro!: lab_seq lab_enter h assms lab_restore)
qed

lemma lab_branch: "(\<And>c k. m = Some c \<Longrightarrow> n \<le> k \<Longrightarrow> lab k c any) \<Longrightarrow> lab n (branch e i l b m) any"
  by (cases m) (auto simp: branch_def intro!: lab_seq [OF lab_neutral [OF neutral_absintp(2)]]
      lab_neutral [OF neutral_basic(1)])

lemma lab_PCondit:
  assumes "\<And>k b. n \<le> k \<Longrightarrow> lab k (branch e i l b ci) any" "\<And>k b. n \<le> k \<Longrightarrow> lab k (branch e i l b cl) any"
  shows "lab n (PCondit_typecheck e i l ci cl) any"
  unfolding PCondit_typecheck_def split_beta
  by (rule lab_get, rule lab_seq [OF lab_enter], rule lab_seq [OF lab_neutral], rule neutral_basic,
      rule lab_seq, rule assms, simp, rule lab_get, rule lab_seq [OF lab_neutral], rule neutral_basic,
      rule lab_seq, rule assms, simp, rule lab_get, rule lab_seq [OF lab_restore], simp add: valid_def,
      intro lab_neutral neutral_seq neutral_basic)

lemma lab_with_hypotheses: "(\<And>k. n \<le> k \<Longrightarrow> lab k m any) \<Longrightarrow> lab n (with_hypotheses hs m) any"
  unfolding with_hypotheses_def
  by (rule lab_get) (auto intro!: lab_seq lab_neutral [OF neutral_basic(7)])

lemma lab_check_stmt: "scopes_inside n (scopes st) \<Longrightarrow> lab n (check_stmt st) any"
proof (induction st arbitrary: n rule: check_stmt.induct)
  case (1 li l r)
  have "lab k (check_stmt (translate_branch li l r)) any" if "is_ternary r" "n \<le> k" for k
    using 1 that by (auto simp: scopes_translate scopes_inside_def)
  then show ?case unfolding check_stmt.simps PAssign_typecheck_def
    by (intro lab_get lab_seq lab_with_hypotheses lab_assignment) (auto intro: lab_neutral neutral_absintp)
next
  case (2 li l r)
  have "lab k (check_stmt (translate_branch li l r)) any" if "is_ternary r" "n \<le> k" for k
    using 2 that by (auto simp: scopes_translate scopes_inside_def)
  then show ?case unfolding check_stmt.simps PAssignNB_typecheck_def
    by (intro lab_get lab_with_hypotheses lab_assignment) auto
next
  case (3 sc list)
  have "lab n (case sc of None \<Rightarrow> ret () | Some scope \<Rightarrow> declare_scope scope) any"
    using 3(2) by (auto simp: scopes_inside_def intro: lab_scope lab_neutral neutral_basic split: option.split)
  moreover have "lab k (run_option (map_option check_stmt st)) any" if k: "n \<le> k" and st: "st \<in> set list" for k st
  proof (rule lab_run_option)
    fix c assume "map_option check_stmt st = Some c"
    then obtain t where t: "st = Some t" "c = check_stmt t" by auto
    then have "set (scopes t) \<subseteq> set (scopes (PBlock sc list))" using st by (force simp: or_empty_def)
    then show "lab k c any" using 3 st t scopes_inside_mono [OF _ k] by blast
  qed
  ultimately show ?case unfolding check_stmt.simps PBlock_typecheck_def foreach_map
    by (intro lab_seq lab_foreach)
next
  case (5 expr items)
  have item: "lab k (run_option (map_option check_stmt st)) any" if k: "n \<le> k" and st: "Some (es, st) \<in> set items" for k es st
  proof (rule lab_run_option)
    fix c assume "map_option check_stmt st = Some c"
    then obtain t where t: "st = Some t" "c = check_stmt t" by auto
    then have "set (scopes t) \<subseteq> set (scopes (PCase expr items))" using st by (force simp: or_empty_def)
    then show "lab k c any" using 5 st t scopes_inside_mono [OF _ k] by blast
  qed
  have "lab n (case_item e es (map_option check_stmt st)) any" if "Some (es, st) \<in> set items" for e es st
    using item [OF _ that] by (rule lab_case_item)
  then show ?case unfolding check_stmt.simps PCase_typecheck_def foreach_map
    by (auto intro!: lab_foreach lab_neutral [OF neutral_basic(1)] split: option.split)
next
  case (7 expr if_st else_st)
  have "lab k c any"
    if k: "n \<le> k" and c: "map_option check_stmt st = Some c" and st: "st = if_st \<or> st = else_st" for k c st
  proof -
    obtain t where t: "st = Some t" "c = check_stmt t" using c by auto
    then have "set (scopes t) \<subseteq> set (scopes (PCondit expr if_st else_st))" using st by (auto simp: or_empty_def)
    then show ?thesis using 7 t st scopes_inside_mono [OF _ k] by blast
  qed
  then show ?case unfolding check_stmt.simps by (intro lab_PCondit lab_branch) auto
next
  case (11 exprs st)
  have "lab k (run_option (map_option check_stmt st)) any" if "n \<le> k" for k
  proof (rule lab_run_option)
    fix c assume "map_option check_stmt st = Some c"
    then obtain t where t: "st = Some t" "c = check_stmt t" by auto
    then have "set (scopes t) \<subseteq> set (scopes (PEventStatement exprs st))" by (simp add: or_empty_def)
    then show "lab k c any" using 11 t scopes_inside_mono [OF _ that] by blast
  qed
  then show ?case unfolding check_stmt.simps PEventStatement_typecheck_def split_beta
    by (intro lab_get) (auto intro!: lab_seq lab_foreach lab_event lab_restore simp: valid_def)
qed (simp_all add: check_stmt.simps trivial_checks lab_neutral neutral_basic)

text \<open>
  C27. While a statement is checked, labels only gain tags. In a state with a well formed heap whose
  references are inside it, and with declarations whose labels are inside it, a statement keeps the
  heap well formed and its references inside, whether or not it ends with an error; no label goes away
  and no label loses a tag.
\<close>

theorem labels_only_gain_tags:
  assumes "valid s" "\<forall>sc\<in>set (scopes st). label_refs sc \<subseteq> {..<length (heap s)}"
    and "check_stmt st s = (r, s')"
  shows "valid s' \<and> length (heap s) \<le> length (heap s') \<and>
    (\<forall>x<length (heap s). tags (heap s) x \<subseteq> tags (heap s') x)"
proof -
  have "scopes_inside (length (heap s)) (scopes st)"
    using assms(1,2) by (simp add: scopes_inside_def valid_def)
  then show ?thesis using labD [OF lab_check_stmt assms(1) _ assms(3)] by (simp add: grown_def)
qed

definition demo_labels :: tstate where
  "demo_labels = demo_state\<lparr>heap := static_heap @
     [\<lparr>kind = ConstType (Some ''c''), basic = {3}, positive = {}, negative = {}\<rparr>],
     varsToType := [(''a'', 1), (''b'', 1), (''c'', 4), (''d'', 1), (''y'', 1)]\<rparr>"

lemma demo_labels_facts: "valid demo_labels" "scopes demo_nested = []"
  by (auto simp: demo_labels_def demo_state_def valid_def demo_nested_def demo_choice_def or_empty_def
      wf_heap_def static_heap_def new_object_def less_Suc_eq numeral_eq_Suc BOT_def)

theorem labels_only_gain_tags_witness:
  "valid (snd (check_stmt demo_nested demo_labels))"
  using labels_only_gain_tags [OF demo_labels_facts(1) _ prod.collapse [symmetric], of demo_nested]
  by (simp add: demo_labels_facts)

text \<open>
  Inside a condition on \<open>c\<close>, whose label has the tag 3, a condition on a constant meets the label of
  \<open>c\<close> with \<open>BOT\<close>: \<open>simplify\<close> merges the tags into \<open>BOT\<close> itself, which is the label of the context
  after the statement, and the label of every constant and default from then on.
\<close>

definition demo_constant :: stmt where
  "demo_constant = PCondit (simple_ident ''c'')
     (Some (PCondit (PEFNumber ''1.0'') (Some (PAssign (Some ''t.v'', 3) (simple_ident ''y'') (simple_ident ''a''))) None))
     None"

lemma nested_conditions_change_bot:
  "fst (check_stmt demo_constant demo_labels) = Inr () \<and> pc_label (snd (check_stmt demo_constant demo_labels)) = BOT \<and>
   basic (heap demo_labels ! BOT) = {} \<and> basic (heap (snd (check_stmt demo_constant demo_labels)) ! BOT) = {3}"
  by code_simp

end
