(* ===== verification/HierProps.thy ===== *)
theory HierProps
  imports Hierarchy Labels "HOL-Library.Sublist"
begin

text \<open>
  Properties of the checks above statements: the output files and the static sets only grow, the steps
  of an instance, what is skipped because of the static sets and the marks of assignments.
\<close>

section \<open>Output and static sets only grow\<close>

definition later :: "tstate \<Rightarrow> tstate \<Rightarrow> bool" where
  "later s s' \<longleftrightarrow>
     prefix (stepfile s) (stepfile s') \<and> prefix (nodefile s) (nodefile s') \<and>
     prefix (portfile s) (portfile s') \<and> seen_ports s \<subseteq> seen_ports s' \<and>
     seen_modules s \<subseteq> seen_modules s' \<and> seen_generates s \<subseteq> seen_generates s' \<and>
     checked_assigns s \<subseteq> checked_assigns s'"

lemma later_refl: "later s s"
  by (simp add: later_def)

lemma later_trans: "later s t \<Longrightarrow> later t u \<Longrightarrow> later s u"
  unfolding later_def by (meson prefix_order.trans subset_trans)

definition advances :: "'a tc \<Rightarrow> bool" where
  "advances m \<longleftrightarrow> (\<forall>s. later s (snd (m s)))"

lemma advancesI: "(\<And>s. later s (snd (m s))) \<Longrightarrow> advances m"
  by (simp add: advances_def)

lemma advances_run: "advances m \<Longrightarrow> m s = (r, s') \<Longrightarrow> later s s'"
  unfolding advances_def by (metis snd_conv)

lemma advances_bind:
  assumes "advances m" "\<And>x. advances (f x)"
  shows "advances (bind m f)"
proof (rule advancesI)
  fix s
  obtain r s' where m: "m s = (r, s')" by force
  then have "later s s'" by (rule advances_run [OF assms(1)])
  then show "later s (snd (bind m f s))"
    using assms(2) m later_trans by (auto simp: bind_def advances_def split: sum.split)
qed

lemma advances_seq: "advances m \<Longrightarrow> advances n \<Longrightarrow> advances (seq m n)"
  unfolding seq_def by (rule advances_bind)

lemma advances_foreach: "(\<And>x. x \<in> set xs \<Longrightarrow> advances (f x)) \<Longrightarrow> advances (foreach xs f)"
proof (induction xs)
  case (Cons x xs)
  have "advances (foreach xs f)" by (rule Cons.IH) (simp add: Cons.prems)
  then show ?case unfolding foreach.simps by (intro advances_seq Cons.prems) simp
qed (simp add: advances_def ret_def later_refl)

lemma advances_files: "leaves_files m \<Longrightarrow> silent m \<Longrightarrow> advances m"
  by (simp add: leaves_files_def silent_def advances_def later_def same_files_def)

lemma advances_basic:
  "advances (ret x)" "advances (fail e)" "advances (throw t)" "advances (get g)" "advances (emit ls)"
  "advances (set_hypotheses hs)" "advances (set_instance i p)" "advances (declare_parameters dps)"
  "advances (declare_wires ws)" "advances (change (\<lambda>s. s\<lparr>portfile := portfile s @ ps\<rparr>))"
  "advances (change (\<lambda>s. s\<lparr>children := children s @ cs\<rparr>))"
  "advances (change (\<lambda>s. s\<lparr>nodefile := nodefile s @ ps\<rparr>))"
  "advances (change (\<lambda>s. s\<lparr>seen_generates := insert n (seen_generates s)\<rparr>))"
  "advances (change (\<lambda>s. s\<lparr>seen_ports := insert n (seen_ports s)\<rparr>))"
  "advances (change (\<lambda>s. s\<lparr>seen_modules := insert n (seen_modules s)\<rparr>))"
  "advances (change (\<lambda>s. s\<lparr>checked_assigns := insert c (checked_assigns s)\<rparr>))"
  by (auto simp: advances_def later_def run_simps set_instance_def declare_parameters_def declare_wires_def)

lemma advances_write: "advances (write_constraint c)" "advances (write_text t)" "advances (condition_text i)"
  unfolding write_constraint_def write_text_def condition_text_def
  by (auto intro: advances_basic split: sum.split)

lemma advances_constraint: "advances (typecheck_assignment_constraint no vd l r rs ls)"
  unfolding typecheck_assignment_constraint_def Let_def
  by (intro advances_seq advances_bind advances_write advances_basic) (auto intro: advances_seq advances_write advances_basic)

lemma advances_assign: "advances (simple_assignment k no l r)"
proof -
  have h: "advances (add_hypothesis e)" "advances (type_of e)" for e
    by (intro advances_files leaves_files_basic leaves_files_hypothesis silent_basic)+
  show ?thesis unfolding simple_assignment_def Let_def split_beta
    by (intro advances_bind h advances_basic)
      (auto intro!: advances_bind advances_seq advances_constraint advances_basic h)
qed

interpretation advancing: statement_logic "\<lambda>m (E :: unit set). advances m" "\<lambda>l r. {}"
proof (unfold_locales, goal_cases)
  case 3 then show ?case by (intro advances_seq)
next
  case 4 then show ?case by (intro advances_bind advances_basic)
qed (auto intro!: advances_files leaves_files_basic leaves_files_scope leaves_files_enter leaves_files_event
    leaves_files_changes silent_scope silent_enter silent_event silent_basic advances_basic advances_assign
    simp: silent_def change_def)

lemma advances_check_stmt: "advances (check_stmt st)"
  by (rule advancing.check_stmt_effects)

lemma advances_process: "advances (check_process p)"
  unfolding check_process_def by (auto intro: advances_seq advances_basic advances_check_stmt)

lemma advances_check_assign: "advances (check_assign li l r)"
  unfolding check_assign_def typecheck_assignment_def
  by (auto intro!: advances_seq advances_basic advances_check_stmt advances_assign)

lemma advances_pin: "advances (check_port ws ty li pin)" "advances (connect_pin ws ty li md inst pin)"
  unfolding check_port_def connect_pin_def Let_def
  by (auto intro!: advances_bind advances_basic advances_write split: option.split)

lemma advances_PGModule: "advances (PGModule_typecheck modules li ty pins)"
  unfolding PGModule_typecheck_def Let_def split_beta
  by (intro advances_bind advances_basic)
    (auto intro!: advances_seq advances_foreach advances_pin advances_basic split: option.split)

lemma advances_instance: "advances (check_instance modules this li ty inst pins)"
  unfolding check_instance_def split_beta
  by (intro advances_bind advances_basic advances_seq advances_PGModule) (auto intro: advances_basic)

lemma advances_generate_gate: "advances (generate_gate modules this g)"
  by (cases g) (auto intro: advances_instance advances_check_assign advances_basic)

lemma advances_generate: "advances (check_generate g modules this)"
proof (induction g)
  case (PGenerate sc gates behavs analog gvars schemes)
  have "advances (declare_scope sc)" unfolding declare_scope_def by (intro advances_seq advances_basic)
  moreover have "advances (foreach (map check_generate schemes) (\<lambda>f. f modules this))"
    using PGenerate by (auto intro!: advances_foreach)
  ultimately show ?case unfolding check_generate.simps split_beta
    by (intro advances_bind advances_basic)
      (auto intro!: advances_seq advances_foreach advances_generate_gate advances_process advances_basic)
qed

lemma advances_ports: "advances outputPorts"
  unfolding outputPorts_def split_beta
  by (intro advances_bind advances_basic)
    (auto intro!: advances_seq advances_bind advances_basic split: option.split simp: Let_def)

lemma advances_gate: "advances (check_gate modules this kg)"
proof -
  obtain k g where kg: "kg = (k, g)" by force
  show ?thesis unfolding kg
    by (cases g) (auto intro!: advances_bind advances_seq advances_instance advances_check_assign advances_basic)
qed

lemma advances_module: "advances (Module_typecheck modules)"
  unfolding Module_typecheck_def split_beta
  by (intro advances_bind advances_basic)
    (auto intro!: advances_seq advances_foreach advances_generate advances_ports advances_gate
      advances_process advances_basic)

lemma later_new_env: "later (new_env m parent inst s) s' = later s s'"
  by (simp add: later_def new_env_def)

lemma check_task_later: "check_task modules t s = Inr (ts, s') \<Longrightarrow> later s s'"
proof -
  assume run: "check_task modules t s = Inr (ts, s')"
  obtain ty parent inst where t: "t = (ty, parent, inst)" by (cases t) auto
  show "later s s'"
  proof (cases "map_of modules ty")
    case None
    then show ?thesis using run t by (simp add: check_task_def later_refl)
  next
    case (Some m)
    obtain r s1 where m: "Module_typecheck modules (new_env m parent inst s) = (r, s1)" by force
    have "s' = s1" using run t Some m
      by (auto simp: check_task_def split: sum.splits failure.splits)
    then show ?thesis using advances_run [OF advances_module m] by (simp add: later_new_env)
  qed
qed

lemma check_level_Cons:
  "check_level modules (t # ts) s = Inr (n, s') \<longleftrightarrow>
     (\<exists>n1 s1 n2. check_task modules t s = Inr (n1, s1) \<and> check_level modules ts s1 = Inr (n2, s') \<and> n = n1 @ n2)"
  by (auto split: sum.splits)

declare check_level.simps(2) [simp del]

lemma check_level_later: "check_level modules ts s = Inr (n, s') \<Longrightarrow> later s s'"
proof (induction ts arbitrary: s n)
  case (Cons t ts)
  then obtain n1 s1 n2 where "check_task modules t s = Inr (n1, s1)" "check_level modules ts s1 = Inr (n2, s')"
    unfolding check_level_Cons by blast
  then show ?case using Cons.IH later_trans check_task_later by blast
qed (simp add: later_refl)

lemma traverse_later: "traverse fuel modules ts s = Some (Inr s') \<Longrightarrow> later s s'"
proof (induction fuel modules ts s rule: traverse.induct)
  case (3 fuel modules t ts s)
  then obtain n s1 where l: "check_level modules (t # ts) s = Inr (n, s1)"
    and r: "traverse fuel modules n s1 = Some (Inr s')"
    by (auto split: sum.splits)
  then show ?case using 3 check_level_later [OF l] later_trans by blast
qed (simp_all add: later_refl)

section \<open>Instances with the same name\<close>

definition task_name :: "modules \<Rightarrow> task \<Rightarrow> string" where
  "task_name modules t =
     (case t of (ty, Some p, Some i) \<Rightarrow> p @ ''_'' @ i | (ty, _) \<Rightarrow> mod_name (the (map_of modules ty)))"

lemma current_new_env:
  "map_of modules ty = Some m \<Longrightarrow> current_module_name (new_env m parent inst s) = task_name modules (ty, parent, inst)"
  by (auto simp: current_module_name_def new_env_def task_name_def split: option.split)

text \<open>What is checked of a module once its name is in the static set.\<close>

definition module_body :: "modules \<Rightarrow> pmodule \<Rightarrow> unit tc" where
  "module_body modules m =
     seq (declare_parameters (parameters (mod_scope m)))
      (seq (declare_parameters (localparams (mod_scope m)))
      (seq (declare_parameters (map (\<lambda>g. (g, None)) (genvars m)))
      (seq (if specparams m \<noteq> 0 then throw ''specparm'' else ret ())
      (seq (if defparms m \<noteq> 0 then throw ''defparam'' else ret ())
      (seq (declare_wires (wires (mod_scope m)))
      (seq (foreach (generate_schemes m) (\<lambda>g. check_generate g modules (mod_name m)))
      (seq outputPorts
      (seq (foreach (enumerate 0 (mod_gates m)) (check_gate modules (mod_name m)))
      (seq (foreach (behaviors m) check_process)
      (seq (if analog_behaviors m \<noteq> 0 then throw ''AProcess'' else ret ())
        (if specify_paths m \<noteq> 0 then throw ''PSpecPath'' else ret ())))))))))))"

definition mark_module :: "tstate \<Rightarrow> tstate" where
  "mark_module s = s\<lparr>seen_modules := insert (current_module_name s) (seen_modules s)\<rparr>"

lemma Module_typecheck_fresh:
  "current_module_name s \<notin> seen_modules s \<Longrightarrow>
    Module_typecheck modules s = module_body modules (env_module s) (mark_module s)"
  by (simp add: Module_typecheck_def module_body_def bind_def get_def)
    (simp add: seq_run change_def mark_module_def)

lemma advances_body: "advances (module_body modules m)"
  unfolding module_body_def
  by (auto intro!: advances_seq advances_foreach advances_generate advances_ports advances_gate
    advances_process advances_basic)

lemma Module_typecheck_marks:
  "current_module_name s \<in> seen_modules (snd (Module_typecheck modules s))"
proof (cases "current_module_name s \<in> seen_modules s")
  case True
  then show ?thesis using advances_module [of modules] unfolding advances_def later_def by blast
next
  case False
  have "later (mark_module s) (snd (module_body modules (env_module s) (mark_module s)))"
    using advances_body unfolding advances_def by blast
  then show ?thesis unfolding Module_typecheck_fresh [OF False]
    by (auto simp: later_def mark_module_def)
qed

lemma Module_typecheck_seen:
  "current_module_name s \<in> seen_modules s \<Longrightarrow> Module_typecheck modules s = (Inr (), s)"
  by (simp add: Module_typecheck_def bind_def get_def ret_def)

text \<open>
  C28. Every instance name is checked once. After a task was checked, in every later state, a task
  whose instance has the same name is skipped: it adds nothing to the three files and its children are
  not visited. Two instances whose paths have the same text are the same name, whatever their modules.
\<close>

theorem module_checked_once:
  assumes "check_task modules t s = Inr (ts, s1)" "later s1 s2"
    and "map_of modules (fst t) \<noteq> None" "task_name modules t' = task_name modules t"
  shows "\<exists>s3. check_task modules t' s2 = Inr ([], s3) \<and> stepfile s3 = stepfile s2 \<and>
    nodefile s3 = nodefile s2 \<and> portfile s3 = portfile s2"
proof -
  obtain ty parent inst where t: "t = (ty, parent, inst)" by (cases t) auto
  obtain ty' parent' inst' where t': "t' = (ty', parent', inst')" by (cases t') auto
  obtain m where m: "map_of modules ty = Some m" using assms(3) t by auto
  obtain r sr where run: "Module_typecheck modules (new_env m parent inst s) = (r, sr)" by force
  have "s1 = sr" using assms(1) t m run by (auto simp: check_task_def split: sum.splits failure.splits)
  then have "task_name modules t \<in> seen_modules s1"
    using Module_typecheck_marks [of "new_env m parent inst s" modules] run m t by (simp add: current_new_env)
  then have seen: "task_name modules t \<in> seen_modules s2" using assms(2) by (auto simp: later_def)
  show ?thesis
  proof (cases "map_of modules ty'")
    case None
    then show ?thesis by (simp add: t' check_task_def)
  next
    case (Some m')
    have "current_module_name (new_env m' parent' inst' s2) \<in> seen_modules (new_env m' parent' inst' s2)"
      using seen assms(4) Some t' by (simp add: current_new_env) (simp add: new_env_def)
    then have "Module_typecheck modules (new_env m' parent' inst' s2) = (Inr (), new_env m' parent' inst' s2)"
      by (rule Module_typecheck_seen)
    then show ?thesis using Some by (simp add: t' check_task_def) (simp add: new_env_def)
  qed
qed

text \<open>The instances \<open>b_c\<close> of \<open>a\<close> and \<open>c\<close> of \<open>a_b\<close>, of two modules.\<close>

definition leaf_module :: "string \<Rightarrow> pmodule" where
  "leaf_module n = demo_module\<lparr>mod_name := n\<rparr>"

definition two_modules :: modules where
  "two_modules = [(''m'', leaf_module ''m''), (''n'', leaf_module ''n'')]"

theorem module_checked_once_witness:
  "\<exists>ts s1 s3. check_task two_modules (''m'', Some ''a'', Some ''b_c'') demo_state = Inr (ts, s1) \<and>
     check_task two_modules (''n'', Some ''a_b'', Some ''c'') s1 = Inr ([], s3) \<and> nodefile s3 = nodefile s1"
proof -
  have "\<exists>ts s1. check_task two_modules (''m'', Some ''a'', Some ''b_c'') demo_state = Inr (ts, s1)"
    by (simp add: check_task_def two_modules_def leaf_module_def demo_module_def demo_state_def new_env_def
        Module_typecheck_def outputPorts_def run_simps empty_scope_def current_module_name_def
        declare_parameters_def declare_wires_def)
  then obtain ts s1 where run: "check_task two_modules (''m'', Some ''a'', Some ''b_c'') demo_state = Inr (ts, s1)"
    by blast
  show ?thesis
    using module_checked_once [OF run later_refl, of "(''n'', Some ''a_b'', Some ''c'')"] run
    by (auto simp: two_modules_def task_name_def)
qed

end
