(* ===== verification/Ports.thy ===== *)
theory Ports
  imports HierProps
begin

text \<open>
  The steps of an instance, the marks of continuous assignments, and the generate blocks: what is
  recorded and what the static sets make the checker skip.
\<close>

section \<open>The steps of an instance\<close>

definition outer_name :: "tstate \<Rightarrow> string" where
  "outer_name s = or_default ''unknown_mod'' (capitalize (text_of (parent_name s)))"

definition inner_name :: "tstate \<Rightarrow> string" where
  "inner_name s = or_default ''unknown_mor'' (capitalize (current_module_name s))"

definition pin_edges :: "(string \<times> pwire) list \<Rightarrow> string \<Rightarrow> string \<Rightarrow> string \<times> pexpr option \<Rightarrow> (string \<times> string) set" where
  "pin_edges ws outer inner pin =
     {(outer @ ''_'' @ r, inner @ ''_'' @ wname port) |e port r. snd pin = Some e \<and>
        map_of ws (fst pin) = Some port \<and> port_type port \<in> {PINPUT, PINOUT} \<and> r \<in> set (typecheckstring e)} \<union>
     {(inner @ ''_'' @ wname port, outer @ ''_'' @ hd (typecheckstring e)) |e port. snd pin = Some e \<and>
        map_of ws (fst pin) = Some port \<and> port_type port = POUTPUT}"

lemma pin_edges_None: "pin_edges ws outer inner (pn, None) = {}"
  by (simp add: pin_edges_def)

lemma pin_edges_unknown: "map_of ws pn = None \<Longrightarrow> pin_edges ws outer inner (pn, v) = {}"
  by (simp add: pin_edges_def)

lemma pin_edges_in:
  "map_of ws pn = Some port \<Longrightarrow> port_type port = PINPUT \<or> port_type port = PINOUT \<Longrightarrow>
     pin_edges ws outer inner (pn, Some e) =
       (\<lambda>r. (outer @ ''_'' @ r, inner @ ''_'' @ wname port)) ` set (typecheckstring e)"
  by (auto simp: pin_edges_def)

lemma pin_edges_out:
  "map_of ws pn = Some port \<Longrightarrow> port_type port = POUTPUT \<Longrightarrow>
     pin_edges ws outer inner (pn, Some e) = {(inner @ ''_'' @ wname port, outer @ ''_'' @ hd (typecheckstring e))}"
  by (simp add: pin_edges_def)

lemma UN_pin_edges:
  "(\<Union>pin\<in>P. pin_edges ws outer inner pin) =
    {(outer @ ''_'' @ r, inner @ ''_'' @ wname port) |pn e port r. (pn, Some e) \<in> P \<and>
       map_of ws pn = Some port \<and> port_type port \<in> {PINPUT, PINOUT} \<and> r \<in> set (typecheckstring e)} \<union>
    {(inner @ ''_'' @ wname port, outer @ ''_'' @ hd (typecheckstring e)) |pn e port.
       (pn, Some e) \<in> P \<and> map_of ws pn = Some port \<and> port_type port = POUTPUT}" (is "?L = ?R")
proof (intro equalityI subsetI)
  fix x assume "x \<in> ?L"
  then obtain pn v where P: "(pn, v) \<in> P" and x: "x \<in> pin_edges ws outer inner (pn, v)" by force
  obtain e where v: "v = Some e" using x by (cases v) (simp_all add: pin_edges_None)
  then show "x \<in> ?R" using x P unfolding pin_edges_def v fst_conv snd_conv option.inject by blast
next
  fix x assume "x \<in> ?R"
  then obtain pn e where "(pn, Some e) \<in> P" "x \<in> pin_edges ws outer inner (pn, Some e)"
    unfolding pin_edges_def fst_conv snd_conv option.inject by blast
  then show "x \<in> ?L" by blast
qed

text \<open>A check that only appends to the step file, and there the given pairs.\<close>

definition appends :: "unit tc \<Rightarrow> (string \<times> string) set \<Rightarrow> bool" where
  "appends m E \<longleftrightarrow> (\<forall>s s'. m s = (Inr (), s') \<longrightarrow>
     (\<exists>new pf. s' = s\<lparr>stepfile := stepfile s @ new, portfile := pf\<rparr> \<and> edges new = E))"

lemma appendsD: "appends m E \<Longrightarrow> m s = (Inr (), s') \<Longrightarrow>
    \<exists>new pf. s' = s\<lparr>stepfile := stepfile s @ new, portfile := pf\<rparr> \<and> edges new = E"
  unfolding appends_def by blast

lemma appends_seq:
  assumes "appends m E" "appends n F"
  shows "appends (seq m n) (E \<union> F)"
  unfolding appends_def
proof (intro allI impI)
  fix s s'' assume "seq m n s = (Inr (), s'')"
  then obtain s' where 1: "m s = (Inr (), s')" and 2: "n s' = (Inr (), s'')" by (auto simp: seq_Inr)
  obtain n1 p1 where n1: "s' = s\<lparr>stepfile := stepfile s @ n1, portfile := p1\<rparr>" "edges n1 = E"
    using appendsD [OF assms(1) 1] by blast
  obtain n2 p2 where n2: "s'' = s'\<lparr>stepfile := stepfile s' @ n2, portfile := p2\<rparr>" "edges n2 = F"
    using appendsD [OF assms(2) 2] by blast
  have "s'' = s\<lparr>stepfile := stepfile s @ n1 @ n2, portfile := p2\<rparr>" using n1(1) n2(1) by simp
  moreover have "edges (n1 @ n2) = E \<union> F" using n1(2) n2(2) by simp
  ultimately show "\<exists>new pf. s'' = s\<lparr>stepfile := stepfile s @ new, portfile := pf\<rparr> \<and> edges new = E \<union> F"
    by blast
qed

lemma appends_unchanged: "(\<And>s. m s = (Inr (), s\<lparr>portfile := f s\<rparr>)) \<Longrightarrow> appends m {}"
  unfolding appends_def
proof (intro allI impI)
  fix s s' assume "\<And>s. m s = (Inr (), s\<lparr>portfile := f s\<rparr>)" "m s = (Inr (), s')"
  then show "\<exists>new pf. s' = s\<lparr>stepfile := stepfile s @ new, portfile := pf\<rparr> \<and> edges new = {}"
    by (intro exI [of _ "[]"] exI [of _ "f s"]) simp
qed

lemma appends_ret: "appends (ret ()) {}"
  by (rule appends_unchanged [of _ portfile]) (simp add: ret_def)

lemma appends_foreach: "(\<And>x. x \<in> set xs \<Longrightarrow> appends (f x) (E x)) \<Longrightarrow> appends (foreach xs f) (\<Union>x\<in>set xs. E x)"
proof (induction xs)
  case (Cons x xs)
  have "appends (foreach xs f) (\<Union>x\<in>set xs. E x)" by (rule Cons.IH) (simp add: Cons.prems)
  then have "appends (seq (f x) (foreach xs f)) (E x \<union> (\<Union>x\<in>set xs. E x))"
    by (intro appends_seq Cons.prems) simp
  then show ?case by simp
qed (simp add: appends_ret)

lemma appends_check_port: "appends (check_port ws ty li pin) {}"
proof (cases "map_of ws (fst pin)")
  case (Some port)
  then show ?thesis unfolding check_port_def
    by (auto simp: change_def intro: appends_unchanged)
qed (simp add: check_port_def appends_ret)

lemma edges_map: "edges (map (\<lambda>r. Step no (f r) (g r) p) xs) = (\<lambda>r. (f r, g r)) ` set xs"
  by (auto simp: edges_def)

lemma edges_single: "edges [Step no f t p] = {(f, t)}"
  by (auto simp: edges_def)

lemma appends_connect_pin:
  assumes "\<forall>(n, w)\<in>set ws. wname w \<noteq> []"
  shows "appends (connect_pin ws ty li md inst pin)
    (pin_edges ws (or_default ''unknown_mod'' md) (or_default ''unknown_mor'' inst) pin)"
proof (cases "map_of ws (fst pin) = None \<or> snd pin = None")
  case True
  then have "pin_edges ws outer inner pin = {}" for outer inner by (auto simp: pin_edges_def)
  moreover have "connect_pin ws ty li md inst pin = ret ()"
    using True by (auto simp: connect_pin_def split: option.split)
  ultimately show ?thesis by (simp add: appends_ret)
next
  case False
  then obtain port e where pe: "map_of ws (fst pin) = Some port" "snd pin = Some e" by auto
  have pin: "pin = (fst pin, Some e)" using pe(2) by (metis prod.collapse)
  have "wname port \<noteq> []" using assms map_of_SomeD [OF pe(1)] by auto
  then have w: "or_default d (wname port) = wname port" for d by (simp add: or_default_def)
  show ?thesis unfolding appends_def
  proof (intro allI impI)
    fix s s' assume run: "connect_pin ws ty li md inst pin s = (Inr (), s')"
    have pf: "s\<lparr>stepfile := stepfile s @ new\<rparr> = s\<lparr>stepfile := stepfile s @ new, portfile := portfile s\<rparr>" for new
      by simp
    have "\<exists>new. s' = s\<lparr>stepfile := stepfile s @ new\<rparr> \<and> edges new =
        pin_edges ws (or_default ''unknown_mod'' md) (or_default ''unknown_mor'' inst) pin"
    proof (cases "port_type port = PINPUT \<or> port_type port = PINOUT")
      case True
      then have "s' = s\<lparr>stepfile := stepfile s @ map (\<lambda>r. Step
          (or_default ''unknown_constraint'' (fst pin @ '' in module '' @ ty @ '' @'' @ get_fileline li))
          (or_default ''unknown_mod'' md @ ''_'' @ r) (or_default ''unknown_mor'' inst @ ''_'' @ wname port)
          (or_default ''1'' (formatStringByMap (pcstring s) (varsToType s) inst))) (typecheckstring e)\<rparr>"
        using run by (simp add: connect_pin_def pe condition_text_def run_simps write_constraint_def
            print_constraint_def mk_constraint_def Let_def w)
      then show ?thesis by (intro exI conjI, assumption)
        (subst pin, simp only: edges_map pin_edges_in [OF pe(1) True])
    next
      case False
      show ?thesis
      proof (cases "port_type port = POUTPUT")
        case True
        then obtain l ls where l: "typecheckstring e = l # ls"
          using run False
          by (auto simp: connect_pin_def pe condition_text_def run_simps write_constraint_def
              print_constraint_def mk_constraint_def Let_def split: list.splits)
        then have "s' = s\<lparr>stepfile := stepfile s @ [Step
            (or_default ''unknown_constraint'' (fst pin @ '' in module '' @ ty @ '' @'' @ get_fileline li))
            (or_default ''unknown_mor'' inst @ ''_'' @ wname port) (or_default ''unknown_mod'' md @ ''_'' @ l)
            (or_default ''1'' (formatStringByMap (pcstring s) (varsToType s) inst))]\<rparr>"
          using run False True by (simp add: connect_pin_def pe condition_text_def run_simps write_constraint_def
              print_constraint_def mk_constraint_def Let_def w)
        then show ?thesis by (intro exI conjI, assumption)
          (subst pin, simp only: edges_single pin_edges_out [OF pe(1) True] l list.sel)
      next
        case neither: False
        then have "s' = s" using run False
          by (simp add: connect_pin_def pe condition_text_def run_simps Let_def)
        moreover have "pin_edges ws outer inner pin = {}" for outer inner
          using neither False by (auto simp: pin_edges_def pe)
        ultimately show ?thesis by (auto intro!: exI [of _ "[]"])
      qed
    qed
    then show "\<exists>new pf. s' = s\<lparr>stepfile := stepfile s @ new, portfile := pf\<rparr> \<and> edges new =
        pin_edges ws (or_default ''unknown_mod'' md) (or_default ''unknown_mor'' inst) pin"
      using pf by blast
  qed
qed

text \<open>
  C29. The steps of an instance that is checked without an error: for every pin with an expression,
  one pair from each signal of the expression to an input or inout port, and one pair from an output
  port to the first signal of the expression; the outer end has the prefix of the enclosing instance
  and the inner end that of the new one. Pins without an expression and unknown ports give none, and
  an inout port is never a source.
\<close>

theorem port_steps_exact:
  assumes "PGModule_typecheck modules li ty pins s = (Inr (), s')" "map_of modules ty = Some m"
    and "\<forall>(n, w)\<in>set (wires (mod_scope m)). wname w \<noteq> []"
  shows "\<exists>new. stepfile s' = stepfile s @ new \<and> edges new =
    {(outer_name s @ ''_'' @ r, inner_name s @ ''_'' @ wname port) |pn e port r. (pn, Some e) \<in> set pins \<and>
       map_of (wires (mod_scope m)) pn = Some port \<and> port_type port \<in> {PINPUT, PINOUT} \<and>
       r \<in> set (typecheckstring e)} \<union>
    {(inner_name s @ ''_'' @ wname port, outer_name s @ ''_'' @ hd (typecheckstring e)) |pn e port.
       (pn, Some e) \<in> set pins \<and> map_of (wires (mod_scope m)) pn = Some port \<and> port_type port = POUTPUT}"
proof -
  let ?ws = "wires (mod_scope m)"
  have a: "appends (seq (foreach pins (check_port ?ws ty li))
      (foreach pins (connect_pin ?ws ty li (capitalize (text_of (parent_name s))) (capitalize (current_module_name s)))))
      ((\<Union>pin\<in>set pins. {}) \<union> (\<Union>pin\<in>set pins. pin_edges ?ws (outer_name s) (inner_name s) pin))"
    unfolding outer_name_def inner_name_def
    by (intro appends_seq appends_foreach appends_check_port appends_connect_pin assms(3))
  have b: "seq (foreach pins (check_port ?ws ty li))
      (foreach pins (connect_pin ?ws ty li (capitalize (text_of (parent_name s))) (capitalize (current_module_name s)))) s =
      (Inr (), s')"
    using assms(1,2) by (simp add: PGModule_typecheck_def bind_def get_def Let_def)
  obtain new pf where new: "s' = s\<lparr>stepfile := stepfile s @ new, portfile := pf\<rparr>"
    "edges new = (\<Union>pin\<in>set pins. {}) \<union> (\<Union>pin\<in>set pins. pin_edges ?ws (outer_name s) (inner_name s) pin)"
    using appendsD [OF a b] by blast
  have "edges new = (\<Union>pin\<in>set pins. pin_edges ?ws (outer_name s) (inner_name s) pin)"
    unfolding new(2) by simp
  moreover have "stepfile s' = stepfile s @ new" using new(1) by simp
  ultimately show ?thesis unfolding UN_pin_edges by blast
qed

text \<open>An instance of a module with an input, an output and an inout port.\<close>

definition port_wire :: "string \<Rightarrow> PortType \<Rightarrow> string \<times> pwire" where
  "port_wire n pt = (n, \<lparr>wname = n, port_type = pt, sectype = 1, port_range = None, net_range = None\<rparr>)"

definition port_modules :: modules where
  "port_modules = [(''m'', demo_module\<lparr>mod_name := ''m'', mod_scope := empty_scope\<lparr>wires :=
     [port_wire ''i'' PINPUT, port_wire ''o'' POUTPUT, port_wire ''x'' PINOUT]\<rparr>\<rparr>)]"

definition demo_pins :: "(string \<times> pexpr option) list" where
  "demo_pins = [(''i'', Some (simple_ident ''a'')), (''o'', Some (simple_ident ''b'')),
     (''x'', Some (simple_ident ''c'')), (''u'', Some (simple_ident ''d''))]"

definition inside_top :: tstate where
  "inside_top = demo_state\<lparr>instance_name := Some ''u'', parent_name := Some ''top''\<rparr>"

lemma demo_pins_run: "fst (PGModule_typecheck port_modules (None, 1) ''m'' demo_pins inside_top) = Inr ()"
  by code_simp

lemma inside_top_names: "outer_name inside_top = ''Top''" "inner_name inside_top = ''Top_u''"
  by code_simp+

theorem port_steps_exact_witness:
  "edges (stepfile (snd (PGModule_typecheck port_modules (None, 1) ''m'' demo_pins inside_top))) =
     {(''Top_a'', ''Top_u_i''), (''Top_c'', ''Top_u_x''), (''Top_u_o'', ''Top_b'')}"
proof -
  obtain s' where run: "PGModule_typecheck port_modules (None, 1) ''m'' demo_pins inside_top = (Inr (), s')"
    using demo_pins_run by (metis prod.collapse)
  have t: "typecheckstring (simple_ident x) = [x]" for x
    by (simp add: simple_ident_def peek_tail_name_def get_index_expressions_def)
  let ?m = "snd (hd port_modules)"
  have m: "map_of port_modules ''m'' = Some ?m" "\<forall>(n, w)\<in>set (wires (mod_scope ?m)). wname w \<noteq> []"
    by (simp_all add: port_modules_def port_wire_def)
  have e: "stepfile inside_top = []" by (simp add: inside_top_def demo_state_def)
  have "edges (stepfile s') = (\<Union>pin\<in>set demo_pins. pin_edges (wires (mod_scope ?m)) ''Top'' ''Top_u'' pin)"
    using port_steps_exact [OF run m] unfolding UN_pin_edges [symmetric] inside_top_names e by auto
  also have "\<dots> = {(''Top_a'', ''Top_u_i''), (''Top_c'', ''Top_u_x''), (''Top_u_o'', ''Top_b'')}"
    by (simp add: demo_pins_def port_modules_def port_wire_def pin_edges_in pin_edges_out pin_edges_unknown t
        insert_commute)
  finally show ?thesis unfolding run snd_conv .
qed

end
