(* ===== verification/Skipped.thy ===== *)
theory Skipped
  imports Ports
begin

text \<open>
  What the marks and the static sets make the checker skip: the continuous assignments of every
  instance of a module but the first, and all generate blocks of an instance but the first.
\<close>

section \<open>Continuous assignments\<close>

definition is_assign :: "gate \<Rightarrow> bool" where
  "is_assign g = (case g of PGAssign li l r \<Rightarrow> True | _ \<Rightarrow> False)"

definition marked :: "string \<Rightarrow> nat \<Rightarrow> gate list \<Rightarrow> tstate \<Rightarrow> bool" where
  "marked this n gates s \<longleftrightarrow>
     (\<forall>(k, g)\<in>set (enumerate n gates). is_assign g \<longrightarrow> (this, k) \<in> checked_assigns s)"

lemma marked_later: "marked this n gates s \<Longrightarrow> later s s' \<Longrightarrow> marked this n gates s'"
  by (auto simp: marked_def later_def)

lemma check_gate_marks:
  "check_gate modules this (k, g) s = (Inr (), s') \<Longrightarrow> is_assign g \<Longrightarrow> (this, k) \<in> checked_assigns s'"
  by (cases g) (auto simp: is_assign_def bind_Inr seq_Inr get_def change_def ret_def split: if_splits)

lemma gates_marked:
  "foreach (enumerate n gates) (check_gate modules this) s = (Inr (), s') \<Longrightarrow> marked this n gates s'"
proof (induction gates arbitrary: n s)
  case (Cons g gates)
  then obtain s1 where 1: "check_gate modules this (n, g) s = (Inr (), s1)"
    and 2: "foreach (enumerate (Suc n) gates) (check_gate modules this) s1 = (Inr (), s')"
    by (auto simp: seq_Inr)
  have "later s1 s'" by (rule advances_run [OF advances_foreach [OF advances_gate] 2])
  then have "is_assign g \<Longrightarrow> (this, n) \<in> checked_assigns s'"
    using check_gate_marks [OF 1] by (auto simp: later_def)
  then show ?case using Cons.IH [OF 2] by (simp add: marked_def)
qed (simp add: marked_def)

lemma check_gate_index:
  "\<not> is_assign g \<Longrightarrow> check_gate modules this (k, g) = check_gate modules this (j, g)"
  by (cases g) (simp_all add: is_assign_def)

lemma foreach_index:
  "\<forall>g\<in>set gates. \<not> is_assign g \<Longrightarrow>
    foreach (enumerate k gates) (check_gate modules this) = foreach (enumerate j gates) (check_gate modules this)"
proof (induction gates arbitrary: k j)
  case (Cons g gates)
  have "foreach (enumerate (Suc k) gates) (check_gate modules this) =
      foreach (enumerate (Suc j) gates) (check_gate modules this)"
    using Cons by simp
  moreover have "check_gate modules this (k, g) = check_gate modules this (j, g)"
    using Cons.prems by (intro check_gate_index) simp
  ultimately show ?case by simp
qed simp

lemma seq_cong_run: "(\<And>x s'. m s = (Inr x, s') \<Longrightarrow> n s' = n' s') \<Longrightarrow> seq m n s = seq m n' s"
  by (auto simp: seq_run split: prod.split sum.split)

lemma marked_skipped:
  "marked this n gates s \<Longrightarrow> foreach (enumerate n gates) (check_gate modules this) s =
    foreach (enumerate k (filter (\<lambda>g. \<not> is_assign g) gates)) (check_gate modules this) s"
proof (induction gates arbitrary: n k s)
  case (Cons g gates)
  show ?case
  proof (cases "is_assign g")
    case True
    then obtain li l r where g: "g = PGAssign li l r" by (cases g) (auto simp: is_assign_def)
    have "check_gate modules this (n, g) s = (Inr (), s)"
      using Cons.prems by (simp add: g marked_def is_assign_def bind_def get_def ret_def)
    then have "foreach (enumerate n (g # gates)) (check_gate modules this) s =
        foreach (enumerate (Suc n) gates) (check_gate modules this) s"
      by (simp add: seq_run)
    also have "\<dots> = foreach (enumerate k (filter (\<lambda>g. \<not> is_assign g) gates)) (check_gate modules this) s"
      by (rule Cons.IH) (use Cons.prems in \<open>simp add: marked_def\<close>)
    finally show ?thesis using True by simp
  next
    case False
    have "seq (check_gate modules this (n, g)) (foreach (enumerate (Suc n) gates) (check_gate modules this)) s =
        seq (check_gate modules this (n, g))
          (foreach (enumerate (Suc k) (filter (\<lambda>g. \<not> is_assign g) gates)) (check_gate modules this)) s"
    proof (rule seq_cong_run)
      fix x s' assume "check_gate modules this (n, g) s = (Inr x, s')"
      then have "later s s'" by (rule advances_run [OF advances_gate])
      moreover have "marked this (Suc n) gates s" using Cons.prems by (simp add: marked_def)
      ultimately show "foreach (enumerate (Suc n) gates) (check_gate modules this) s' =
          foreach (enumerate (Suc k) (filter (\<lambda>g. \<not> is_assign g) gates)) (check_gate modules this) s'"
        using Cons.IH marked_later by blast
    qed
    then show ?thesis using False check_gate_index [OF False, of modules this n k] by simp
  qed
qed simp

text \<open>
  The continuous assignments of a module are checked for one instance only. Once the gates of a
  module were checked without an error, in every later state, whichever instance it belongs to, the
  gates are checked as if the module had no continuous assignment; so their steps are never recorded
  for the other instances.
\<close>

theorem repeated_assignments_skipped:
  assumes "foreach (enumerate 0 (mod_gates m)) (check_gate modules (mod_name m)) s = (Inr (), s1)"
    and "later s1 s2"
  shows "foreach (enumerate 0 (mod_gates m)) (check_gate modules (mod_name m)) s2 =
    foreach (enumerate 0 (filter (\<lambda>g. \<not> is_assign g) (mod_gates m))) (check_gate modules (mod_name m)) s2"
  by (rule marked_skipped, rule marked_later [OF _ assms(2)], rule gates_marked [OF assms(1)])

definition wire_module :: pmodule where
  "wire_module = demo_module\<lparr>mod_name := ''w'', mod_gates := [PGAssign (None, 1) (simple_ident ''y'') (simple_ident ''a'')]\<rparr>"

definition instance_state :: "string \<Rightarrow> tstate \<Rightarrow> tstate" where
  "instance_state i s = s\<lparr>env_module := wire_module, instance_name := Some i, parent_name := Some ''top''\<rparr>"

lemma wire_module_runs:
  "fst (foreach (enumerate 0 (mod_gates wire_module)) (check_gate [] ''w'') (instance_state ''u'' demo_state)) = Inr ()"
  by code_simp

theorem repeated_assignments_skipped_witness:
  "let s1 = snd (foreach (enumerate 0 (mod_gates wire_module)) (check_gate [] ''w'') (instance_state ''u'' demo_state))
   in foreach (enumerate 0 (mod_gates wire_module)) (check_gate [] ''w'') (instance_state ''v'' s1) =
     (Inr (), instance_state ''v'' s1)"
proof -
  have n: "mod_name wire_module = ''w''" "filter (\<lambda>g. \<not> is_assign g) (mod_gates wire_module) = []"
    by (simp_all add: wire_module_def is_assign_def)
  define run where "run = foreach (enumerate 0 (mod_gates wire_module)) (check_gate [] ''w'')"
  obtain s1 where s1: "run (instance_state ''u'' demo_state) = (Inr (), s1)"
    using wire_module_runs unfolding run_def by (metis prod.collapse)
  have "later s1 (instance_state ''v'' s1)" by (simp add: later_def instance_state_def)
  then have "run (instance_state ''v'' s1) = (Inr (), instance_state ''v'' s1)"
    using repeated_assignments_skipped [of wire_module "[]" _ s1, unfolded n, folded run_def, OF s1]
    by (simp add: ret_def)
  then show ?thesis unfolding run_def [symmetric] s1 Let_def snd_conv .
qed

section \<open>Generate blocks\<close>

definition naming :: "tstate \<Rightarrow> pmodule \<times> string option \<times> string option" where
  "naming s = (env_module s, instance_name s, parent_name s)"

definition place :: "tstate \<Rightarrow> string option \<times> string option" where
  "place s = (instance_name s, parent_name s)"

lemma naming_name: "naming s = naming s' \<Longrightarrow> current_module_name s = current_module_name s'"
  by (auto simp: naming_def current_module_name_def split: option.split)

lemma keeps_naming: "keeps env_module m \<Longrightarrow> keeps place m \<Longrightarrow> keeps naming m"
  by (auto simp: keeps_def naming_def place_def)

lemma keeps_files: "leaves_files m \<Longrightarrow> keeps naming m"
  unfolding leaves_files_def keeps_def same_files_def naming_def by (metis snd_conv)

lemma naming_basic:
  "keeps naming (set_hypotheses hs)" "keeps naming (declare_scope sc)" "keeps naming (check_stmt st)"
  "keeps naming (simple_assignment k no l r)"
proof -
  show "keeps naming (set_hypotheses hs)"
    by (simp add: keeps_def naming_def set_hypotheses_def change_def)
qed (intro keeps_files leaves_files_scope check_stmt_leaves_files leaves_files_assign)+

lemma naming_check_assign: "keeps naming (check_assign li l r)"
  unfolding check_assign_def typecheck_assignment_def by (intro keeps_seq keeps_if naming_basic)

lemma naming_process: "keeps naming (check_process p)"
  unfolding check_process_def by (intro keeps_seq keeps_if keeps_ret naming_basic)

lemma env_PGModule: "keeps env_module (PGModule_typecheck modules li ty pins)"
proof -
  have w: "keeps env_module (write_constraint c)" "keeps env_module (change (\<lambda>s. s\<lparr>portfile := f s\<rparr>))" for c f
    by (auto simp: write_constraint_def emit_def keeps_def fail_def change_def split: sum.split)
  have p: "keeps env_module (check_port ws ty li pin)" "keeps env_module (connect_pin ws ty li md inst pin)" for ws md inst pin
    unfolding check_port_def connect_pin_def condition_text_def Let_def
    by (auto intro!: keeps_bind keeps_ret w split: option.split)
  show ?thesis unfolding PGModule_typecheck_def Let_def split_beta
    by (rule keeps_bind) (auto intro!: keeps_ret keeps_seq keeps_foreach p split: option.split)
qed

lemma naming_instance: "keeps naming (check_instance modules this li ty inst pins)"
proof (rule keeps_naming)
  have c: "keeps env_module (change (\<lambda>s. s\<lparr>children := f s\<rparr>))" "keeps place (change (\<lambda>s. s\<lparr>children := f s\<rparr>))"
    "keeps env_module (set_instance i p)" for f i p
    by (simp_all add: keeps_def change_def set_instance_def place_def)
  show "keeps env_module (check_instance modules this li ty inst pins)"
    unfolding check_instance_def split_beta
    by (intro keeps_bind keeps_seq keeps_ret c env_PGModule keeps_if)
  have "leaves place (i, p) (seq (set_instance i p) (if b then change (\<lambda>s. s\<lparr>children := f s\<rparr>) else ret ()))" for i p b f
    by (intro leaves_keeps keeps_if c keeps_ret) (simp add: leaves_def set_instance_def change_def place_def)
  then show "keeps place (check_instance modules this li ty inst pins)"
    unfolding check_instance_def split_beta
    by (intro keeps_leaves) (simp only: fst_conv snd_conv, rule leaves_seq, rule leaves_seq, subst place_def)
qed

lemma naming_generate_gate: "keeps naming (generate_gate modules this g)"
  by (cases g) (simp_all add: naming_instance naming_check_assign keeps_ret)

text \<open>The instance of the state is in the static set of the generate blocks.\<close>

definition generated :: "tstate \<Rightarrow> bool" where
  "generated s \<longleftrightarrow> current_module_name s \<in> seen_generates s"

lemma generated_run:
  assumes "generated s" "keeps naming m" "advances m" "m s = (Inr x, s')"
  shows "generated s'"
proof -
  have "naming s' = naming s" using assms(2,4) unfolding keeps_def by blast
  then have "current_module_name s' = current_module_name s" by (rule naming_name)
  moreover have "later s s'" by (rule advances_run [OF assms(3,4)])
  ultimately show ?thesis using assms(1) by (auto simp: generated_def later_def)
qed

lemma generate_skipped: "generated s \<Longrightarrow> check_generate g modules this s = (Inr (), s)"
  by (cases g) (simp add: generated_def bind_def get_def ret_def)

lemma generates_skipped: "generated s \<Longrightarrow> foreach gs (\<lambda>g. check_generate g modules this) s = (Inr (), s)"
  by (induction gs) (simp_all add: ret_def seq_run generate_skipped)

lemma seq_assoc: "seq (seq m n) k = seq m (seq n k)"
  by (rule ext) (simp add: seq_run split: prod.split sum.split)

lemma seq_ret: "seq m (ret ()) = m"
  by (rule ext) (simp add: seq_run ret_def split: prod.split sum.split)

definition generate_body :: "modules \<Rightarrow> string \<Rightarrow> lexical_scope \<Rightarrow> gate list \<Rightarrow> pprocess list \<Rightarrow> nat \<Rightarrow> string list \<Rightarrow> unit tc" where
  "generate_body modules this sc gates behavs analog gvars =
     seq (declare_scope sc)
     (seq (foreach gates (generate_gate modules this))
     (seq (foreach behavs check_process)
     (seq (if analog \<noteq> 0 then throw ''AProcess'' else ret ())
       (if gvars \<noteq> [] then throw ''genvars'' else ret ()))))"

lemma generate_body_keeps:
  "keeps naming (generate_body modules this sc gates behavs analog gvars)"
  "advances (generate_body modules this sc gates behavs analog gvars)"
proof -
  show "keeps naming (generate_body modules this sc gates behavs analog gvars)"
    unfolding generate_body_def
    by (intro keeps_seq keeps_foreach keeps_if naming_basic naming_generate_gate naming_process keeps_throw keeps_ret)
  have "advances (declare_scope sc)" unfolding declare_scope_def by (intro advances_seq advances_basic)
  then show "advances (generate_body modules this sc gates behavs analog gvars)"
    unfolding generate_body_def
    by (auto intro!: advances_seq advances_foreach advances_generate_gate advances_process advances_basic)
qed

definition mark_generate :: "tstate \<Rightarrow> tstate" where
  "mark_generate s = s\<lparr>seen_generates := insert (current_module_name s) (seen_generates s)\<rparr>"

lemma generated_mark: "generated (mark_generate s)"
proof -
  have "naming (mark_generate s) = naming s" by (simp add: naming_def mark_generate_def)
  then have "current_module_name (mark_generate s) = current_module_name s" by (rule naming_name)
  then show ?thesis by (simp add: generated_def) (simp add: mark_generate_def)
qed

lemma check_generate_fresh:
  "\<not> generated s \<Longrightarrow> check_generate (PGenerate sc gates behavs analog gvars schemes) modules this s =
    seq (generate_body modules this sc gates behavs analog gvars)
      (foreach schemes (\<lambda>g. check_generate g modules this)) (mark_generate s)"
  by (simp add: generated_def bind_def get_def generate_body_def seq_assoc foreach_map)
    (simp add: seq_run change_def mark_generate_def)

lemma generate_schemes_skipped:
  "\<not> generated s \<Longrightarrow> check_generate (PGenerate sc gates behavs analog gvars schemes) modules this s =
    generate_body modules this sc gates behavs analog gvars (mark_generate s)"
proof -
  assume s: "\<not> generated s"
  let ?b = "generate_body modules this sc gates behavs analog gvars"
  have "seq ?b (foreach schemes (\<lambda>g. check_generate g modules this)) (mark_generate s) =
      seq ?b (ret ()) (mark_generate s)"
  proof (rule seq_cong_run)
    fix x s' assume "?b (mark_generate s) = (Inr x, s')"
    then have "generated s'" by (rule generated_run [OF generated_mark generate_body_keeps])
    then show "foreach schemes (\<lambda>g. check_generate g modules this) s' = ret () s'"
      by (simp add: generates_skipped ret_def)
  qed
  then show ?thesis unfolding check_generate_fresh [OF s] seq_ret .
qed

lemma check_generate_marks:
  assumes "check_generate g modules this s = (Inr (), s')"
  shows "generated s'"
proof (cases "generated s")
  case True
  then show ?thesis using assms by (simp add: generate_skipped)
next
  case False
  obtain sc gates behavs analog gvars schemes where g: "g = PGenerate sc gates behavs analog gvars schemes"
    by (cases g)
  have "generate_body modules this sc gates behavs analog gvars (mark_generate s) = (Inr (), s')"
    using assms unfolding g generate_schemes_skipped [OF False] .
  then show ?thesis by (rule generated_run [OF generated_mark generate_body_keeps])
qed

text \<open>
  Of the generate blocks of an instance only the first is checked: a list of blocks is checked
  like its first one, and a block like the same block without the blocks inside it.
\<close>

theorem only_first_generate_block:
  "foreach (g # gs) (\<lambda>g. check_generate g modules this) s = check_generate g modules this s \<and>
   check_generate (PGenerate sc gates behavs analog gvars schemes) modules this s =
     check_generate (PGenerate sc gates behavs analog gvars []) modules this s"
proof
  have "seq (check_generate g modules this) (foreach gs (\<lambda>g. check_generate g modules this)) s =
      seq (check_generate g modules this) (ret ()) s"
    by (rule seq_cong_run) (simp add: check_generate_marks generates_skipped ret_def)
  then show "foreach (g # gs) (\<lambda>g. check_generate g modules this) s = check_generate g modules this s"
    by (simp add: seq_ret)
  show "check_generate (PGenerate sc gates behavs analog gvars schemes) modules this s =
      check_generate (PGenerate sc gates behavs analog gvars []) modules this s"
  proof (cases "generated s")
    case False
    show ?thesis unfolding generate_schemes_skipped [OF False] ..
  qed (simp only: generate_skipped)
qed

end
