(* ===== verification/Traversal.thy ===== *)
theory Traversal
  imports Skipped
begin

text \<open>
  The traversal of the instance hierarchy by levels: it ends when no module contains itself, with an
  explicit bound on the number of levels, and it does not end when a module does.
\<close>

section \<open>The children of a module\<close>

fun gate_types :: "gate \<Rightarrow> string set" where
  "gate_types (PGModule li ty inst pins) = {ty}"
| "gate_types (PGAssign li l r) = {}"
| "gate_types PGBuiltin = {}"

primrec generate_types :: "pgenerate \<Rightarrow> string set" where
  "generate_types (PGenerate sc gates behavs analog gvars schemes) =
     (\<Union>g\<in>set gates. gate_types g) \<union> (\<Union>ts\<in>set (map generate_types schemes). ts)"

text \<open>The types of the instances in a module and in its generate blocks.\<close>

definition module_types :: "pmodule \<Rightarrow> string set" where
  "module_types m = (\<Union>g\<in>set (mod_gates m). gate_types g) \<union> (\<Union>g\<in>set (generate_schemes m). generate_types g)"

definition spawns :: "string set \<Rightarrow> 'a tc \<Rightarrow> bool" where
  "spawns T m \<longleftrightarrow> (\<forall>s. set (children (snd (m s))) \<subseteq> set (children s) \<union> {c. fst c \<in> T})"

lemma spawnsD: "spawns T m \<Longrightarrow> m s = (r, s') \<Longrightarrow> set (children s') \<subseteq> set (children s) \<union> {c. fst c \<in> T}"
  unfolding spawns_def by (metis snd_conv)

lemma spawns_bind:
  assumes "spawns T m" "\<And>x. spawns T (f x)"
  shows "spawns T (bind m f)"
  unfolding spawns_def
proof
  fix s
  obtain r s' where m: "m s = (r, s')" by force
  have 1: "set (children s') \<subseteq> set (children s) \<union> {c. fst c \<in> T}" by (rule spawnsD [OF assms(1) m])
  show "set (children (snd (bind m f s))) \<subseteq> set (children s) \<union> {c. fst c \<in> T}"
  proof (cases r)
    case (Inr x)
    have "set (children (snd (f x s'))) \<subseteq> set (children s') \<union> {c. fst c \<in> T}"
      using assms(2) unfolding spawns_def by blast
    then show ?thesis using 1 m Inr by (auto simp: bind_def)
  qed (use 1 m in \<open>simp add: bind_def\<close>)
qed

lemma spawns_seq: "spawns T m \<Longrightarrow> spawns T n \<Longrightarrow> spawns T (seq m n)"
  unfolding seq_def by (rule spawns_bind)

lemma spawns_foreach: "(\<And>x. x \<in> set xs \<Longrightarrow> spawns T (f x)) \<Longrightarrow> spawns T (foreach xs f)"
proof (induction xs)
  case (Cons x xs)
  have "spawns T (foreach xs f)" by (rule Cons.IH) (simp add: Cons.prems)
  then show ?case unfolding foreach.simps by (intro spawns_seq Cons.prems) simp
qed (simp add: spawns_def ret_def)

lemma spawns_mono: "spawns T m \<Longrightarrow> T \<subseteq> T' \<Longrightarrow> spawns T' m"
  unfolding spawns_def by fast

lemma spawns_if: "spawns T m \<Longrightarrow> spawns T n \<Longrightarrow> spawns T (if b then m else n)"
  by simp

lemma spawns_files: "leaves_files m \<Longrightarrow> spawns T m"
  by (simp add: leaves_files_def same_files_def spawns_def)

lemma spawns_basic:
  "spawns T (ret x)" "spawns T (fail e)" "spawns T (throw t)" "spawns T (get g)" "spawns T (emit ls)"
  "spawns T (set_hypotheses hs)" "spawns T (set_instance i p)" "spawns T (declare_parameters ps)"
  "spawns T (declare_wires ws)" "spawns T (declare_scope sc)"
  "spawns T (change (\<lambda>s. s\<lparr>portfile := f1 s\<rparr>))" "spawns T (change (\<lambda>s. s\<lparr>nodefile := f1 s\<rparr>))"
  "spawns T (change (\<lambda>s. s\<lparr>seen_generates := f2 s\<rparr>))" "spawns T (change (\<lambda>s. s\<lparr>seen_ports := f2 s\<rparr>))"
  "spawns T (change (\<lambda>s. s\<lparr>seen_modules := f2 s\<rparr>))" "spawns T (change (\<lambda>s. s\<lparr>checked_assigns := f3 s\<rparr>))"
proof -
  show "spawns T (declare_scope sc)" by (intro spawns_files leaves_files_scope)
qed (simp_all add: spawns_def run_simps set_instance_def declare_parameters_def declare_wires_def)

lemma spawns_check_assign: "spawns T (check_assign li l r)"
  unfolding check_assign_def typecheck_assignment_def
  by (intro spawns_seq spawns_if spawns_basic spawns_files check_stmt_leaves_files leaves_files_assign)

lemma spawns_process: "spawns T (check_process p)"
  unfolding check_process_def
  by (intro spawns_seq spawns_if spawns_basic spawns_files check_stmt_leaves_files)

lemma spawns_instance:
  assumes ty: "ty \<in> dom (map_of modules) \<Longrightarrow> ty \<in> T"
  shows "spawns T (check_instance modules this li ty inst pins)"
proof -
  have w: "spawns T (write_constraint c)" for c
    by (auto simp: write_constraint_def intro: spawns_basic split: sum.split)
  have p: "spawns T (check_port ws ty li pin)" "spawns T (connect_pin ws ty li md i pin)" for ws md i pin
    unfolding check_port_def connect_pin_def condition_text_def Let_def
    by (auto intro!: spawns_bind spawns_basic w split: option.split)
  have m: "spawns T (PGModule_typecheck modules li ty pins)"
    unfolding PGModule_typecheck_def Let_def split_beta
    by (rule spawns_bind) (auto intro!: spawns_basic spawns_seq spawns_foreach p split: option.split)
  have c: "spawns T (if map_of modules ty \<noteq> None
      then change (\<lambda>s. s\<lparr>children := children s @ [(ty, path, i)]\<rparr>) else ret ())" for path i
    using ty by (auto simp: spawns_def change_def ret_def)
  show ?thesis unfolding check_instance_def split_beta
    by (intro spawns_bind spawns_seq spawns_basic m c)
qed

lemma spawns_generate_gate: "gate_types g \<inter> dom (map_of modules) \<subseteq> T \<Longrightarrow> spawns T (generate_gate modules this g)"
  by (cases g) (auto intro: spawns_instance spawns_check_assign spawns_basic)

lemma spawns_generate: "generate_types g \<inter> dom (map_of modules) \<subseteq> T \<Longrightarrow> spawns T (check_generate g modules this)"
proof (induction g)
  case (PGenerate sc gates behavs analog gvars schemes)
  have "spawns T (foreach (map check_generate schemes) (\<lambda>f. f modules this))"
    unfolding foreach_map
  proof (rule spawns_foreach)
    fix x assume "x \<in> set schemes"
    then show "spawns T (check_generate x modules this)" using PGenerate by (intro PGenerate.IH) auto
  qed
  moreover have "spawns T (foreach gates (generate_gate modules this))"
    by (rule spawns_foreach) (use PGenerate.prems in \<open>auto intro: spawns_generate_gate\<close>)
  ultimately show ?case unfolding check_generate.simps split_beta
    by (intro spawns_bind spawns_if spawns_seq spawns_basic spawns_foreach [OF spawns_process])
qed

lemma spawns_gate: "gate_types (snd kg) \<inter> dom (map_of modules) \<subseteq> T \<Longrightarrow> spawns T (check_gate modules this kg)"
proof -
  obtain k g where kg: "kg = (k, g)" by force
  show "gate_types (snd kg) \<inter> dom (map_of modules) \<subseteq> T \<Longrightarrow> ?thesis" unfolding kg
    by (cases g) (auto intro!: spawns_bind spawns_seq spawns_instance spawns_check_assign spawns_basic)
qed

lemma spawns_ports: "spawns T outputPorts"
  unfolding outputPorts_def split_beta Let_def
  by (intro spawns_bind spawns_if spawns_seq spawns_basic)
    (auto intro: spawns_basic split: option.split)

lemma spawns_body: "spawns (module_types m \<inter> dom (map_of modules)) (module_body modules m)"
proof -
  let ?T = "module_types m \<inter> dom (map_of modules)"
  have g: "spawns ?T (foreach (generate_schemes m) (\<lambda>g. check_generate g modules this))" for this
    by (rule spawns_foreach, rule spawns_generate) (auto simp: module_types_def)
  have h: "spawns ?T (foreach (enumerate 0 (mod_gates m)) (check_gate modules this))" for this
  proof (rule spawns_foreach, rule spawns_gate)
    fix x assume "x \<in> set (enumerate 0 (mod_gates m))"
    then have "snd x \<in> snd ` set (enumerate 0 (mod_gates m))" by (rule imageI)
    then have "snd x \<in> set (mod_gates m)" unfolding set_map [symmetric] map_snd_enumerate .
    then show "gate_types (snd x) \<inter> dom (map_of modules) \<subseteq> ?T" by (auto simp: module_types_def)
  qed
  show ?thesis unfolding module_body_def
    by (intro spawns_seq spawns_if spawns_basic spawns_foreach [OF spawns_process] spawns_ports g h)
qed

lemma check_task_children:
  assumes "check_task modules t s = Inr (ts, s')" "t' \<in> set ts"
  shows "\<exists>m. map_of modules (fst t) = Some m \<and> fst t' \<in> module_types m \<and> fst t' \<in> dom (map_of modules)"
proof -
  obtain ty parent inst where t: "t = (ty, parent, inst)" by (cases t) auto
  obtain m where m: "map_of modules ty = Some m"
    using assms t by (cases "map_of modules ty") (auto simp: check_task_def)
  let ?s = "new_env m parent inst s"
  obtain r s1 where run: "Module_typecheck modules ?s = (r, s1)" by force
  have ts: "ts = map (\<lambda>(ty, path, i). (ty, Some path, i)) (children s1)"
    using assms(1) t m run by (auto simp: check_task_def split: sum.splits failure.splits)
  have none: "children ?s = []" "env_module ?s = m" by (simp_all add: new_env_def)
  have "set (children s1) \<subseteq> {c. fst c \<in> module_types m \<inter> dom (map_of modules)}"
  proof (cases "current_module_name ?s \<in> seen_modules ?s")
    case True
    then show ?thesis using run none by (simp add: Module_typecheck_seen)
  next
    case False
    then have "module_body modules m (mark_module ?s) = (r, s1)"
      using run none by (simp add: Module_typecheck_fresh)
    then have "set (children s1) \<subseteq> set (children (mark_module ?s)) \<union>
        {c. fst c \<in> module_types m \<inter> dom (map_of modules)}"
      by (rule spawnsD [OF spawns_body])
    then show ?thesis using none by (simp add: mark_module_def)
  qed
  then have "fst t' \<in> module_types m \<inter> dom (map_of modules)" using assms(2) ts by auto
  then show ?thesis using t m by simp
qed

section \<open>Termination\<close>

definition ranked :: "(string \<Rightarrow> nat) \<Rightarrow> modules \<Rightarrow> bool" where
  "ranked rank modules \<longleftrightarrow> (\<forall>(n, m)\<in>set modules. \<forall>ty\<in>module_types m \<inter> dom (map_of modules). rank ty < rank n)"

lemma check_level_rank:
  assumes "ranked rank modules"
  shows "check_level modules ts s = Inr (next, s') \<Longrightarrow> \<forall>t\<in>set ts. rank (fst t) < Suc n \<Longrightarrow>
    \<forall>t\<in>set next. rank (fst t) < n"
proof (induction ts arbitrary: s "next")
  case (Cons t ts)
  obtain n1 s1 n2 where l: "check_task modules t s = Inr (n1, s1)" "check_level modules ts s1 = Inr (n2, s')"
    "next = n1 @ n2" using Cons.prems(1) unfolding check_level_Cons by blast
  have "rank (fst t') < n" if t': "t' \<in> set n1" for t'
  proof -
    obtain m where m: "map_of modules (fst t) = Some m" "fst t' \<in> module_types m \<inter> dom (map_of modules)"
      using check_task_children [OF l(1) t'] by blast
    then have "rank (fst t') < rank (fst t)" using assms map_of_SomeD [OF m(1)] m(2) unfolding ranked_def by blast
    then show ?thesis using Cons.prems(2) by auto
  qed
  moreover have "\<forall>t\<in>set n2. rank (fst t) < n" using Cons.IH [OF l(2)] Cons.prems(2) by simp
  ultimately show ?case using l(3) by auto
qed simp

lemma traverse_terminates:
  assumes "ranked rank modules"
  shows "\<forall>t\<in>set ts. rank (fst t) < fuel \<Longrightarrow> traverse fuel modules ts s \<noteq> None"
proof (induction fuel arbitrary: ts s)
  case 0
  then have "ts = []" by (cases ts; cases "hd ts") auto
  then show ?case by simp
next
  case (Suc fuel)
  show ?case
  proof (cases ts)
    case (Cons t ts')
    show ?thesis
    proof (cases "check_level modules ts s")
      case (Inr p)
      obtain n s' where p: "p = (n, s')" by force
      have "\<forall>t\<in>set n. rank (fst t) < fuel"
        by (rule check_level_rank [OF assms _ Suc.prems]) (use Inr p in simp)
      then have "traverse fuel modules n s' \<noteq> None" by (rule Suc.IH)
      then show ?thesis using Inr p Cons by simp
    qed (use Cons in simp)
  qed simp
qed

text \<open>
  C32. The traversal of the hierarchy ends when no module contains itself. If the modules can be
  ranked so that every known module instantiated in a module or in its generate blocks has a smaller
  rank, as many levels as the largest rank of a root plus one are enough.
\<close>

theorem traversal_terminates:
  assumes "\<forall>(n, m)\<in>set modules. \<forall>ty\<in>module_types m \<inter> dom (map_of modules). rank ty < rank n"
    and "\<forall>r\<in>set roots. rank r < fuel"
  shows "\<exists>result. typecheck fuel modules roots s = Some result"
proof -
  have "traverse fuel modules (root_tasks modules roots) s \<noteq> None"
    by (rule traverse_terminates) (use assms in \<open>auto simp: ranked_def root_tasks_def\<close>)
  then show ?thesis by (simp add: typecheck_def)
qed

definition child_module :: pmodule where
  "child_module = leaf_module ''m''"

definition parent_module :: pmodule where
  "parent_module = demo_module\<lparr>mod_name := ''top'', mod_gates := [PGModule (None, 1) ''m'' (Some ''u'') []]\<rparr>"

theorem traversal_terminates_witness:
  "\<exists>result. typecheck 2 [(''top'', parent_module), (''m'', child_module)] [''top''] demo_state = Some result"
  by (rule traversal_terminates [where rank = "\<lambda>n. if n = ''top'' then 1 else 0"])
    (simp_all add: module_types_def parent_module_def child_module_def leaf_module_def demo_module_def)

section \<open>Recursion\<close>

text \<open>A module whose only content is an instance \<open>u\<close> of itself.\<close>

definition self_module :: pmodule where
  "self_module = demo_module\<lparr>mod_name := ''r'', mod_gates := [PGModule (None, 1) ''r'' (Some ''u'') []]\<rparr>"

definition self_modules :: modules where
  "self_modules = [(''r'', self_module)]"

definition shorter_names :: "nat \<Rightarrow> tstate \<Rightarrow> bool" where
  "shorter_names n s \<longleftrightarrow> (\<forall>x\<in>seen_modules s. length x < n)"

lemma outputPorts_run:
  assumes "sec_label (env_module s) \<noteq> None"
  obtains s' where "outputPorts s = (Inr (), s')" "seen_modules s' = seen_modules s" "children s' = children s"
    "env_module s' = env_module s" "instance_name s' = instance_name s" "parent_name s' = parent_name s"
proof -
  obtain l where "sec_label (env_module s) = Some l" using assms by blast
  then have "\<exists>s'. outputPorts s = (Inr (), s') \<and> seen_modules s' = seen_modules s \<and> children s' = children s \<and>
      env_module s' = env_module s \<and> instance_name s' = instance_name s \<and> parent_name s' = parent_name s"
    by (simp add: outputPorts_def run_simps Let_def)
  then show ?thesis using that by blast
qed

lemma self_module_fields:
  "mod_name self_module = ''r''" "mod_scope self_module = empty_scope" "sec_label self_module = Some 1"
  "genvars self_module = []" "specparams self_module = 0" "defparms self_module = 0"
  "generate_schemes self_module = []" "mod_gates self_module = [PGModule (None, 1) ''r'' (Some ''u'') []]"
  "behaviors self_module = []" "analog_behaviors self_module = 0" "specify_paths self_module = 0"
  by (simp_all add: self_module_def demo_module_def)

lemma self_body:
  assumes "env_module s = self_module"
  obtains s' where "module_body self_modules self_module s = (Inr (), s')" "seen_modules s' = seen_modules s"
    "children s' = children s @ [(''r'', child_path ''r'' s, Some ''u'')]"
proof -
  have n: "declare_parameters [] s = (Inr (), s)" "declare_wires [] s = (Inr (), s)" for s
    by (simp_all add: declare_parameters_def declare_wires_def change_def)
  obtain s1 where s1: "outputPorts s = (Inr (), s1)" "seen_modules s1 = seen_modules s" "children s1 = children s"
    "env_module s1 = env_module s" "instance_name s1 = instance_name s" "parent_name s1 = parent_name s"
    by (rule outputPorts_run [of s]) (simp_all add: assms self_module_fields)
  have cp: "child_path ''r'' s1 = child_path ''r'' s" using s1 by (simp add: child_path_def cong: option.case_cong)
  let ?s' = "s1\<lparr>children := children s @ [(''r'', child_path ''r'' s, Some ''u'')]\<rparr>"
  have "module_body self_modules self_module s = (Inr (), ?s')"
    using s1(1,3) by (simp add: module_body_def self_module_fields empty_scope_def seq_run n ret_def
        check_instance_def PGModule_typecheck_def self_modules_def bind_def get_def set_instance_def change_def cp)
  then show ?thesis using that s1 by simp
qed

lemma check_self:
  assumes "shorter_names (length (task_name self_modules (''r'', parent, inst))) s"
  shows "\<exists>s'. check_task self_modules (''r'', parent, inst) s =
      Inr ([(''r'', Some (child_path ''r'' (new_env self_module parent inst s)), Some ''u'')], s') \<and>
      shorter_names (Suc (length (task_name self_modules (''r'', parent, inst)))) s'"
proof -
  let ?s = "new_env self_module parent inst s"
  have m: "map_of self_modules ''r'' = Some self_module" by (simp add: self_modules_def)
  have n: "current_module_name ?s = task_name self_modules (''r'', parent, inst)" by (rule current_new_env [OF m])
  have e: "seen_modules ?s = seen_modules s" "children ?s = []" "env_module ?s = self_module"
    by (simp_all add: new_env_def)
  have fresh: "current_module_name ?s \<notin> seen_modules ?s" using assms n e by (auto simp: shorter_names_def)
  have k: "env_module (mark_module ?s) = self_module" "children (mark_module ?s) = []"
    "child_path ''r'' (mark_module ?s) = child_path ''r'' ?s"
    using e by (simp_all add: mark_module_def child_path_def)
  obtain s' where s': "module_body self_modules self_module (mark_module ?s) = (Inr (), s')"
    "seen_modules s' = seen_modules (mark_module ?s)"
    "children s' = [(''r'', child_path ''r'' ?s, Some ''u'')]"
    by (rule self_body [OF k(1)]) (simp add: k)
  have "check_task self_modules (''r'', parent, inst) s = Inr ([(''r'', Some (child_path ''r'' ?s), Some ''u'')], s')"
    using s' by (simp add: check_task_def m Module_typecheck_fresh [OF fresh] e)
  moreover have "shorter_names (Suc (length (task_name self_modules (''r'', parent, inst)))) s'"
    using assms n e s'(2) by (fastforce simp: shorter_names_def mark_module_def)
  ultimately show ?thesis by blast
qed

lemma shorter_names_mono: "shorter_names n s \<Longrightarrow> n \<le> k \<Longrightarrow> shorter_names k s"
  by (auto simp: shorter_names_def)

text \<open>The next level again is one instance, with a longer name.\<close>

lemma traverse_self:
  assumes "shorter_names (length (task_name self_modules (''r'', parent, inst))) s"
  obtains s' p where "p = child_path ''r'' (new_env self_module parent inst s)"
    "traverse (Suc fuel) self_modules [(''r'', parent, inst)] s = traverse fuel self_modules [(''r'', Some p, Some ''u'')] s'"
    "shorter_names (Suc (length (task_name self_modules (''r'', parent, inst)))) s'"
proof -
  obtain s' where s': "check_task self_modules (''r'', parent, inst) s =
      Inr ([(''r'', Some (child_path ''r'' (new_env self_module parent inst s)), Some ''u'')], s')"
    "shorter_names (Suc (length (task_name self_modules (''r'', parent, inst)))) s'"
    using check_self [OF assms] by blast
  then show ?thesis using that by (simp add: check_level.simps(2))
qed

lemma self_diverges:
  "shorter_names (length p + 2) s \<Longrightarrow> traverse fuel self_modules [(''r'', Some p, Some ''u'')] s = None"
proof (induction fuel arbitrary: p s)
  case (Suc fuel)
  have n: "length (task_name self_modules (''r'', Some p, Some ''u'')) = length p + 2"
    by (simp add: task_name_def)
  obtain s' p' where s': "p' = child_path ''r'' (new_env self_module (Some p) (Some ''u'') s)"
    "traverse (Suc fuel) self_modules [(''r'', Some p, Some ''u'')] s = traverse fuel self_modules [(''r'', Some p', Some ''u'')] s'"
    "shorter_names (Suc (length (task_name self_modules (''r'', Some p, Some ''u'')))) s'"
    by (rule traverse_self [of "Some p" "Some ''u''" s fuel]) (use Suc.prems in \<open>simp add: n\<close>)
  have "p' = p @ ''_u''" by (simp add: s'(1) child_path_def new_env_def)
  then have "shorter_names (length p' + 2) s'" using s'(3) by (auto simp: n elim: shorter_names_mono)
  then show ?case unfolding s'(2) by (rule Suc.IH)
qed simp

text \<open>
  A module that instantiates itself is checked for ever: from a state without names, no number of
  levels is enough.
\<close>

theorem recursive_instance_diverges:
  assumes "seen_modules s = {}"
  shows "typecheck fuel self_modules [''r''] s = None"
proof (cases fuel)
  case 0
  then show ?thesis by (simp add: typecheck_def root_tasks_def self_modules_def)
next
  case (Suc k)
  have roots: "root_tasks self_modules [''r''] = [(''r'', None, None)]"
    by (simp add: root_tasks_def self_modules_def)
  have n: "length (task_name self_modules (''r'', None, None)) = 1"
    by (simp add: task_name_def self_modules_def self_module_fields)
  obtain s' p where s': "p = child_path ''r'' (new_env self_module None None s)"
    "traverse (Suc k) self_modules [(''r'', None, None)] s = traverse k self_modules [(''r'', Some p, Some ''u'')] s'"
    "shorter_names (Suc (length (task_name self_modules (''r'', None, None)))) s'"
    by (rule traverse_self [of None None s k]) (use assms in \<open>simp add: shorter_names_def\<close>)
  have "shorter_names (length p + 2) s'" using s'(3) by (auto simp: n elim: shorter_names_mono)
  then have "traverse k self_modules [(''r'', Some p, Some ''u'')] s' = None" by (rule self_diverges)
  then show ?thesis unfolding typecheck_def roots Suc s'(2) .
qed

theorem recursive_instance_diverges_witness:
  "typecheck 100 self_modules [''r''] demo_state = None"
  by (rule recursive_instance_diverges) (simp add: demo_state_def)

text \<open>
  A run of the checker only appends: the three files after it start with what they held before,
  and no name and no mark is ever removed from the static sets.
\<close>

theorem run_only_appends:
  assumes "typecheck fuel modules roots s = Some (Inr s')"
  shows "prefix (stepfile s) (stepfile s') \<and> prefix (nodefile s) (nodefile s') \<and>
    prefix (portfile s) (portfile s') \<and> seen_modules s \<subseteq> seen_modules s' \<and>
    seen_ports s \<subseteq> seen_ports s' \<and> seen_generates s \<subseteq> seen_generates s' \<and>
    checked_assigns s \<subseteq> checked_assigns s'"
  using traverse_later [OF assms [unfolded typecheck_def]] unfolding later_def by blast

lemma demo_run:
  "\<exists>s'. typecheck 2 [(''top'', parent_module), (''m'', child_module)] [''top''] demo_state = Some (Inr s')"
proof -
  have "case typecheck 2 [(''top'', parent_module), (''m'', child_module)] [''top''] demo_state of
      Some (Inr s') \<Rightarrow> True | _ \<Rightarrow> False"
    by code_simp
  then show ?thesis by (auto split: option.splits sum.splits)
qed

theorem run_only_appends_witness:
  "\<exists>s'. typecheck 2 [(''top'', parent_module), (''m'', child_module)] [''top''] demo_state = Some (Inr s') \<and>
     prefix (stepfile demo_state) (stepfile s')"
proof -
  obtain s' where run: "typecheck 2 [(''top'', parent_module), (''m'', child_module)] [''top''] demo_state = Some (Inr s')"
    using demo_run by blast
  then show ?thesis using run_only_appends [OF run] by blast
qed

end
