(* ===== verification/Pipeline.thy ===== *)
theory Pipeline
  imports BackendInfer Traversal
begin

text \<open>
  The interface between the checker and the backend: how the lines that the checker writes to the step
  file and the node file are read by \<open>difc_backend.pl\<close>, and what reaches the backend at all. The files
  are read line by line.
\<close>

definition file_lines :: "string \<Rightarrow> string list" where
  "file_lines text = split_on (CHR 0x0A) text"

definition step_lines :: "out_line list \<Rightarrow> string list" where
  "step_lines ls = file_lines (concat (map print_line ls))"

section \<open>Texts\<close>

lemma split_on_append: "split_on d (xs @ d # ys) = split_on d xs @ split_on d ys"
  by (induction xs) (auto split: list.split)

lemma split_on_set: "f \<in> set (split_on d s) \<Longrightarrow> set f \<subseteq> set s"
proof (induction s arbitrary: f)
  case (Cons c s)
  have ih: "f \<in> set (split_on d s) \<Longrightarrow> set f \<subseteq> set (c # s)" for f using Cons.IH by fastforce
  obtain g gs where s: "split_on d s = g # gs" by (cases "split_on d s") auto
  have g: "set g \<subseteq> set (c # s)" "\<And>f. f \<in> set gs \<Longrightarrow> set f \<subseteq> set (c # s)" using ih s by simp_all
  show ?case using Cons.prems g s by (cases "c = d") (auto dest: ih)
qed simp

lemma quote_positions_Nil: "quote_positions [] = []"
  by (simp add: quote_positions_def)

lemma quote_positions_Cons:
  "quote_positions (c # s) = (if c = quote_char then [0] else []) @ map Suc (quote_positions s)"
proof -
  have "[0..<length (c # s)] = 0 # map Suc [0..<length s]"
    by (simp add: upt_conv_Cons map_Suc_upt del: upt_Suc)
  then show ?thesis by (simp add: quote_positions_def filter_map comp_def)
qed

lemma quote_positions_append:
  "quote_char \<notin> set xs \<Longrightarrow> quote_positions (xs @ ys) = map (\<lambda>i. i + length xs) (quote_positions ys)"
  by (induction xs) (auto simp: quote_positions_Cons comp_def)

lemma quote_positions_none: "quote_char \<notin> set xs \<Longrightarrow> quote_positions xs = []"
  using quote_positions_append [of xs "[]"] by (simp add: quote_positions_Nil)

section \<open>Lines of the step file\<close>

text \<open>Texts that the fields of a step line can hold: no white space and no quote.\<close>

definition plain_text :: "string \<Rightarrow> bool" where
  "plain_text t \<longleftrightarrow> set t \<inter> {CHR '' '', CHR 0x09, CHR 0x0A, quote_char} = {}"

fun printable :: "out_line \<Rightarrow> bool" where
  "printable (Step no from to pc) \<longleftrightarrow>
     set no \<inter> {CHR 0x0A, quote_char} = {} \<and> from \<noteq> [] \<and> plain_text from \<and> to \<noteq> [] \<and> plain_text to \<and>
     plain_text pc"
| "printable (Raw t) \<longleftrightarrow> quote_char \<notin> set t \<and> (t = [] \<or> last t = CHR 0x0A)"

definition step_text :: "string \<Rightarrow> string \<Rightarrow> string \<Rightarrow> string \<Rightarrow> string" where
  "step_text no from to pc =
     quote @ no @ quote @ '' '' @ from @ '' '' @ to @ '' '' @ quote @ ''pc_p='' @ pc @ quote @ '' ''"

lemma print_step: "print_line (Step no from to pc) = step_text no from to pc @ [CHR 0x0A]"
  by (simp add: step_text_def line_end_def)

lemma tokens_step:
  assumes "from \<noteq> []" "plain_text from" "to \<noteq> []" "plain_text to" "plain_text pc"
  shows "tokens ('' '' @ from @ '' '' @ to @ '' '' @ quote @ ''pc_p='' @ pc @ quote @ '' '') =
    [from, to, quote @ ''pc_p='' @ pc @ quote]"
proof -
  define p where "p = quote @ ''pc_p='' @ pc @ quote"
  have n: "CHR '' '' \<notin> set from" "CHR '' '' \<notin> set to" "CHR '' '' \<notin> set p"
    "CHR 0x09 \<notin> set from" "CHR 0x09 \<notin> set to" "CHR 0x09 \<notin> set p"
    using assms by (auto simp: plain_text_def quote_def p_def)
  have line: "'' '' @ from @ '' '' @ to @ '' '' @ quote @ ''pc_p='' @ pc @ quote @ '' '' =
      [] @ CHR '' '' # from @ CHR '' '' # to @ CHR '' '' # p @ [CHR '' '']"
    by (simp add: p_def)
  have "split_on (CHR '' '') ([] @ CHR '' '' # from @ CHR '' '' # to @ CHR '' '' # p @ [CHR '' '']) =
      [[], from, to, p, []]"
    using n by (simp add: split_on_append split_on_none)
  moreover have "strip {CHR '' '', CHR 0x09} f = f" if "f \<in> {[], from, to, p}" for f
    using that n by (intro strip_no_pad) auto
  moreover have "p \<noteq> []" by (simp add: p_def quote_def)
  ultimately show ?thesis using assms(1,3) unfolding tokens_def line p_def [symmetric] by simp
qed

lemma parse_step_text:
  assumes "printable (Step no from to pc)"
  shows "parse_step_line (step_text no from to pc) = Some \<lparr>sdesc = no, sfrom = from, sto = to, spcs = []\<rparr>"
proof -
  let ?rest = "'' '' @ from @ '' '' @ to @ '' '' @ quote @ ''pc_p='' @ pc @ quote @ '' ''"
  have line: "step_text no from to pc = quote_char # no @ quote_char # ?rest"
    by (simp add: step_text_def quote_def quote_char_def)
  have no: "quote_char \<notin> set no" using assms by simp
  obtain qs where qs: "quote_positions (step_text no from to pc) = 0 # Suc (length no) # qs"
    unfolding line by (simp add: quote_positions_Cons quote_positions_append no)
  have "tokens (drop (Suc (length no) + 1) (step_text no from to pc)) = [from, to, quote @ ''pc_p='' @ pc @ quote]"
    unfolding line using tokens_step assms by simp
  then have "step_at (step_text no from to pc) (0, Suc (length no)) =
      Some \<lparr>sdesc = no, sfrom = from, sto = to, spcs = []\<rparr>"
    unfolding line by (simp add: step_at_def pc_prefix_def quote_def)
  moreover have "step_at (step_text no from to pc) (0, 0) = None" by (simp add: step_at_def)
  moreover have "\<not> skipped_line (step_text no from to pc)"
    unfolding line by (simp add: skipped_line_def quote_char_def)
  ultimately show ?thesis by (simp add: parse_step_line_def qs)
qed

text \<open>
  A step line is read back with its note, source and target, but without its condition: the
  condition is printed inside quotes, so its token does not start with \<open>pc_p=\<close>.
\<close>

theorem step_line_round_trip:
  assumes "printable (Step no from to pc)"
  shows "parse_step_line (step_text no from to pc) = Some \<lparr>sdesc = no, sfrom = from, sto = to, spcs = []\<rparr>"
  by (rule parse_step_text [OF assms])

theorem step_line_round_trip_witness:
  "parse_step_line (step_text ''y = a @t.v:3'' ''Top_a'' ''Top_y'' ''Top_c'') =
     Some \<lparr>sdesc = ''y = a @t.v:3'', sfrom = ''Top_a'', sto = ''Top_y'', spcs = []\<rparr>"
  by (rule step_line_round_trip) (simp add: plain_text_def quote_char_def)

fun read_steps :: "out_line list \<Rightarrow> step list" where
  "read_steps [] = []"
| "read_steps (Step no from to pc # ls) = \<lparr>sdesc = no, sfrom = from, sto = to, spcs = []\<rparr> # read_steps ls"
| "read_steps (Raw t # ls) = read_steps ls"

lemma load_steps_append: "load_steps (xs @ ys) = load_steps xs @ load_steps ys"
  by (simp add: load_steps_def map_filter_def)

lemma load_steps_text:
  "\<forall>l\<in>set lines. quote_char \<notin> set l \<Longrightarrow> load_steps lines = []"
  by (induction lines) (auto simp: load_steps_def map_filter_simps parse_step_line_def quote_positions_none)

lemma file_lines_end: "file_lines (t @ CHR 0x0A # rest) = file_lines t @ file_lines rest"
  by (simp add: file_lines_def split_on_append)

lemma load_step_lines: "\<forall>l\<in>set ls. printable l \<Longrightarrow> load_steps (step_lines ls) = read_steps ls"
proof (induction ls rule: read_steps.induct)
  case 1
  then show ?case by (simp add: step_lines_def file_lines_def load_steps_def map_filter_simps
      parse_step_line_def skipped_line_def)
next
  case (2 no "from" to pc ls)
  have "CHR 0x0A \<notin> set (step_text no from to pc)"
    using 2(2) by (auto simp: step_text_def plain_text_def quote_def)
  then have "file_lines (step_text no from to pc) = [step_text no from to pc]"
    by (simp add: file_lines_def split_on_none)
  moreover have "load_steps [step_text no from to pc] = [\<lparr>sdesc = no, sfrom = from, sto = to, spcs = []\<rparr>]"
    using parse_step_text [of no "from" to pc] 2(2) by (simp add: load_steps_def map_filter_simps)
  ultimately show ?case using 2
    using load_steps_append [of "[step_text no from to pc]" "file_lines (concat (map print_line ls))"]
    by (simp add: step_lines_def print_step file_lines_end del: print_line.simps)
next
  case (3 t ls)
  show ?case
  proof (cases "t = []")
    case False
    then have t: "t = butlast t @ [CHR 0x0A]" using 3(2) by (metis append_butlast_last_id list.set_intros(1) printable.simps(2))
    have "quote_char \<notin> set (butlast t)" using 3(2) in_set_butlastD by fastforce
    then have "load_steps (file_lines (butlast t)) = []"
      unfolding file_lines_def using split_on_set by (intro load_steps_text) blast
    moreover have "file_lines (t @ rest) = file_lines (butlast t) @ file_lines rest" for rest
      by (subst t) (simp add: file_lines_end)
    ultimately show ?thesis using 3 by (simp add: step_lines_def load_steps_append)
  qed (use 3 in \<open>simp add: step_lines_def\<close>)
qed

section \<open>What reaches the backend\<close>

fun with_condition :: "string \<Rightarrow> out_line \<Rightarrow> out_line" where
  "with_condition pc (Step no from to p) = Step no from to pc"
| "with_condition pc (Raw t) = Raw t"

lemma read_steps_condition: "read_steps (map (with_condition pc) ls) = read_steps ls"
  by (induction ls rule: read_steps.induct) simp_all

lemma printable_condition: "printable l \<Longrightarrow> plain_text pc \<Longrightarrow> printable (with_condition pc l)"
  by (cases l) simp_all

text \<open>
  C36. The conditions of the steps have no influence on the backend: replacing the condition of every
  step by one and the same other text changes neither its database nor any of its messages, so the
  implicit flows that the checker records are never checked. This is for printable step files (no
  quote in a note, a name or a condition, no white space in a name or a condition, no name empty, no
  line break in a note) and for a replacement text without quote and white space: with such
  characters the text would break the quotes around the condition and could be read as another field.
\<close>

theorem conditions_never_reach_backend:
  assumes "\<forall>l\<in>set ls. printable l" "plain_text pc"
  shows "backend_main split nl (step_lines (map (with_condition pc) ls)) = backend_main split nl (step_lines ls)"
proof -
  have "load_steps (step_lines (map (with_condition pc) ls)) = load_steps (step_lines ls)"
    using assms by (simp add: load_step_lines printable_condition read_steps_condition)
  then show ?thesis by (simp add: backend_main_def)
qed

theorem conditions_never_reach_backend_witness:
  "backend_main (split_on CHR '' '') demo_nodes (step_lines [Step ''n'' ''S'' ''P'' ''1'']) =
     backend_main (split_on CHR '' '') demo_nodes (step_lines [Step ''n'' ''S'' ''P'' ''Top_c''])"
  using conditions_never_reach_backend [of "[Step ''n'' ''S'' ''P'' ''Top_c'']" "''1''" "split_on CHR '' ''" demo_nodes]
  by (simp add: plain_text_def quote_char_def)

lemma set_read_steps:
  "s \<in> set (read_steps ls) \<longleftrightarrow> (\<exists>no from to pc. Step no from to pc \<in> set ls \<and>
     s = \<lparr>sdesc = no, sfrom = from, sto = to, spcs = []\<rparr>)"
  by (induction ls rule: read_steps.induct) auto

text \<open>
  A quote in a note ends the quoted field early. The note of \<open>y = {a, "foo Top_d bar"}\<close> holds the
  string literal as it is written, and the backend reads a step between two words of the literal,
  which are no signals of the assignment: the theorems on whole files ask for printable lines.
\<close>

definition quoted_assignment :: stmt where
  "quoted_assignment = PAssign (Some ''t.v'', 5) (simple_ident ''y'')
     (PEConcat [Some (simple_ident ''a''), Some (PEString ''foo Top_d bar'')] None)"

lemma string_literal_read_as_step:
  "fst (check_stmt quoted_assignment demo_state) = Inr () \<and>
   edges (stepfile (snd (check_stmt quoted_assignment demo_state))) = {(''Top_a'', ''Top_y'')} \<and>
   map (\<lambda>x. (sfrom x, sto x)) (load_steps (step_lines (stepfile (snd (check_stmt quoted_assignment demo_state))))) =
     [(''foo'', ''Top_d'')]"
proof -
  have f: "stepfile (snd (check_stmt quoted_assignment demo_state)) =
      [Step (''y = {a, '' @ quote @ ''foo Top_d bar'' @ quote @ ''} @t.v:5'') ''Top_a'' ''Top_y'' ''1'']"
    by code_simp
  have r: "fst (check_stmt quoted_assignment demo_state) = Inr ()" by code_simp
  have s: "map (\<lambda>x. (sfrom x, sto x)) (load_steps (step_lines
      [Step (''y = {a, '' @ quote @ ''foo Top_d bar'' @ quote @ ''} @t.v:5'') ''Top_a'' ''Top_y'' ''1''])) =
      [(''foo'', ''Top_d'')]"
    by code_simp
  show ?thesis using r s unfolding f by (simp add: edges_def)
qed

text \<open>
  C37. The whole tool is silent on programs without capabilities. Let a statement be checked without an
  error from an empty step file, let its step lines be printable (no quote in a note, a name or a
  condition, no white space in a name or a condition, no name empty, no line break in a note), let the
  node file have no name twice and no node with a positive capability, and let every signal on the
  right side of an assignment that the checker visits be a node of that file, with the instance as its
  prefix. Then the backend, run on the printed step file, reports no node at all, whatever the labels
  of the nodes are.
\<close>

theorem pipeline_silent:
  assumes "check_stmt st s = (Inr (), s')" "stepfile s = []" "\<forall>l\<in>set (stepfile s'). printable l"
    and "unique_names (load_nodes split nl)" "boundary_names (load_nodes split nl) = []"
    and "\<forall>(l, r)\<in>set (checked_assignments st). \<forall>f\<in>set (typecheckstring r).
           instance_prefix s @ ''_'' @ f \<in> nname ` set (load_nodes split nl)"
  shows "\<not> reported (snd (backend_main split nl (step_lines (stepfile s')))) n"
proof (rule quiet_unreported [OF assms(4)], intro ballI impI)
  fix x assume x: "x \<in> set (load_steps (step_lines (stepfile s')))"
  obtain new where "stepfile s' = stepfile s @ new"
    "edges new = placed s ` (\<Union>(l, r)\<in>set (checked_assignments st). token_pairs l r)"
    using producesD [OF recorded.check_stmt_effects assms(1)] by blast
  then have e: "edges (stepfile s') = placed s ` (\<Union>(l, r)\<in>set (checked_assignments st). token_pairs l r)"
    using assms(2) by simp
  obtain no "from" to pc where st: "Step no from to pc \<in> set (stepfile s')"
    "x = \<lparr>sdesc = no, sfrom = from, sto = to, spcs = []\<rparr>"
    using x unfolding load_step_lines [OF assms(3)] set_read_steps by blast
  then have "(from, to) \<in> edges (stepfile s')" unfolding edges_def by blast
  then obtain p where p: "(from, to) = placed s p" "p \<in> (\<Union>(l, r)\<in>set (checked_assignments st). token_pairs l r)"
    unfolding e by (rule imageE)
  then obtain l r where lr: "(l, r) \<in> set (checked_assignments st)" "p \<in> token_pairs l r" by blast
  have "from = instance_prefix s @ ''_'' @ fst p" using p(1) unfolding placed_def prod.inject by (rule conjunct1)
  moreover have "fst p \<in> set (typecheckstring r)" using lr(2) by (auto simp: token_pairs_def)
  ultimately have "from \<in> nname ` set (load_nodes split nl)" using assms(6) lr(1) by blast
  then show "spcs x = [] \<and> sfrom x \<in> nname ` set (load_nodes split nl) \<and>
      \<not> hierarchy_boundary_blocks (load_nodes split nl) (sfrom x) (sto x)"
    using assms(5) by (simp add: st(2) hierarchy_boundary_blocks_def)
qed

text \<open>A secret \<open>a\<close> (tag 3) assigned to a public \<open>y\<close> is not reported.\<close>

definition leak_nodes :: "string list" where
  "leak_nodes = [''Top_a 3'', ''Top_b 1'', ''Top_y 1'']"

lemma leak_facts:
  "unique_names (load_nodes (split_on CHR '' '') leak_nodes)"
  "boundary_names (load_nodes (split_on CHR '' '') leak_nodes) = []"
  "nname ` set (load_nodes (split_on CHR '' '') leak_nodes) = {''Top_a'', ''Top_b'', ''Top_y''}"
proof -
  have "map (\<lambda>e. (nname e, npos e)) (load_nodes (split_on CHR '' '') leak_nodes) =
      [(''Top_a'', 0), (''Top_b'', 0), (''Top_y'', 0)]"
    by code_simp
  then obtain x y z where l: "load_nodes (split_on CHR '' '') leak_nodes = [x, y, z]"
    and f: "nname x = ''Top_a''" "nname y = ''Top_b''" "nname z = ''Top_y''" "npos x = 0" "npos y = 0" "npos z = 0"
    by (auto simp: map_eq_Cons_conv)
  show "unique_names (load_nodes (split_on CHR '' '') leak_nodes)"
    "boundary_names (load_nodes (split_on CHR '' '') leak_nodes) = []"
    "nname ` set (load_nodes (split_on CHR '' '') leak_nodes) = {''Top_a'', ''Top_b'', ''Top_y''}"
    by (simp_all add: l f unique_names_def boundary_names_def)
qed

lemma leak_steps:
  "stepfile (snd (check_stmt demo_choice demo_state)) =
     [Step ''y = a @t.v:3'' ''Top_a'' ''Top_y'' ''Top_c'', Step ''y = b @t.v:3'' ''Top_b'' ''Top_y'' ''Top_c'']"
  by code_simp

theorem pipeline_silent_witness:
  "\<not> reported (snd (backend_main (split_on CHR '' '') leak_nodes
     (step_lines (stepfile (snd (check_stmt demo_choice demo_state)))))) ''Top_y''"
proof -
  obtain s' where run: "check_stmt demo_choice demo_state = (Inr (), s')"
    using demo_choice_runs by (metis prod.collapse)
  have p: "\<forall>l\<in>set (stepfile s'). printable l"
    using leak_steps unfolding run snd_conv by (simp add: plain_text_def quote_char_def)
  have a: "checked_assignments demo_choice =
      [(simple_ident ''y'', simple_ident ''a''), (simple_ident ''y'', simple_ident ''b'')]"
    by (simp add: demo_choice_def simple_ident_def)
  have t: "typecheckstring (simple_ident x) = [x]" for x
    by (simp add: simple_ident_def peek_tail_name_def get_index_expressions_def)
  show ?thesis unfolding run snd_conv
    by (rule pipeline_silent [OF run demo_files p leak_facts(1,2)]) (simp add: a t demo_prefix leak_facts(3))
qed

end
