(* ===== verification/NodeLines.thy ===== *)
theory NodeLines
  imports Pipeline
begin

text \<open>
  How the backend reads the node lines of the checker. The library predicate \<open>split_string/4\<close> is a
  parameter, with its documented behaviour when the separator is also padding: adjacent separators act
  as one, and a separator at the end leaves an empty field.
\<close>

section \<open>Numbers and sets\<close>

lemma number_string_of_int: "number_string (string_of_int k) = Some k"
proof (cases "k < 0")
  case True
  then show ?thesis
    by (simp add: string_of_int_def number_string_def string_of_nat_digits nat_of_digits_string_of_nat)
next
  case False
  obtain c cs where s: "string_of_nat (nat k) = c # cs" by (cases "string_of_nat (nat k)") simp_all
  have d: "list_all is_digit (c # cs)" using string_of_nat_digits [of "nat k"] by (simp add: s)
  then have "c \<noteq> CHR ''-''" by (auto simp: is_digit_def)
  then show ?thesis using False d nat_of_digits_string_of_nat [of "nat k"]
    by (simp add: string_of_int_def number_string_def s)
qed

lemma string_of_int_chars: "c \<in> set (string_of_int k) \<Longrightarrow> is_digit c \<or> c = CHR ''-''"
  using string_of_nat_digits by (auto simp: string_of_int_def list_all_iff split: if_splits)

lemma string_of_int_not_Nil: "string_of_int k \<noteq> []"
  by (simp add: string_of_int_def)

lemma string_of_int_plain: "c \<notin> set (string_of_int k)" if "c \<in> {CHR '' '', CHR '','', CHR 0x09, CHR 0x0A}"
  using that string_of_int_chars [of c k] by (auto simp: is_digit_def)

text \<open>The bits of a mask for a set of tags: tag 1 is bit 0.\<close>

definition tag_bits :: "int set \<Rightarrow> nat set" where
  "tag_bits A = {nat (k - 1) |k. k \<in> A \<and> 1 \<le> k}"

lemma tag_bits_empty [simp]: "tag_bits {} = {}"
  by (simp add: tag_bits_def)

lemma tag_bits_insert:
  "tag_bits (insert k A) = (if 1 \<le> k then insert (nat (k - 1)) (tag_bits A) else tag_bits A)"
  by (auto simp: tag_bits_def)

lemma bits_nums_to_mask: "bits (nums_to_mask ns) = tag_bits (set ns)"
proof (induction ns)
  case (Cons n ns)
  have "bits (shl1 (n - 1)) = tag_bits {n}" by (auto simp: shl1_def tag_bits_def)
  moreover have "tag_bits (set (n # ns)) = tag_bits (set ns) \<union> tag_bits {n}" by (auto simp: tag_bits_def)
  ultimately show ?case using Cons by simp
qed simp

lemma all_some_map: "(\<And>x. x \<in> set xs \<Longrightarrow> f x = Some (g x)) \<Longrightarrow> all_some (map f xs) = Some (map g xs)"
  by (induction xs) simp_all

lemma split_printSet:
  assumes "finite A" "A \<noteq> {}"
  shows "split_on (CHR '','') (printSet A) = map string_of_int (sorted_list_of_set A)"
  unfolding printSet_def by (rule split_on_join) (use assms string_of_int_plain in auto)

lemma printSet_field:
  assumes "finite A" "A \<noteq> {}"
  shows "printSet A \<noteq> []"
proof
  assume "printSet A = []"
  then have e: "map string_of_int (sorted_list_of_set A) = [[]]" using split_printSet [OF assms] by simp
  obtain n ns where "sorted_list_of_set A = n # ns" using assms by (cases "sorted_list_of_set A") auto
  then show False using e string_of_int_not_Nil [of n] by simp
qed

lemma str_to_mask_printSet:
  assumes "finite A"
  obtains m where "str_to_mask (printSet A) = Some m" "bits m = tag_bits A"
proof (cases "A = {}")
  case True
  then show ?thesis using that [of 0] by (simp add: printSet_def str_to_mask_def)
next
  case False
  let ?ns = "sorted_list_of_set A"
  have ne: "?ns \<noteq> []" "set ?ns = A" using assms False by simp_all
  have "strip {CHR '' ''} (string_of_int k) = string_of_int k" for k
    using string_of_int_plain [of "CHR '' ''" k] by (intro strip_no_pad) auto
  then have "filter (\<lambda>f. f \<noteq> []) (map (strip {CHR '' ''}) (split_on (CHR '','') (printSet A))) = map string_of_int ?ns"
    by (simp add: split_printSet [OF assms False] comp_def filter_map string_of_int_not_Nil)
  moreover have "all_some (map number_string (map string_of_int ?ns)) = Some ?ns"
    using all_some_map [of ?ns "number_string \<circ> string_of_int" id]
    by (simp add: number_string_of_int)
  ultimately have "str_to_mask (printSet A) = Some (nums_to_mask ?ns)"
    using ne printSet_field [OF assms False] by (simp add: str_to_mask_def Let_def)
  then show ?thesis using that bits_nums_to_mask [of ?ns] ne by simp
qed

lemma join_with_set: "c \<in> set (join_with sep xs) \<Longrightarrow> c \<in> set sep \<or> (\<exists>x\<in>set xs. c \<in> set x)"
  by (induction sep xs rule: join_with.induct) auto

lemma printSet_plain: "c \<in> {CHR '' '', CHR 0x09, CHR 0x0A} \<Longrightarrow> c \<notin> set (printSet A)"
proof
  assume c: "c \<in> {CHR '' '', CHR 0x09, CHR 0x0A}" "c \<in> set (printSet A)"
  then obtain k where "c \<in> set (string_of_int k)" unfolding printSet_def using join_with_set by fastforce
  then show False using c(1) string_of_int_plain by blast
qed

section \<open>Node lines\<close>

definition field :: "string \<Rightarrow> bool" where
  "field f \<longleftrightarrow> f \<noteq> [] \<and> set f \<inter> {CHR '' '', CHR 0x09} = {}"

definition splits_fields :: "(string \<Rightarrow> string list) \<Rightarrow> bool" where
  "splits_fields split \<longleftrightarrow> (\<forall>pre post. pre \<noteq> [] \<and> (\<forall>f\<in>set pre \<union> set post. field f) \<longrightarrow>
     split (join_with '' '' pre) = pre \<and> split (join_with '' '' pre @ '' '') = pre @ [[]] \<and>
     (post \<noteq> [] \<longrightarrow> split (join_with '' '' pre @ ''  '' @ join_with '' '' post) = pre @ post))"

lemma splits_fieldsD:
  assumes "splits_fields split"
  shows "field a \<Longrightarrow> field b \<Longrightarrow> split (a @ '' '' @ b) = [a, b]"
    "field a \<Longrightarrow> field b \<Longrightarrow> field c \<Longrightarrow> split (a @ '' '' @ b @ '' '' @ c @ '' '') = [a, b, c, []]"
    "field a \<Longrightarrow> field b \<Longrightarrow> field c \<Longrightarrow> field d \<Longrightarrow> split (a @ '' '' @ b @ '' '' @ c @ '' '' @ d) = [a, b, c, d]"
    "field a \<Longrightarrow> field b \<Longrightarrow> field c \<Longrightarrow> split (a @ '' '' @ b @ ''  '' @ c) = [a, b, c]"
  using assms [unfolded splits_fields_def, rule_format, of "[a, b]" "[]"]
    assms [unfolded splits_fields_def, rule_format, of "[a, b, c]" "[]"]
    assms [unfolded splits_fields_def, rule_format, of "[a, b, c, d]" "[]"]
    assms [unfolded splits_fields_def, rule_format, of "[a, b]" "[c]"]
  by simp_all

lemma printSet_is_field: "finite A \<Longrightarrow> A \<noteq> {} \<Longrightarrow> field (printSet A)"
  using printSet_plain by (auto simp: field_def printSet_field)

lemma str_to_mask_Nil: "str_to_mask [] = Some 0"
  by (simp add: str_to_mask_def)

definition node_text :: "string \<Rightarrow> int set \<Rightarrow> int set \<Rightarrow> int set \<Rightarrow> string" where
  "node_text name A B C = butlast (printNodeToFile name A B C)"

lemma node_text_cases:
  "node_text name A {} {} = name @ '' '' @ printSet A"
  "B \<noteq> {} \<Longrightarrow> node_text name A B {} = name @ '' '' @ printSet A @ '' '' @ printSet B @ '' ''"
  "B \<noteq> {} \<or> C \<noteq> {} \<Longrightarrow> node_text name A B C = name @ '' '' @ printSet A @ '' '' @ printSet B @ '' '' @ printSet C"
  "C \<noteq> {} \<Longrightarrow> node_text name A {} C = name @ '' '' @ printSet A @ ''  '' @ printSet C"
  by (auto simp: node_text_def printNodeToFile_def line_end_def butlast_append printSet_def)

lemma name_not_skipped: "field name \<Longrightarrow> hd name \<noteq> CHR ''#'' \<Longrightarrow> \<not> skipped_line (name @ rest)"
  by (cases name) (simp_all add: skipped_line_def field_def)

text \<open>
  C38. A node line is read back with its name and the bits of its three sets of tags, if it has
  positive capabilities or no capabilities at all.
\<close>

theorem node_line_round_trip:
  assumes "splits_fields split" "field name" "hd name \<noteq> CHR ''#''"
    and "finite A" "A \<noteq> {}" "finite B" "finite C" "B = {} \<longrightarrow> C = {}"
  shows "\<exists>b p g. parse_node_line split (node_text name A B C) = Some (name, b, p, g) \<and>
    bits b = tag_bits A \<and> bits p = tag_bits B \<and> bits g = tag_bits C"
proof -
  obtain b p g where m: "str_to_mask (printSet A) = Some b" "bits b = tag_bits A"
    "str_to_mask (printSet B) = Some p" "bits p = tag_bits B" "str_to_mask (printSet C) = Some g" "bits g = tag_bits C"
    using str_to_mask_printSet [OF assms(4)] str_to_mask_printSet [OF assms(6)] str_to_mask_printSet [OF assms(7)]
    by metis
  have A: "field (printSet A)" by (rule printSet_is_field [OF assms(4,5)])
  have "parse_node_line split (node_text name A B C) = Some (name, b, p, g)"
  proof (cases "B = {}")
    case True
    then have "p = 0" "g = 0" using m assms(8) by simp_all
    then show ?thesis using True assms(8) m(1) splits_fieldsD(1) [OF assms(1,2) A]
      by (simp add: node_text_cases parse_node_line_def name_not_skipped [OF assms(2,3)])
  next
    case False
    then have B: "field (printSet B)" by (rule printSet_is_field [OF assms(6)])
    show ?thesis
    proof (cases "C = {}")
      case True
      then have "g = 0" using m by simp
      then show ?thesis using False True m(1,3) splits_fieldsD(2) [OF assms(1,2) A B]
        by (simp add: node_text_cases(2) parse_node_line_def name_not_skipped [OF assms(2,3)] str_to_mask_Nil)
    next
      case nonempty: False
      then have C: "field (printSet C)" by (rule printSet_is_field [OF assms(7)])
      show ?thesis using False m(1,3,5) splits_fieldsD(3) [OF assms(1,2) A B C]
        by (simp add: node_text_cases(3) parse_node_line_def name_not_skipped [OF assms(2,3)])
    qed
  qed
  then show ?thesis using m by blast
qed

text \<open>
  A node with negative capabilities and no positive one is misread: the empty field between two
  separators is lost, so its negative tags become positive ones.
\<close>

theorem negative_tags_read_as_positive:
  assumes "splits_fields split" "field name" "hd name \<noteq> CHR ''#''"
    and "finite A" "A \<noteq> {}" "finite C" "C \<noteq> {}"
  shows "\<exists>b p. parse_node_line split (node_text name A {} C) = Some (name, b, p, 0) \<and>
    bits b = tag_bits A \<and> bits p = tag_bits C"
proof -
  obtain b p where m: "str_to_mask (printSet A) = Some b" "bits b = tag_bits A"
    "str_to_mask (printSet C) = Some p" "bits p = tag_bits C"
    using str_to_mask_printSet [OF assms(4)] str_to_mask_printSet [OF assms(6)] by metis
  have f: "field (printSet A)" "field (printSet C)" using assms printSet_is_field by blast+
  have "parse_node_line split (node_text name A {} C) = Some (name, b, p, 0)"
    using m(1,3) splits_fieldsD(4) [OF assms(1,2) f]
    by (simp add: node_text_cases(4) [OF assms(7)] parse_node_line_def name_not_skipped [OF assms(2,3)])
  then show ?thesis using m by blast
qed

text \<open>A splitter with that behaviour: it drops the empty fields but the last one.\<close>

definition collapse :: "string \<Rightarrow> string list" where
  "collapse s = (let fs = split_on (CHR '' '') s in filter (\<lambda>f. f \<noteq> []) (butlast fs) @ [last fs])"

lemma collapse_splits_fields: "splits_fields collapse"
  unfolding splits_fields_def
proof (intro allI impI)
  fix pre post :: "string list"
  assume a: "pre \<noteq> [] \<and> (\<forall>f\<in>set pre \<union> set post. field f)"
  have sp: "split_on (CHR '' '') (join_with '' '' fs) = fs" if "fs \<noteq> []" "\<forall>f\<in>set fs. field f" for fs
    by (rule split_on_join) (use that in \<open>auto simp: field_def\<close>)
  have nb: "filter (\<lambda>f. f \<noteq> []) fs = fs" if "\<forall>f\<in>set fs. field f" for fs
    using that by (auto simp: filter_id_conv field_def)
  have pre: "split_on (CHR '' '') (join_with '' '' pre) = pre" using a by (intro sp) auto
  have bl: "\<forall>f\<in>set (butlast pre). field f" using a by (auto dest: in_set_butlastD)
  have 1: "collapse (join_with '' '' pre) = pre" using a by (simp add: collapse_def pre nb [OF bl] Let_def)
  have "split_on (CHR '' '') (join_with '' '' pre @ CHR '' '' # t) = pre @ split_on (CHR '' '') t" for t
    by (simp add: split_on_append pre)
  then have app: "split_on (CHR '' '') (join_with '' '' pre @ '' '') = pre @ [[]]"
    "split_on (CHR '' '') (join_with '' '' pre @ ''  '' @ t) = pre @ [] # split_on (CHR '' '') t" for t
    by simp_all
  have fp: "filter (\<lambda>f. f \<noteq> []) pre = pre" using a by (intro nb) auto
  have 2: "collapse (join_with '' '' pre @ '' '') = pre @ [[]]"
    unfolding collapse_def app Let_def by (simp add: fp)
  have 3: "collapse (join_with '' '' pre @ ''  '' @ join_with '' '' post) = pre @ post" if "post \<noteq> []"
  proof -
    have post: "split_on (CHR '' '') (join_with '' '' post) = post" using a that by (intro sp) auto
    have "\<forall>f\<in>set (butlast post). field f" using a by (auto dest: in_set_butlastD)
    then show ?thesis unfolding collapse_def app post Let_def
      using that by (simp add: fp nb butlast_append)
  qed
  show "collapse (join_with '' '' pre) = pre \<and> collapse (join_with '' '' pre @ '' '') = pre @ [[]] \<and>
      (post \<noteq> [] \<longrightarrow> collapse (join_with '' '' pre @ ''  '' @ join_with '' '' post) = pre @ post)"
    using 1 2 3 by blast
qed

theorem node_line_round_trip_witness:
  "\<exists>b p g. parse_node_line collapse (node_text ''Top_a'' {1, 3} {2} {4}) = Some (''Top_a'', b, p, g) \<and>
     bits b = {0, 2} \<and> bits p = {1} \<and> bits g = {3}"
proof -
  have "tag_bits {1, 3} = {0, 2}" "tag_bits {2} = {1}" "tag_bits {4} = {3}"
    by (simp_all add: tag_bits_insert insert_commute)
  then show ?thesis
    using node_line_round_trip [OF collapse_splits_fields, of "''Top_a''" "{1, 3}" "{2}" "{4}"]
    by (simp add: field_def)
qed

theorem negative_tags_read_as_positive_witness:
  "\<exists>b p. parse_node_line collapse (node_text ''Top_a'' {1} {} {4}) = Some (''Top_a'', b, p, 0) \<and> bits p = {3}"
proof -
  have "tag_bits {4} = {3}" by (simp add: tag_bits_insert)
  then show ?thesis
    using negative_tags_read_as_positive [OF collapse_splits_fields, of "''Top_a''" "{1}" "{4}"]
    by (auto simp: field_def)
qed

end
