(* ===== verification/VerinumDiv.thy ===== *)
theory VerinumDiv
  imports VerinumArith "HOL-Library.Signed_Division"
begin

text \<open>
  Division and modulus of \<open>verinum.cc\<close>: native arithmetic for numbers that fit a \<open>long\<close>, and the
  shift and subtract loop of \<open>unsigned_divide\<close> and \<open>unsigned_modulus\<close> for wider ones. The loop
  relies on the comparison, the difference and the shift of the number type only; that interface
  is the locale \<open>long_division\<close>. A native division that traps yields \<open>Inl ''SIGFPE''\<close>.
\<close>

section \<open>The shift and subtract loop\<close>

text \<open>\<open>eff_width\<close> is \<open>nwid\<close> (\<open>dwid\<close>): the number of bits up to the highest one that is not 0.\<close>

definition eff_width :: "verinum \<Rightarrow> nat" where
  "eff_width v = length (dropWhile (\<lambda>b. b = V0) (rev (vbits v)))"

fun divide_loop :: "('n \<Rightarrow> 'n \<Rightarrow> V result) \<Rightarrow> ('n \<Rightarrow> 'n \<Rightarrow> 'n result) \<Rightarrow> ('n \<Rightarrow> 'n result) \<Rightarrow>
    nat \<Rightarrow> 'n \<Rightarrow> 'n \<Rightarrow> V list \<Rightarrow> ('n \<times> V list) result" where
  "divide_loop le sub half 0 num den quo = Inr (num, quo)"
| "divide_loop le sub half (Suc idx) num den quo =
     bind_result (le den num) (\<lambda>fits.
       bind_result (if fits \<noteq> V0 then sub num den else Inr num) (\<lambda>num.
         bind_result (half den) (\<lambda>den.
           divide_loop le sub half idx num den (if fits \<noteq> V0 then quo[idx := V1] else quo))))"

definition verinum_half :: "verinum \<Rightarrow> verinum result" where
  "verinum_half den = verinum_shr den 1"

definition unsigned_divide :: "verinum \<Rightarrow> verinum \<Rightarrow> bool \<Rightarrow> verinum result" where
  "unsigned_divide num den signed_result =
     (let nwid = eff_width num; dwid = eff_width den in
      if dwid > nwid then Inr (verinum_fill V0 1 True)
      else
        let den = verinum_shl den (nwid - dwid);
            idx = nwid - dwid + 1;
            quo = replicate (if signed_result then idx + 1 else idx) V0
        in bind_result (divide_loop verinum_le verinum_sub verinum_half idx num den quo)
             (\<lambda>(num, quo). Inr (mk_verinum quo True signed_result False)))"

definition unsigned_modulus :: "verinum \<Rightarrow> verinum \<Rightarrow> verinum result" where
  "unsigned_modulus num den =
     (let nwid = eff_width num; dwid = eff_width den in
      if dwid > nwid then Inr num
      else
        let den = verinum_shl den (nwid - dwid);
            idx = nwid - dwid + 1
        in bind_result (divide_loop verinum_le verinum_sub verinum_half idx num den [])
             (\<lambda>(num, quo). Inr num))"

section \<open>The operators\<close>

definition verinum_zero :: verinum where
  "verinum_zero = set_sign (verinum_fill V0 1 False) True"

text \<open>The absolute value of an operand, and whether it was negative.\<close>

definition magnitude :: "verinum \<Rightarrow> (verinum \<times> bool) result" where
  "magnitude v = bind_result (verinum_lt v verinum_zero) (\<lambda>neg.
     if neg \<noteq> V0 then bind_result (verinum_sub verinum_zero v) (\<lambda>u. Inr (u, True))
     else Inr (v, False))"

text \<open>The low bits of a native result; \<open>v >>= 1\<close> is arithmetic on a signed long.\<close>

definition native_bits :: "nat \<Rightarrow> int \<Rightarrow> bool \<Rightarrow> bool \<Rightarrow> verinum" where
  "native_bits use_len v hl sg = mk_verinum (sint_bits use_len v) hl sg False"

definition negate_if :: "bool \<Rightarrow> verinum \<Rightarrow> verinum result" where
  "negate_if negative v = (if negative then verinum_sub verinum_zero v else Inr v)"

definition verinum_div :: "verinum \<Rightarrow> verinum \<Rightarrow> verinum result" where
  "verinum_div left right =
     (let has_len_flag = has_len left \<and> has_len right;
          use_len = vlen left;
          sg = has_sign left \<or> has_sign right;
          undefined_result = Inr (set_sign (verinum_fill Vx use_len has_len_flag) sg)
      in if \<not> (is_defined left \<and> is_defined right) then undefined_result
         else if is_zero right then undefined_result
         else bind_result
           (if sg then
              (if use_len \<le> 63 then
                 (let l = as_long left; r = as_long right
                  in if r = 0 then Inl ''SIGFPE''
                     else Inr (native_bits use_len (l sdiv r) has_len_flag sg))
               else
                 bind_result (magnitude left) (\<lambda>(use_left, neg_left).
                 bind_result (magnitude right) (\<lambda>(use_right, neg_right).
                 bind_result (unsigned_divide use_left use_right True) (\<lambda>result.
                   negate_if (neg_left \<noteq> neg_right) result))))
            else
              (if use_len \<le> 64 then
                 (let l = as_ulong left; r = as_ulong right
                  in if r = 0 then Inl ''SIGFPE''
                     else Inr (native_bits use_len (l div r) has_len_flag sg))
               else unsigned_divide left right False))
           (\<lambda>result. Inr (trim_vnum result)))"

definition verinum_mod :: "verinum \<Rightarrow> verinum \<Rightarrow> verinum result" where
  "verinum_mod left right =
     (let has_len_flag = has_len left \<and> has_len right;
          use_len = vlen left;
          sg = has_sign left \<or> has_sign right;
          undefined_result = Inr (set_sign (verinum_fill Vx use_len has_len_flag) sg)
      in if \<not> (is_defined left \<and> is_defined right) then undefined_result
         else if as_ulong right = 0 then undefined_result
         else bind_result
           (if sg then
              (if use_len \<le> 64 then
                 (let l = as_long left; r = as_long right
                  in if r = 0 \<or> l = - (2 ^ 63) \<and> r = - 1 then Inl ''SIGFPE''
                     else Inr (native_bits use_len (l smod r) has_len_flag sg))
               else
                 bind_result (magnitude left) (\<lambda>(use_left, neg_left).
                 bind_result (magnitude right) (\<lambda>(use_right, neg_right).
                 bind_result (unsigned_modulus use_left use_right) (\<lambda>result.
                   negate_if neg_left (set_sign result True)))))
            else
              (if use_len \<le> 64 then
                 (let l = as_ulong left; r = as_ulong right
                  in Inr (native_bits use_len (l mod r) has_len_flag sg))
               else unsigned_modulus left right))
           (\<lambda>result. Inr (trim_vnum result)))"

section \<open>What the loop relies on\<close>

lemma val_u_update: "k < length bs \<Longrightarrow> bs ! k = V0 \<Longrightarrow> val_u (bs[k := V1]) = val_u bs + 2 ^ k"
proof (induction bs arbitrary: k)
  case (Cons b bs)
  then show ?case by (cases k) auto
qed simp

lemma all_defined_update: "all_defined bs \<Longrightarrow> all_defined (bs[k := V1])"
  using set_update_subset_insert [of bs k V1] by (auto simp: all_defined_def)

locale long_division =
  fixes le :: "'n \<Rightarrow> 'n \<Rightarrow> V result"
    and sub :: "'n \<Rightarrow> 'n \<Rightarrow> 'n result"
    and half :: "'n \<Rightarrow> 'n result"
    and val :: "'n \<Rightarrow> int"
    and numer :: "'n \<Rightarrow> bool"
    and denom :: "'n \<Rightarrow> bool"
  assumes le: "denom d \<Longrightarrow> numer n \<Longrightarrow> le d n = Inr (if val d \<le> val n then V1 else V0)"
    and sub: "denom d \<Longrightarrow> numer n \<Longrightarrow> val d \<le> val n \<Longrightarrow>
      \<exists>n'. sub n d = Inr n' \<and> numer n' \<and> val n' = val n - val d"
    and half: "denom d \<Longrightarrow> \<exists>d'. half d = Inr d' \<and> denom d' \<and> val d' = val d div 2"
begin

lemma loop_steps:
  assumes "denom den" "numer num" "0 < d" "0 < k \<longrightarrow> val den = d * 2 ^ (k - 1)" "0 \<le> val num"
    "val num < d * 2 ^ k"
  shows "\<exists>num' quo'. divide_loop le sub half k num den quo = Inr (num', quo') \<and> numer num' \<and>
    val num' = val num mod d \<and> length quo' = length quo \<and>
    (all_defined quo \<longrightarrow> all_defined quo') \<and>
    (k \<le> length quo \<longrightarrow> (\<forall>i<k. quo ! i = V0) \<longrightarrow> val_u quo' = val_u quo + val num div d)"
  using assms
proof (induction k arbitrary: num den quo)
  case 0
  then show ?case by (simp add: mod_pos_pos_trivial div_pos_pos_trivial)
next
  case (Suc k)
  then have den: "val den = d * 2 ^ k" by simp
  obtain den' where half': "half den = Inr den'" "denom den'" "val den' = val den div 2"
    using half [OF Suc.prems(1)] by blast
  have hd: "0 < k \<longrightarrow> val den' = d * 2 ^ (k - 1)"
    using half'(3) den by (cases k) simp_all
  note le' = le [OF Suc.prems(1,2)]
  show ?case
  proof (cases "val den \<le> val num")
    case False
    then show ?thesis
      using Suc.IH [OF half'(2) Suc.prems(2,3) hd Suc.prems(5), of quo] den le' half'
      by (auto simp: less_Suc_eq)
  next
    case True
    obtain num' where num': "sub num den = Inr num'" "numer num'" "val num' = val num - val den"
      using sub [OF Suc.prems(1,2) True] by blast
    have range: "0 \<le> val num'" "val num' < d * 2 ^ k" using True den num'(3) Suc.prems(6) by simp_all
    have "val num = val num' + d * 2 ^ k" using num'(3) den by simp
    then have dm: "val num mod d = val num' mod d" "val num div d = 2 ^ k + val num' div d"
      using Suc.prems(3) by simp_all
    from Suc.IH [OF half'(2) num'(2) Suc.prems(3) hd range, of "quo[k := V1]"]
    show ?thesis
      using True le' num'(1) half'(1) dm by (auto simp: all_defined_update val_u_update)
  qed
qed

lemma remainder:
  assumes "denom den" "numer num" "0 < d" "val den = d * 2 ^ w" "0 \<le> val num"
    "val num < d * 2 ^ Suc w"
  shows "\<exists>num' quo'. divide_loop le sub half (Suc w) num den [] = Inr (num', quo') \<and> numer num' \<and>
    val num' = val num mod d"
  using loop_steps [of den num d "Suc w" "[]"] assms by auto

lemma quotient:
  assumes "denom den" "numer num" "0 < d" "val den = d * 2 ^ w" "0 \<le> val num"
    "val num < d * 2 ^ Suc w"
  shows "\<exists>num' quo'. divide_loop le sub half (Suc w) num den (replicate (Suc w + e) V0) =
      Inr (num', quo') \<and> length quo' = Suc w + e \<and> all_defined quo' \<and> val_u quo' = val num div d"
  using loop_steps [of den num d "Suc w" "replicate (Suc w + e) V0"] assms
  by (auto simp: val_u_replicate simp del: replicate_Suc nth_replicate intro: nth_replicate)

end

section \<open>The operators of \<open>verinum\<close> provide it\<close>

definition is_denom :: "verinum \<Rightarrow> bool" where
  "is_denom v \<longleftrightarrow> is_defined v \<and> \<not> has_sign v"

text \<open>A number with a spare bit at the top is the same number when it is read as signed.\<close>

definition spare :: "verinum \<Rightarrow> bool" where
  "spare v \<longleftrightarrow> is_defined v \<and> vbits v \<noteq> [] \<and> val_u (vbits v) < 2 ^ (vlen v - 1)"

lemma denom_le:
  "is_denom d \<Longrightarrow> is_defined n \<Longrightarrow>
     verinum_le d n = Inr (if val_u (vbits d) \<le> val_u (vbits n) then V1 else V0)"
  by (simp add: verinum_le_def order_iff_operands [of False] is_denom_def usable_def operand_def)

lemma denom_sub:
  assumes "is_denom d" "is_defined n" "val_u (vbits d) \<le> val_u (vbits n)"
  shows "\<exists>n'. verinum_sub n d = Inr n' \<and> is_defined n' \<and> vlen n \<le> vlen n' \<and>
    val_u (vbits n') = val_u (vbits n) - val_u (vbits d)"
proof -
  obtain n' where n': "verinum_sub n d = Inr n'" "is_defined n'" "vlen n' = top_len n d"
    "val_u (vbits n') = (val_u (vbits n) - val_u (vbits d)) mod 2 ^ top_len n d"
    using sub_unsigned [of n d] assms by (auto simp: is_denom_def)
  have "val_u (vbits n) < 2 ^ top_len n d"
    using top_len_ge(1) by (intro order_less_le_trans [OF val_u_less power_increasing]) auto
  then have "val_u (vbits n) - val_u (vbits d) < 2 ^ top_len n d"
    using val_u_nonneg [of "vbits d"] by linarith
  then show ?thesis using n' assms(3) top_len_ge(1) [of n d]
    by (simp add: mod_pos_pos_trivial)
qed

lemma denom_half:
  "is_denom d \<Longrightarrow> \<exists>d'. verinum_half d = Inr d' \<and> is_denom d' \<and> val_u (vbits d') = val_u (vbits d) div 2"
  using shr_unsigned [of d 1] by (auto simp: is_denom_def verinum_half_def)

interpretation plain: long_division verinum_le verinum_sub verinum_half "\<lambda>v. val_u (vbits v)"
  is_defined is_denom
  using denom_le denom_sub denom_half by unfold_locales blast+

lemma spare_grows: "spare n \<Longrightarrow> is_defined n' \<Longrightarrow> vlen n \<le> vlen n' \<Longrightarrow>
  val_u (vbits n') \<le> val_u (vbits n) \<Longrightarrow> spare n'"
proof -
  assume a: "spare n" "is_defined n'" "vlen n \<le> vlen n'" "val_u (vbits n') \<le> val_u (vbits n)"
  have "(2::int) ^ (vlen n - 1) \<le> 2 ^ (vlen n' - 1)" using a(3) by (intro power_increasing) auto
  moreover have "vbits n' \<noteq> []" using a(1,3) by (auto simp: spare_def)
  moreover from calculation(1) have "val_u (vbits n') < 2 ^ (vlen n' - 1)"
    using a(1,4) unfolding spare_def by linarith
  ultimately show ?thesis using a(2) by (simp add: spare_def)
qed

interpretation roomy: long_division verinum_le verinum_sub verinum_half "\<lambda>v. val_u (vbits v)"
  spare is_denom
proof
  show "verinum_le d n = Inr (if val_u (vbits d) \<le> val_u (vbits n) then V1 else V0)"
    if "is_denom d" "spare n" for d n
    using denom_le that by (simp add: spare_def)
  show "\<exists>n'. verinum_sub n d = Inr n' \<and> spare n' \<and>
      val_u (vbits n') = val_u (vbits n) - val_u (vbits d)"
    if "is_denom d" "spare n" "val_u (vbits d) \<le> val_u (vbits n)" for d n
    using denom_sub [of d n] that spare_grows [of n] by (auto simp: spare_def [of n])
qed (rule denom_half)

interpretation unsigned: long_division verinum_le verinum_sub verinum_half
  "\<lambda>v. val_u (vbits v)" is_denom is_denom
proof
  show "\<exists>n'. verinum_sub n d = Inr n' \<and> is_denom n' \<and>
      val_u (vbits n') = val_u (vbits n) - val_u (vbits d)"
    if "is_denom d" "is_denom n" "val_u (vbits d) \<le> val_u (vbits n)" for d n
    using denom_sub [of d n] sub_unsigned [of n d] that by (auto simp: is_denom_def)
qed (use denom_half denom_le in \<open>auto simp: is_denom_def\<close>)

lemma eff_width_bounds:
  assumes "is_defined v"
  shows "val_u (vbits v) < 2 ^ eff_width v"
    and "0 < eff_width v \<Longrightarrow> 2 ^ (eff_width v - 1) \<le> val_u (vbits v)"
    and "eff_width v \<le> vlen v"
proof -
  let ?P = "\<lambda>b. b = V0"
  let ?lo = "rev (dropWhile ?P (rev (vbits v)))" and ?hi = "rev (takeWhile ?P (rev (vbits v)))"
  have split: "vbits v = ?lo @ ?hi" by (simp flip: rev_append)
  have "\<forall>b\<in>set ?hi. b = V0" by (auto dest: set_takeWhileD)
  then have "?hi = replicate (length ?hi) V0" by (rule replicate_length_same [symmetric])
  then have eq: "val_u (vbits v) = val_u ?lo"
    using split val_u_extend [of V0 ?lo "length ?hi"] by (metis V.distinct(1))
  have len: "length ?lo = eff_width v" by (simp add: eff_width_def)
  show "val_u (vbits v) < 2 ^ eff_width v" using val_u_less [of ?lo] eq len by simp
  show "eff_width v \<le> vlen v" using split len by (metis length_append le_add1)
  show "2 ^ (eff_width v - 1) \<le> val_u (vbits v)" if "0 < eff_width v"
  proof -
    have ne: "?lo \<noteq> []" by (metis that len length_greater_0_conv)
    then have "last ?lo \<noteq> V0" using hd_dropWhile [of ?P "rev (vbits v)"] by (simp add: last_rev)
    moreover have "all_defined ?lo"
      using assms split by (metis all_defined_simps(3) is_defined_iff)
    ultimately have "last ?lo = V1" using all_defined_last ne by blast
    then show ?thesis using last_iff_val_u [OF ne] eq len by simp
  qed
qed

text \<open>The divisor, shifted up to the width of the dividend, starts the loop.\<close>

lemma loop_start:
  assumes num: "is_defined num" and den: "is_defined den" "val_u (vbits den) \<noteq> 0"
    and w: "eff_width den \<le> eff_width num"
  defines "w \<equiv> eff_width num - eff_width den"
  shows "is_denom (verinum_shl den w)"
    and "val_u (vbits (verinum_shl den w)) = val_u (vbits den) * 2 ^ w"
    and "val_u (vbits num) < val_u (vbits den) * 2 ^ Suc w"
    and "0 < val_u (vbits den)"
proof -
  show pos: "0 < val_u (vbits den)" using den(2) val_u_nonneg [of "vbits den"] by linarith
  show "is_denom (verinum_shl den w)" "val_u (vbits (verinum_shl den w)) = val_u (vbits den) * 2 ^ w"
    using shl_value [of den w] den(1) by (simp_all add: is_denom_def)
  have dw: "0 < eff_width den"
    using eff_width_bounds(1) [OF den(1)] pos by (cases "eff_width den") auto
  then have "2 ^ (eff_width den - 1) \<le> val_u (vbits den)" by (rule eff_width_bounds(2) [OF den(1)])
  then have "(2::int) ^ (eff_width den - 1) * 2 ^ Suc w \<le> val_u (vbits den) * 2 ^ Suc w"
    by (intro mult_right_mono) auto
  moreover have "(2::int) ^ (eff_width den - 1) * 2 ^ Suc w = 2 ^ eff_width num"
    using dw w by (simp add: w_def flip: power_add power_Suc)
  ultimately show "val_u (vbits num) < val_u (vbits den) * 2 ^ Suc w"
    using eff_width_bounds(1) [OF num] by linarith
qed

lemma too_narrow:
  assumes "is_defined num" "is_defined den" "eff_width num < eff_width den"
  shows "val_u (vbits num) < val_u (vbits den)"
proof -
  have "(2::int) ^ eff_width num \<le> 2 ^ (eff_width den - 1)"
    using assms(3) by (intro power_increasing) auto
  then show ?thesis
    using eff_width_bounds(1) [OF assms(1)] eff_width_bounds(2) [OF assms(2)] assms(3) by linarith
qed

lemma int_div_less: "0 < d \<Longrightarrow> n < d * k \<Longrightarrow> n div d < (k::int)"
proof -
  assume d: "0 < d" "n < d * k"
  have "d * (n div d) \<le> n" using mult_div_mod_eq [of d n] pos_mod_sign [OF d(1), of n] by linarith
  with d show ?thesis using mult_less_cancel_left_pos [OF d(1)] by (meson order_le_less_trans)
qed

lemma unsigned_divide_value:
  assumes num: "is_defined num" and den: "is_defined den" "val_u (vbits den) \<noteq> 0"
  shows "\<exists>q. unsigned_divide num den sr = Inr q \<and> well q \<and> (sr \<longrightarrow> \<not> has_sign q \<longrightarrow> vint q = 0) \<and>
    vint q = val_u (vbits num) div val_u (vbits den) \<and> val_u (vbits q) = vint q"
proof (cases "eff_width num < eff_width den")
  case True
  then show ?thesis using too_narrow [OF num den(1)]
    by (auto simp: unsigned_divide_def verinum_fill_def mk_verinum_def usable_def is_defined_iff
        vint_def div_pos_pos_trivial)
next
  case False
  then have w: "eff_width den \<le> eff_width num" by simp
  note start = loop_start [OF num den w]
  let ?w = "eff_width num - eff_width den" and ?e = "if sr then 1 else 0"
  obtain num' quo' where q: "divide_loop verinum_le verinum_sub verinum_half (Suc ?w) num
      (verinum_shl den ?w) (replicate (Suc ?w + ?e) V0) = Inr (num', quo')"
    "length quo' = Suc ?w + ?e" "all_defined quo'"
    "val_u quo' = val_u (vbits num) div val_u (vbits den)"
    using plain.quotient [OF start(1) num start(4,2) val_u_nonneg start(3), of ?e] by blast
  have run: "unsigned_divide num den sr = Inr (mk_verinum quo' True sr False)"
    using q(1) False by (cases sr) (simp_all add: unsigned_divide_def Let_def)
  have "last quo' \<noteq> V1" if "sr"
  proof -
    have ne: "quo' \<noteq> []" using q(2) by auto
    have "val_u (vbits num) div val_u (vbits den) < 2 ^ Suc ?w"
      by (rule int_div_less) (use start(3,4) in simp_all)
    then have "val_u quo' < 2 ^ (length quo' - 1)" using q(2,4) that by simp
    then show ?thesis using last_iff_val_u [OF ne] by simp
  qed
  then show ?thesis using run q
    by (auto simp: mk_verinum_def usable_def is_defined_iff vint_def val_s_def)
qed

lemma unsigned_modulus_value:
  assumes num: "is_defined num" and den: "is_defined den" "val_u (vbits den) \<noteq> 0"
  shows "\<exists>m. unsigned_modulus num den = Inr m \<and> is_defined m \<and>
    val_u (vbits m) = val_u (vbits num) mod val_u (vbits den) \<and> (spare num \<longrightarrow> spare m) \<and>
    (\<not> has_sign num \<longrightarrow> \<not> has_sign m)"
proof (cases "eff_width num < eff_width den")
  case True
  then show ?thesis using too_narrow [OF num den(1)] num
    by (simp add: unsigned_modulus_def mod_pos_pos_trivial)
next
  case False
  then have w: "eff_width den \<le> eff_width num" by simp
  note start = loop_start [OF num den w]
  note P = plain.remainder [OF start(1) num start(4,2) val_u_nonneg start(3)]
  note R = roomy.remainder [OF start(1) _ start(4,2) val_u_nonneg start(3)]
  note U = unsigned.remainder [OF start(1) _ start(4,2) val_u_nonneg start(3)]
  show ?thesis using P R U num False by (auto simp: unsigned_modulus_def Let_def is_denom_def)
qed

section \<open>The quotient and the remainder\<close>

lemma verinum_zero_simps [simp]:
  "vbits verinum_zero = [V0]" "has_sign verinum_zero" "well verinum_zero" "vint verinum_zero = 0"
  by (simp_all add: verinum_zero_def set_sign_def verinum_fill_def mk_verinum_def usable_def
      is_defined_iff vint_def val_s_def)

lemma val_s_nonneg: "bs \<noteq> [] \<Longrightarrow> 0 \<le> val_s bs \<Longrightarrow> val_u bs = val_s bs"
  using val_u_less [of bs] by (auto simp: val_s_def split: if_splits)

lemma spare_signed:
  assumes "is_defined v" "vbits v \<noteq> []" "0 \<le> val_s (vbits v)"
  shows "spare v"
  using assms val_s_bounds [OF assms(2)] val_s_nonneg [OF assms(2,3)] by (simp add: spare_def)

lemma spare_vint: "spare v \<Longrightarrow> vint (set_sign v True) = val_u (vbits v)"
  using last_iff_val_u [of "vbits v"] by (auto simp: spare_def vint_def set_sign_def val_s_def)

lemma magnitude_value:
  assumes v: "well v"
  shows "\<exists>u. magnitude v = Inr (u, vint v < 0) \<and> is_defined u \<and> val_u (vbits u) = \<bar>vint v\<bar> \<and>
    (has_sign v \<longrightarrow> spare u)"
proof -
  have lt: "verinum_lt v verinum_zero = Inr (if vint v < 0 then V1 else V0)"
  proof -
    have "usable (has_sign v) verinum_zero" by (simp add: usable_def is_defined_iff)
    moreover have "operand (has_sign v) verinum_zero = 0" by (simp add: operand_def val_s_def)
    ultimately show ?thesis
      using order_iff_operands [of "has_sign v" v verinum_zero V0] v
      by (simp add: verinum_lt_def operand_has_sign)
  qed
  show ?thesis
  proof (cases "vint v < 0")
    case True
    then have s: "has_sign v" using val_u_nonneg [of "vbits v"]
      by (simp add: vint_def del: val_u_nonneg split: if_splits)
    then obtain u where u: "verinum_sub verinum_zero v = Inr u" "is_defined u" "vbits u \<noteq> []"
      "has_sign u" "vint u = - vint v"
      using sub_signed [of verinum_zero v] v verinum_zero_simps(3) by auto
    then have "0 \<le> val_s (vbits u)" "val_s (vbits u) = - vint v" using True by (simp_all add: vint_def)
    then show ?thesis using lt True u val_s_nonneg [of "vbits u"] spare_signed [of u]
      by (simp add: magnitude_def)
  next
    case False
    then show ?thesis
      using lt v val_s_nonneg [of "vbits v"] spare_signed [of v]
      by (auto simp: magnitude_def usable_def vint_def)
  qed
qed

lemma negate_if_value:
  assumes v: "well v" and u: "\<not> has_sign v \<Longrightarrow> vint v = 0"
  shows "\<exists>r. negate_if neg v = Inr r \<and> is_defined r \<and> vint r = (if neg then - vint v else vint v)"
proof (cases "neg")
  case True
  show ?thesis
  proof (cases "has_sign v")
    case s: True
    then show ?thesis using True sub_signed [of verinum_zero v] v verinum_zero_simps(3)
      by (auto simp: negate_if_def)
  next
    case False
    then obtain r where "verinum_sub verinum_zero v = Inr r" "is_defined r" "\<not> has_sign r"
      "val_u (vbits r) = (0 - val_u (vbits v)) mod 2 ^ top_len verinum_zero v"
      using sub_unsigned [of verinum_zero v] v verinum_zero_simps(3) by (auto simp: usable_def)
    moreover have "val_u (vbits v) = 0" using u False by (simp add: vint_def)
    ultimately show ?thesis using True u False by (auto simp: negate_if_def vint_def)
  qed
qed (use v in \<open>simp add: negate_if_def usable_def\<close>)

lemma as_ulong_small: "is_defined v \<Longrightarrow> vlen v \<le> 64 \<Longrightarrow> as_ulong v = val_u (vbits v)"
proof -
  assume a: "is_defined v" "vlen v \<le> 64"
  then have "val_u (vbits v) < 2 ^ 64"
    by (intro order_less_le_trans [OF val_u_less power_increasing]) auto
  then show ?thesis using a(1) by (simp only: as_ulong_val) (simp add: mod_pos_pos_trivial)
qed

text \<open>On 64 signed bits the truncation of \<open>as_long\<close> to 63 drops a copy of the sign only.\<close>

lemma as_long_signed64:
  assumes d: "is_defined v" and "vlen v = 64" "has_sign v"
  shows "as_long v = vint v"
proof -
  let ?bs = "vbits v" and ?lo = "take 63 (vbits v)"
  have ne: "?bs \<noteq> []" using assms(2) by auto
  have "?lo = butlast ?bs" using assms(2) by (simp add: butlast_conv_take)
  then have split: "?bs = ?lo @ [last ?bs]" using ne by simp
  have "or_masks ?lo 0 0 = val_u ?lo" using or_masks_val [of 0 0 ?lo] by simp
  moreover have "and_masks ?lo 0 (- 1) = val_u ?lo - 2 ^ 63"
    using and_masks_val [of ?lo 0 0] d assms(2) by (simp add: is_defined_iff all_defined_take)
  ultimately have "as_long v = val_u ?lo - (if last ?bs = V1 then 2 ^ 63 else 0)"
    using assms ne by (auto simp: as_long_def Let_def)
  also have "\<dots> = val_s (?lo @ [last ?bs])" using assms(2) by (simp add: val_s_snoc)
  finally show ?thesis using split assms(3) by (simp add: vint_def)
qed

lemma native_bits_signed:
  assumes "n \<noteq> 0" "- (2 ^ (n - 1)) \<le> i" "i < 2 ^ (n - 1)"
  shows "vint (native_bits n i hl True) = i"
proof -
  have "val_s (sint_bits n i) = i"
    using assms by (intro val_s_eqI) (simp_all add: sint_bits_val flip: length_greater_0_conv)
  then show ?thesis by (simp add: native_bits_def mk_verinum_def vint_def)
qed

lemma native_bits_unsigned:
  "0 \<le> i \<Longrightarrow> i < 2 ^ n \<Longrightarrow> vint (native_bits n i hl False) = i"
  by (simp add: native_bits_def mk_verinum_def vint_def sint_bits_val mod_pos_pos_trivial)

lemma native_bits_defined: "is_defined (native_bits n i hl sg)"
  by (simp add: native_bits_def mk_verinum_def is_defined_iff sint_bits_defined)

lemma int_div_trunc: "sgn a * sgn b * (\<bar>a\<bar> div \<bar>b\<bar>) = (if (a < 0) \<noteq> (b < 0)
    then - (\<bar>a\<bar> div \<bar>b\<bar>) else \<bar>a\<bar> div (\<bar>b\<bar>::int))"
  by (auto simp: sgn_if)

lemma sdiv_abs: "(a::int) sdiv b = (if (a < 0) \<noteq> (b < 0) then - (\<bar>a\<bar> div \<bar>b\<bar>) else \<bar>a\<bar> div \<bar>b\<bar>)"
  by (simp only: signed_divide_int_def int_div_trunc)

lemma smod_abs: "(a::int) smod b = (if a < 0 then - (\<bar>a\<bar> mod \<bar>b\<bar>) else \<bar>a\<bar> mod \<bar>b\<bar>)"
  by (auto simp: signed_modulo_int_def sgn_if)

text \<open>The result keeps the sign of a signed left operand, so its own width suffices.\<close>

definition result_fits :: "verinum \<Rightarrow> verinum \<Rightarrow> bool" where
  "result_fits l r \<longleftrightarrow> (has_sign l \<or> \<not> has_sign r) \<and>
     \<not> (vint l = - (2 ^ (vlen l - 1)) \<and> vint r = - 1)"

lemma sdiv_fits:
  assumes l: "well l" "has_sign l" and fit: "result_fits l r"
  shows "- (2 ^ (vlen l - 1)) \<le> vint l sdiv vint r \<and> vint l sdiv vint r < 2 ^ (vlen l - 1)"
proof -
  have range: "- (2 ^ (vlen l - 1)) \<le> vint l" "vint l < 2 ^ (vlen l - 1)"
    using well_range [OF l(1)] l(2) by simp_all
  have q: "\<bar>vint l sdiv vint r\<bar> \<le> \<bar>vint l\<bar>"
    using sdiv_int_range [of "vint l" "vint r"] by auto
  show ?thesis
  proof (cases "vint l = - (2 ^ (vlen l - 1))")
    case True
    then have "vint r \<noteq> - 1" using fit by (simp add: result_fits_def)
    then have "vint l sdiv vint r \<noteq> - vint l"
      using int_sdiv_negated_is_minus1 [of "vint l" "vint r"] True by simp
    with q True show ?thesis by (simp add: abs_le_iff)
  next
    case False
    then have "\<bar>vint l\<bar> < 2 ^ (vlen l - 1)" using range by (simp add: abs_less_iff)
    with q show ?thesis by linarith
  qed
qed

lemma smod_fits:
  assumes l: "well l" "has_sign l"
  shows "- (2 ^ (vlen l - 1)) \<le> vint l smod b \<and> vint l smod b < 2 ^ (vlen l - 1)"
proof -
  have "\<bar>vint l\<bar> mod \<bar>b\<bar> \<le> \<bar>vint l\<bar>" by (simp add: zmod_le_nonneg_dividend)
  moreover have "0 \<le> \<bar>vint l\<bar> mod \<bar>b\<bar>"
    by (cases "b = 0") (simp_all add: pos_mod_sign)
  moreover have "- (2 ^ (vlen l - 1)) \<le> vint l" "vint l < 2 ^ (vlen l - 1)"
    using well_range [OF l(1)] l(2) by simp_all
  ultimately show ?thesis by (auto simp: smod_abs)
qed

text \<open>The two ways to a quotient.\<close>

lemma div_wide_signed:
  assumes l: "well l" and r: "well r" and nz: "vint r \<noteq> 0"
  shows "\<exists>v. bind_result (magnitude l) (\<lambda>(ul, nl). bind_result (magnitude r) (\<lambda>(ur, nr).
      bind_result (unsigned_divide ul ur True) (negate_if (nl \<noteq> nr)))) = Inr v \<and>
    is_defined v \<and> vint v = vint l sdiv vint r"
proof -
  obtain ul where ul: "magnitude l = Inr (ul, vint l < 0)" "is_defined ul"
    "val_u (vbits ul) = \<bar>vint l\<bar>"
    using magnitude_value [OF l] by blast
  obtain ur where ur: "magnitude r = Inr (ur, vint r < 0)" "is_defined ur"
    "val_u (vbits ur) = \<bar>vint r\<bar>"
    using magnitude_value [OF r] by blast
  obtain q where q: "unsigned_divide ul ur True = Inr q" "well q"
    "vint q = \<bar>vint l\<bar> div \<bar>vint r\<bar>" "\<not> has_sign q \<longrightarrow> vint q = 0"
    using unsigned_divide_value [OF ul(2) ur(2), of True] ur(3) ul(3) nz by auto
  obtain v where "negate_if ((vint l < 0) \<noteq> (vint r < 0)) q = Inr v" "is_defined v"
    "vint v = (if (vint l < 0) \<noteq> (vint r < 0) then - vint q else vint q)"
    using negate_if_value [OF q(2)] q(4) by blast
  then show ?thesis using ul(1) ur(1) q(1,3) by (simp add: sdiv_abs)
qed

lemma mod_wide_signed:
  assumes l: "well l" "has_sign l" and r: "well r" and nz: "vint r \<noteq> 0"
  shows "\<exists>v. bind_result (magnitude l) (\<lambda>(ul, nl). bind_result (magnitude r) (\<lambda>(ur, nr).
      bind_result (unsigned_modulus ul ur) (\<lambda>m. negate_if nl (set_sign m True)))) = Inr v \<and>
    is_defined v \<and> vint v = vint l smod vint r"
proof -
  obtain ul where ul: "magnitude l = Inr (ul, vint l < 0)" "is_defined ul"
    "val_u (vbits ul) = \<bar>vint l\<bar>" "spare ul"
    using magnitude_value [OF l(1)] l(2) by blast
  obtain ur where ur: "magnitude r = Inr (ur, vint r < 0)" "is_defined ur"
    "val_u (vbits ur) = \<bar>vint r\<bar>"
    using magnitude_value [OF r] by blast
  obtain m where m: "unsigned_modulus ul ur = Inr m" "spare m"
    "val_u (vbits m) = \<bar>vint l\<bar> mod \<bar>vint r\<bar>"
    using unsigned_modulus_value [OF ul(2) ur(2)] ur(3) ul(3,4) nz by auto
  have "well (set_sign m True)" "has_sign (set_sign m True)"
    using m(2) by (simp_all add: spare_def set_sign_def usable_def is_defined_iff)
  then obtain v where "negate_if (vint l < 0) (set_sign m True) = Inr v" "is_defined v"
    "vint v = (if vint l < 0 then - vint (set_sign m True) else vint (set_sign m True))"
    using negate_if_value by blast
  then show ?thesis using ul(1) ur(1) m by (simp add: smod_abs spare_vint)
qed

lemma quotient_exact:
  assumes l: "well l" and r: "well r" and nz: "vint r \<noteq> 0"
    and size: "vlen r \<le> 63 \<or> 64 < vlen l" and fit: "result_fits l r"
  shows "\<exists>v. verinum_div l r = Inr v \<and> is_defined v \<and> vint v = vint l sdiv vint r"
proof -
  let ?hl = "has_len l \<and> has_len r" and ?sg = "has_sign l \<or> has_sign r"
  have d: "is_defined l" "is_defined r" "\<not> is_zero r"
    using l r nz is_zero_vint [OF r] by (simp_all add: usable_def)
  have sl: "has_sign l" if ?sg using fit that by (auto simp: result_fits_def)
  consider (native) ?sg "vlen l \<le> 63" | (wide) ?sg "63 < vlen l"
    | (unative) "\<not> ?sg" "vlen l \<le> 64" | (uwide) "\<not> ?sg" "64 < vlen l"
    by linarith
  then show ?thesis
  proof cases
    case native
    have "vlen r \<le> 63" using size native by auto
    then have as: "as_long l = vint l" "as_long r = vint r"
      using as_long_val d native(2) by auto
    have "vlen l \<noteq> 0" using l sl [OF native(1)] by (auto simp: usable_def)
    then have "vint (native_bits (vlen l) (vint l sdiv vint r) ?hl True) = vint l sdiv vint r"
      using sdiv_fits [OF l sl [OF native(1)] fit] by (intro native_bits_signed) auto
    then show ?thesis using native d nz as
      by (simp add: verinum_div_def trim_vnum_defined native_bits_defined)
  next
    case wide
    then show ?thesis using div_wide_signed [OF l r nz] d
      by (auto simp: verinum_div_def trim_vnum_defined)
  next
    case unative
    have "vlen r \<le> 64" using size unative by auto
    then have as: "as_ulong l = vint l" "as_ulong r = vint r"
      using as_ulong_small d unative by (auto simp: vint_def)
    have pos: "0 \<le> vint l" "0 < vint r"
      using unative nz unsigned_vint_nonneg [of l] unsigned_vint_nonneg [of r] by auto
    have "vint l div vint r \<le> vint l" using pos zdiv_mono2 [of "vint l" 1 "vint r"] by simp
    moreover have "vint l < 2 ^ vlen l" using unative(1) by (simp add: vint_def val_u_less)
    ultimately have "vint (native_bits (vlen l) (vint l div vint r) ?hl False) = vint l div vint r"
      using pos by (intro native_bits_unsigned) (auto simp: pos_imp_zdiv_nonneg_iff)
    then show ?thesis using unative d nz as pos
      by (simp add: verinum_div_def trim_vnum_defined native_bits_defined sdiv_abs)
  next
    case uwide
    have "0 \<le> vint l" "0 < vint r"
      using uwide nz unsigned_vint_nonneg [of l] unsigned_vint_nonneg [of r] by auto
    moreover have u: "val_u (vbits l) = vint l" "val_u (vbits r) = vint r"
      using uwide(1) by (simp_all add: vint_def)
    moreover obtain q where "unsigned_divide l r False = Inr q" "is_defined q"
      "vint q = vint l div vint r"
      using unsigned_divide_value [OF d(1,2), of False] u nz by (auto simp: usable_def)
    ultimately show ?thesis
      using uwide d by (simp add: verinum_div_def trim_vnum_defined sdiv_abs)
  qed
qed

lemma remainder_exact:
  assumes l: "well l" and r: "well r" and nz: "vint r \<noteq> 0"
    and size: "vlen r \<le> 63 \<or> 64 < vlen l \<and> val_u (vbits r) mod 2 ^ 64 \<noteq> 0"
    and fit: "result_fits l r"
  shows "\<exists>v. verinum_mod l r = Inr v \<and> is_defined v \<and> vint v = vint l smod vint r"
proof -
  let ?hl = "has_len l \<and> has_len r" and ?sg = "has_sign l \<or> has_sign r"
  have d: "is_defined l" "is_defined r" using l r by (simp_all add: usable_def)
  have "val_u (vbits r) \<noteq> 0" using is_zero_vint [OF r] is_zero_val_u [OF d(2)] nz by simp
  then have u: "as_ulong r \<noteq> 0"
    using size as_ulong_val [OF d(2)] as_ulong_small [OF d(2)] by auto
  have sl: "has_sign l" if ?sg using fit that by (auto simp: result_fits_def)
  consider (native) ?sg "vlen l \<le> 64" | (wide) ?sg "64 < vlen l"
    | (unative) "\<not> ?sg" "vlen l \<le> 64" | (uwide) "\<not> ?sg" "64 < vlen l"
    by linarith
  then show ?thesis
  proof cases
    case native
    have "vlen r \<le> 63" using size native by auto
    moreover have "as_long l = vint l"
      using as_long_val [OF d(1)] as_long_signed64 [OF d(1)] sl native by (cases "vlen l = 64") auto
    ultimately have as: "as_long l = vint l" "as_long r = vint r" using as_long_val d by auto
    have n0: "vlen l \<noteq> 0" using l sl [OF native(1)] by (auto simp: usable_def)
    have trap: "\<not> (vint l = - (2 ^ 63) \<and> vint r = - 1)"
    proof
      assume a: "vint l = - (2 ^ 63) \<and> vint r = - 1"
      then have "(2::int) ^ 63 \<le> 2 ^ (vlen l - 1)"
        using well_range [OF l] sl [OF native(1)] by simp
      then have "63 \<le> vlen l - 1" by (rule power_le_imp_le_exp [rotated]) simp
      then have "vlen l - 1 = 63" using native(2) by simp
      with a fit show False by (simp add: result_fits_def)
    qed
    have "vint (native_bits (vlen l) (vint l smod vint r) ?hl True) = vint l smod vint r"
      using smod_fits [OF l sl [OF native(1)]] n0 by (intro native_bits_signed) auto
    then show ?thesis using native d nz u as trap
      by (auto simp: verinum_mod_def trim_vnum_defined native_bits_defined)
  next
    case wide
    then show ?thesis using mod_wide_signed [OF l sl r nz] d u
      by (auto simp: verinum_mod_def trim_vnum_defined)
  next
    case unative
    have "vlen r \<le> 64" using size unative by auto
    then have as: "as_ulong l = vint l" "as_ulong r = vint r"
      using as_ulong_small d unative by (auto simp: vint_def)
    have pos: "0 \<le> vint l" "0 < vint r"
      using unative nz unsigned_vint_nonneg [of l] unsigned_vint_nonneg [of r] by auto
    have "vint l mod vint r \<le> vint l" using pos by (simp add: zmod_le_nonneg_dividend)
    moreover have "vint l < 2 ^ vlen l" using unative(1) by (simp add: vint_def val_u_less)
    ultimately have "vint (native_bits (vlen l) (vint l mod vint r) ?hl False) = vint l mod vint r"
      using pos by (intro native_bits_unsigned) auto
    then show ?thesis using unative d u as pos
      by (simp add: verinum_mod_def trim_vnum_defined native_bits_defined smod_abs)
  next
    case uwide
    have "0 \<le> vint l" "0 < vint r"
      using uwide nz unsigned_vint_nonneg [of l] unsigned_vint_nonneg [of r] by auto
    moreover have v: "val_u (vbits l) = vint l" "val_u (vbits r) = vint r"
      using uwide(1) by (simp_all add: vint_def)
    moreover obtain m where m: "unsigned_modulus l r = Inr m" "is_defined m"
      "val_u (vbits m) = val_u (vbits l) mod val_u (vbits r)" "\<not> has_sign m"
      using unsigned_modulus_value [OF d] uwide(1) nz v by auto
    moreover have "vint m = vint l mod vint r" using m(3,4) v by (simp add: vint_def [of m])
    ultimately show ?thesis
      using uwide d u by (simp add: verinum_mod_def trim_vnum_defined smod_abs)
  qed
qed

section \<open>Properties\<close>

text \<open>
  C12. Division is exact and truncates towards zero: for defined operands, a right operand that is
  not zero, a left operand that is signed if the right one is, and away from the one overflowing
  quotient (the least number by -1), the native path and the shift and subtract path both return
  the quotient. The right operand must fit 63 bits unless the left one is wider than 64.
\<close>

theorem quotient_value:
  assumes "well l" "well r" "vint r \<noteq> 0" "vlen r \<le> 63 \<or> 64 < vlen l" "result_fits l r"
  shows "\<exists>v. verinum_div l r = Inr v \<and> is_defined v \<and> vint v = vint l sdiv vint r"
  using quotient_exact [OF assms] .

theorem quotient_value_witness:
  "\<exists>v. verinum_div (snum [V1, V0, V0, V1]) (snum [V0, V1, V0]) = Inr v \<and> vint v = - 3"
  using quotient_value [of "snum [V1, V0, V0, V1]" "snum [V0, V1, V0]"]
  by (auto simp: num_eval result_fits_def signed_divide_int_def)

text \<open>
  C13. The modulus is the remainder with the sign of the left operand, under the same conditions,
  provided that the low 64 bits of a wide right operand are not all 0 (the code takes such a
  divisor for zero).
\<close>

theorem remainder_value:
  assumes "well l" "well r" "vint r \<noteq> 0"
    and "vlen r \<le> 63 \<or> 64 < vlen l \<and> val_u (vbits r) mod 2 ^ 64 \<noteq> 0" "result_fits l r"
  shows "\<exists>v. verinum_mod l r = Inr v \<and> is_defined v \<and> vint v = vint l smod vint r"
  using remainder_exact [OF assms] .

theorem remainder_value_witness:
  "\<exists>v. verinum_mod (snum [V1, V0, V0, V1]) (snum [V0, V1, V1, V0]) = Inr v \<and> vint v = - 1"
  using remainder_value [of "snum [V1, V0, V0, V1]" "snum [V0, V1, V1, V0]"]
  by (auto simp: num_eval result_fits_def signed_modulo_int_def)

text \<open>
  C14. The zero test of the division looks at all bits of the right operand, its native branch only
  at the low 63: a signed division of at most 63 bits by an unsigned number that is a multiple of
  two to the 63 but not 0 divides by a native zero, which traps.
\<close>

theorem wide_divisor_traps:
  assumes "is_defined l" "has_sign l" "vlen l \<le> 63"
    and "is_defined r" "\<not> has_sign r" "val_u (vbits r) \<noteq> 0" "val_u (vbits r) mod 2 ^ 63 = 0"
  shows "verinum_div l r = Inl ''SIGFPE''"
proof -
  have "or_masks (take 63 (vbits r)) 0 0 = val_u (vbits r) mod 2 ^ 63"
    using or_masks_val [of 0 0 "take 63 (vbits r)"] by (simp add: val_u_take)
  moreover have "take (if vlen r > 63 then 63 else vlen r) (vbits r) = take 63 (vbits r)" by simp
  ultimately have "as_long r = 0"
    using assms(5,7) by (simp only: as_long_def Let_def) simp
  then show ?thesis using assms by (simp add: verinum_div_def is_zero_val_u)
qed

theorem wide_divisor_traps_witness:
  "verinum_div (snum [V1, V0, V1, V0]) (unum (replicate 63 V0 @ [V1])) = Inl ''SIGFPE''"
  by (rule wide_divisor_traps) (simp_all add: num_eval val_simps del: replicate.simps)

end
