(* ===== verification/Symbols.thy ===== *)
theory Symbols
  imports Prelude
begin

text \<open>
  The symbol table of the simulator (\<open>vvp/symbols.cc\<close>): a tree of leaves with sorted entries and of
  inner nodes, which are searched by the last key below a child. Nodes are changed in place; here an
  operation on a node returns the one or two nodes that replace it in its parent, and parent pointers
  are left out. The count of a node is the length of its list.
\<close>

section \<open>Tables\<close>

type_synonym symbol_value = "64 word"

type_synonym entry = "string \<times> symbol_value"

datatype tree_node = Leaf "entry list" | Node "tree_node list"

definition leaf_width :: nat where "leaf_width = 254"

definition node_width :: nat where "node_width = 508"

text \<open>The bytes of a chunk of the string buffer, after the pointer to the next chunk.\<close>

definition chunk_size :: nat where "chunk_size = 64 * 1024 - 8"

record symbol_table =
  root :: tree_node
  str_used :: nat

definition new_symbol_table :: symbol_table where
  "new_symbol_table = \<lparr>root = Node [], str_used = 0\<rparr>"

text \<open>The copy of a key: the number of bytes that are used of the current chunk.\<close>

definition key_strdup :: "nat \<Rightarrow> string \<Rightarrow> nat result" where
  "key_strdup used str =
     (if chunk_size < length str + 1 then Inl ''assert''
      else if chunk_size - used < length str + 1 then Inr (length str + 1)
      else Inr (used + length str + 1))"

fun node_last_key :: "tree_node \<Rightarrow> string" where
  "node_last_key (Leaf es) = fst (last es)"
| "node_last_key (Node cs) = (if cs = [] then [] else last (map node_last_key cs))"

section \<open>Splitting\<close>

text \<open>The last half goes to a new node, which comes after the old one in the parent.\<close>

definition halves :: "'a list \<Rightarrow> 'a list \<times> 'a list" where
  "halves xs = (let k = length xs - length xs div 2 in (take k xs, drop k xs))"

definition split_leaf :: "entry list \<Rightarrow> tree_node list" where
  "split_leaf es = (case halves es of (old, new) \<Rightarrow> [Leaf old, Leaf new])"

definition split_node :: "tree_node list \<Rightarrow> tree_node list" where
  "split_node cs = (case halves cs of (old, new) \<Rightarrow> [Node old, Node new])"

section \<open>Searching\<close>

text \<open>
  The loop over the entries of a leaf: the entries after it, the value that is returned, and whether an
  entry was added.
\<close>

fun leaf_value :: "string \<Rightarrow> symbol_value \<Rightarrow> bool \<Rightarrow> entry list \<Rightarrow> entry list \<times> symbol_value \<times> bool" where
  "leaf_value key val force [] = ([(key, val)], val, True)"
| "leaf_value key val force ((k, v) # es) =
     (if key = k then (let w = if force then val else v in ((k, w) # es, w, False))
      else if key < k then ((key, val) # (k, v) # es, val, True)
      else (case leaf_value key val force es of (es', w, added) \<Rightarrow> ((k, v) # es', w, added)))"

text \<open>The binary search among the children of an inner node.\<close>

fun search_child :: "nat \<Rightarrow> (nat \<Rightarrow> string) \<Rightarrow> nat \<Rightarrow> string \<Rightarrow> nat \<Rightarrow> nat \<Rightarrow> nat \<Rightarrow> nat option" where
  "search_child 0 last_key count key lo hi idx = None"
| "search_child (Suc fuel) last_key count key lo hi idx =
     (if key = last_key idx then Some idx
      else if last_key idx < key then
        (let lo = idx + 1
         in if lo = count then Some idx
            else if lo = hi then Some hi
            else search_child fuel last_key count key lo hi (lo + (hi - lo) div 2))
      else
        (let hi = idx
         in if idx = lo then Some idx
            else search_child fuel last_key count key lo hi (lo + (hi - lo) div 2)))"

lemma size_nth: "i < length cs \<Longrightarrow> size (cs ! i) < Suc (size_list size cs)"
  by (induction cs arbitrary: i) (auto simp: nth_Cons split: nat.split, fastforce)

function find_value :: "string \<Rightarrow> symbol_value \<Rightarrow> bool \<Rightarrow> tree_node \<Rightarrow> nat \<Rightarrow>
    (tree_node list \<times> symbol_value \<times> nat) result" where
  "find_value key val force (Leaf es) used =
     (case leaf_value key val force es of
        (es', w, added) \<Rightarrow>
          if added then
            bind_result (key_strdup used key) (\<lambda>used.
              Inr (if length es' = leaf_width then split_leaf es' else [Leaf es'], w, used))
          else Inr ([Leaf es'], w, used))"
| "find_value key val force (Node cs) used =
     (case search_child (Suc (length cs)) (\<lambda>i. node_last_key (cs ! i)) (length cs) key 0 (length cs)
         (length cs div 2) of
        None \<Rightarrow> Inl ''no child''
      | Some idx \<Rightarrow>
          if idx < length cs then
            bind_result (find_value key val force (cs ! idx) used) (\<lambda>(ts, w, used).
              let cs' = take idx cs @ ts @ drop (Suc idx) cs
              in Inr (if length cs < length cs' \<and> length cs' = node_width then split_node cs' else [Node cs'],
                   w, used))
          else Inl ''no child'')"
  by pat_completeness auto

termination find_value
  by (relation "measure (\<lambda>(key, val, force, t, used). size t)") (auto intro: size_nth)

text \<open>When the root is split, it becomes the parent of the two halves.\<close>

definition replace_root :: "symbol_table \<Rightarrow> tree_node list \<Rightarrow> nat \<Rightarrow> symbol_table" where
  "replace_root tab ts used =
     tab\<lparr>root := (case ts of [t] \<Rightarrow> t | _ \<Rightarrow> Node ts), str_used := used\<rparr>"

definition first_leaf :: "symbol_table \<Rightarrow> string \<Rightarrow> symbol_value \<Rightarrow> symbol_table result" where
  "first_leaf tab key val =
     bind_result (key_strdup (str_used tab) key) (\<lambda>used.
       Inr (tab\<lparr>root := Node [Leaf [(key, val)]], str_used := used\<rparr>))"

definition sym_set_value :: "symbol_table \<Rightarrow> string \<Rightarrow> symbol_value \<Rightarrow> symbol_table result" where
  "sym_set_value tab key val =
     (if root tab = Node [] then first_leaf tab key val
      else bind_result (find_value key val True (root tab) (str_used tab)) (\<lambda>(ts, w, used).
        Inr (replace_root tab ts used)))"

definition sym_get_value :: "symbol_table \<Rightarrow> string \<Rightarrow> (symbol_value \<times> symbol_table) result" where
  "sym_get_value tab key =
     (if root tab = Node [] then bind_result (first_leaf tab key 0) (\<lambda>tab. Inr (0, tab))
      else bind_result (find_value key 0 False (root tab) (str_used tab)) (\<lambda>(ts, w, used).
        Inr (w, replace_root tab ts used)))"

section \<open>The entries of a tree\<close>

fun entries :: "tree_node \<Rightarrow> entry list" where
  "entries (Leaf es) = es"
| "entries (Node cs) = concat (map entries cs)"

definition ascending :: "entry list \<Rightarrow> bool" where
  "ascending es \<longleftrightarrow> sorted_wrt (<) (map fst es)"

lemma ascending_append: "ascending (xs @ ys) \<longleftrightarrow>
    ascending xs \<and> ascending ys \<and> (\<forall>x\<in>set xs. \<forall>y\<in>set ys. fst x < fst y)"
  by (auto simp: ascending_def sorted_wrt_append)

text \<open>All leaves at the same depth, no node empty or full.\<close>

fun shape :: "nat \<Rightarrow> tree_node \<Rightarrow> bool" where
  "shape h (Leaf es) \<longleftrightarrow> h = 0 \<and> es \<noteq> [] \<and> length es < leaf_width"
| "shape h (Node cs) \<longleftrightarrow> h \<noteq> 0 \<and> cs \<noteq> [] \<and> length cs < node_width \<and> (\<forall>c\<in>set cs. shape (h - 1) c)"

lemma entries_not_Nil: "shape h t \<Longrightarrow> entries t \<noteq> []"
proof (induction t arbitrary: h)
  case (Node cs)
  then show ?case by (cases cs) auto
qed simp

lemma node_last_key_entries: "shape h t \<Longrightarrow> node_last_key t = fst (last (entries t))"
proof (induction t arbitrary: h)
  case (Node cs)
  then obtain c where c: "cs = butlast cs @ [c]" by (metis append_butlast_last_id shape.simps(2))
  then have "c \<in> set cs" by (metis in_set_conv_decomp)
  then have "node_last_key c = fst (last (entries c))" "entries c \<noteq> []"
    using Node entries_not_Nil by auto
  moreover have "node_last_key (Node cs) = node_last_key c"
    by (subst c) simp
  moreover have "entries (Node cs) = concat (map entries (butlast cs)) @ entries c"
    by (subst c) simp
  ultimately show ?case by simp
qed simp

section \<open>Leaves\<close>

lemma leaf_value_left:
  "\<forall>e\<in>set xs. fst e < key \<Longrightarrow>
    leaf_value key val force (xs @ es) =
      (case leaf_value key val force es of (es', w, added) \<Rightarrow> (xs @ es', w, added))"
  by (induction xs) (auto split: prod.split)

lemma leaf_value_right:
  "es \<noteq> [] \<Longrightarrow> key \<le> fst (last es) \<Longrightarrow>
    leaf_value key val force (es @ ys) =
      (case leaf_value key val force es of (es', w, added) \<Rightarrow> (es' @ ys, w, added))"
proof (induction es)
  case (Cons e es)
  obtain k v where e: "e = (k, v)" by force
  show ?case
  proof (cases "es = []")
    case True
    then show ?thesis using Cons.prems by (auto simp: e Let_def)
  next
    case False
    then have "leaf_value key val force (es @ ys) =
      (case leaf_value key val force es of (es', w, added) \<Rightarrow> (es' @ ys, w, added))"
      using Cons by simp
    then show ?thesis by (auto simp: e Let_def split: prod.split)
  qed
qed simp

lemma leaf_value_Cons:
  "leaf_value key val force ((k, v) # es) =
     (if key = k then ((k, if force then val else v) # es, if force then val else v, False)
      else if key < k then ((key, val) # (k, v) # es, val, True)
      else ((k, v) # fst (leaf_value key val force es), snd (leaf_value key val force es)))"
  by (simp add: Let_def split: prod.split)

lemma leaf_value_keys: "fst ` set (fst (leaf_value key val force es)) = insert key (fst ` set es)"
proof (induction es)
  case (Cons e es)
  then show ?case by (cases e) (simp add: leaf_value_Cons insert_commute del: leaf_value.simps)
qed simp

lemma leaf_value_ascending: "ascending es \<Longrightarrow> ascending (fst (leaf_value key val force es))"
proof (induction es)
  case (Cons e es)
  obtain k v where e: "e = (k, v)" by force
  have k: "ascending es" "\<forall>x\<in>fst ` set es. k < x" using Cons.prems by (auto simp: ascending_def e)
  consider "key = k" | "key < k" | "k < key" by fastforce
  then show ?case
  proof cases
    case 3
    then have "\<forall>x\<in>fst ` set (fst (leaf_value key val force es)). k < x"
      using k by (simp add: leaf_value_keys)
    moreover have "ascending (fst (leaf_value key val force es))" using Cons.IH k by simp
    ultimately show ?thesis using 3 by (auto simp: e leaf_value_Cons ascending_def simp del: leaf_value.simps)
  qed (use k in \<open>fastforce simp: e leaf_value_Cons ascending_def simp del: leaf_value.simps\<close>)+
qed (simp add: ascending_def)

text \<open>The entries as a map, and the result.\<close>

lemma leaf_value_map:
  "ascending es \<Longrightarrow> leaf_value key val force es = (es', w, added) \<Longrightarrow>
    w = (case map_of es key of Some v \<Rightarrow> if force then val else v | None \<Rightarrow> val) \<and>
    map_of es' = (map_of es)(key \<mapsto> w) \<and> (added \<longleftrightarrow> map_of es key = None)"
proof (induction es arbitrary: es' w added)
  case (Cons e es)
  obtain k v where e: "e = (k, v)" by force
  obtain es1 w1 a1 where r: "leaf_value key val force es = (es1, w1, a1)" by (metis prod_cases3)
  have k: "ascending es" "\<forall>x\<in>fst ` set es. k < x" using Cons.prems by (auto simp: ascending_def e)
  have none: "x \<le> k \<Longrightarrow> map_of es x = None" for x
    using k(2) by (auto simp: map_of_eq_None_iff)
  consider "key = k" | "key < k" | "k < key" by fastforce
  then show ?case
  proof cases
    case 3
    then have "\<not> key < k" "key \<noteq> k" by auto
    then have "es' = (k, v) # es1" "w = w1" "added = a1" using Cons.prems(2) r by (simp_all add: e)
    then show ?thesis using Cons.IH [OF k(1) r] \<open>key \<noteq> k\<close> by (auto simp: e)
  qed (use Cons.prems(2) none [of key] in \<open>auto simp: e Let_def fun_eq_iff\<close>)
qed auto

lemma leaf_value_length:
  "leaf_value key val force es = (es', w, added) \<Longrightarrow> length es' = length es + (if added then 1 else 0)"
proof (induction es arbitrary: es' w added)
  case (Cons e es)
  obtain es1 w1 a1 where r: "leaf_value key val force es = (es1, w1, a1)" by (metis prod_cases3)
  show ?case using Cons.IH [OF r] Cons.prems by (cases e) (auto simp: r Let_def split: if_splits)
qed auto

section \<open>The binary search\<close>

definition found :: "(nat \<Rightarrow> string) \<Rightarrow> nat \<Rightarrow> string \<Rightarrow> nat \<Rightarrow> bool" where
  "found last_key count key idx \<longleftrightarrow> idx < count \<and> (\<forall>j<idx. last_key j < key) \<and>
     (key \<le> last_key idx \<or> idx + 1 = count)"

lemma search_child_found:
  assumes "\<And>i j. i < j \<Longrightarrow> j < count \<Longrightarrow> last_key i < last_key j"
  shows "lo \<le> idx \<Longrightarrow> idx < hi \<Longrightarrow> hi \<le> count \<Longrightarrow> hi - lo < fuel \<Longrightarrow> \<forall>j<lo. last_key j < key \<Longrightarrow>
    hi = count \<or> key < last_key hi \<Longrightarrow>
    \<exists>i. search_child fuel last_key count key lo hi idx = Some i \<and> found last_key count key i"
proof (induction fuel arbitrary: lo hi idx)
  case (Suc fuel)
  have less: "\<forall>j<i. last_key j < key" if "last_key i \<le> key" "i < count" for i
    using that assms by (metis order.strict_trans2)
  show ?case
  proof (cases "last_key idx" key rule: linorder_cases)
    case equal
    then show ?thesis using Suc.prems less [of idx] by (auto simp: found_def)
  next
    case greater
    show ?thesis
    proof (cases "idx = lo")
      case True
      then show ?thesis using greater Suc.prems by (auto simp: found_def)
    next
      case False
      then have "\<exists>i. search_child fuel last_key count key lo idx (lo + (idx - lo) div 2) = Some i \<and>
          found last_key count key i"
        using Suc.prems greater by (intro Suc.IH) auto
      then show ?thesis using greater False by (auto simp: Let_def)
    qed
  next
    case less_key: less
    have lo: "\<forall>j<idx + 1. last_key j < key"
      using less [of idx] less_key Suc.prems by (auto simp: less_Suc_eq)
    consider "idx + 1 = count" | "idx + 1 \<noteq> count" "idx + 1 = hi" | "idx + 1 < hi" using Suc.prems by linarith
    then show ?thesis
    proof cases
      case 3
      then have "\<exists>i. search_child fuel last_key count key (idx + 1) hi (idx + 1 + (hi - (idx + 1)) div 2) = Some i \<and>
          found last_key count key i"
        using Suc.prems lo by (intro Suc.IH) auto
      then show ?thesis using less_key 3 Suc.prems by (auto simp: Let_def)
    qed (use less_key lo Suc.prems in \<open>auto simp: Let_def found_def\<close>)
  qed
qed simp

section \<open>One operation\<close>

lemma widths: "2 \<le> leaf_width" "2 \<le> node_width"
  by (simp_all add: leaf_width_def node_width_def)

lemma halves_append: "halves xs = (old, new) \<Longrightarrow> old @ new = xs"
  by (auto simp: halves_def Let_def)

lemma halves_length: "halves xs = (old, new) \<Longrightarrow> 2 \<le> length xs \<Longrightarrow>
    old \<noteq> [] \<and> new \<noteq> [] \<and> length old < length xs \<and> length new < length xs"
  by (auto simp: halves_def Let_def)

lemma key_strdup_fits: "length key < chunk_size \<Longrightarrow> \<exists>used'. key_strdup used key = Inr used'"
  by (simp add: key_strdup_def)

text \<open>
  What an operation on a node does: the nodes that replace it have the shape of the node, and their
  entries are those of the loop over all entries in order.
\<close>

definition replaces :: "string \<Rightarrow> symbol_value \<Rightarrow> bool \<Rightarrow> nat \<Rightarrow> tree_node \<Rightarrow> tree_node list \<Rightarrow> symbol_value \<Rightarrow> bool" where
  "replaces key val force h t ts w \<longleftrightarrow>
     (\<forall>t'\<in>set ts. shape h t') \<and> (length ts = 1 \<or> length ts = 2) \<and>
     concat (map entries ts) = fst (leaf_value key val force (entries t)) \<and>
     w = fst (snd (leaf_value key val force (entries t)))"

lemma find_leaf:
  assumes "shape h (Leaf es)" "length key < chunk_size"
  shows "\<exists>ts w used'. find_value key val force (Leaf es) used = Inr (ts, w, used') \<and>
    replaces key val force h (Leaf es) ts w"
proof -
  obtain es' w added where r: "leaf_value key val force es = (es', w, added)" by (metis prod_cases3)
  have len: "length es' = length es + (if added then 1 else 0)" by (rule leaf_value_length [OF r])
  show ?thesis
  proof (cases added)
    case False
    then show ?thesis using assms r len by (auto simp: replaces_def)
  next
    case True
    obtain used' where u: "key_strdup used key = Inr used'" using key_strdup_fits [OF assms(2)] by blast
    show ?thesis
    proof (cases "length es' = leaf_width")
      case full: True
      obtain old new where h: "halves es' = (old, new)" by force
      have "shape h (Leaf old)" "shape h (Leaf new)" "old @ new = es'"
        using halves_length [OF h] halves_append [OF h] full widths assms(1) by auto
      then show ?thesis using True r u full h by (simp add: replaces_def split_leaf_def)
    next
      case False
      then show ?thesis using True r u len assms(1) by (auto simp: replaces_def)
    qed
  qed
qed

lemma concat_entries_nth:
  "i < length cs \<Longrightarrow> concat (map entries cs) =
    concat (map entries (take i cs)) @ entries (cs ! i) @ concat (map entries (drop (Suc i) cs))"
  by (subst id_take_nth_drop [of i cs]) simp_all

lemma ascending_last: "ascending es \<Longrightarrow> e \<in> set es \<Longrightarrow> fst e \<le> fst (last es)"
proof (induction es)
  case (Cons x es)
  then show ?case by (cases "es = []") (auto simp: ascending_def intro: order.strict_implies_order)
qed simp

lemma last_keys_ascending:
  assumes "\<forall>c\<in>set cs. shape h c" "ascending (concat (map entries cs))" "i < j" "j < length cs"
  shows "node_last_key (cs ! i) < node_last_key (cs ! j)"
proof -
  have c: "shape h (cs ! i)" "shape h (cs ! j)" using assms by auto
  then have ne: "entries (cs ! i) \<noteq> []" "entries (cs ! j) \<noteq> []" using entries_not_Nil by blast+
  have "cs ! j \<in> set (drop (Suc i) cs)"
    using assms(3,4) by (auto simp: in_set_conv_nth intro!: exI [of _ "j - Suc i"])
  then have "set (entries (cs ! j)) \<subseteq> set (concat (map entries (drop (Suc i) cs)))" by auto
  moreover have "ascending (concat (map entries (take i cs)) @ entries (cs ! i) @ concat (map entries (drop (Suc i) cs)))"
    using assms(2) concat_entries_nth [of i cs] assms(3,4) by simp
  ultimately have "\<forall>x\<in>set (entries (cs ! i)). \<forall>y\<in>set (entries (cs ! j)). fst x < fst y"
    unfolding ascending_append by blast
  then show ?thesis using ne last_in_set c by (simp add: node_last_key_entries)
qed

text \<open>The loop over all entries goes on in the child that the search found.\<close>

lemma leaf_value_child:
  assumes "\<forall>c\<in>set cs. shape h c" "ascending (concat (map entries cs))"
    and "found (\<lambda>i. node_last_key (cs ! i)) (length cs) key i"
  shows "leaf_value key val force (concat (map entries cs)) =
    (case leaf_value key val force (entries (cs ! i)) of (es', w, added) \<Rightarrow>
      (concat (map entries (take i cs)) @ es' @ concat (map entries (drop (Suc i) cs)), w, added))"
proof -
  let ?l = "concat (map entries (take i cs))" and ?r = "concat (map entries (drop (Suc i) cs))"
  have i: "i < length cs" "\<forall>j<i. node_last_key (cs ! j) < key"
    "key \<le> node_last_key (cs ! i) \<or> i + 1 = length cs"
    using assms(3) by (auto simp: found_def)
  have a: "ascending (?l @ entries (cs ! i) @ ?r)" using assms(2) concat_entries_nth [OF i(1)] by simp
  have "\<forall>e\<in>set ?l. fst e < key"
  proof
    fix e assume "e \<in> set ?l"
    then obtain c where c: "c \<in> set (take i cs)" "e \<in> set (entries c)" by auto
    then obtain j where j: "j < i" "j < length cs" "e \<in> set (entries (cs ! j))"
      by (auto simp: in_set_conv_nth [of c])
    have "shape h (cs ! j)" using assms(1) j by auto
    moreover have "ascending (entries (cs ! j))"
      using assms(2) concat_entries_nth [OF j(2)] by (simp add: ascending_append)
    ultimately have "fst e \<le> node_last_key (cs ! j)" using ascending_last j(3) by (simp add: node_last_key_entries)
    then show "fst e < key" using i(2) j(1) by (meson order.strict_trans1)
  qed
  then have left: "leaf_value key val force (concat (map entries cs)) =
      (case leaf_value key val force (entries (cs ! i) @ ?r) of (es', w, added) \<Rightarrow> (?l @ es', w, added))"
    unfolding concat_entries_nth [OF i(1)] by (rule leaf_value_left)
  have "leaf_value key val force (entries (cs ! i) @ ?r) =
      (case leaf_value key val force (entries (cs ! i)) of (es', w, added) \<Rightarrow> (es' @ ?r, w, added))"
  proof (cases "i + 1 = length cs")
    case True
    then show ?thesis by (simp split: prod.split)
  next
    case False
    have "shape h (cs ! i)" using assms(1) i(1) by simp
    then show ?thesis using False i(3) entries_not_Nil by (intro leaf_value_right) (auto simp: node_last_key_entries)
  qed
  then show ?thesis unfolding left by (auto split: prod.split)
qed

lemma find_node:
  assumes "shape h (Node cs)" "ascending (entries (Node cs))" "length key < chunk_size"
    and IH: "\<And>c used. c \<in> set cs \<Longrightarrow> ascending (entries c) \<Longrightarrow> \<exists>ts w used'.
      find_value key val force c used = Inr (ts, w, used') \<and> replaces key val force (h - 1) c ts w"
  shows "\<exists>ts w used'. find_value key val force (Node cs) used = Inr (ts, w, used') \<and>
    replaces key val force h (Node cs) ts w"
proof -
  let ?lk = "\<lambda>i. node_last_key (cs ! i)"
  have cs: "cs \<noteq> []" "length cs < node_width" "\<forall>c\<in>set cs. shape (h - 1) c" "h \<noteq> 0" using assms(1) by auto
  have asc: "ascending (concat (map entries cs))" using assms(2) by simp
  obtain i where i: "search_child (Suc (length cs)) ?lk (length cs) key 0 (length cs) (length cs div 2) = Some i"
    and f: "found ?lk (length cs) key i"
    using search_child_found [of "length cs" ?lk 0 "length cs div 2" "length cs" "Suc (length cs)" key]
      last_keys_ascending [OF cs(3) asc] cs(1) by auto
  have il: "i < length cs" using f by (simp add: found_def)
  have "ascending (entries (cs ! i))" using asc concat_entries_nth [OF il] by (simp add: ascending_append)
  then obtain ts w used' where r: "find_value key val force (cs ! i) used = Inr (ts, w, used')"
    and rep: "replaces key val force (h - 1) (cs ! i) ts w"
    using IH il nth_mem by blast
  define cs' where "cs' = take i cs @ ts @ drop (Suc i) cs"
  have ts: "length ts = 1 \<or> length ts = 2" "\<forall>t\<in>set ts. shape (h - 1) t"
    "concat (map entries ts) = fst (leaf_value key val force (entries (cs ! i)))"
    "w = fst (snd (leaf_value key val force (entries (cs ! i))))"
    using rep by (auto simp: replaces_def)
  have e: "concat (map entries cs') = fst (leaf_value key val force (entries (Node cs)))"
    "w = fst (snd (leaf_value key val force (entries (Node cs))))"
    using ts(3,4) leaf_value_child [OF cs(3) asc f, of val force]
    by (auto simp: cs'_def split: prod.split)
  have sh: "\<forall>c\<in>set cs'. shape (h - 1) c"
    using ts(2) cs(3) by (auto simp: cs'_def dest: in_set_takeD in_set_dropD)
  have len: "length cs' = length cs \<or> length cs' = length cs + 1" using ts(1) il by (auto simp: cs'_def)
  have run: "find_value key val force (Node cs) used =
      Inr (if length cs < length cs' \<and> length cs' = node_width then split_node cs' else [Node cs'], w, used')"
    using i il r by (simp add: cs'_def Let_def)
  show ?thesis
  proof (cases "length cs' = node_width")
    case True
    obtain old new where h: "halves cs' = (old, new)" by force
    have "old @ new = cs'" by (rule halves_append [OF h])
    then have "shape h (Node old)" "shape h (Node new)" "concat (map entries old) @ concat (map entries new) = concat (map entries cs')"
      using halves_length [OF h] True widths cs(4) sh by (auto simp flip: concat_append map_append)
    then have "replaces key val force h (Node cs) (split_node cs') w"
      using e by (simp add: replaces_def split_node_def h)
    then show ?thesis using run True cs(2) by auto
  next
    case False
    then have "length cs' < node_width" "cs' \<noteq> []" using len cs by auto
    then have "shape h (Node cs')" using sh cs(4) by simp
    then have "replaces key val force h (Node cs) [Node cs'] w" using e by (simp add: replaces_def)
    then show ?thesis using run False by auto
  qed
qed

lemma find_value_replaces:
  "shape h t \<Longrightarrow> ascending (entries t) \<Longrightarrow> length key < chunk_size \<Longrightarrow>
    \<exists>ts w used'. find_value key val force t used = Inr (ts, w, used') \<and> replaces key val force h t ts w"
proof (induction t arbitrary: h used)
  case (Leaf es)
  then show ?case by (intro find_leaf) simp_all
next
  case (Node cs)
  show ?case
    by (rule find_node [OF Node.prems]) (use Node in auto)
qed

section \<open>The table as a function\<close>

text \<open>Names without an entry have the value zero.\<close>

definition table_value :: "symbol_table \<Rightarrow> string \<Rightarrow> symbol_value" where
  "table_value tab key = (case map_of (entries (root tab)) key of Some v \<Rightarrow> v | None \<Rightarrow> 0)"

definition table_ok :: "symbol_table \<Rightarrow> bool" where
  "table_ok tab \<longleftrightarrow> (root tab = Node [] \<or> (\<exists>h. shape (Suc h) (root tab))) \<and> ascending (entries (root tab))"

lemma root_replaced:
  assumes "shape (Suc h) (root tab)" "ascending (entries (root tab))"
    and "replaces key val force (Suc h) (root tab) ts w"
  shows "table_ok (replace_root tab ts used)" "map_of (entries (root (replace_root tab ts used))) =
      (map_of (entries (root tab)))(key \<mapsto> w)"
    "w = (case map_of (entries (root tab)) key of Some v \<Rightarrow> if force then val else v | None \<Rightarrow> val)"
proof -
  obtain es' added where r: "leaf_value key val force (entries (root tab)) = (es', w, added)"
    and e: "concat (map entries ts) = es'" and sh: "\<forall>t\<in>set ts. shape (Suc h) t"
    and len: "length ts = 1 \<or> length ts = 2"
    using assms(3) unfolding replaces_def by (metis prod.collapse fst_conv snd_conv)
  have root: "entries (root (replace_root tab ts used)) = es' \<and>
      (\<exists>h. shape (Suc h) (root (replace_root tab ts used)))"
  proof (cases "length ts = 1")
    case True
    then obtain t where "ts = [t]" by (auto simp: length_Suc_conv)
    then show ?thesis using e sh by (auto simp: replace_root_def)
  next
    case False
    then obtain t u where "ts = [t, u]" using len by (auto simp: length_Suc_conv numeral_2_eq_2)
    moreover have "2 < node_width" by (simp add: node_width_def)
    ultimately have "shape (Suc (Suc h)) (Node ts)" using sh by simp
    then show ?thesis using e \<open>ts = [t, u]\<close> by (auto simp: replace_root_def)
  qed
  have "ascending es'" using leaf_value_ascending [OF assms(2), of key val force] r by simp
  then show "table_ok (replace_root tab ts used)" using root by (simp add: table_ok_def)
  show "map_of (entries (root (replace_root tab ts used))) = (map_of (entries (root tab)))(key \<mapsto> w)"
    "w = (case map_of (entries (root tab)) key of Some v \<Rightarrow> if force then val else v | None \<Rightarrow> val)"
    using leaf_value_map [OF assms(2) r] root by simp_all
qed

lemma first_leaf_ok:
  assumes "length key < chunk_size"
  shows "\<exists>tab'. first_leaf tab key val = Inr tab' \<and> table_ok tab' \<and> entries (root tab') = [(key, val)]"
proof -
  obtain used' where used: "key_strdup (str_used tab) key = Inr used'"
    using key_strdup_fits [OF assms] by blast
  have "shape (Suc 0) (Node [Leaf [(key, val)]])" by (simp add: leaf_width_def node_width_def)
  then have "\<exists>h. shape (Suc h) (Node [Leaf [(key, val)]])" by (rule exI)
  then show ?thesis using used
    by (simp add: first_leaf_def table_ok_def ascending_def del: shape.simps)
qed

lemma table_cases:
  assumes "table_ok tab"
  obtains "root tab = Node []" | h where "root tab \<noteq> Node []" "shape (Suc h) (root tab)" "ascending (entries (root tab))"
  using assms unfolding table_ok_def by blast

lemma sym_set_ok:
  assumes "table_ok tab" "length key < chunk_size"
  shows "\<exists>tab'. sym_set_value tab key val = Inr tab' \<and> table_ok tab' \<and>
    table_value tab' = (table_value tab)(key := val)"
  using assms(1)
proof (cases rule: table_cases)
  case 1
  then show ?thesis using first_leaf_ok [OF assms(2), of tab val]
    by (auto simp: sym_set_value_def table_value_def fun_eq_iff)
next
  case (2 h)
  obtain ts w used where f: "find_value key val True (root tab) (str_used tab) = Inr (ts, w, used)"
    and rep: "replaces key val True (Suc h) (root tab) ts w"
    using find_value_replaces [OF 2(2,3) assms(2)] by blast
  have "w = val" using root_replaced(3) [OF 2(2,3) rep] by (simp split: option.splits)
  then show ?thesis using f root_replaced(1,2) [OF 2(2,3) rep] 2(1)
    by (simp add: sym_set_value_def table_value_def fun_eq_iff)
qed

lemma sym_get_ok:
  assumes "table_ok tab" "length key < chunk_size"
  shows "\<exists>tab'. sym_get_value tab key = Inr (table_value tab key, tab') \<and> table_ok tab' \<and>
    table_value tab' = table_value tab"
  using assms(1)
proof (cases rule: table_cases)
  case 1
  then show ?thesis using first_leaf_ok [OF assms(2), of tab 0]
    by (auto simp: sym_get_value_def table_value_def fun_eq_iff)
next
  case (2 h)
  obtain ts w used where f: "find_value key 0 False (root tab) (str_used tab) = Inr (ts, w, used)"
    and rep: "replaces key 0 False (Suc h) (root tab) ts w"
    using find_value_replaces [OF 2(2,3) assms(2)] by blast
  have "w = table_value tab key" using root_replaced(3) [OF 2(2,3) rep] by (simp add: table_value_def split: option.splits)
  moreover have "table_value (replace_root tab ts used) = table_value tab"
    using root_replaced(2) [OF 2(2,3) rep] \<open>w = table_value tab key\<close>
    by (auto simp: table_value_def fun_eq_iff)
  ultimately show ?thesis using f root_replaced(1) [OF 2(2,3) rep] 2(1)
    by (simp add: sym_get_value_def)
qed

section \<open>Sequences of operations\<close>

datatype symbol_op = SetValue string symbol_value | GetValue string

fun op_key :: "symbol_op \<Rightarrow> string" where
  "op_key (SetValue key val) = key"
| "op_key (GetValue key) = key"

text \<open>The values that a sequence of operations returns, on a table and on a function.\<close>

fun run_ops :: "('t \<Rightarrow> string \<Rightarrow> symbol_value \<Rightarrow> 't result) \<Rightarrow>
    ('t \<Rightarrow> string \<Rightarrow> (symbol_value \<times> 't) result) \<Rightarrow> symbol_op list \<Rightarrow> 't \<Rightarrow> (symbol_value list \<times> 't) result" where
  "run_ops set_value get_value [] tab = Inr ([], tab)"
| "run_ops set_value get_value (SetValue key val # ops) tab =
     bind_result (set_value tab key val) (\<lambda>tab. run_ops set_value get_value ops tab)"
| "run_ops set_value get_value (GetValue key # ops) tab =
     bind_result (get_value tab key) (\<lambda>(w, tab).
       bind_result (run_ops set_value get_value ops tab) (\<lambda>(ws, tab). Inr (w # ws, tab)))"

fun spec_ops :: "symbol_op list \<Rightarrow> (string \<Rightarrow> symbol_value) \<Rightarrow> symbol_value list" where
  "spec_ops [] f = []"
| "spec_ops (SetValue key val # ops) f = spec_ops ops (f(key := val))"
| "spec_ops (GetValue key # ops) f = f key # spec_ops ops f"

locale value_store =
  fixes good :: "'t \<Rightarrow> bool" and fits :: "string \<Rightarrow> bool" and value_of :: "'t \<Rightarrow> string \<Rightarrow> symbol_value"
    and set_value :: "'t \<Rightarrow> string \<Rightarrow> symbol_value \<Rightarrow> 't result"
    and get_value :: "'t \<Rightarrow> string \<Rightarrow> (symbol_value \<times> 't) result"
  assumes set_law: "good tab \<Longrightarrow> fits key \<Longrightarrow> \<exists>tab'. set_value tab key val = Inr tab' \<and> good tab' \<and>
      value_of tab' = (value_of tab)(key := val)"
    and get_law: "good tab \<Longrightarrow> fits key \<Longrightarrow> \<exists>tab'. get_value tab key = Inr (value_of tab key, tab') \<and> good tab' \<and>
      value_of tab' = value_of tab"
begin

lemma run_refines:
  "good tab \<Longrightarrow> \<forall>p\<in>set ops. fits (op_key p) \<Longrightarrow>
    \<exists>tab'. run_ops set_value get_value ops tab = Inr (spec_ops ops (value_of tab), tab') \<and> good tab'"
proof (induction ops arbitrary: tab)
  case (Cons p ops)
  show ?case
  proof (cases p)
    case (SetValue key val)
    then obtain tab' where "set_value tab key val = Inr tab'" "good tab'" "value_of tab' = (value_of tab)(key := val)"
      using Cons.prems set_law by fastforce
    then show ?thesis using Cons SetValue by fastforce
  next
    case (GetValue key)
    then obtain tab' where "get_value tab key = Inr (value_of tab key, tab')" "good tab'" "value_of tab' = value_of tab"
      using Cons.prems get_law by fastforce
    then show ?thesis using Cons GetValue by fastforce
  qed
qed simp

end

interpretation symbols: value_store table_ok "\<lambda>key. length key < chunk_size" table_value sym_set_value sym_get_value
  by unfold_locales (rule sym_set_ok sym_get_ok; assumption)+

lemma new_table_ok: "table_ok new_symbol_table" "table_value new_symbol_table = (\<lambda>key. 0)"
  by (simp_all add: table_ok_def new_symbol_table_def ascending_def table_value_def fun_eq_iff)

text \<open>
  C40. A symbol table is a function from names to values that is zero at first. Every sequence of
  operations on a new table, with keys that fit in a chunk of the string buffer, ends without an
  assertion and returns what updating and reading such a function returns, however often the tree was
  split; all leaves of the tree at the end have the same depth and no node is full.
\<close>

theorem symbol_table_is_function:
  assumes "\<forall>p\<in>set ops. length (op_key p) < chunk_size"
  shows "\<exists>tab. run_ops sym_set_value sym_get_value ops new_symbol_table = Inr (spec_ops ops (\<lambda>key. 0), tab) \<and>
    table_ok tab"
  using symbols.run_refines [OF new_table_ok(1) assms] by (simp add: new_table_ok(2))

theorem symbol_table_is_function_witness:
  "\<exists>tab. run_ops sym_set_value sym_get_value
     [GetValue ''b'', SetValue ''a'' 5, SetValue ''b'' 7, GetValue ''a'', GetValue ''b'', GetValue ''c''] new_symbol_table =
     Inr ([0, 5, 7, 0], tab)"
  using symbol_table_is_function [of "[GetValue ''b'', SetValue ''a'' 5, SetValue ''b'' 7, GetValue ''a'',
    GetValue ''b'', GetValue ''c'']"]
  by (auto simp: chunk_size_def)

end
