(* ===== verification/Vector4.thy ===== *)
theory Vector4
  imports Prelude
begin

text \<open>
  The four-valued vectors of the simulator (\<open>vvp_vector4_t\<close> in \<open>vvp/vvp_net.h\<close> and \<open>vvp/vvp_net.cc\<close>):
  bits packed into two arrays of machine words, the operations on whole words, and what they do to the
  vector as a list of bits.
\<close>

section \<open>Bits\<close>

datatype bit4 = BIT4_0 | BIT4_1 | BIT4_X | BIT4_Z

fun bit4_is_xz :: "bit4 \<Rightarrow> bool" where
  "bit4_is_xz BIT4_0 = False"
| "bit4_is_xz BIT4_1 = False"
| "bit4_is_xz BIT4_X = True"
| "bit4_is_xz BIT4_Z = True"

fun bit4_z2x_vvp :: "bit4 \<Rightarrow> bit4" where
  "bit4_z2x_vvp BIT4_Z = BIT4_X"
| "bit4_z2x_vvp a = a"

fun bit4_not :: "bit4 \<Rightarrow> bit4" where
  "bit4_not BIT4_0 = BIT4_1"
| "bit4_not BIT4_1 = BIT4_0"
| "bit4_not BIT4_X = BIT4_X"
| "bit4_not BIT4_Z = BIT4_X"

definition bit4_or :: "bit4 \<Rightarrow> bit4 \<Rightarrow> bit4" where
  "bit4_or a b =
     (if a = BIT4_1 \<or> b = BIT4_1 then BIT4_1
      else if a = BIT4_0 \<and> b = BIT4_0 then BIT4_0 else BIT4_X)"

definition bit4_and :: "bit4 \<Rightarrow> bit4 \<Rightarrow> bit4" where
  "bit4_and a b =
     (if a = BIT4_0 \<or> b = BIT4_0 then BIT4_0
      else if a = BIT4_1 \<and> b = BIT4_1 then BIT4_1 else BIT4_X)"

text \<open>The sum of three bits and the carry.\<close>

definition add_with_carry4 :: "bit4 \<Rightarrow> bit4 \<Rightarrow> bit4 \<Rightarrow> bit4 \<times> bit4" where
  "add_with_carry4 a b c =
     (if bit4_is_xz a \<or> bit4_is_xz b \<or> bit4_is_xz c then (BIT4_X, BIT4_X)
      else let sum = (if a = BIT4_1 then 1 else 0) + (if b = BIT4_1 then 1 else 0) + (if c = BIT4_1 then 1 else 0 :: nat)
        in if sum = 0 then (BIT4_0, c)
           else if sum = 1 then (BIT4_1, BIT4_0)
           else if sum = 2 then (BIT4_0, BIT4_1)
           else (BIT4_1, BIT4_1))"

section \<open>Vectors\<close>

text \<open>
  A vector of at most 64 bits has its words in place; here this is a list with one word. Reads and
  writes outside of an array are errors, and so are shifts by the width of a word. The assertions about
  \<open>adr + wid\<close> are on natural numbers: a sum that wraps around in the code leaves the arrays afterwards.
\<close>

type_synonym word64 = "64 word"

record vector4 =
  size4 :: nat
  abits :: "word64 list"
  bbits :: "word64 list"

definition word_count :: "nat \<Rightarrow> nat" where
  "word_count n = (if 64 < n then (n + 64 - 1) div 64 else 1)"

text \<open>The constructor that fills a vector with a bit.\<close>

definition new_vector4 :: "nat \<Rightarrow> bit4 \<Rightarrow> vector4" where
  "new_vector4 n b =
     \<lparr>size4 = n,
      abits = replicate (word_count n) (if b = BIT4_1 \<or> b = BIT4_X then - 1 else 0),
      bbits = replicate (word_count n) (if b = BIT4_X \<or> b = BIT4_Z then - 1 else 0)\<rparr>"

definition bit4_of :: "bool \<Rightarrow> bool \<Rightarrow> bit4" where
  "bit4_of a b = (if b then (if a then BIT4_X else BIT4_Z) else (if a then BIT4_1 else BIT4_0))"

definition value4 :: "vector4 \<Rightarrow> nat \<Rightarrow> bit4" where
  "value4 v idx =
     (if size4 v \<le> idx then BIT4_X
      else let wdx = idx div 64; off = idx mod 64
        in bit4_of (bit (drop_bit off (abits v ! wdx)) 0) (bit (drop_bit off (bbits v ! wdx)) 0))"

text \<open>\<open>(1UL << n) - 1\<close>\<close>

definition low_mask :: "nat \<Rightarrow> word64" where
  "low_mask n = push_bit n 1 - 1"

definition word_at :: "word64 list \<Rightarrow> nat \<Rightarrow> word64 result" where
  "word_at ws i = (if i < length ws then Inr (ws ! i) else Inl ''out of bounds'')"

definition put_word :: "word64 list \<Rightarrow> nat \<Rightarrow> word64 \<Rightarrow> word64 list result" where
  "put_word ws i w = (if i < length ws then Inr (ws[i := w]) else Inl ''out of bounds'')"

text \<open>The bits of a word under a mask are replaced.\<close>

definition merge_word :: "word64 list \<Rightarrow> nat \<Rightarrow> word64 \<Rightarrow> word64 \<Rightarrow> word64 list result" where
  "merge_word ws i m w =
     bind_result (word_at ws i) (\<lambda>x. put_word ws i ((x AND NOT m) OR (w AND m)))"

definition set_bit4 :: "vector4 \<Rightarrow> nat \<Rightarrow> bit4 \<Rightarrow> vector4 result" where
  "set_bit4 v idx b =
     (if size4 v \<le> idx then Inl ''assert''
      else let mask = push_bit (idx mod 64) 1; wdx = idx div 64;
          a = abits v ! wdx; c = bbits v ! wdx
        in Inr (v\<lparr>abits := (abits v)[wdx := if b = BIT4_1 \<or> b = BIT4_X then a OR mask else a AND NOT mask],
                  bbits := (bbits v)[wdx := if b = BIT4_X \<or> b = BIT4_Z then c OR mask else c AND NOT mask]\<rparr>))"

section \<open>Parts\<close>

text \<open>
  The words of a part of a vector, for one of the two arrays. The loop is for a part of more than
  one word: \<open>moved\<close> bits are there, \<open>ptr\<close> and \<open>dst\<close> are the words of source and result.
\<close>

function sub_loop :: "nat \<Rightarrow> nat \<Rightarrow> word64 list \<Rightarrow> nat \<Rightarrow> nat \<Rightarrow> nat \<Rightarrow> word64 list \<Rightarrow> word64 list result" where
  "sub_loop wid off ws moved ptr dst res =
     (if wid \<le> moved then Inr res
      else if 64 \<le> off then Inl ''shift''
      else bind_result (word_at ws ptr) (\<lambda>w.
        let noff = 64 - off; lmask = low_mask off; low = drop_bit off (w AND NOT lmask);
          moved = moved + noff
        in bind_result (put_word res dst low) (\<lambda>res.
          if wid \<le> moved then Inr res
          else if noff = 64 then sub_loop wid off ws moved (ptr + 1) (dst + 1) res
          else bind_result (word_at ws (ptr + 1)) (\<lambda>w.
            bind_result (put_word res dst (low OR push_bit noff (w AND lmask))) (\<lambda>res.
              sub_loop wid off ws (moved + off) (ptr + 1) (dst + 1) res)))))"
  by pat_completeness auto

termination sub_loop
  by (relation "measure (\<lambda>(wid, off, ws, moved, ptr, dst, res). wid - moved)") auto

definition sub_words :: "nat \<Rightarrow> nat \<Rightarrow> nat \<Rightarrow> word64 list \<Rightarrow> word64 list result" where
  "sub_words sz adr wid ws =
     (if 64 < wid then sub_loop wid (adr mod 64) ws 0 (adr div 64) 0 (replicate (word_count wid) (- 1))
      else if 64 < sz then
        let ptr = adr div 64; off = adr mod 64; moved = (if wid < 64 - off then wid else 64 - off)
        in bind_result (word_at ws ptr) (\<lambda>w.
          if moved = 64 then Inr [w]
          else let low = drop_bit off (w AND push_bit off (low_mask moved))
            in if moved < wid then
                 bind_result (word_at ws (ptr + 1)) (\<lambda>h.
                   Inr [low OR push_bit moved (h AND low_mask (wid - moved))])
               else Inr [low])
      else if wid = 64 then bind_result (word_at ws 0) (\<lambda>w. Inr [w])
      else if 64 \<le> adr then Inl ''shift''
      else bind_result (word_at ws 0) (\<lambda>w. Inr [drop_bit adr (w AND push_bit adr (low_mask wid))]))"

definition subvalue :: "vector4 \<Rightarrow> nat \<Rightarrow> nat \<Rightarrow> vector4 result" where
  "subvalue v adr wid =
     (if size4 v < adr + wid then Inl ''assert''
      else bind_result (sub_words (size4 v) adr wid (abits v)) (\<lambda>as.
        bind_result (sub_words (size4 v) adr wid (bbits v)) (\<lambda>bs.
          Inr \<lparr>size4 = wid, abits = as, bbits = bs\<rparr>)))"

text \<open>Writing a vector into another: whole words at a word boundary, and anywhere else.\<close>

function copy_loop :: "nat \<Rightarrow> nat \<Rightarrow> nat \<Rightarrow> word64 list \<Rightarrow> word64 list \<Rightarrow> word64 list result" where
  "copy_loop remain sptr dptr src ws =
     (if 64 \<le> remain then
        bind_result (word_at src sptr) (\<lambda>w. bind_result (put_word ws dptr w) (\<lambda>ws.
          copy_loop (remain - 64) (sptr + 1) (dptr + 1) src ws))
      else if 0 < remain then
        bind_result (word_at src sptr) (\<lambda>w. merge_word ws dptr (low_mask remain) w)
      else Inr ws)"
  by pat_completeness auto

termination copy_loop
  by (relation "measure (\<lambda>(remain, sptr, dptr, src, ws). remain)") auto

function shift_loop :: "nat \<Rightarrow> nat \<Rightarrow> nat \<Rightarrow> nat \<Rightarrow> word64 list \<Rightarrow> word64 list \<Rightarrow> word64 list result" where
  "shift_loop doff remain sptr dptr src ws =
     (let lmask = low_mask doff; ndoff = 64 - doff
      in if 64 \<le> remain then
           bind_result (word_at src sptr) (\<lambda>w.
             bind_result (merge_word ws dptr (NOT lmask) (push_bit doff w)) (\<lambda>ws.
               bind_result (merge_word ws (dptr + 1) lmask (drop_bit ndoff w)) (\<lambda>ws.
                 shift_loop doff (remain - 64) (sptr + 1) (dptr + 1) src ws)))
         else if 0 < remain then
           let hmask = (if 64 \<le> doff + remain then - 1 else low_mask (doff + remain))
           in bind_result (word_at src sptr) (\<lambda>w.
                bind_result (merge_word ws dptr (hmask AND NOT lmask) (push_bit doff w)) (\<lambda>ws.
                  if 64 < doff + remain then
                    let tail = doff + remain - 64
                    in merge_word ws (dptr + 1) (if 64 \<le> tail then - 1 else low_mask tail) (drop_bit (remain - tail) w)
                  else Inr ws))
         else Inr ws)"
  by pat_completeness auto

termination shift_loop
  by (relation "measure (\<lambda>(doff, remain, sptr, dptr, src, ws). remain)") auto

definition set_words :: "nat \<Rightarrow> nat \<Rightarrow> nat \<Rightarrow> word64 list \<Rightarrow> word64 list \<Rightarrow> word64 list result" where
  "set_words sz adr tsize src ws =
     (if sz \<le> 64 then
        if 64 \<le> adr then Inl ''shift''
        else let hmask = (if 64 \<le> adr + tsize then - 1 else low_mask (adr + tsize))
          in bind_result (word_at src 0) (\<lambda>w.
               merge_word ws 0 (hmask AND NOT (low_mask adr)) (push_bit adr w))
      else if tsize \<le> 64 then
        let dptr = adr div 64; doff = adr mod 64;
          hmask = (if 64 \<le> doff + tsize then - 1 else low_mask (doff + tsize))
        in bind_result (word_at src 0) (\<lambda>w.
             bind_result (merge_word ws dptr (hmask AND NOT (low_mask doff)) (push_bit doff w)) (\<lambda>ws.
               if 64 < doff + tsize then
                 let tail = doff + tsize - 64
                 in merge_word ws (dptr + 1) (low_mask tail) (drop_bit (tsize - tail) w)
               else Inr ws))
      else if adr mod 64 = 0 then copy_loop tsize 0 (adr div 64) src ws
      else shift_loop (adr mod 64) tsize 0 (adr div 64) src ws)"

definition set_vec :: "vector4 \<Rightarrow> nat \<Rightarrow> vector4 \<Rightarrow> vector4 result" where
  "set_vec v adr that =
     (if size4 v < adr + size4 that then Inl ''assert''
      else bind_result (set_words (size4 v) adr (size4 that) (abits that) (abits v)) (\<lambda>as.
        bind_result (set_words (size4 v) adr (size4 that) (bbits that) (bbits v)) (\<lambda>bs.
          Inr (v\<lparr>abits := as, bbits := bs\<rparr>))))"

text \<open>The bits of another vector, keeping the size.\<close>

definition copy_words :: "nat \<Rightarrow> nat \<Rightarrow> word64 list \<Rightarrow> word64 list \<Rightarrow> word64 list result" where
  "copy_words sz tsize src ws =
     (if sz = tsize then Inr src
      else if sz \<le> 64 \<and> tsize \<le> 64 then
        bind_result (word_at src 0) (\<lambda>w. merge_word ws 0 (low_mask (if tsize < sz then tsize else sz)) w)
      else if sz \<le> 64 then
        bind_result (word_at src 0) (\<lambda>w. put_word ws 0 (if sz < 64 then w AND low_mask sz else w))
      else if tsize \<le> 64 then
        bind_result (word_at src 0) (\<lambda>w. bind_result (word_at ws 0) (\<lambda>x.
          let mask = (if tsize < 64 then low_mask tsize else - 1);
            x = (if tsize < 64 then x AND NOT mask else x)
          in put_word ws 0 (x OR (w AND mask))))
      else copy_loop (if tsize < sz then tsize else sz) 0 0 src ws)"

definition copy_bits :: "vector4 \<Rightarrow> vector4 \<Rightarrow> vector4 result" where
  "copy_bits v that =
     bind_result (copy_words (size4 v) (size4 that) (abits that) (abits v)) (\<lambda>as.
       bind_result (copy_words (size4 v) (size4 that) (bbits that) (bbits v)) (\<lambda>bs.
         Inr (v\<lparr>abits := as, bbits := bs\<rparr>)))"

section \<open>Whole vectors\<close>

definition eeq :: "vector4 \<Rightarrow> vector4 \<Rightarrow> bool" where
  "eeq v that \<longleftrightarrow>
     size4 v = size4 that \<and>
     (if size4 v < 64 then
        abits v ! 0 AND low_mask (size4 v) = abits that ! 0 AND low_mask (size4 v) \<and>
        bbits v ! 0 AND low_mask (size4 v) = bbits that ! 0 AND low_mask (size4 v)
      else let words = size4 v div 64; rest = size4 v mod 64
        in (\<forall>i\<in>set [0..<words]. abits v ! i = abits that ! i \<and> bbits v ! i = bbits that ! i) \<and>
           (0 < rest \<longrightarrow>
             abits v ! words AND low_mask rest = abits that ! words AND low_mask rest \<and>
             bbits v ! words AND low_mask rest = bbits that ! words AND low_mask rest))"

definition has_xz :: "vector4 \<Rightarrow> bool result" where
  "has_xz v =
     (if size4 v = 0 then Inl ''shift''
      else if size4 v < 64 then Inr (bbits v ! 0 AND drop_bit (64 - size4 v) (- 1) \<noteq> 0)
      else let words = size4 v div 64; rest = size4 v mod 64
        in Inr ((\<exists>i\<in>set [0..<words]. bbits v ! i \<noteq> 0) \<or>
             0 < rest \<and> bbits v ! words AND drop_bit (64 - rest) (- 1) \<noteq> 0))"

definition change_z2x :: "vector4 \<Rightarrow> vector4" where
  "change_z2x v = v\<lparr>abits := map (\<lambda>i. abits v ! i OR bbits v ! i) [0..<word_count (size4 v)]\<rparr>"

definition set_to_x :: "vector4 \<Rightarrow> vector4" where
  "set_to_x v = v\<lparr>abits := replicate (word_count (size4 v)) (- 1), bbits := replicate (word_count (size4 v)) (- 1)\<rparr>"

definition invert :: "vector4 \<Rightarrow> vector4" where
  "invert v =
     v\<lparr>abits := map (\<lambda>i. let remaining = size4 v - 64 * i;
              mask = (if remaining < 64 then low_mask remaining else - 1)
            in (mask AND NOT (abits v ! i)) OR bbits v ! i) [0..<word_count (size4 v)]\<rparr>"

text \<open>The operand of the operators has to be stored in the same way, with at least as many words.\<close>

definition operand_fits :: "vector4 \<Rightarrow> vector4 \<Rightarrow> bool" where
  "operand_fits v that \<longleftrightarrow>
     (if size4 v \<le> 64 then size4 that \<le> 64 else 64 < size4 that \<and> word_count (size4 v) \<le> word_count (size4 that))"

definition vector_and :: "vector4 \<Rightarrow> vector4 \<Rightarrow> vector4 result" where
  "vector_and v that =
     (if operand_fits v that then
        let idxs = [0..<word_count (size4 v)];
          tmp1 = (\<lambda>i. abits v ! i OR bbits v ! i);
          tmp2 = (\<lambda>i. abits that ! i OR bbits that ! i)
        in Inr (v\<lparr>abits := map (\<lambda>i. tmp1 i AND tmp2 i) idxs,
                  bbits := map (\<lambda>i. (tmp1 i AND bbits that ! i) OR (tmp2 i AND bbits v ! i)) idxs\<rparr>)
      else Inl ''out of bounds'')"

definition vector_or :: "vector4 \<Rightarrow> vector4 \<Rightarrow> vector4 result" where
  "vector_or v that =
     (if operand_fits v that then
        let idxs = [0..<word_count (size4 v)]
        in Inr (v\<lparr>abits := map (\<lambda>i. abits v ! i OR bbits v ! i OR abits that ! i OR bbits that ! i) idxs,
                  bbits := map (\<lambda>i. ((NOT (abits v ! i) OR bbits v ! i) AND bbits that ! i) OR
                    ((NOT (abits that ! i) OR bbits that ! i) AND bbits v ! i)) idxs\<rparr>)
      else Inl ''out of bounds'')"

text \<open>Adding an integer, bit by bit.\<close>

function increment_loop :: "nat \<Rightarrow> int \<Rightarrow> bit4 \<Rightarrow> vector4 \<Rightarrow> vector4 result" where
  "increment_loop idx that carry v =
     (if idx < size4 v then
        if that = 0 \<and> carry = BIT4_0 then Inr v
        else let that_bit = (if odd that then BIT4_1 else BIT4_0); that = that div 2
          in if that_bit = BIT4_0 \<and> carry = BIT4_0 then increment_loop (idx + 1) that carry v
             else (case add_with_carry4 (value4 v idx) that_bit carry of (b, carry) \<Rightarrow>
               (case set_bit4 v idx b of
                  Inl e \<Rightarrow> Inl e
                | Inr v \<Rightarrow> increment_loop (idx + 1) that carry v))
      else Inr v)"
  by pat_completeness auto

termination increment_loop
  by (relation "measure (\<lambda>(idx, that, carry, v). size4 v - idx)")
    (auto simp: set_bit4_def Let_def split: if_splits)

definition vector_increment :: "vector4 \<Rightarrow> int \<Rightarrow> vector4 result" where
  "vector_increment v that =
     bind_result (has_xz v) (\<lambda>xz.
       if xz then Inr (new_vector4 (size4 v) BIT4_X) else increment_loop 0 that BIT4_0 v)"

end
