(* ===== verification/Vector4Words.thy ===== *)
theory Vector4Words
  imports Vector4
begin

text \<open>
  The words behind the packed vectors: masks and shifts as statements about single bits, and what one
  round of the loops that copy bits between words does.
\<close>

section \<open>Words\<close>

lemma bit_low_mask [simp]: "bit (low_mask n) j \<longleftrightarrow> j < n \<and> j < 64"
proof -
  have "low_mask n = mask n"
    by (simp add: low_mask_def mask_eq_exp_minus_1 push_bit_eq_mult)
  then show ?thesis by (auto simp: bit_simps)
qed

definition pbit :: "word64 list \<Rightarrow> nat \<Rightarrow> bool" where
  "pbit ws k = bit (ws ! (k div 64)) (k mod 64)"

lemma bit_nth: "j < 64 \<Longrightarrow> bit (ws ! i) j = pbit ws (64 * i + j)"
  by (simp add: pbit_def)

lemma bit_nth_0: "j < 64 \<Longrightarrow> bit (ws ! 0) j = pbit ws j"
  by (simp add: pbit_def)

lemma pbit_update: "i < length ws \<Longrightarrow>
    pbit (ws[i := w]) k = (if 64 * i \<le> k \<and> k < 64 * i + 64 then bit w (k - 64 * i) else pbit ws k)"
proof (cases "k div 64 = i")
  case True
  then have "k mod 64 = k - 64 * i" "64 * i \<le> k" "k < 64 * i + 64"
    by (auto simp: minus_div_mult_eq_mod [symmetric] mult.commute)
  then show ?thesis if "i < length ws" using that True by (simp add: pbit_def)
next
  case False
  then have out: "\<not> (64 * i \<le> k \<and> k < 64 * i + 64)" by auto
  show ?thesis unfolding if_not_P [OF out] using False by (simp add: pbit_def)
qed

lemma merge_word_bits:
  assumes "i < length ws"
  shows "\<exists>ws'. merge_word ws i m w = Inr ws' \<and> length ws' = length ws \<and>
    (\<forall>k. pbit ws' k = (if 64 * i \<le> k \<and> k < 64 * i + 64 \<and> bit m (k - 64 * i) then bit w (k - 64 * i) else pbit ws k))"
proof -
  have "bit (ws ! i) (k - 64 * i) = pbit ws k" if "64 * i \<le> k" "k < 64 * i + 64" for k
    using that by (simp add: bit_nth)
  then show ?thesis using assms
    by (auto simp: merge_word_def word_at_def put_word_def pbit_update bit_simps)
qed

lemma word_at_less: "i < length ws \<Longrightarrow> word_at ws i = Inr (ws ! i)"
  by (simp add: word_at_def)

lemma put_word_bits:
  assumes "i < length ws"
  shows "put_word ws i w = Inr (ws[i := w])"
  using assms by (simp add: put_word_def)

section \<open>Writing\<close>

text \<open>A part of the source is at a part of the destination, the rest is as before.\<close>

definition placed :: "nat \<Rightarrow> nat \<Rightarrow> nat \<Rightarrow> word64 list \<Rightarrow> word64 list \<Rightarrow> word64 list \<Rightarrow> bool" where
  "placed from_bit to_bit n src ws ws' \<longleftrightarrow> length ws' = length ws \<and>
     (\<forall>k < 64 * length ws. pbit ws' k =
        (if to_bit \<le> k \<and> k < to_bit + n then pbit src (k - to_bit + from_bit) else pbit ws k))"

lemma placed_append:
  "placed f t n src ws ws' \<Longrightarrow> placed (f + n) (t + n) m src ws' ws'' \<Longrightarrow> placed f t (n + m) src ws ws''"
  unfolding placed_def by (auto simp: algebra_simps)

lemma placed_0: "placed f t 0 src ws ws' \<longleftrightarrow> length ws' = length ws \<and> (\<forall>k < 64 * length ws. pbit ws' k = pbit ws k)"
  by (auto simp: placed_def)

lemma merge_placed:
  assumes "i < length ws"
    and "\<And>j. j < 64 \<Longrightarrow> bit m j = (lo \<le> j \<and> j < lo + n)"
    and "\<And>j. lo \<le> j \<Longrightarrow> j < lo + n \<Longrightarrow> bit w j = pbit src (j - lo + f)"
    and "lo + n \<le> 64"
  shows "\<exists>ws'. merge_word ws i m w = Inr ws' \<and> length ws' = length ws \<and> placed f (64 * i + lo) n src ws ws'"
proof -
  obtain ws' where ws': "merge_word ws i m w = Inr ws'" "length ws' = length ws"
    "\<forall>k. pbit ws' k = (if 64 * i \<le> k \<and> k < 64 * i + 64 \<and> bit m (k - 64 * i) then bit w (k - 64 * i) else pbit ws k)"
    using merge_word_bits [OF assms(1), of m w] by blast
  have "pbit ws' k = (if 64 * i + lo \<le> k \<and> k < 64 * i + lo + n then pbit src (k - (64 * i + lo) + f) else pbit ws k)" for k
  proof (cases "64 * i + lo \<le> k \<and> k < 64 * i + lo + n")
    case True
    then have "bit m (k - 64 * i)" "64 * i \<le> k" "k < 64 * i + 64" "bit w (k - 64 * i) = pbit src (k - 64 * i - lo + f)"
      using assms(2) [of "k - 64 * i"] assms(3) [of "k - 64 * i"] assms(4) by auto
    then show ?thesis using True ws'(3) by (simp add: diff_diff_left)
  next
    case False
    then have "\<not> (64 * i \<le> k \<and> k < 64 * i + 64 \<and> bit m (k - 64 * i))" using assms(2) [of "k - 64 * i"] by auto
    then show ?thesis using False ws'(3) by auto
  qed
  then show ?thesis using ws'(1,2) by (auto simp: placed_def)
qed

lemma put_placed:
  assumes "i < length ws"
  shows "placed (64 * s) (64 * i) 64 src ws (ws[i := src ! s])"
  unfolding placed_def using assms by (auto simp: pbit_update bit_nth add.commute)

lemma copy_loop_placed:
  "remain + 64 * sptr \<le> 64 * length src \<Longrightarrow> remain + 64 * dptr \<le> 64 * length ws \<Longrightarrow>
    \<exists>ws'. copy_loop remain sptr dptr src ws = Inr ws' \<and> placed (64 * sptr) (64 * dptr) remain src ws ws'"
proof (induction remain sptr dptr src ws rule: copy_loop.induct)
  case (1 remain sptr dptr src ws)
  consider "64 \<le> remain" | "0 < remain" "remain < 64" | "remain = 0" by linarith
  then show ?case
  proof cases
    case 1
    then have less: "sptr < length src" "dptr < length ws" using "1.prems" by auto
    have put: "placed (64 * sptr) (64 * dptr) 64 src ws (ws[dptr := src ! sptr])"
      using put_placed less by blast
    obtain ws' where "copy_loop (remain - 64) (sptr + 1) (dptr + 1) src (ws[dptr := src ! sptr]) = Inr ws'"
      and rest: "placed (64 * (sptr + 1)) (64 * (dptr + 1)) (remain - 64) src (ws[dptr := src ! sptr]) ws'"
      using "1.IH" [OF 1, of "ws[dptr := src ! sptr]"] "1.prems" 1 by auto
    moreover have "placed (64 * sptr) (64 * dptr) (64 + (remain - 64)) src ws ws'"
      using rest by (intro placed_append [OF put]) (simp add: algebra_simps)
    ultimately show ?thesis using 1 less by (auto simp: word_at_less put_word_bits)
  next
    case 2
    then have less: "sptr < length src" "dptr < length ws" using "1.prems" by auto
    have "\<exists>ws'. merge_word ws dptr (low_mask remain) (src ! sptr) = Inr ws' \<and> length ws' = length ws \<and>
        placed (64 * sptr) (64 * dptr + 0) remain src ws ws'"
      using 2 less by (intro merge_placed) (auto simp: bit_nth add.commute)
    then show ?thesis using 2 less by (auto simp: word_at_less)
  next
    case 3
    then show ?thesis by (simp add: placed_0)
  qed
qed

declare copy_loop.simps [simp del]

lemma bit_all_ones: "bit (- 1 :: word64) j \<longleftrightarrow> j < 64"
  by (simp add: bit_simps)

text \<open>A short piece of at most one word, which may end in the next word.\<close>

lemma shift_loop_placed:
  "0 < doff \<Longrightarrow> doff < 64 \<Longrightarrow> remain + 64 * sptr \<le> 64 * length src \<Longrightarrow>
    remain + 64 * dptr + doff \<le> 64 * length ws \<Longrightarrow>
    \<exists>ws'. shift_loop doff remain sptr dptr src ws = Inr ws' \<and>
      placed (64 * sptr) (64 * dptr + doff) remain src ws ws'"
proof (induction doff remain sptr dptr src ws rule: shift_loop.induct)
  case (1 doff remain sptr dptr src ws)
  consider "64 \<le> remain" | "0 < remain" "remain < 64" | "remain = 0" by linarith
  then show ?case
  proof cases
    case 1
    then have less: "sptr < length src" "dptr < length ws" "dptr + 1 < length ws" using "1.prems" by auto
    have "\<exists>ws1. merge_word ws dptr (NOT (low_mask doff)) (push_bit doff (src ! sptr)) = Inr ws1 \<and> length ws1 = length ws \<and>
        placed (64 * sptr) (64 * dptr + doff) (64 - doff) src ws ws1"
      using less "1.prems"(1,2)
      by (intro merge_placed) (auto simp: bit_simps bit_nth add.commute)
    then obtain ws1 where ws1: "merge_word ws dptr (NOT (low_mask doff)) (push_bit doff (src ! sptr)) = Inr ws1"
      "length ws1 = length ws" "placed (64 * sptr) (64 * dptr + doff) (64 - doff) src ws ws1" by blast
    have "\<exists>ws2. merge_word ws1 (dptr + 1) (low_mask doff) (drop_bit (64 - doff) (src ! sptr)) = Inr ws2 \<and> length ws2 = length ws1 \<and>
        placed (64 * sptr + (64 - doff)) (64 * (dptr + 1) + 0) doff src ws1 ws2"
      using less "1.prems"(1,2) ws1(2)
      by (intro merge_placed) (auto simp: bit_simps bit_nth add_ac)
    then obtain ws2 where ws2: "merge_word ws1 (dptr + 1) (low_mask doff) (drop_bit (64 - doff) (src ! sptr)) = Inr ws2"
      "length ws2 = length ws1" "placed (64 * sptr + (64 - doff)) (64 * (dptr + 1) + 0) doff src ws1 ws2" by blast
    have "64 * (dptr + 1) + 0 = 64 * dptr + doff + (64 - doff)" using "1.prems" by simp
    then have both: "placed (64 * sptr) (64 * dptr + doff) (64 - doff + doff) src ws ws2"
      using ws2(3) by (intro placed_append [OF ws1(3)]) (simp add: add.commute)
    obtain ws' where loop: "shift_loop doff (remain - 64) (sptr + 1) (dptr + 1) src ws2 = Inr ws'"
      and rest: "placed (64 * (sptr + 1)) (64 * (dptr + 1) + doff) (remain - 64) src ws2 ws'"
      using "1.IH" [OF refl refl 1, of ws2] "1.prems" 1 ws1(2) ws2(2) by auto
    have "placed (64 * sptr) (64 * dptr + doff) (64 - doff + doff + (remain - 64)) src ws ws'"
      using rest "1.prems" by (intro placed_append [OF both]) (simp add: algebra_simps)
    then show ?thesis using 1 less loop ws1(1) ws2(1) "1.prems" by (auto simp: word_at_less Let_def)
  next
    case 2
    then have less: "sptr < length src" "dptr < length ws" using "1.prems" by auto
    let ?hmask = "if 64 \<le> doff + remain then - 1 else low_mask (doff + remain)"
    define n where "n = (if 64 \<le> doff + remain then 64 - doff else remain)"
    have n: "doff + n \<le> 64" "bit ?hmask j \<longleftrightarrow> j < doff + n" if "j < 64" for j
      using that "1.prems"(2) by (auto simp: n_def bit_all_ones)
    have "\<exists>ws1. merge_word ws dptr (?hmask AND NOT (low_mask doff)) (push_bit doff (src ! sptr)) = Inr ws1 \<and>
        length ws1 = length ws \<and> placed (64 * sptr) (64 * dptr + doff) n src ws ws1"
      using less n(1) [of 0]
      by (intro merge_placed) (auto simp: bit_and_iff bit_not_iff bit_push_bit_iff n(2) bit_nth add.commute)
    then obtain ws1 where ws1: "merge_word ws dptr (?hmask AND NOT (low_mask doff)) (push_bit doff (src ! sptr)) = Inr ws1"
      "length ws1 = length ws" "placed (64 * sptr) (64 * dptr + doff) n src ws ws1" by blast
    show ?thesis
    proof (cases "64 < doff + remain")
      case True
      let ?tail = "doff + remain - 64"
      have tail: "?tail < 64" "remain - ?tail = 64 - doff" "remain = n + ?tail" "dptr + 1 < length ws"
        using True 2 "1.prems" by (auto simp: n_def)
      have "\<exists>ws2. merge_word ws1 (dptr + 1) (low_mask ?tail) (drop_bit (64 - doff) (src ! sptr)) = Inr ws2 \<and> length ws2 = length ws1 \<and>
          placed (64 * sptr + n) (64 * (dptr + 1) + 0) ?tail src ws1 ws2"
        using True tail 2 "1.prems"(1,2) ws1(2)
        by (intro merge_placed) (auto simp: bit_simps bit_nth add_ac n_def)
      then obtain ws2 where ws2: "merge_word ws1 (dptr + 1) (low_mask ?tail) (drop_bit (64 - doff) (src ! sptr)) = Inr ws2"
        "length ws2 = length ws1" "placed (64 * sptr + n) (64 * (dptr + 1) + 0) ?tail src ws1 ws2" by blast
      have e: "64 * (dptr + 1) + 0 = 64 * dptr + doff + n" using "1.prems" True by (simp add: n_def)
      have "placed (64 * sptr) (64 * dptr + doff) (n + ?tail) src ws ws2"
        using ws2(3) unfolding e by (rule placed_append [OF ws1(3)])
      then have "placed (64 * sptr) (64 * dptr + doff) remain src ws ws2" using tail(3) by simp
      then show ?thesis using True tail(1,2) 2 less ws1(1) ws2(1) by (auto simp: word_at_less Let_def)
    next
      case False
      then have "n = remain" by (auto simp: n_def)
      then show ?thesis using False 2 less ws1 by (auto simp: word_at_less Let_def)
    qed
  next
    case 3
    then show ?thesis by (simp add: placed_0)
  qed
qed

declare shift_loop.simps [simp del]

text \<open>All cases of writing.\<close>

lemma set_words_short:
  assumes "sz \<le> 64" "adr + tsize \<le> sz" "adr < 64" "length ws = 1" "0 < length src"
  shows "\<exists>ws'. set_words sz adr tsize src ws = Inr ws' \<and> placed 0 adr tsize src ws ws'"
proof -
  let ?hmask = "if 64 \<le> adr + tsize then - 1 else low_mask (adr + tsize)"
  have hmask: "bit ?hmask j \<longleftrightarrow> j < adr + tsize" if "j < 64" for j
    using that assms by (auto simp: bit_all_ones)
  have "\<exists>ws'. merge_word ws 0 (?hmask AND NOT (low_mask adr)) (push_bit adr (src ! 0)) = Inr ws' \<and>
      length ws' = length ws \<and> placed 0 (64 * 0 + adr) tsize src ws ws'"
    using assms
    by (intro merge_placed) (auto simp: bit_and_iff bit_not_iff bit_push_bit_iff hmask bit_nth_0)
  then show ?thesis using assms by (auto simp: set_words_def word_at_less Let_def)
qed

lemma set_words_one:
  assumes "64 < sz" "tsize \<le> 64" "0 < tsize" "adr + tsize \<le> 64 * length ws" "0 < length src"
  shows "\<exists>ws'. set_words sz adr tsize src ws = Inr ws' \<and> placed 0 adr tsize src ws ws'"
proof -
  let ?doff = "adr mod 64" and ?dptr = "adr div 64"
  let ?hmask = "if 64 \<le> ?doff + tsize then - 1 else low_mask (?doff + tsize)"
  have adr: "64 * ?dptr + ?doff = adr" "?doff < 64" by simp_all
  have len: "?dptr < length ws" using assms by (auto simp: less_mult_imp_div_less mult.commute)
  define n where "n = (if 64 \<le> ?doff + tsize then 64 - ?doff else tsize)"
  have n: "?doff + n \<le> 64" "bit ?hmask j \<longleftrightarrow> j < ?doff + n" if "j < 64" for j
    using that adr(2) by (auto simp: n_def bit_all_ones)
  have "\<exists>ws1. merge_word ws ?dptr (?hmask AND NOT (low_mask ?doff)) (push_bit ?doff (src ! 0)) = Inr ws1 \<and>
      length ws1 = length ws \<and> placed 0 (64 * ?dptr + ?doff) n src ws ws1"
    using len n(1) [of 0] assms
    by (intro merge_placed) (auto simp: bit_and_iff bit_not_iff bit_push_bit_iff n(2) bit_nth_0)
  then obtain ws1 where ws1: "merge_word ws ?dptr (?hmask AND NOT (low_mask ?doff)) (push_bit ?doff (src ! 0)) = Inr ws1"
    "length ws1 = length ws" "placed 0 adr n src ws ws1" unfolding adr(1) by blast
  show ?thesis
  proof (cases "64 < ?doff + tsize")
    case True
    let ?tail = "?doff + tsize - 64"
    have tail: "tsize - ?tail = 64 - ?doff" "tsize = n + ?tail" "?tail \<le> ?doff" using True assms adr(2) by (auto simp: n_def)
    have len': "?dptr + 1 < length ws1" using True assms(4) adr ws1(2) by linarith
    have "\<exists>ws2. merge_word ws1 (?dptr + 1) (low_mask ?tail) (drop_bit (64 - ?doff) (src ! 0)) = Inr ws2 \<and>
        length ws2 = length ws1 \<and> placed n (64 * (?dptr + 1) + 0) ?tail src ws1 ws2"
      using True tail(3) adr(2) len' by (intro merge_placed) (auto simp: bit_simps bit_nth_0 n_def add.commute)
    then obtain ws2 where ws2: "merge_word ws1 (?dptr + 1) (low_mask ?tail) (drop_bit (64 - ?doff) (src ! 0)) = Inr ws2"
      "placed n (64 * (?dptr + 1) + 0) ?tail src ws1 ws2" by blast
    have "?doff + n = 64" using True adr(2) by (simp add: n_def)
    then have "64 * (?dptr + 1) + 0 = (64 * ?dptr + ?doff) + n" by (simp only: add.assoc) simp
    then have e: "64 * (?dptr + 1) + 0 = adr + n" unfolding adr(1) .
    have "placed 0 adr (n + ?tail) src ws ws2"
      using ws2(2) unfolding e by (intro placed_append [OF ws1(3)]) simp
    then show ?thesis using True assms ws1(1) ws2(1) tail(1) unfolding tail(2) [symmetric]
      by (auto simp: set_words_def word_at_less Let_def)
  next
    case False
    then have "n = tsize" by (auto simp: n_def)
    then show ?thesis using False assms ws1(1,3) by (auto simp: set_words_def word_at_less Let_def)
  qed
qed

lemma set_words_placed:
  assumes "length ws = word_count sz" "length src = word_count tsize" "adr + tsize \<le> sz" "0 < tsize"
  shows "\<exists>ws'. set_words sz adr tsize src ws = Inr ws' \<and> placed 0 adr tsize src ws ws'"
proof -
  have cover: "sz \<le> 64 * length ws" "tsize \<le> 64 * length src"
    using assms by (auto simp: word_count_def)
  consider "sz \<le> 64" | "64 < sz" "tsize \<le> 64" | "64 < tsize" "adr mod 64 = 0" | "64 < tsize" "0 < adr mod 64"
    by linarith
  then show ?thesis
  proof cases
    case 1
    then show ?thesis using assms set_words_short [of sz adr tsize ws src] by (simp add: word_count_def)
  next
    case 2
    then show ?thesis using assms cover set_words_one [of sz tsize adr ws src] by (simp add: word_count_def)
  next
    case 3
    then have adr: "64 * (adr div 64) = adr" by auto
    then show ?thesis using 3 assms cover copy_loop_placed [of tsize 0 src "adr div 64" ws]
      by (auto simp: set_words_def)
  next
    case 4
    have adr: "64 * (adr div 64) + adr mod 64 = adr" by simp
    have "\<exists>ws'. shift_loop (adr mod 64) tsize 0 (adr div 64) src ws = Inr ws' \<and>
        placed (64 * 0) (64 * (adr div 64) + adr mod 64) tsize src ws ws'"
      using 4 assms cover by (intro shift_loop_placed) (auto simp: mult.commute)
    then show ?thesis unfolding adr using 4 assms by (auto simp: set_words_def)
  qed
qed

section \<open>Reading\<close>

lemma sub_low_bits: "off < 64 \<Longrightarrow> j < 64 - off \<Longrightarrow>
    bit (drop_bit off (ws ! p AND NOT (low_mask off))) j = pbit ws (64 * p + off + j)"
  by (simp add: bit_simps bit_nth add.assoc) linarith

lemma sub_both_bits: "0 < off \<Longrightarrow> off < 64 \<Longrightarrow> j < 64 \<Longrightarrow>
    bit (drop_bit off (ws ! p AND NOT (low_mask off)) OR push_bit (64 - off) (ws ! (p + 1) AND low_mask off)) j =
      pbit ws (64 * p + off + j)"
proof (cases "j < 64 - off")
  case False
  assume off: "0 < off" "off < 64" "j < 64"
  then have "64 * (p + 1) + (j - (64 - off)) = 64 * p + off + j" using False by simp
  moreover have "j - (64 - off) < off" "j - (64 - off) < 64" using off False by linarith+
  ultimately have "bit (ws ! (p + 1)) (j - (64 - off)) = pbit ws (64 * p + off + j)"
    using bit_nth [of "j - (64 - off)" ws "p + 1"] by metis
  then show ?thesis using off False by (auto simp: bit_simps)
qed (simp add: bit_simps bit_nth add.assoc, linarith)

declare sub_loop.simps [simp del]

lemma sub_loop_bits:
  "off < 64 \<Longrightarrow> moved = 64 * dst \<Longrightarrow> 64 * ptr + off = base + 64 * dst \<Longrightarrow> wid \<le> 64 * length res \<Longrightarrow>
    base + wid \<le> 64 * length ws \<Longrightarrow> \<forall>k<moved. pbit res k = pbit ws (base + k) \<Longrightarrow>
    \<exists>r. sub_loop wid off ws moved ptr dst res = Inr r \<and> length r = length res \<and>
      (\<forall>k<wid. pbit r k = pbit ws (base + k))"
proof (induction wid off ws moved ptr dst res rule: sub_loop.induct)
  case (1 wid off ws moved ptr dst res)
  note off = "1.prems"(1) and moved = "1.prems"(2) and pos = "1.prems"(3)
  define low where "low = drop_bit off (ws ! ptr AND NOT (low_mask off))"
  show ?case
  proof (cases "wid \<le> moved")
    case True
    then show ?thesis using "1.prems"(6) by (simp add: sub_loop.simps)
  next
    case False
    then have less: "ptr < length ws" "dst < length res" using "1.prems" by linarith+
    define res1 where "res1 = res[dst := low]"
    have low: "pbit res1 k = pbit ws (base + k)" if "k < moved + (64 - off)" for k
      using that less "1.prems"(6) off pos sub_low_bits [of off "k - 64 * dst" ws ptr]
      by (auto simp: res1_def pbit_update moved low_def)
    show ?thesis
    proof (cases "wid \<le> moved + (64 - off)")
      case True
      then show ?thesis using False less low off by (subst sub_loop.simps) (auto simp: word_at_less put_word_bits low_def res1_def Let_def)
    next
      case more: False
      show ?thesis
      proof (cases "off = 0")
        case True
        have "\<exists>r. sub_loop wid off ws (moved + (64 - off)) (ptr + 1) (dst + 1) res1 = Inr r \<and> length r = length res1 \<and>
            (\<forall>k<wid. pbit r k = pbit ws (base + k))"
        proof (rule "1.IH"(1) [OF False _ refl refl refl refl more _ off])
          show "moved + (64 - off) = 64 * (dst + 1)" "64 * (ptr + 1) + off = base + 64 * (dst + 1)"
            using True moved pos by simp_all
          show "wid \<le> 64 * length res1" "base + wid \<le> 64 * length ws"
            using "1.prems"(4,5) by (simp_all add: res1_def)
          show "\<forall>k<moved + (64 - off). pbit res1 k = pbit ws (base + k)" using low by blast
        qed (use True in simp_all)
        moreover have "sub_loop wid off ws moved ptr dst res =
            sub_loop wid off ws (moved + (64 - off)) (ptr + 1) (dst + 1) res1"
          using more True less
          by (subst sub_loop.simps) (simp only: if_not_P [OF False], simp add: word_at_less put_word_bits low_def res1_def Let_def)
        ultimately show ?thesis by (simp add: res1_def)
      next
        case nz: False
        define res2 where "res2 = res1[dst := low OR push_bit (64 - off) (ws ! (ptr + 1) AND low_mask off)]"
        have len: "ptr + 1 < length ws" using more "1.prems" by linarith
        have both: "pbit res2 k = pbit ws (base + k)" if "k < moved + 64" for k
          using that less "1.prems"(6) off pos nz sub_both_bits [of off "k - 64 * dst" ws ptr]
          by (auto simp: res2_def res1_def pbit_update moved low_def)
        have "\<exists>r. sub_loop wid off ws (moved + (64 - off) + off) (ptr + 1) (dst + 1) res2 = Inr r \<and> length r = length res2 \<and>
            (\<forall>k<wid. pbit r k = pbit ws (base + k))"
        proof (rule "1.IH"(2) [OF False _ refl refl refl refl more _ off])
          show "moved + (64 - off) + off = 64 * (dst + 1)" "64 * (ptr + 1) + off = base + 64 * (dst + 1)"
            using off moved pos by simp_all
          show "wid \<le> 64 * length res2" "base + wid \<le> 64 * length ws"
            using "1.prems"(4,5) by (simp_all add: res1_def res2_def)
          show "\<forall>k<moved + (64 - off) + off. pbit res2 k = pbit ws (base + k)" using both off by simp
        qed (use off nz in simp_all)
        moreover have "sub_loop wid off ws moved ptr dst res =
            sub_loop wid off ws (moved + (64 - off) + off) (ptr + 1) (dst + 1) res2"
          using more nz less len off
          by (subst sub_loop.simps) (simp only: if_not_P [OF False], simp add: word_at_less put_word_bits low_def res1_def res2_def Let_def)
        ultimately show ?thesis by (simp add: res1_def res2_def)
      qed
    qed
  qed
qed

lemma pbit_single: "k < 64 \<Longrightarrow> pbit [w] k = bit w k"
  by (simp add: pbit_def)

lemma sub_words_one:
  assumes "64 < sz" "0 < wid" "wid \<le> 64" "adr + wid \<le> 64 * length ws"
  shows "\<exists>r. sub_words sz adr wid ws = Inr r \<and> length r = 1 \<and> (\<forall>k<wid. pbit r k = pbit ws (adr + k))"
proof -
  let ?ptr = "adr div 64" and ?off = "adr mod 64"
  have adr: "64 * ?ptr + ?off = adr" "?off < 64" by simp_all
  have len: "?ptr < length ws" using assms by (auto simp: less_mult_imp_div_less mult.commute)
  have word: "j < 64 \<Longrightarrow> bit (ws ! ?ptr) j = pbit ws (64 * ?ptr + j)" for j by (rule bit_nth)
  consider "?off = 0" "wid = 64" | "?off + wid \<le> 64" "wid < 64" | "64 < ?off + wid" using assms(3) adr(2) by linarith
  then show ?thesis
  proof cases
    case 1
    then have "adr = 64 * ?ptr" using adr(1) by linarith
    then have "\<forall>k<64. pbit [ws ! ?ptr] k = pbit ws (adr + k)" using word by (metis pbit_single)
    then show ?thesis using 1 assms len by (simp add: sub_words_def word_at_less Let_def)
  next
    case 2
    let ?low = "drop_bit ?off (ws ! ?ptr AND push_bit ?off (low_mask wid))"
    have "pbit [?low] k = pbit ws (adr + k)" if "k < wid" for k
      using that 2 word [of "?off + k"] adr(1) by (simp add: pbit_single bit_simps add.assoc [symmetric])
    then show ?thesis using 2 assms len by (auto simp: sub_words_def word_at_less Let_def)
  next
    case 3
    let ?n = "64 - ?off"
    let ?low = "drop_bit ?off (ws ! ?ptr AND push_bit ?off (low_mask ?n))"
    let ?r = "?low OR push_bit ?n (ws ! (?ptr + 1) AND low_mask (wid - ?n))"
    have n: "?n < wid" "?n < 64" "?off + ?n = 64" using 3 assms(3) adr(2) by linarith+
    have len': "?ptr + 1 < length ws" using 3 assms(4) adr by linarith
    have "pbit [?r] k = pbit ws (adr + k)" if "k < wid" for k
    proof (cases "k < ?n")
      case True
      then have lt: "?off + k < 64" by linarith
      then have "bit (ws ! ?ptr) (?off + k) = pbit ws (adr + k)"
        using word [of "?off + k"] unfolding add.assoc [symmetric] adr(1) by simp
      then show ?thesis using True that assms(3) by (simp add: pbit_single bit_simps lt)
    next
      case False
      have "64 * (?ptr + 1) + (k - ?n) = (64 * ?ptr + ?off) + k" using False n(3) by simp
      then have "bit (ws ! (?ptr + 1)) (k - ?n) = pbit ws (adr + k)"
        using bit_nth [of "k - ?n" ws "?ptr + 1"] that assms(3) unfolding adr(1) by simp
      then show ?thesis using False that n assms(3) by (auto simp: pbit_single bit_simps)
    qed
    moreover have "sub_words sz adr wid ws = Inr [?r]"
      using n(1,2) assms len len' by (simp add: sub_words_def word_at_less Let_def)
    ultimately show ?thesis by simp
  qed
qed

lemma sub_words_bits:
  assumes "length ws = word_count sz" "adr + wid \<le> sz" "0 < wid"
  shows "\<exists>r. sub_words sz adr wid ws = Inr r \<and> length r = word_count wid \<and> (\<forall>k<wid. pbit r k = pbit ws (adr + k))"
proof -
  have cover: "sz \<le> 64 * length ws" using assms by (auto simp: word_count_def)
  consider "64 < wid" | "wid \<le> 64" "64 < sz" | "sz \<le> 64" by linarith
  then show ?thesis
  proof cases
    case 1
    let ?res = "replicate (word_count wid) (- 1 :: word64)"
    have "\<exists>r. sub_loop wid (adr mod 64) ws 0 (adr div 64) 0 ?res = Inr r \<and> length r = length ?res \<and>
        (\<forall>k<wid. pbit r k = pbit ws (adr + k))"
      using 1 cover assms by (intro sub_loop_bits) (auto simp: word_count_def)
    then show ?thesis using 1 by (simp add: sub_words_def)
  next
    case 2
    then show ?thesis using sub_words_one [of sz wid adr ws] assms cover by (simp add: word_count_def)
  next
    case 3
    then have adr: "adr < 64" "wid \<le> 64" "length ws = 1" using assms by (auto simp: word_count_def)
    then obtain w where w: "ws = [w]" by (auto simp: length_Suc_conv)
    show ?thesis
    proof (cases "wid = 64")
      case True
      then have "adr = 0" using 3 assms(2) by linarith
      then show ?thesis using 3 True by (simp add: w sub_words_def word_at_def word_count_def)
    next
      case False
      then show ?thesis using 3 adr assms(2)
        by (auto simp: w sub_words_def word_at_def word_count_def pbit_single bit_simps)
    qed
  qed
qed

end
