(* ===== verification/Vector4Ops.thy ===== *)
theory Vector4Ops
  imports Vector4Words
begin

text \<open>The operations on packed vectors as operations on lists of bits.\<close>

section \<open>The bits of a vector\<close>

definition vector_ok :: "vector4 \<Rightarrow> bool" where
  "vector_ok v \<longleftrightarrow> length (abits v) = word_count (size4 v) \<and> length (bbits v) = word_count (size4 v)"

definition bits4 :: "vector4 \<Rightarrow> bit4 list" where
  "bits4 v = map (value4 v) [0..<size4 v]"

lemma length_bits4 [simp]: "length (bits4 v) = size4 v"
  by (simp add: bits4_def)

lemma nth_bits4 [simp]: "i < size4 v \<Longrightarrow> bits4 v ! i = value4 v i"
  by (simp add: bits4_def)

lemma value4_pbit: "i < size4 v \<Longrightarrow> value4 v i = bit4_of (pbit (abits v) i) (pbit (bbits v) i)"
  by (simp add: value4_def pbit_def Let_def bit_simps)

lemma cover: "n \<le> 64 * word_count n"
  by (auto simp: word_count_def)

lemma word_count_pos [simp]: "0 < word_count n"
  by (simp add: word_count_def div_greater_zero_iff)

lemma bit4_of_inject: "bit4_of a b = bit4_of c d \<longleftrightarrow> a = c \<and> b = d"
  by (auto simp: bit4_of_def)

section \<open>Parts of vectors\<close>

lemma subvalue_bits:
  assumes "vector_ok v" "adr + wid \<le> size4 v" "0 < wid"
  shows "\<exists>r. subvalue v adr wid = Inr r \<and> vector_ok r \<and> bits4 r = take wid (drop adr (bits4 v))"
proof -
  obtain as where as: "sub_words (size4 v) adr wid (abits v) = Inr as" "length as = word_count wid"
    "\<forall>k<wid. pbit as k = pbit (abits v) (adr + k)"
    using sub_words_bits [OF _ assms(2,3), of "abits v"] assms(1) by (auto simp: vector_ok_def)
  obtain bs where bs: "sub_words (size4 v) adr wid (bbits v) = Inr bs" "length bs = word_count wid"
    "\<forall>k<wid. pbit bs k = pbit (bbits v) (adr + k)"
    using sub_words_bits [OF _ assms(2,3), of "bbits v"] assms(1) by (auto simp: vector_ok_def)
  let ?r = "\<lparr>size4 = wid, abits = as, bbits = bs\<rparr>"
  have "bits4 ?r = take wid (drop adr (bits4 v))"
    using as(3) bs(3) assms(2) by (intro nth_equalityI) (auto simp: value4_pbit)
  then show ?thesis using as bs assms(2) by (auto simp: subvalue_def vector_ok_def)
qed

lemma set_vec_bits:
  assumes "vector_ok v" "vector_ok that" "adr + size4 that \<le> size4 v" "0 < size4 that"
  shows "\<exists>r. set_vec v adr that = Inr r \<and> vector_ok r \<and>
    bits4 r = take adr (bits4 v) @ bits4 that @ drop (adr + size4 that) (bits4 v)"
proof -
  obtain as where as: "set_words (size4 v) adr (size4 that) (abits that) (abits v) = Inr as"
    "placed 0 adr (size4 that) (abits that) (abits v) as"
    using set_words_placed [OF _ _ assms(3,4)] assms(1,2) unfolding vector_ok_def by blast
  obtain bs where bs: "set_words (size4 v) adr (size4 that) (bbits that) (bbits v) = Inr bs"
    "placed 0 adr (size4 that) (bbits that) (bbits v) bs"
    using set_words_placed [OF _ _ assms(3,4)] assms(1,2) unfolding vector_ok_def by blast
  let ?r = "v\<lparr>abits := as, bbits := bs\<rparr>"
  have k: "k < size4 v \<Longrightarrow> k < 64 * word_count (size4 v)" for k using cover [of "size4 v"] by simp
  have "bits4 ?r = take adr (bits4 v) @ bits4 that @ drop (adr + size4 that) (bits4 v)"
    using as(2) bs(2) assms
    by (intro nth_equalityI) (auto simp: placed_def vector_ok_def value4_pbit nth_append k)
  then show ?thesis using as bs assms by (auto simp: set_vec_def vector_ok_def placed_def)
qed

section \<open>Whole words\<close>

lemma pbit_replicate: "k < 64 * c \<Longrightarrow> pbit (replicate c w) k = bit w (k mod 64)"
  by (simp add: pbit_def less_mult_imp_div_less mult.commute)

lemma inside: "k < n \<Longrightarrow> k < 64 * word_count n"
  using cover [of n] by simp

lemma word_index: "k < n \<Longrightarrow> k div 64 < word_count n"
  using cover [of n] by (simp add: less_mult_imp_div_less mult.commute)

lemma bit4_of_and:
  "bit4_and (bit4_of a b) (bit4_of c d) = bit4_of ((a \<or> b) \<and> (c \<or> d)) ((a \<or> b) \<and> d \<or> (c \<or> d) \<and> b)"
  by (cases a; cases b; cases c; cases d) (simp_all add: bit4_of_def bit4_and_def)

lemma bit4_of_or:
  "bit4_or (bit4_of a b) (bit4_of c d) = bit4_of (a \<or> b \<or> c \<or> d) ((\<not> a \<or> b) \<and> d \<or> (\<not> c \<or> d) \<and> b)"
  by (cases a; cases b; cases c; cases d) (simp_all add: bit4_of_def bit4_or_def)

lemma bit4_of_not: "bit4_not (bit4_of a b) = bit4_of (\<not> a \<or> b) b"
  by (cases a; cases b) (simp_all add: bit4_of_def)

lemma bit4_of_z2x: "bit4_z2x_vvp (bit4_of a b) = bit4_of (a \<or> b) b"
  by (cases a; cases b) (simp_all add: bit4_of_def)

lemma bit4_of_xz: "bit4_is_xz (bit4_of a b) = b"
  by (cases a; cases b) (simp_all add: bit4_of_def)

lemma and_bits:
  assumes "vector_ok v" "vector_ok w" "size4 v = size4 w"
  shows "\<exists>r. vector_and v w = Inr r \<and> vector_ok r \<and> bits4 r = map2 bit4_and (bits4 v) (bits4 w)"
proof -
  have fits: "operand_fits v w" using assms(3) by (auto simp: operand_fits_def)
  obtain r where r: "vector_and v w = Inr r" using fits by (simp add: vector_and_def Let_def)
  then have size: "size4 r = size4 v" using fits by (auto simp: vector_and_def Let_def)
  have "bits4 r = map2 bit4_and (bits4 v) (bits4 w)"
    using r fits assms size
    by (intro nth_equalityI)
      (auto simp: vector_and_def Let_def value4_pbit word_index bit4_of_and pbit_def bit_simps)
  then show ?thesis using r fits by (auto simp: vector_and_def vector_ok_def Let_def)
qed

lemma or_bits:
  assumes "vector_ok v" "vector_ok w" "size4 v = size4 w"
  shows "\<exists>r. vector_or v w = Inr r \<and> vector_ok r \<and> bits4 r = map2 bit4_or (bits4 v) (bits4 w)"
proof -
  have fits: "operand_fits v w" using assms(3) by (auto simp: operand_fits_def)
  obtain r where r: "vector_or v w = Inr r" using fits by (simp add: vector_or_def Let_def)
  then have size: "size4 r = size4 v" using fits by (auto simp: vector_or_def Let_def)
  have "bits4 r = map2 bit4_or (bits4 v) (bits4 w)"
    using r fits assms size
    by (intro nth_equalityI)
      (auto simp: vector_or_def Let_def value4_pbit word_index bit4_of_or pbit_def bit_simps)
  then show ?thesis using r fits by (auto simp: vector_or_def vector_ok_def Let_def)
qed

lemma invert_bits:
  assumes "vector_ok v"
  shows "vector_ok (invert v) \<and> bits4 (invert v) = map bit4_not (bits4 v)"
proof -
  have "bits4 (invert v) = map bit4_not (bits4 v)"
  proof (intro nth_equalityI)
    fix k assume "k < length (bits4 (invert v))"
    then have k: "k < size4 v" by (simp add: invert_def)
    then have "k mod 64 < size4 v - 64 * (k div 64)" by (metis add_diff_cancel_left' diff_less_mono mult_div_mod_eq le_add1)
    then show "bits4 (invert v) ! k = map bit4_not (bits4 v) ! k"
      using k assms by (auto simp: invert_def Let_def value4_pbit word_index bit4_of_not pbit_def bit_simps)
  qed (simp add: invert_def)
  then show ?thesis using assms by (simp add: invert_def vector_ok_def)
qed

lemma change_z2x_bits:
  assumes "vector_ok v"
  shows "vector_ok (change_z2x v) \<and> bits4 (change_z2x v) = map bit4_z2x_vvp (bits4 v)"
proof -
  have "bits4 (change_z2x v) = map bit4_z2x_vvp (bits4 v)"
    by (intro nth_equalityI)
      (auto simp: change_z2x_def value4_pbit word_index bit4_of_z2x pbit_def bit_simps)
  then show ?thesis using assms by (simp add: change_z2x_def vector_ok_def)
qed

lemma set_to_x_bits: "vector_ok (set_to_x v) \<and> bits4 (set_to_x v) = replicate (size4 v) BIT4_X"
proof -
  have "bits4 (set_to_x v) = replicate (size4 v) BIT4_X"
    by (intro nth_equalityI)
      (auto simp: set_to_x_def value4_pbit pbit_replicate inside bit4_of_def bit_simps)
  then show ?thesis by (simp add: set_to_x_def vector_ok_def)
qed

lemma new_vector4_bits: "vector_ok (new_vector4 n b) \<and> bits4 (new_vector4 n b) = replicate n b"
proof -
  have "bits4 (new_vector4 n b) = replicate n b"
    using cover [of n]
    by (intro nth_equalityI; cases b)
      (auto simp: new_vector4_def value4_pbit pbit_replicate bit4_of_def bit_simps)
  then show ?thesis by (simp add: new_vector4_def vector_ok_def)
qed

lemma new_vector4_simps [simp]:
  "size4 (new_vector4 n b) = n" "vector_ok (new_vector4 n b)" "bits4 (new_vector4 n b) = replicate n b"
  using new_vector4_bits [of n b] by (simp_all add: new_vector4_def)

section \<open>Tests\<close>

lemma masked_eq_iff: "n \<le> 64 \<Longrightarrow> x AND low_mask n = y AND low_mask n \<longleftrightarrow> (\<forall>j<n. bit x j = bit y j)" for x y :: word64
  unfolding bit_eq_iff by (auto simp: bit_and_iff dest: order.strict_trans2)

lemma word_eq_iff: "x = y \<longleftrightarrow> (\<forall>j<64. bit x j = bit y j)" for x y :: word64
  by (auto simp: bit_eq_iff dest: bit_imp_le_length)

lemma split_index:
  "(\<forall>k<n. P k) \<longleftrightarrow> (\<forall>i<n div 64. \<forall>j<64. P (64 * i + j)) \<and> (\<forall>j<n mod 64. P (64 * (n div 64) + j))" for n :: nat
proof (intro iffI conjI allI impI)
  fix i j assume P: "\<forall>k<n. P k" and "i < n div 64" "j < (64::nat)"
  then have "64 * i + j < 64 * (n div 64)" by linarith
  also have "\<dots> \<le> n" by simp
  finally show "P (64 * i + j)" using P by blast
next
  fix j assume P: "\<forall>k<n. P k" and "j < n mod 64"
  then have "64 * (n div 64) + j < n" by (metis mult_div_mod_eq nat_add_left_cancel_less)
  then show "P (64 * (n div 64) + j)" using P by simp
next
  fix k assume P: "(\<forall>i<n div 64. \<forall>j<64. P (64 * i + j)) \<and> (\<forall>j<n mod 64. P (64 * (n div 64) + j))" and k: "k < n"
  have "k div 64 < n div 64 \<or> k div 64 = n div 64 \<and> k mod 64 < n mod 64"
    using div_le_mono [of k n 64] k by (metis le_neq_implies_less less_or_eq_imp_le mult_div_mod_eq nat_add_left_cancel_less)
  then have "P (64 * (k div 64) + k mod 64)" using P by (metis mod_less_divisor zero_less_numeral)
  then show "P k" by simp
qed

lemma same_words_iff:
  "(\<forall>i<n div 64. xs ! i = ys ! i) \<and>
    (0 < n mod 64 \<longrightarrow> xs ! (n div 64) AND low_mask (n mod 64) = ys ! (n div 64) AND low_mask (n mod 64)) \<longleftrightarrow>
   (\<forall>k<n. pbit xs k = pbit ys k)"
proof -
  have "xs ! i = ys ! i \<longleftrightarrow> (\<forall>j<64. pbit xs (64 * i + j) = pbit ys (64 * i + j))" for i
    by (auto simp: word_eq_iff bit_nth)
  moreover have "(0 < n mod 64 \<longrightarrow> xs ! i AND low_mask (n mod 64) = ys ! i AND low_mask (n mod 64)) \<longleftrightarrow>
      (\<forall>j<n mod 64. pbit xs (64 * i + j) = pbit ys (64 * i + j))" for i
    by (auto simp: masked_eq_iff bit_nth)
  ultimately show ?thesis unfolding split_index [where n = n] by simp
qed

lemma eeq_bits:
  assumes "vector_ok v" "vector_ok w"
  shows "eeq v w \<longleftrightarrow> bits4 v = bits4 w"
proof (cases "size4 v = size4 w")
  case True
  have planes: "bits4 v = bits4 w \<longleftrightarrow>
      (\<forall>k < size4 w. pbit (abits v) k = pbit (abits w) k) \<and> (\<forall>k < size4 w. pbit (bbits v) k = pbit (bbits w) k)"
    using True by (auto simp: list_eq_iff_nth_eq value4_pbit bit4_of_inject)
  show ?thesis
  proof (cases "size4 w < 64")
    case short: True
    then show ?thesis using True unfolding planes by (auto simp: eeq_def masked_eq_iff bit_nth_0)
  next
    case False
    then show ?thesis using True unfolding planes same_words_iff [symmetric]
      by (auto simp: eeq_def Let_def)
  qed
next
  case False
  then show ?thesis by (auto simp: eeq_def dest: arg_cong [of _ _ length])
qed

lemma nth_zero_iff: "ws ! i = 0 \<longleftrightarrow> (\<forall>j<64. \<not> pbit ws (64 * i + j))"
  by (auto simp: word_eq_iff [of _ 0] bit_nth)

lemma masked_zero_iff: "n \<le> 64 \<Longrightarrow> w AND mask n = 0 \<longleftrightarrow> (\<forall>j<n. \<not> bit w j)" for w :: word64
  unfolding bit_eq_iff by (auto simp: bit_and_iff bit_mask_iff dest: order.strict_trans2)

lemma has_xz_bits:
  assumes "vector_ok v" "0 < size4 v"
  shows "has_xz v = Inr (\<exists>b\<in>set (bits4 v). bit4_is_xz b)"
proof -
  have planes: "(\<exists>b\<in>set (bits4 v). bit4_is_xz b) \<longleftrightarrow> \<not> (\<forall>k < size4 v. \<not> pbit (bbits v) k)"
    by (auto simp: bits4_def value4_pbit bit4_of_xz)
  show ?thesis
  proof (cases "size4 v < 64")
    case True
    then show ?thesis using assms unfolding planes
      by (auto simp: has_xz_def masked_zero_iff bit_nth_0)
  next
    case False
    then show ?thesis using assms unfolding planes split_index [where n = "size4 v"]
      by (auto simp: has_xz_def Let_def masked_zero_iff nth_zero_iff bit_nth)
  qed
qed

section \<open>Writing single bits\<close>

lemma pbit_set_bit:
  "k < 64 * length ws \<Longrightarrow> i < 64 * length ws \<Longrightarrow>
    pbit (ws[i div 64 := if c then ws ! (i div 64) OR push_bit (i mod 64) 1 else ws ! (i div 64) AND NOT (push_bit (i mod 64) 1)]) k =
      (if k = i then c else pbit ws k)"
proof -
  assume k: "k < 64 * length ws" "i < 64 * length ws"
  then have len: "i div 64 < length ws" "k div 64 < length ws" by (auto simp: less_mult_imp_div_less mult.commute)
  show ?thesis
  proof (cases "k div 64 = i div 64")
    case True
    then have "k mod 64 = i mod 64 \<longleftrightarrow> k = i" by (metis mult_div_mod_eq)
    then show ?thesis using True len by (auto simp: pbit_def bit_simps)
  next
    case False
    then show ?thesis using len by (auto simp: pbit_def)
  qed
qed

lemma set_bit4_bits:
  assumes "vector_ok v" "i < size4 v"
  shows "\<exists>r. set_bit4 v i b = Inr r \<and> vector_ok r \<and> size4 r = size4 v \<and> bits4 r = (bits4 v)[i := b]"
proof -
  obtain r where r: "set_bit4 v i b = Inr r" using assms by (simp add: set_bit4_def Let_def)
  then have size: "size4 r = size4 v" using assms by (auto simp: set_bit4_def Let_def)
  have a: "abits r = (abits v)[i div 64 := if b = BIT4_1 \<or> b = BIT4_X then abits v ! (i div 64) OR push_bit (i mod 64) 1
      else abits v ! (i div 64) AND NOT (push_bit (i mod 64) 1)]"
    and b: "bbits r = (bbits v)[i div 64 := if b = BIT4_X \<or> b = BIT4_Z then bbits v ! (i div 64) OR push_bit (i mod 64) 1
      else bbits v ! (i div 64) AND NOT (push_bit (i mod 64) 1)]"
    using r assms(2) by (auto simp: set_bit4_def Let_def split: if_splits)
  have "value4 r k = (if k = i then b else value4 v k)" if "k < size4 v" for k
  proof -
    have "k < 64 * length (abits v)" "i < 64 * length (abits v)" "k < 64 * length (bbits v)" "i < 64 * length (bbits v)"
      using that assms inside by (auto simp: vector_ok_def)
    then have "pbit (abits r) k = (if k = i then b = BIT4_1 \<or> b = BIT4_X else pbit (abits v) k)"
      "pbit (bbits r) k = (if k = i then b = BIT4_X \<or> b = BIT4_Z else pbit (bbits v) k)"
      unfolding a b by (simp_all only: pbit_set_bit)
    then show ?thesis using that size by (cases b) (simp_all add: value4_pbit bit4_of_def)
  qed
  then have "bits4 r = (bits4 v)[i := b]"
    using size by (intro nth_equalityI) (auto simp: nth_list_update)
  then show ?thesis using r size assms by (auto simp: set_bit4_def Let_def vector_ok_def)
qed

section \<open>Copying with another size\<close>

lemma copy_words_bits:
  assumes "length ws = word_count sz" "length src = word_count tsize"
  shows "\<exists>r. copy_words sz tsize src ws = Inr r \<and> length r = word_count sz \<and>
    (\<forall>k < sz. pbit r k =
      (if k < tsize then (if tsize = 64 \<and> 64 < sz then pbit ws k \<or> pbit src k else pbit src k) else pbit ws k))"
proof -
  let ?n = "if tsize < sz then tsize else sz"
  have pos: "0 < length ws" "0 < length src" using assms by simp_all
  have covers: "sz \<le> 64 * length ws" "tsize \<le> 64 * length src" using assms cover by simp_all
  consider "sz = tsize" | "sz \<noteq> tsize" "sz \<le> 64" "tsize \<le> 64" | "sz \<le> 64" "64 < tsize"
    | "64 < sz" "tsize \<le> 64" | "sz \<noteq> tsize" "64 < sz" "64 < tsize" by linarith
  then show ?thesis
  proof cases
    case 1
    then show ?thesis using assms by (auto simp: copy_words_def)
  next
    case 2
    then have one: "length ws = 1" "?n \<le> 64" using assms by (simp_all add: word_count_def)
    have "\<exists>r. merge_word ws 0 (low_mask ?n) (src ! 0) = Inr r \<and> length r = length ws \<and> placed 0 (64 * 0 + 0) ?n src ws r"
      using pos one by (intro merge_placed) (auto simp: bit_nth_0 split: if_splits)
    then obtain r where r: "merge_word ws 0 (low_mask ?n) (src ! 0) = Inr r" "placed 0 0 ?n src ws r" by auto
    then have "copy_words sz tsize src ws = Inr r" using 2 pos by (simp add: copy_words_def word_at_less)
    then show ?thesis using 2 r(2) one assms by (auto simp: placed_def)
  next
    case 3
    then obtain x where x: "ws = [x]" using assms by (auto simp: word_count_def length_Suc_conv)
    show ?thesis using 3 pos
      by (auto simp: x copy_words_def word_at_less put_word_def word_count_def pbit_single bit_and_iff bit_nth_0)
  next
    case 4
    have put: "pbit (ws[0 := w]) k = (if k < 64 then bit w k else pbit ws k)" for w k
      using pbit_update [OF pos(1), of w k] by simp
    have "bit (ws ! 0) k = pbit ws k" "bit (src ! 0) k = pbit src k" if "k < 64" for k
      using that by (simp_all add: bit_nth_0)
    then show ?thesis using 4 pos assms(1)
      by (auto simp: copy_words_def word_at_less put_word_def Let_def put bit_simps)
  next
    case 5
    have "?n + 64 * 0 \<le> 64 * length src" "?n + 64 * 0 \<le> 64 * length ws" using covers by simp_all
    then obtain r where r: "copy_loop ?n 0 0 src ws = Inr r" "placed (64 * 0) (64 * 0) ?n src ws r"
      using copy_loop_placed by blast
    then have "copy_words sz tsize src ws = Inr r" using 5 by (simp add: copy_words_def)
    then show ?thesis using 5 r(2) covers assms(1) by (auto simp: placed_def)
  qed
qed

text \<open>One bit copied over another without clearing it.\<close>

definition overlay :: "bit4 \<Rightarrow> bit4 \<Rightarrow> bit4" where
  "overlay old new =
     (if old = BIT4_0 then new else if new = BIT4_0 then old
      else if old = new then old else BIT4_X)"

lemma bit4_of_overlay: "overlay (bit4_of a b) (bit4_of c d) = bit4_of (a \<or> c) (b \<or> d)"
  by (cases a; cases b; cases c; cases d) (simp_all add: bit4_of_def overlay_def)

lemma copy_bits_value:
  assumes "vector_ok v" "vector_ok w"
  shows "\<exists>r. copy_bits v w = Inr r \<and> vector_ok r \<and> size4 r = size4 v \<and>
    (\<forall>k<length (bits4 v). value4 r k =
      (if k < size4 w then (if size4 w = 64 \<and> 64 < size4 v then overlay (value4 v k) (value4 w k) else value4 w k)
       else value4 v k))"
proof -
  obtain as where as: "copy_words (size4 v) (size4 w) (abits w) (abits v) = Inr as" "length as = word_count (size4 v)"
    "\<forall>k < size4 v. pbit as k = (if k < size4 w then
        (if size4 w = 64 \<and> 64 < size4 v then pbit (abits v) k \<or> pbit (abits w) k else pbit (abits w) k)
      else pbit (abits v) k)"
    using copy_words_bits [of "abits v" "size4 v" "abits w" "size4 w"] assms by (auto simp: vector_ok_def)
  obtain bs where bs: "copy_words (size4 v) (size4 w) (bbits w) (bbits v) = Inr bs" "length bs = word_count (size4 v)"
    "\<forall>k < size4 v. pbit bs k = (if k < size4 w then
        (if size4 w = 64 \<and> 64 < size4 v then pbit (bbits v) k \<or> pbit (bbits w) k else pbit (bbits w) k)
      else pbit (bbits v) k)"
    using copy_words_bits [of "bbits v" "size4 v" "bbits w" "size4 w"] assms by (auto simp: vector_ok_def)
  show ?thesis using as bs
    by (auto simp: copy_bits_def vector_ok_def value4_pbit bit4_of_overlay)
qed

section \<open>Adding an integer\<close>

text \<open>The unsigned value of bits; only \<open>BIT4_1\<close> counts.\<close>

definition value_of :: "bit4 list \<Rightarrow> int" where
  "value_of bs = horner_sum of_bool 2 (map (\<lambda>b. b = BIT4_1) bs)"

lemma value_of_simps [simp]:
  "value_of [] = 0"
  "value_of (b # bs) = of_bool (b = BIT4_1) + 2 * value_of bs"
  by (simp_all add: value_of_def)

lemma value_of_bounds: "0 \<le> value_of bs" "value_of bs < 2 ^ length bs"
  using horner_sum_of_bool_2_less [of "map (\<lambda>b. b = BIT4_1) bs"]
  by (simp_all add: value_of_def horner_sum_nonnegative)

definition defined :: "bit4 list \<Rightarrow> bool" where
  "defined bs \<longleftrightarrow> (\<forall>b\<in>set bs. \<not> bit4_is_xz b)"

lemma xz_iff: "bit4_is_xz b \<longleftrightarrow> b \<noteq> BIT4_0 \<and> b \<noteq> BIT4_1"
  by (cases b) simp_all

lemma mod_step: "of_bool c + 2 * (a mod 2 ^ n) = (of_bool c + 2 * a) mod (2 ^ Suc n :: int)"
proof (cases c)
  case True
  have "(1 + 2 * a) mod (2 * 2 ^ n) = 1 + 2 * (a mod 2 ^ n)" by (rule pos_zmod_mult_2) simp
  then show ?thesis using True by simp
next
  case False
  have "2 * (a mod 2 ^ n) = (2 * a) mod (2 * 2 ^ n)" by (rule mult_mod_right)
  then show ?thesis using False by simp
qed

lemma sum_step:
  "add_with_carry4 x t c = (s, c') \<Longrightarrow> \<not> bit4_is_xz x \<Longrightarrow> \<not> bit4_is_xz t \<Longrightarrow> \<not> bit4_is_xz c \<Longrightarrow>
    \<not> bit4_is_xz s \<and> \<not> bit4_is_xz c' \<and>
    of_bool (s = BIT4_1) + 2 * of_bool (c' = BIT4_1) = (of_bool (x = BIT4_1) + of_bool (t = BIT4_1) + of_bool (c = BIT4_1) :: int)"
  by (cases x; cases t; cases c) (auto simp: add_with_carry4_def)

lemma drop_bits4: "i < size4 v \<Longrightarrow> drop i (bits4 v) = value4 v i # drop (i + 1) (bits4 v)"
  by (simp add: Cons_nth_drop_Suc [symmetric])

lemma sum_regroup: "s + 2 * c' = x + t + c \<Longrightarrow> n = t + 2 * q \<Longrightarrow> s + 2 * (y + q + c') = x + 2 * y + n + c" for s :: int
  by simp

declare increment_loop.simps [simp del]

lemma increment_loop_value:
  "vector_ok v \<Longrightarrow> defined (bits4 v) \<Longrightarrow> \<not> bit4_is_xz carry \<Longrightarrow> idx \<le> size4 v \<Longrightarrow>
    \<exists>r. increment_loop idx that carry v = Inr r \<and> vector_ok r \<and> size4 r = size4 v \<and> defined (bits4 r) \<and>
      take idx (bits4 r) = take idx (bits4 v) \<and>
      value_of (drop idx (bits4 r)) =
        (value_of (drop idx (bits4 v)) + that + of_bool (carry = BIT4_1)) mod 2 ^ (size4 v - idx)"
proof (induction idx that carry v rule: increment_loop.induct)
  case (1 idx that carry v)
  note prems = "1.prems"
  define t where "t = (if odd that then BIT4_1 else BIT4_0)"
  have t: "\<not> bit4_is_xz t" "that = of_bool (t = BIT4_1) + 2 * (that div 2)"
    by (auto simp: t_def) presburger
  consider "idx = size4 v" | "idx < size4 v" "that = 0" "carry = BIT4_0"
    | "idx < size4 v" "\<not> (that = 0 \<and> carry = BIT4_0)" using prems(4) by linarith
  then show ?case
  proof cases
    case 1
    then show ?thesis using prems by (simp add: increment_loop.simps)
  next
    case 2
    then show ?thesis using prems increment_loop.simps [of idx that carry v] value_of_bounds [of "drop idx (bits4 v)"] by simp
  next
    case 3
    define x where "x = value4 v idx"
    have drop: "drop idx (bits4 v) = x # drop (Suc idx) (bits4 v)"
      using 3(1) by (simp add: drop_bits4 x_def)
    obtain s c' where sum: "add_with_carry4 x t carry = (s, c')" by fastforce
    have "x \<in> set (bits4 v)" using 3(1) by (auto simp: bits4_def x_def)
    then have x: "\<not> bit4_is_xz x" using prems(2) by (auto simp: defined_def)
    note step = sum_step [OF sum x t(1) prems(3)]
    have size: "size4 v - idx = Suc (size4 v - Suc idx)" using 3(1) by simp
    have result: "of_bool (s = BIT4_1) + 2 * ((value_of (drop (Suc idx) (bits4 v)) + that div 2 + of_bool (c' = BIT4_1)) mod 2 ^ (size4 v - Suc idx)) =
        (value_of (drop idx (bits4 v)) + that + of_bool (carry = BIT4_1)) mod 2 ^ (size4 v - idx)"
    proof -
      have "of_bool (s = BIT4_1) + 2 * (value_of (drop (Suc idx) (bits4 v)) + that div 2 + of_bool (c' = BIT4_1)) =
          value_of (drop idx (bits4 v)) + that + of_bool (carry = BIT4_1)"
        unfolding drop value_of_simps using step t(2) by (intro sum_regroup) simp_all
      then show ?thesis unfolding size mod_step by simp
    qed
    show ?thesis
    proof (cases "t = BIT4_0 \<and> carry = BIT4_0")
      case True
      then have s: "s = x" "c' = BIT4_0" using sum x by (cases x; auto simp: add_with_carry4_def)+
      have "increment_loop idx that carry v = increment_loop (idx + 1) (that div 2) carry v"
        using True 3 by (subst increment_loop.simps) (simp add: Let_def t_def [symmetric])
      moreover obtain r where "increment_loop (idx + 1) (that div 2) carry v = Inr r" "vector_ok r" "size4 r = size4 v"
        "defined (bits4 r)" "take (idx + 1) (bits4 r) = take (idx + 1) (bits4 v)"
        "value_of (drop (idx + 1) (bits4 r)) =
          (value_of (drop (idx + 1) (bits4 v)) + that div 2 + of_bool (carry = BIT4_1)) mod 2 ^ (size4 v - (idx + 1))"
        using "1.IH"(1) [OF 3(1) 3(2) t_def refl True] prems 3(1) by auto
      moreover have "take idx (bits4 r) = take idx (bits4 v)" "value4 r idx = x"
        using calculation 3(1) by (auto simp: take_Suc_conv_app_nth x_def)
      ultimately show ?thesis using result 3(1) True s
        by (simp add: drop_bits4 [of idx r])
    next
      case False
      obtain w where w: "set_bit4 v idx s = Inr w" "vector_ok w" "size4 w = size4 v" "bits4 w = (bits4 v)[idx := s]"
        using set_bit4_bits [OF prems(1) 3(1)] by blast
      have "increment_loop idx that carry v = increment_loop (idx + 1) (that div 2) c' w"
        using False 3 sum w(1) by (subst increment_loop.simps) (auto simp: Let_def t_def [symmetric] x_def [symmetric])
      moreover have "defined (bits4 w)" using prems(2) step w(4) set_update_subset_insert by (fastforce simp: defined_def)
      moreover obtain r where "increment_loop (idx + 1) (that div 2) c' w = Inr r" "vector_ok r" "size4 r = size4 w"
        "defined (bits4 r)" "take (idx + 1) (bits4 r) = take (idx + 1) (bits4 w)"
        "value_of (drop (idx + 1) (bits4 r)) =
          (value_of (drop (idx + 1) (bits4 w)) + that div 2 + of_bool (c' = BIT4_1)) mod 2 ^ (size4 w - (idx + 1))"
        using "1.IH"(2) [OF 3(1) 3(2) t_def refl False, of _ _ w] sum w calculation(2) step 3(1)
        by (auto simp: x_def)
      moreover have "take idx (bits4 r) = take idx (bits4 v)" "value4 r idx = s"
        using calculation 3(1) w by (auto simp: take_Suc_conv_app_nth)
      ultimately show ?thesis using result 3(1) w
        by (simp add: drop_bits4 [of idx r])
    qed
  qed
qed

lemma value_of_ones: "value_of (replicate n BIT4_1) = 2 ^ n - 1"
  by (induction n) simp_all

lemma vector_increment_value:
  assumes "vector_ok v" "0 < size4 v"
  shows "\<exists>r. vector_increment v n = Inr r \<and> vector_ok r \<and> size4 r = size4 v \<and>
    (if defined (bits4 v)
     then defined (bits4 r) \<and> value_of (bits4 r) = (value_of (bits4 v) + n) mod 2 ^ size4 v
     else bits4 r = replicate (size4 v) BIT4_X)"
proof (cases "defined (bits4 v)")
  case True
  then have "has_xz v = Inr False" using has_xz_bits [OF assms] by (auto simp: defined_def)
  then show ?thesis using True assms(1) increment_loop_value [of v BIT4_0 0 n]
    by (auto simp: vector_increment_def)
next
  case False
  then have "has_xz v = Inr True" using has_xz_bits [OF assms] by (auto simp: defined_def)
  then show ?thesis using False new_vector4_bits [of "size4 v" BIT4_X]
    by (auto simp: vector_increment_def new_vector4_def)
qed

section \<open>Properties\<close>

text \<open>
  C6. On packed vectors of the same size the operators \<open>&=\<close>, \<open>|=\<close> and \<open>~\<close> and the change of Z to X, which
  work on whole words, are the operators of four-valued bits at every position, for every size, and
  \<open>eeq\<close> is equality of all bits: garbage above the size has no effect.
\<close>

theorem vector_logic_exact:
  assumes "vector_ok v" "vector_ok w" "size4 v = size4 w"
  shows "(\<exists>r. vector_and v w = Inr r \<and> vector_ok r \<and> bits4 r = map2 bit4_and (bits4 v) (bits4 w)) \<and>
    (\<exists>r. vector_or v w = Inr r \<and> vector_ok r \<and> bits4 r = map2 bit4_or (bits4 v) (bits4 w)) \<and>
    (vector_ok (invert v) \<and> bits4 (invert v) = map bit4_not (bits4 v)) \<and>
    (vector_ok (change_z2x v) \<and> bits4 (change_z2x v) = map bit4_z2x_vvp (bits4 v)) \<and>
    (eeq v w \<longleftrightarrow> bits4 v = bits4 w)"
  using and_bits [OF assms] or_bits [OF assms] invert_bits [OF assms(1)] change_z2x_bits [OF assms(1)]
    eeq_bits [OF assms(1,2)] by blast

theorem vector_logic_exact_witness:
  "\<exists>r. vector_and (new_vector4 70 BIT4_1) (new_vector4 70 BIT4_Z) = Inr r \<and> bits4 r = replicate 70 BIT4_X"
  using vector_logic_exact [of "new_vector4 70 BIT4_1" "new_vector4 70 BIT4_Z"]
  by (auto simp: bit4_and_def zip_replicate)

text \<open>
  C16. Writing a vector into a part of another one replaces exactly the bits of this part, whether source and
  destination are short or long and whether the part starts at a word boundary or not, and reading
  any part of the result gives these bits: reading the part that was written gives the vector back.
\<close>

theorem part_round_trip:
  assumes "vector_ok v" "vector_ok w" "adr + size4 w \<le> size4 v" "0 < size4 w"
  shows "\<exists>r. set_vec v adr w = Inr r \<and> vector_ok r \<and>
    bits4 r = take adr (bits4 v) @ bits4 w @ drop (adr + size4 w) (bits4 v) \<and>
    (\<forall>a n. 0 < n \<and> a + n \<le> size4 v \<longrightarrow>
      (\<exists>s. subvalue r a n = Inr s \<and> vector_ok s \<and> bits4 s = take n (drop a (bits4 r)))) \<and>
    (\<exists>s. subvalue r adr (size4 w) = Inr s \<and> eeq s w)"
proof -
  obtain r where r: "set_vec v adr w = Inr r" "vector_ok r"
    "bits4 r = take adr (bits4 v) @ bits4 w @ drop (adr + size4 w) (bits4 v)"
    using set_vec_bits [OF assms] by blast
  have size: "size4 r = size4 v" using arg_cong [OF r(3), of length] assms(3) by simp
  have sub: "\<exists>s. subvalue r a n = Inr s \<and> vector_ok s \<and> bits4 s = take n (drop a (bits4 r))"
    if "0 < n" "a + n \<le> size4 v" for a n
    using subvalue_bits [OF r(2)] that size by simp
  have "take (size4 w) (drop adr (bits4 r)) = bits4 w" using r(3) assms(3) by simp
  then have "\<exists>s. subvalue r adr (size4 w) = Inr s \<and> eeq s w"
    using sub [OF assms(4,3)] eeq_bits assms(2) by fastforce
  then show ?thesis using r sub by blast
qed

theorem part_round_trip_witness:
  "\<exists>r. set_vec (new_vector4 150 BIT4_0) 20 (new_vector4 70 BIT4_Z) = Inr r \<and>
    bits4 r = replicate 20 BIT4_0 @ replicate 70 BIT4_Z @ replicate 60 BIT4_0"
  using part_round_trip [of "new_vector4 150 BIT4_0" "new_vector4 70 BIT4_Z" 20] by auto

text \<open>
  Copying the bits of a vector of another size replaces the low bits and keeps the others, with one
  exception: a source of exactly 64 bits is not copied into a longer vector but laid over its low word,
  so that a bit which is 1 stays 1 when a 0 is copied over it.
\<close>

theorem copy_bits_overlays_full_word:
  assumes "vector_ok v" "vector_ok w"
  shows "\<exists>r. copy_bits v w = Inr r \<and> vector_ok r \<and>
    bits4 r =
      (if size4 w = 64 \<and> 64 < size4 v then map2 overlay (bits4 v) (bits4 w) @ drop 64 (bits4 v)
       else take (size4 v) (bits4 w) @ drop (size4 w) (bits4 v))"
proof -
  obtain r where r: "copy_bits v w = Inr r" "vector_ok r" "size4 r = size4 v"
    "\<forall>k<length (bits4 v). value4 r k =
      (if k < size4 w then (if size4 w = 64 \<and> 64 < size4 v then overlay (value4 v k) (value4 w k) else value4 w k)
       else value4 v k)"
    using copy_bits_value [OF assms] by blast
  have "bits4 r =
      (if size4 w = 64 \<and> 64 < size4 v then map2 overlay (bits4 v) (bits4 w) @ drop 64 (bits4 v)
       else take (size4 v) (bits4 w) @ drop (size4 w) (bits4 v))"
    using r(3,4) by (intro nth_equalityI) (auto simp: nth_append min_def)
  then show ?thesis using r(1,2) by blast
qed

theorem copy_bits_overlays_full_word_witness:
  "\<exists>r. copy_bits (new_vector4 70 BIT4_1) (new_vector4 64 BIT4_0) = Inr r \<and> bits4 r = replicate 70 BIT4_1"
  using copy_bits_overlays_full_word [of "new_vector4 70 BIT4_1" "new_vector4 64 BIT4_0"]
  by (auto simp: overlay_def zip_replicate replicate_add [symmetric])

text \<open>
  Adding an integer to a vector that is not empty adds it modulo the power of two of the size, also
  when it is negative; when any bit is X or Z all bits become X.
\<close>

theorem increment_exact:
  assumes "vector_ok v" "0 < size4 v"
  shows "\<exists>r. vector_increment v n = Inr r \<and> vector_ok r \<and> size4 r = size4 v \<and>
    (if defined (bits4 v)
     then defined (bits4 r) \<and> value_of (bits4 r) = (value_of (bits4 v) + n) mod 2 ^ size4 v
     else bits4 r = replicate (size4 v) BIT4_X)"
  using assms by (rule vector_increment_value)

theorem increment_exact_witness:
  "\<exists>r. vector_increment (new_vector4 70 BIT4_1) 3 = Inr r \<and> value_of (bits4 r) = 2"
  using increment_exact [of "new_vector4 70 BIT4_1" 3]
  by (auto simp: value_of_ones defined_def)

end
