(* ===== verification/Vector4Arrays.thy ===== *)
theory Vector4Arrays
  imports Vector4Ops
begin

text \<open>
  Packed vectors and arrays of machine words (\<open>subarray\<close>, \<open>setarray\<close>, \<open>resize\<close> in \<open>vvp/vvp_net.cc\<close>), which
  the instructions of threads use for arithmetic.
\<close>

section \<open>Resizing\<close>

text \<open>
  Whole words that are new are filled with X; the bits between the old size and the end of its last word
  are what was in the word.
\<close>

definition resized_words :: "nat \<Rightarrow> nat \<Rightarrow> word64 list \<Rightarrow> word64 list" where
  "resized_words old new ws =
     (let cnt = (old + 64 - 1) div 64
      in if 64 < new then
           let newcnt = (new + 64 - 1) div 64
           in if newcnt = cnt then ws else map (\<lambda>i. if cnt \<le> i then - 1 else ws ! i) [0..<newcnt]
         else if 1 < cnt then [ws ! 0] else ws)"

definition resize :: "vector4 \<Rightarrow> nat \<Rightarrow> vector4" where
  "resize v newsize =
     (if size4 v = newsize then v
      else v\<lparr>size4 := newsize, abits := resized_words (size4 v) newsize (abits v),
             bbits := resized_words (size4 v) newsize (bbits v)\<rparr>)"

section \<open>Reading an array\<close>

text \<open>
  The number of bits that one step of a loop moves: not more than are left, than the rest of the word of
  the array and than the rest of the word of the vector.
\<close>

definition step_width :: "nat \<Rightarrow> nat \<Rightarrow> nat \<Rightarrow> nat" where
  "step_width wid val_off off = min wid (min (64 - val_off) (64 - off))"

lemma step_width_bounds:
  "step_width wid val_off off \<le> wid" "step_width wid val_off off \<le> 64 - val_off" "step_width wid val_off off \<le> 64 - off"
  by (simp_all add: step_width_def)

lemma step_width_facts:
  assumes "wid \<noteq> 0" "val_off < 64" "off < 64"
  shows "0 < step_width wid val_off off" "step_width wid val_off off \<le> wid"
    "off + step_width wid val_off off \<le> 64" "val_off + step_width wid val_off off \<le> 64"
proof -
  show "0 < step_width wid val_off off" using assms by (simp add: step_width_def)
  show "step_width wid val_off off \<le> wid" by (rule step_width_bounds)
  show "off + step_width wid val_off off \<le> 64" "val_off + step_width wid val_off off \<le> 64"
    using step_width_bounds [of wid val_off off] assms(2,3) by linarith+
qed

lemma step_width_pos: "wid \<noteq> 0 \<Longrightarrow> \<not> 64 \<le> val_off \<Longrightarrow> \<not> 64 \<le> off \<Longrightarrow> 0 < step_width wid val_off off"
  by (simp add: step_width_def)

text \<open>\<open>None\<close> when there is an X or Z: the code returns a null pointer.\<close>

function subarray_loop :: "nat \<Rightarrow> nat \<Rightarrow> nat \<Rightarrow> nat \<Rightarrow> word64 list \<Rightarrow> word64 list \<Rightarrow> word64 list \<Rightarrow> word64 list option result" where
  "subarray_loop wid adr val_ptr val_off as bs val =
     (if wid = 0 then Inr (Some val)
      else if 64 \<le> val_off then Inl ''shift''
      else bind_result (word_at as (adr div 64)) (\<lambda>atmp. bind_result (word_at bs (adr div 64)) (\<lambda>btmp.
        let off = adr mod 64; moved = step_width wid val_off off;
          mask = (if moved < 64 then low_mask moved else - 1);
          atmp = drop_bit off atmp AND mask; btmp = drop_bit off btmp AND mask
        in if btmp \<noteq> 0 then Inr None
           else bind_result (word_at val val_ptr) (\<lambda>w.
             bind_result (put_word val val_ptr (w OR push_bit val_off atmp)) (\<lambda>val.
               if val_off + moved = 64 then subarray_loop (wid - moved) (adr + moved) (val_ptr + 1) 0 as bs val
               else subarray_loop (wid - moved) (adr + moved) val_ptr (val_off + moved) as bs val)))))"
  by pat_completeness auto

termination subarray_loop
  by (relation "measure (\<lambda>(wid, adr, vp, vo, as, bs, val). wid)") (simp_all add: step_width_pos)

definition subarray :: "vector4 \<Rightarrow> nat \<Rightarrow> nat \<Rightarrow> word64 list option result" where
  "subarray v adr wid =
     (let awid = (wid + 64 - 1) div 64
      in if size4 v \<le> 64 then
           if 64 \<le> adr then Inl ''shift''
           else let mask = (if wid < 64 then low_mask wid else - 1);
               atmp = drop_bit adr (abits v ! 0) AND mask; btmp = drop_bit adr (bbits v ! 0) AND mask
             in if btmp \<noteq> 0 then Inr None
                else bind_result (put_word (replicate awid 0) 0 atmp) (\<lambda>val. Inr (Some val))
         else subarray_loop wid adr 0 0 (abits v) (bbits v) (replicate awid 0))"

section \<open>Writing an array\<close>

text \<open>One of the two word arrays of the vector; the other one gets zeros.\<close>

function setarray_loop :: "nat \<Rightarrow> nat \<Rightarrow> nat \<Rightarrow> nat \<Rightarrow> nat \<Rightarrow> word64 list \<Rightarrow> word64 list \<Rightarrow> word64 list \<Rightarrow>
    (word64 list \<times> word64 list) result" where
  "setarray_loop wid ptr off val_ptr val_off val as bs =
     (if wid = 0 then Inr (as, bs)
      else if 64 \<le> val_off \<or> 64 \<le> off then Inl ''shift''
      else let moved = step_width wid val_off off;
          lmask = low_mask off;
          hmask = (if off + moved < 64 then push_bit (off + moved) (- 1) else 0);
          mask = NOT (hmask OR lmask)
        in bind_result (word_at val val_ptr) (\<lambda>w.
          bind_result (merge_word as ptr mask (if off \<le> val_off then drop_bit (val_off - off) w else push_bit (off - val_off) w)) (\<lambda>as.
            bind_result (merge_word bs ptr mask 0) (\<lambda>bs.
              setarray_loop (wid - moved)
                (if off + moved = 64 then ptr + 1 else ptr) (if off + moved = 64 then 0 else off + moved)
                (if val_off + moved = 64 then val_ptr + 1 else val_ptr) (if val_off + moved = 64 then 0 else val_off + moved)
                val as bs))))"
  by pat_completeness auto

termination setarray_loop
  by (relation "measure (\<lambda>(wid, ptr, off, vp, vo, val, as, bs). wid)") (simp_all add: step_width_pos)

definition setarray :: "vector4 \<Rightarrow> nat \<Rightarrow> nat \<Rightarrow> word64 list \<Rightarrow> vector4 result" where
  "setarray v adr wid val =
     (if size4 v < adr + wid then Inl ''assert''
      else if size4 v \<le> 64 then
        if 64 \<le> adr then Inl ''shift''
        else let lmask = low_mask adr;
            hmask = (if adr + wid < 64 then push_bit (adr + wid) (- 1) else 0);
            mask = NOT (hmask OR lmask)
          in bind_result (word_at val 0) (\<lambda>w.
            bind_result (merge_word (abits v) 0 mask (push_bit adr w)) (\<lambda>as.
              bind_result (merge_word (bbits v) 0 mask 0) (\<lambda>bs. Inr (v\<lparr>abits := as, bbits := bs\<rparr>))))
      else bind_result (setarray_loop wid (adr div 64) (adr mod 64) 0 0 val (abits v) (bbits v)) (\<lambda>(as, bs).
        Inr (v\<lparr>abits := as, bbits := bs\<rparr>)))"

section \<open>What reading returns\<close>

lemma chunk_bits:
  assumes "adr mod 64 + n \<le> 64"
  shows "bit (drop_bit (adr mod 64) (ws ! (adr div 64)) AND (if n < 64 then low_mask n else - 1)) j \<longleftrightarrow>
    j < n \<and> pbit ws (adr + j)"
proof (cases "j < n")
  case True
  then have lt: "adr mod 64 + j < 64" using assms by linarith
  then have "bit (ws ! (adr div 64)) (adr mod 64 + j) = pbit ws (64 * (adr div 64) + (adr mod 64 + j))"
    by (rule bit_nth)
  also have "64 * (adr div 64) + (adr mod 64 + j) = adr + j" by simp
  finally show ?thesis using True assms lt by (auto simp: bit_and_iff bit_drop_bit_eq bit_all_ones)
next
  case False
  moreover have "\<not> bit (ws ! (adr div 64)) (adr mod 64 + j)" if "64 \<le> n" "\<not> j < n"
    using that bit_imp_le_length [of "ws ! (adr div 64)" "adr mod 64 + j"] by auto
  ultimately show ?thesis by (auto simp: bit_and_iff bit_drop_bit_eq)
qed

lemma word_zero_iff: "w = 0 \<longleftrightarrow> (\<forall>j. \<not> bit w j)" for w :: word64
  by (auto intro: bit_word_eqI)

declare subarray_loop.simps [simp del]

lemma subarray_loop_bits:
  fixes base :: nat
  assumes "adr = base + (64 * val_ptr + val_off)" "n = 64 * val_ptr + val_off + wid" "n \<le> 64 * length val"
    and "base + n \<le> 64 * length as" "length bs = length as" "val_off < 64"
    and "\<forall>k<64 * length val. pbit val k \<longleftrightarrow> k < 64 * val_ptr + val_off \<and> pbit as (base + k)"
    and "\<forall>k<64 * val_ptr + val_off. \<not> pbit bs (base + k)"
  shows "if \<exists>k<n. pbit bs (base + k) then subarray_loop wid adr val_ptr val_off as bs val = Inr None
    else \<exists>r. subarray_loop wid adr val_ptr val_off as bs val = Inr (Some r) \<and> length r = length val \<and>
      (\<forall>k<64 * length val. pbit r k \<longleftrightarrow> k < n \<and> pbit as (base + k))"
  using assms
proof (induction wid arbitrary: adr val_ptr val_off val rule: less_induct)
  case (less wid)
  note prems = less.prems
  show ?case
  proof (cases "wid = 0")
    case True
    then have "subarray_loop wid adr val_ptr val_off as bs val = Inr (Some val)" by (subst subarray_loop.simps) simp
    then show ?thesis using prems True by simp
  next
    case False
    let ?off = "adr mod 64" and ?p = "64 * val_ptr + val_off"
    define m where "m = step_width wid val_off (adr mod 64)"
    define mask where "mask = (if m < 64 then low_mask m else - 1)"
    define atmp where "atmp = drop_bit ?off (as ! (adr div 64)) AND mask"
    define btmp where "btmp = drop_bit ?off (bs ! (adr div 64)) AND mask"
    have m: "0 < m" "m \<le> wid" "?off + m \<le> 64" "val_off + m \<le> 64"
      unfolding m_def using False prems(6) by (intro step_width_facts; simp)+
    have abit: "bit atmp j \<longleftrightarrow> j < m \<and> pbit as (adr + j)" for j
      unfolding atmp_def mask_def by (rule chunk_bits [OF m(3)])
    have bbit: "bit btmp j \<longleftrightarrow> j < m \<and> pbit bs (adr + j)" for j
      unfolding btmp_def mask_def by (rule chunk_bits [OF m(3)])
    have "adr < 64 * length as" using prems False by linarith
    then have len: "adr div 64 < length as" "adr div 64 < length bs" "val_ptr < length val"
      using prems False by (auto simp: less_mult_imp_div_less mult.commute)
    define w where "w = val ! val_ptr OR push_bit val_off atmp"
    define val' where "val' = val[val_ptr := w]"
    have off: "\<not> 64 \<le> val_off" using prems(6) by simp
    have unfold: "subarray_loop wid adr val_ptr val_off as bs val =
        (if btmp \<noteq> 0 then Inr None
         else if val_off + m = 64 then subarray_loop (wid - m) (adr + m) (val_ptr + 1) 0 as bs val'
         else subarray_loop (wid - m) (adr + m) val_ptr (val_off + m) as bs val')"
      using False off len
      unfolding w_def val'_def atmp_def btmp_def mask_def m_def
      by (subst subarray_loop.simps) (simp only: word_at_less put_word_bits Let_def bind_result_simps if_False)
    show ?thesis
    proof (cases "btmp = 0")
      case unknown: False
      then obtain j where "j < m" "pbit bs (adr + j)" using bbit by (auto simp: word_zero_iff)
      then have "?p + j < n" "pbit bs (base + (?p + j))" using prems(1,2) m(2) by (auto simp: add.assoc)
      then show ?thesis using unknown unfolding unfold by auto
    next
      case True
      have clear: "\<not> pbit bs (base + k)" if "k < ?p + m" for k
      proof (cases "k < ?p")
        case inside: False
        then have "\<not> bit btmp (k - ?p)" using True by simp
        then show ?thesis using inside that prems(1) unfolding bbit by auto
      qed (use prems(8) in blast)
      have val': "pbit val' k \<longleftrightarrow> k < ?p + m \<and> pbit as (base + k)" if "k < 64 * length val" for k
      proof (cases "64 * val_ptr \<le> k \<and> k < 64 * val_ptr + 64")
        case True
        define j where "j = k - 64 * val_ptr"
        have j: "k = 64 * val_ptr + j" "j < 64" using True by (auto simp: j_def)
        have "pbit val' k \<longleftrightarrow> bit w j" using True len(3) by (simp add: val'_def pbit_update j_def)
        also have "\<dots> \<longleftrightarrow> pbit val k \<or> val_off \<le> j \<and> bit atmp (j - val_off)"
          using j by (simp add: w_def bit_simps bit_nth)
        also have "\<dots> \<longleftrightarrow> k < ?p + m \<and> pbit as (base + k)"
          using prems(1,7) that j m unfolding abit by (auto simp: add.assoc)
        finally show ?thesis .
      next
        case False
        then have "pbit val' k = pbit val k" using len(3) by (auto simp: val'_def pbit_update)
        then show ?thesis using prems(6,7) that False m(4) by auto
      qed
      have args: "adr + m = base + (?p + m)" "n = ?p + m + (wid - m)" "n \<le> 64 * length val'"
        using prems(1-3) m(2) by (auto simp: val'_def)
      show ?thesis
      proof (cases "val_off + m = 64")
        case full: True
        then have p: "64 * (val_ptr + 1) + 0 = ?p + m" by simp
        have "if \<exists>k<n. pbit bs (base + k) then subarray_loop (wid - m) (adr + m) (val_ptr + 1) 0 as bs val' = Inr None
          else \<exists>r. subarray_loop (wid - m) (adr + m) (val_ptr + 1) 0 as bs val' = Inr (Some r) \<and> length r = length val' \<and>
            (\<forall>k<64 * length val'. pbit r k \<longleftrightarrow> k < n \<and> pbit as (base + k))"
          using m prems(4,5) args val' clear by (intro less.IH) (simp_all only: p, simp_all add: val'_def)
        moreover have "subarray_loop wid adr val_ptr val_off as bs val = subarray_loop (wid - m) (adr + m) (val_ptr + 1) 0 as bs val'"
          using True full unfold by simp
        moreover have "length val' = length val" by (simp add: val'_def)
        ultimately show ?thesis by metis
      next
        case more: False
        have p: "64 * val_ptr + (val_off + m) = ?p + m" by simp
        have "if \<exists>k<n. pbit bs (base + k) then subarray_loop (wid - m) (adr + m) val_ptr (val_off + m) as bs val' = Inr None
          else \<exists>r. subarray_loop (wid - m) (adr + m) val_ptr (val_off + m) as bs val' = Inr (Some r) \<and> length r = length val' \<and>
            (\<forall>k<64 * length val'. pbit r k \<longleftrightarrow> k < n \<and> pbit as (base + k))"
          using m more prems(4,5) args val' clear by (intro less.IH) (simp_all only: p, simp_all add: val'_def)
        moreover have "subarray_loop wid adr val_ptr val_off as bs val = subarray_loop (wid - m) (adr + m) val_ptr (val_off + m) as bs val'"
          using True more unfold by simp
        moreover have "length val' = length val" by (simp add: val'_def)
        ultimately show ?thesis by metis
      qed
    qed
  qed
qed

lemma subarray_bits:
  assumes "vector_ok v" "adr + wid \<le> size4 v" "0 < wid"
  shows "if \<exists>k<wid. pbit (bbits v) (adr + k) then subarray v adr wid = Inr None
    else \<exists>r. subarray v adr wid = Inr (Some r) \<and> length r = (wid + 64 - 1) div 64 \<and>
      (\<forall>k<64 * length r. pbit r k \<longleftrightarrow> k < wid \<and> pbit (abits v) (adr + k))"
proof (cases "size4 v \<le> 64")
  case True
  then obtain a b where ab: "abits v = [a]" "bbits v = [b]"
    using assms(1) by (auto simp: vector_ok_def word_count_def length_Suc_conv)
  have small: "adr < 64" "wid \<le> 64" "adr + wid \<le> 64" using True assms by linarith+
  then have idx: "adr div 64 = 0" "adr mod 64 = adr" by simp_all
  have awid: "(wid + 64 - 1) div 64 = 1" using small(2) assms(3) by (intro div_nat_eqI) auto
  define mask where "mask = (if wid < 64 then low_mask wid else - 1)"
  have abit: "bit (drop_bit adr a AND mask) j \<longleftrightarrow> j < wid \<and> pbit (abits v) (adr + j)" for j
    using chunk_bits [of adr wid "abits v" j] small(3) unfolding mask_def idx ab(1) by simp
  have bbit: "bit (drop_bit adr b AND mask) j \<longleftrightarrow> j < wid \<and> pbit (bbits v) (adr + j)" for j
    using chunk_bits [of adr wid "bbits v" j] small(3) unfolding mask_def idx ab(2) by simp
  have sub: "subarray v adr wid = (if drop_bit adr b AND mask \<noteq> 0 then Inr None else Inr (Some [drop_bit adr a AND mask]))"
    using True small awid by (simp add: subarray_def Let_def ab put_word_def mask_def [symmetric])
  have zero: "drop_bit adr b AND mask = 0 \<longleftrightarrow> (\<forall>k<wid. \<not> pbit (bbits v) (adr + k))"
    unfolding word_zero_iff bbit by auto
  show ?thesis
  proof (cases "\<exists>k<wid. pbit (bbits v) (adr + k)")
    case True
    then show ?thesis using sub zero by auto
  next
    case False
    then show ?thesis using sub zero awid abit by (auto simp: pbit_single)
  qed
next
  case False
  define val where "val = replicate ((wid + 64 - 1) div 64) (0 :: word64)"
  have len: "wid \<le> 64 * length val" by (auto simp: val_def)
  have zeros: "\<forall>k<64 * length val. \<not> pbit val k" by (auto simp: val_def pbit_replicate)
  have covers: "adr + wid \<le> 64 * length (abits v)" "length (bbits v) = length (abits v)"
    using assms(1,2) cover [of "size4 v"] by (auto simp: vector_ok_def)
  have sub: "subarray v adr wid = subarray_loop wid adr 0 0 (abits v) (bbits v) val"
    using False by (simp add: subarray_def val_def)
  have "length val = (wid + 64 - 1) div 64" by (simp add: val_def)
  then show ?thesis
    using subarray_loop_bits [of adr adr 0 0 wid wid val "abits v" "bbits v"] len zeros covers unfolding sub
    by (auto split: if_splits)
qed

section \<open>What writing changes\<close>

declare setarray_loop.simps [simp del]

lemma step_mask_bits:
  assumes "j < 64"
  shows "bit (NOT ((if off + m < 64 then push_bit (off + m) (- 1) else 0) OR low_mask off) :: word64) j \<longleftrightarrow>
    off \<le> j \<and> j < off + m"
  using assms by (auto simp: bit_simps)

lemma step_word_bits:
  assumes "off \<le> j" "j < off + m" "val_off + m \<le> 64" "off + m \<le> 64"
  shows "bit (if off \<le> val_off then drop_bit (val_off - off) (val ! p) else push_bit (off - val_off) (val ! p)) j =
    pbit val (j - off + (64 * p + val_off))"
proof (cases "off \<le> val_off")
  case True
  have "val_off - off + j < 64" using assms True by linarith
  then have "bit (val ! p) (val_off - off + j) = pbit val (64 * p + (val_off - off + j))" by (rule bit_nth)
  moreover have "64 * p + (val_off - off + j) = j - off + (64 * p + val_off)" using True assms(1) by simp
  ultimately show ?thesis using True by (simp add: bit_drop_bit_eq)
next
  case False
  have "j - (off - val_off) < 64" using assms by linarith
  then have "bit (val ! p) (j - (off - val_off)) = pbit val (64 * p + (j - (off - val_off)))" by (rule bit_nth)
  moreover have "64 * p + (j - (off - val_off)) = j - off + (64 * p + val_off)" using False assms(1) by simp
  ultimately have "bit (val ! p) (j - (off - val_off)) = pbit val (j - off + (64 * p + val_off))" by metis
  moreover have "off - val_off \<le> j" "j < 64" using assms by linarith+
  ultimately show ?thesis using False by (simp add: bit_push_bit_iff)
qed

lemma next_position: "off + m \<le> 64 \<Longrightarrow>
    64 * (if off + m = 64 then p + 1 else p) + (if off + m = 64 then 0 else off + m) = 64 * p + off + m" for p :: nat
  by simp

lemma setarray_loop_placed:
  assumes "off < 64" "val_off < 64" "64 * ptr + off + wid \<le> 64 * length as" "length bs = length as"
    "64 * val_ptr + val_off + wid \<le> 64 * length val"
  shows "\<exists>as' bs'. setarray_loop wid ptr off val_ptr val_off val as bs = Inr (as', bs') \<and>
    placed (64 * val_ptr + val_off) (64 * ptr + off) wid val as as' \<and>
    placed (64 * val_ptr + val_off) (64 * ptr + off) wid (replicate (length val) 0) bs bs'"
  using assms
proof (induction wid arbitrary: ptr off val_ptr val_off as bs rule: less_induct)
  case (less wid)
  note prems = less.prems
  show ?case
  proof (cases "wid = 0")
    case True
    then show ?thesis by (simp add: setarray_loop.simps placed_0)
  next
    case False
    define m where "m = step_width wid val_off off"
    have m: "0 < m" "m \<le> wid" "off + m \<le> 64" "val_off + m \<le> 64"
      unfolding m_def using False prems(1,2) by (intro step_width_facts; simp)+
    define mask where "mask = (NOT ((if off + m < 64 then push_bit (off + m) (- 1) else 0) OR low_mask off) :: word64)"
    define w where "w = (if off \<le> val_off then drop_bit (val_off - off) (val ! val_ptr) else push_bit (off - val_off) (val ! val_ptr))"
    have mask: "j < 64 \<Longrightarrow> bit mask j = (off \<le> j \<and> j < off + m)" for j
      unfolding mask_def by (rule step_mask_bits)
    have len: "ptr < length as" "ptr < length bs" "val_ptr < length val" using prems False by linarith+
    have "\<exists>as1. merge_word as ptr mask w = Inr as1 \<and> length as1 = length as \<and>
        placed (64 * val_ptr + val_off) (64 * ptr + off) m val as as1"
      using len(1) mask m(3) step_word_bits [OF _ _ m(4,3), of _ val val_ptr] unfolding w_def
      by (intro merge_placed)
    then obtain as1 where as1: "merge_word as ptr mask w = Inr as1" "length as1 = length as"
      "placed (64 * val_ptr + val_off) (64 * ptr + off) m val as as1" by blast
    have zero: "\<not> pbit (replicate (length val) 0) (j - off + (64 * val_ptr + val_off))" if "off \<le> j" "j < off + m" for j
    proof -
      have "j - off + (64 * val_ptr + val_off) < 64 * length val" using that prems(5) m(2) by linarith
      then show ?thesis by (simp add: pbit_replicate)
    qed
    have "\<exists>bs1. merge_word bs ptr mask 0 = Inr bs1 \<and> length bs1 = length bs \<and>
        placed (64 * val_ptr + val_off) (64 * ptr + off) m (replicate (length val) 0) bs bs1"
      using len(2) mask m(3) zero by (intro merge_placed) auto
    then obtain bs1 where bs1: "merge_word bs ptr mask 0 = Inr bs1" "length bs1 = length bs"
      "placed (64 * val_ptr + val_off) (64 * ptr + off) m (replicate (length val) 0) bs bs1" by blast
    define ptr' where "ptr' = (if off + m = 64 then ptr + 1 else ptr)"
    define off' where "off' = (if off + m = 64 then 0 else off + m)"
    define vp' where "vp' = (if val_off + m = 64 then val_ptr + 1 else val_ptr)"
    define vo' where "vo' = (if val_off + m = 64 then 0 else val_off + m)"
    have pos: "64 * ptr' + off' = 64 * ptr + off + m" "64 * vp' + vo' = 64 * val_ptr + val_off + m"
      unfolding ptr'_def off'_def vp'_def vo'_def by (rule next_position [OF m(3)], rule next_position [OF m(4)])
    have lt: "off' < 64" "vo' < 64" using m(3,4) by (auto simp: off'_def vo'_def)
    have guard: "\<not> (64 \<le> val_off \<or> 64 \<le> off)" using prems(1,2) by simp
    have unfold: "setarray_loop wid ptr off val_ptr val_off val as bs = setarray_loop (wid - m) ptr' off' vp' vo' val as1 bs1"
      unfolding ptr'_def off'_def vp'_def vo'_def
      using False guard as1(1) bs1(1) len(3) unfolding mask_def w_def m_def
      by (subst setarray_loop.simps) (simp only: word_at_less Let_def bind_result_simps if_False)
    have "\<exists>as' bs'. setarray_loop (wid - m) ptr' off' vp' vo' val as1 bs1 = Inr (as', bs') \<and>
        placed (64 * vp' + vo') (64 * ptr' + off') (wid - m) val as1 as' \<and>
        placed (64 * vp' + vo') (64 * ptr' + off') (wid - m) (replicate (length val) 0) bs1 bs'"
    proof (rule less.IH)
      show "64 * ptr' + off' + (wid - m) \<le> 64 * length as1" "64 * vp' + vo' + (wid - m) \<le> 64 * length val"
        unfolding pos using prems m(2) as1(2) by simp_all
    qed (use m(1) False lt as1(2) bs1(2) prems(4) in auto)
    then obtain as' bs' where rest: "setarray_loop (wid - m) ptr' off' vp' vo' val as1 bs1 = Inr (as', bs')"
      "placed (64 * val_ptr + val_off + m) (64 * ptr + off + m) (wid - m) val as1 as'"
      "placed (64 * val_ptr + val_off + m) (64 * ptr + off + m) (wid - m) (replicate (length val) 0) bs1 bs'"
      unfolding pos by blast
    have "placed (64 * val_ptr + val_off) (64 * ptr + off) (m + (wid - m)) val as as'"
      "placed (64 * val_ptr + val_off) (64 * ptr + off) (m + (wid - m)) (replicate (length val) 0) bs bs'"
      by (rule placed_append [OF as1(3) rest(2)], rule placed_append [OF bs1(3) rest(3)])
    then show ?thesis using m(2) rest(1) unfolding unfold by simp
  qed
qed

lemma setarray_planes:
  assumes "vector_ok v" "adr + wid \<le> size4 v" "0 < wid" "wid \<le> 64 * length val"
  shows "\<exists>as bs. setarray v adr wid val = Inr (v\<lparr>abits := as, bbits := bs\<rparr>) \<and>
    placed 0 adr wid val (abits v) as \<and> placed 0 adr wid (replicate (length val) 0) (bbits v) bs"
proof -
  have covers: "adr + wid \<le> 64 * length (abits v)" "length (bbits v) = length (abits v)"
    using assms(1,2) cover [of "size4 v"] by (auto simp: vector_ok_def)
  have loop: "\<exists>as' bs'. setarray_loop wid (adr div 64) (adr mod 64) 0 0 val (abits v) (bbits v) = Inr (as', bs') \<and>
      placed (64 * 0 + 0) (64 * (adr div 64) + adr mod 64) wid val (abits v) as' \<and>
      placed (64 * 0 + 0) (64 * (adr div 64) + adr mod 64) wid (replicate (length val) 0) (bbits v) bs'"
    using covers assms(4) by (intro setarray_loop_placed) simp_all
  show ?thesis
  proof (cases "size4 v \<le> 64")
    case False
    obtain as bs where "setarray_loop wid (adr div 64) (adr mod 64) 0 0 val (abits v) (bbits v) = Inr (as, bs)"
      "placed 0 adr wid val (abits v) as" "placed 0 adr wid (replicate (length val) 0) (bbits v) bs"
      using loop by auto
    moreover from this(1) have "setarray v adr wid val = Inr (v\<lparr>abits := as, bbits := bs\<rparr>)"
      using False assms(2) by (simp add: setarray_def)
    ultimately show ?thesis by blast
  next
    case True
    then have adr: "adr < 64" "adr + wid \<le> 64" using assms by linarith+
    define mask where "mask = (NOT ((if adr + wid < 64 then push_bit (adr + wid) (- 1) else 0) OR low_mask adr) :: word64)"
    have mask: "j < 64 \<Longrightarrow> bit mask j = (adr \<le> j \<and> j < adr + wid)" for j
      unfolding mask_def by (rule step_mask_bits)
    have one: "0 < length (abits v)" "0 < length (bbits v)" using assms(1) by (simp_all add: vector_ok_def)
    have val: "0 < length val" using assms(3,4) by auto
    have "\<exists>as. merge_word (abits v) 0 mask (push_bit adr (val ! 0)) = Inr as \<and> length as = length (abits v) \<and>
        placed 0 (64 * 0 + adr) wid val (abits v) as"
      using one(1) mask adr by (intro merge_placed) (auto simp: bit_push_bit_iff bit_nth_0)
    moreover have "\<exists>bs. merge_word (bbits v) 0 mask 0 = Inr bs \<and> length bs = length (bbits v) \<and>
        placed 0 (64 * 0 + adr) wid (replicate (length val) 0) (bbits v) bs"
      using one(2) mask adr assms(4) by (intro merge_placed) (auto simp: pbit_replicate)
    ultimately obtain as bs where m: "merge_word (abits v) 0 mask (push_bit adr (val ! 0)) = Inr as"
      "merge_word (bbits v) 0 mask 0 = Inr bs"
      and p: "placed 0 adr wid val (abits v) as" "placed 0 adr wid (replicate (length val) 0) (bbits v) bs" by auto
    have "\<not> size4 v < adr + wid" "\<not> 64 \<le> adr" using adr assms(2) by simp_all
    then have "setarray v adr wid val = Inr (v\<lparr>abits := as, bbits := bs\<rparr>)"
      using True val m unfolding mask_def
      by (simp only: setarray_def Let_def word_at_less bind_result_simps if_True if_False)
    then show ?thesis using p by blast
  qed
qed

end
