(* ===== verification/VCode.thy ===== *)
theory VCode
  imports Prelude
begin

text \<open>
  The instructions of the simulator: the code space, which is a chain of chunks (\<open>vvp/codes.cc\<close>), and the
  part of the assembler that fills it (\<open>vvp/compile.cc\<close>): the table of opcodes with its binary search,
  the operands of an instruction, code labels with the list of references that wait for them, and the
  final loop that resolves them.
\<close>

section \<open>Code space\<close>

text \<open>
  An address is a chunk and a position in it. An operand that names an object other than an instruction
  is kept as its label: these objects are not part of the model. The opcode is the name of the function.
  The code keeps some of these fields in the same storage; no instruction uses two of them.
\<close>

type_synonym code_address = "nat \<times> nat"

datatype operand_e =
  OA_NONE | OA_ARR_PTR | OA_BIT1 | OA_BIT2 | OA_CODE_PTR | OA_FUNC_PTR | OA_FUNC_PTR2 | OA_NUMBER | OA_VPI_PTR

record vvp_code =
  opcode :: string
  number :: nat
  bit_idx0 :: nat
  bit_idx1 :: nat
  cptr :: "code_address option"
  cptr2 :: "code_address option"
  names :: "(operand_e \<times> string) list"

definition blank_code :: vvp_code where
  "blank_code = \<lparr>opcode = [], number = 0, bit_idx0 = 0, bit_idx1 = 0, cptr = None, cptr2 = None, names = []\<rparr>"

record codespace =
  chunks :: "vvp_code list list"
  within_chunk :: nat

definition code_chunk_size :: nat where
  "code_chunk_size = 1024"

text \<open>A new chunk. What its free instructions hold does not matter: they are cleared when they are allocated.\<close>

definition new_chunk :: "vvp_code list" where
  "new_chunk = replicate (code_chunk_size - 1) blank_code @ [blank_code\<lparr>opcode := ''of_CHUNK_LINK''\<rparr>]"

definition codespace_init :: codespace where
  "codespace_init = \<lparr>chunks = [new_chunk[0 := blank_code\<lparr>opcode := ''of_ZOMBIE''\<rparr>]], within_chunk = 1\<rparr>"

definition codespace_null :: code_address where
  "codespace_null = (0, 0)"

definition code_at :: "codespace \<Rightarrow> code_address \<Rightarrow> vvp_code" where
  "code_at cs a = chunks cs ! fst a ! snd a"

definition put_code :: "codespace \<Rightarrow> code_address \<Rightarrow> vvp_code \<Rightarrow> codespace" where
  "put_code cs a c = cs\<lparr>chunks := (chunks cs)[fst a := (chunks cs ! fst a)[snd a := c]]\<rparr>"

text \<open>The address of the next instruction that will be allocated; the current chunk is the last one.\<close>

definition codespace_next :: "codespace \<Rightarrow> codespace \<times> code_address" where
  "codespace_next cs =
     (let current = length (chunks cs) - 1
      in if within_chunk cs = code_chunk_size - 1 then
           let link = (current, code_chunk_size - 1);
             cs = put_code cs link ((code_at cs link)\<lparr>cptr := Some (current + 1, 0)\<rparr>)
           in (\<lparr>chunks = chunks cs @ [new_chunk], within_chunk = 0\<rparr>, (current + 1, 0))
         else (cs, (current, within_chunk cs)))"

definition codespace_allocate :: "codespace \<Rightarrow> codespace \<times> code_address" where
  "codespace_allocate cs =
     (case codespace_next cs of (cs, res) \<Rightarrow>
        (put_code (cs\<lparr>within_chunk := within_chunk cs + 1\<rparr>) res blank_code, res))"

section \<open>Opcodes\<close>

type_synonym opcode_entry = "string \<times> string \<times> nat \<times> operand_e list"

definition opcode_table :: "opcode_entry list" where
  "opcode_table =
    [(''%abs/wr'', ''of_ABS_WR'', 2, [OA_BIT1, OA_BIT2, OA_NONE]),
     (''%add'', ''of_ADD'', 3, [OA_BIT1, OA_BIT2, OA_NUMBER]),
     (''%add/wr'', ''of_ADD_WR'', 2, [OA_BIT1, OA_BIT2, OA_NONE]),
     (''%addi'', ''of_ADDI'', 3, [OA_BIT1, OA_BIT2, OA_NUMBER]),
     (''%alloc'', ''of_ALLOC'', 1, [OA_VPI_PTR, OA_NONE, OA_NONE]),
     (''%and'', ''of_AND'', 3, [OA_BIT1, OA_BIT2, OA_NUMBER]),
     (''%and/r'', ''of_ANDR'', 3, [OA_BIT1, OA_BIT2, OA_NUMBER]),
     (''%andi'', ''of_ANDI'', 3, [OA_BIT1, OA_BIT2, OA_NUMBER]),
     (''%assign/av'', ''of_ASSIGN_AV'', 3, [OA_ARR_PTR, OA_BIT1, OA_BIT2]),
     (''%assign/av/d'', ''of_ASSIGN_AVD'', 3, [OA_ARR_PTR, OA_BIT1, OA_BIT2]),
     (''%assign/av/e'', ''of_ASSIGN_AVE'', 2, [OA_ARR_PTR, OA_BIT1, OA_NONE]),
     (''%assign/v0'', ''of_ASSIGN_V0'', 3, [OA_FUNC_PTR, OA_BIT1, OA_BIT2]),
     (''%assign/v0/d'', ''of_ASSIGN_V0D'', 3, [OA_FUNC_PTR, OA_BIT1, OA_BIT2]),
     (''%assign/v0/e'', ''of_ASSIGN_V0E'', 2, [OA_FUNC_PTR, OA_BIT1, OA_NONE]),
     (''%assign/v0/x1'', ''of_ASSIGN_V0X1'', 3, [OA_FUNC_PTR, OA_BIT1, OA_BIT2]),
     (''%assign/v0/x1/d'', ''of_ASSIGN_V0X1D'', 3, [OA_FUNC_PTR, OA_BIT1, OA_BIT2]),
     (''%assign/v0/x1/e'', ''of_ASSIGN_V0X1E'', 2, [OA_FUNC_PTR, OA_BIT1, OA_NONE]),
     (''%assign/wr'', ''of_ASSIGN_WR'', 3, [OA_VPI_PTR, OA_BIT1, OA_BIT2]),
     (''%assign/wr/d'', ''of_ASSIGN_WRD'', 3, [OA_VPI_PTR, OA_BIT1, OA_BIT2]),
     (''%assign/wr/e'', ''of_ASSIGN_WRE'', 2, [OA_VPI_PTR, OA_BIT1, OA_NONE]),
     (''%assign/x0'', ''of_ASSIGN_X0'', 3, [OA_FUNC_PTR, OA_BIT1, OA_BIT2]),
     (''%blend'', ''of_BLEND'', 3, [OA_BIT1, OA_BIT2, OA_NUMBER]),
     (''%blend/wr'', ''of_BLEND_WR'', 2, [OA_BIT1, OA_BIT2, OA_NONE]),
     (''%breakpoint'', ''of_BREAKPOINT'', 0, [OA_NONE, OA_NONE, OA_NONE]),
     (''%cassign/link'', ''of_CASSIGN_LINK'', 2, [OA_FUNC_PTR, OA_FUNC_PTR2, OA_NONE]),
     (''%cassign/v'', ''of_CASSIGN_V'', 3, [OA_FUNC_PTR, OA_BIT1, OA_BIT2]),
     (''%cassign/wr'', ''of_CASSIGN_WR'', 2, [OA_FUNC_PTR, OA_BIT1, OA_NONE]),
     (''%cassign/x0'', ''of_CASSIGN_X0'', 3, [OA_FUNC_PTR, OA_BIT1, OA_BIT2]),
     (''%cmp/s'', ''of_CMPS'', 3, [OA_BIT1, OA_BIT2, OA_NUMBER]),
     (''%cmp/u'', ''of_CMPU'', 3, [OA_BIT1, OA_BIT2, OA_NUMBER]),
     (''%cmp/wr'', ''of_CMPWR'', 2, [OA_BIT1, OA_BIT2, OA_NONE]),
     (''%cmp/ws'', ''of_CMPWS'', 2, [OA_BIT1, OA_BIT2, OA_NONE]),
     (''%cmp/wu'', ''of_CMPWU'', 2, [OA_BIT1, OA_BIT2, OA_NONE]),
     (''%cmp/x'', ''of_CMPX'', 3, [OA_BIT1, OA_BIT2, OA_NUMBER]),
     (''%cmp/z'', ''of_CMPZ'', 3, [OA_BIT1, OA_BIT2, OA_NUMBER]),
     (''%cmpi/s'', ''of_CMPIS'', 3, [OA_BIT1, OA_BIT2, OA_NUMBER]),
     (''%cmpi/u'', ''of_CMPIU'', 3, [OA_BIT1, OA_BIT2, OA_NUMBER]),
     (''%cvt/ir'', ''of_CVT_IR'', 2, [OA_BIT1, OA_BIT2, OA_NONE]),
     (''%cvt/ri'', ''of_CVT_RI'', 2, [OA_BIT1, OA_BIT2, OA_NONE]),
     (''%cvt/vr'', ''of_CVT_VR'', 3, [OA_BIT1, OA_BIT2, OA_NUMBER]),
     (''%deassign'', ''of_DEASSIGN'', 3, [OA_FUNC_PTR, OA_BIT1, OA_BIT2]),
     (''%deassign/wr'', ''of_DEASSIGN_WR'', 1, [OA_FUNC_PTR, OA_NONE, OA_NONE]),
     (''%delay'', ''of_DELAY'', 2, [OA_BIT1, OA_BIT2, OA_NONE]),
     (''%delayx'', ''of_DELAYX'', 1, [OA_NUMBER, OA_NONE, OA_NONE]),
     (''%div'', ''of_DIV'', 3, [OA_BIT1, OA_BIT2, OA_NUMBER]),
     (''%div/s'', ''of_DIV_S'', 3, [OA_BIT1, OA_BIT2, OA_NUMBER]),
     (''%div/wr'', ''of_DIV_WR'', 2, [OA_BIT1, OA_BIT2, OA_NONE]),
     (''%end'', ''of_END'', 0, [OA_NONE, OA_NONE, OA_NONE]),
     (''%evctl'', ''of_EVCTL'', 2, [OA_FUNC_PTR, OA_BIT1, OA_NONE]),
     (''%evctl/c'', ''of_EVCTLC'', 0, [OA_NONE, OA_NONE, OA_NONE]),
     (''%evctl/i'', ''of_EVCTLI'', 2, [OA_FUNC_PTR, OA_BIT1, OA_NONE]),
     (''%evctl/s'', ''of_EVCTLS'', 2, [OA_FUNC_PTR, OA_BIT1, OA_NONE]),
     (''%force/link'', ''of_FORCE_LINK'', 2, [OA_FUNC_PTR, OA_FUNC_PTR2, OA_NONE]),
     (''%force/v'', ''of_FORCE_V'', 3, [OA_FUNC_PTR, OA_BIT1, OA_BIT2]),
     (''%force/wr'', ''of_FORCE_WR'', 2, [OA_FUNC_PTR, OA_BIT1, OA_NONE]),
     (''%force/x0'', ''of_FORCE_X0'', 3, [OA_FUNC_PTR, OA_BIT1, OA_BIT2]),
     (''%free'', ''of_FREE'', 1, [OA_VPI_PTR, OA_NONE, OA_NONE]),
     (''%inv'', ''of_INV'', 2, [OA_BIT1, OA_BIT2, OA_NONE]),
     (''%ix/add'', ''of_IX_ADD'', 3, [OA_NUMBER, OA_BIT1, OA_BIT2]),
     (''%ix/get'', ''of_IX_GET'', 3, [OA_BIT1, OA_BIT2, OA_NUMBER]),
     (''%ix/get/s'', ''of_IX_GET_S'', 3, [OA_BIT1, OA_BIT2, OA_NUMBER]),
     (''%ix/getv'', ''of_IX_GETV'', 2, [OA_BIT1, OA_FUNC_PTR, OA_NONE]),
     (''%ix/getv/s'', ''of_IX_GETV_S'', 2, [OA_BIT1, OA_FUNC_PTR, OA_NONE]),
     (''%ix/load'', ''of_IX_LOAD'', 3, [OA_NUMBER, OA_BIT1, OA_BIT2]),
     (''%ix/mul'', ''of_IX_MUL'', 3, [OA_NUMBER, OA_BIT1, OA_BIT2]),
     (''%ix/sub'', ''of_IX_SUB'', 3, [OA_NUMBER, OA_BIT1, OA_BIT2]),
     (''%jmp'', ''of_JMP'', 1, [OA_CODE_PTR, OA_NONE, OA_NONE]),
     (''%jmp/0'', ''of_JMP0'', 2, [OA_CODE_PTR, OA_BIT1, OA_NONE]),
     (''%jmp/0xz'', ''of_JMP0XZ'', 2, [OA_CODE_PTR, OA_BIT1, OA_NONE]),
     (''%jmp/1'', ''of_JMP1'', 2, [OA_CODE_PTR, OA_BIT1, OA_NONE]),
     (''%join'', ''of_JOIN'', 0, [OA_NONE, OA_NONE, OA_NONE]),
     (''%load/ar'', ''of_LOAD_AR'', 3, [OA_BIT1, OA_ARR_PTR, OA_BIT2]),
     (''%load/av'', ''of_LOAD_AV'', 3, [OA_BIT1, OA_ARR_PTR, OA_BIT2]),
     (''%load/avp0'', ''of_LOAD_AVP0'', 3, [OA_BIT1, OA_ARR_PTR, OA_BIT2]),
     (''%load/avp0/s'', ''of_LOAD_AVP0_S'', 3, [OA_BIT1, OA_ARR_PTR, OA_BIT2]),
     (''%load/avx.p'', ''of_LOAD_AVX_P'', 3, [OA_BIT1, OA_ARR_PTR, OA_BIT2]),
     (''%load/v'', ''of_LOAD_VEC'', 3, [OA_BIT1, OA_FUNC_PTR, OA_BIT2]),
     (''%load/vp0'', ''of_LOAD_VP0'', 3, [OA_BIT1, OA_FUNC_PTR, OA_BIT2]),
     (''%load/vp0/s'', ''of_LOAD_VP0_S'', 3, [OA_BIT1, OA_FUNC_PTR, OA_BIT2]),
     (''%load/wr'', ''of_LOAD_WR'', 2, [OA_BIT1, OA_VPI_PTR, OA_BIT2]),
     (''%load/x1p'', ''of_LOAD_X1P'', 3, [OA_BIT1, OA_FUNC_PTR, OA_BIT2]),
     (''%loadi/wr'', ''of_LOADI_WR'', 3, [OA_BIT1, OA_NUMBER, OA_BIT2]),
     (''%mod'', ''of_MOD'', 3, [OA_BIT1, OA_BIT2, OA_NUMBER]),
     (''%mod/s'', ''of_MOD_S'', 3, [OA_BIT1, OA_BIT2, OA_NUMBER]),
     (''%mod/wr'', ''of_MOD_WR'', 2, [OA_BIT1, OA_BIT2, OA_NONE]),
     (''%mov'', ''of_MOV'', 3, [OA_BIT1, OA_BIT2, OA_NUMBER]),
     (''%mov/wr'', ''of_MOV_WR'', 2, [OA_BIT1, OA_BIT2, OA_NONE]),
     (''%movi'', ''of_MOVI'', 3, [OA_BIT1, OA_BIT2, OA_NUMBER]),
     (''%mul'', ''of_MUL'', 3, [OA_BIT1, OA_BIT2, OA_NUMBER]),
     (''%mul/wr'', ''of_MUL_WR'', 2, [OA_BIT1, OA_BIT2, OA_NONE]),
     (''%muli'', ''of_MULI'', 3, [OA_BIT1, OA_BIT2, OA_NUMBER]),
     (''%nand'', ''of_NAND'', 3, [OA_BIT1, OA_BIT2, OA_NUMBER]),
     (''%nand/r'', ''of_NANDR'', 3, [OA_BIT1, OA_BIT2, OA_NUMBER]),
     (''%noop'', ''of_NOOP'', 0, [OA_NONE, OA_NONE, OA_NONE]),
     (''%nor'', ''of_NOR'', 3, [OA_BIT1, OA_BIT2, OA_NUMBER]),
     (''%nor/r'', ''of_NORR'', 3, [OA_BIT1, OA_BIT2, OA_NUMBER]),
     (''%or'', ''of_OR'', 3, [OA_BIT1, OA_BIT2, OA_NUMBER]),
     (''%or/r'', ''of_ORR'', 3, [OA_BIT1, OA_BIT2, OA_NUMBER]),
     (''%pow'', ''of_POW'', 3, [OA_BIT1, OA_BIT2, OA_NUMBER]),
     (''%pow/s'', ''of_POW_S'', 3, [OA_BIT1, OA_BIT2, OA_NUMBER]),
     (''%pow/wr'', ''of_POW_WR'', 2, [OA_BIT1, OA_BIT2, OA_NONE]),
     (''%release/net'', ''of_RELEASE_NET'', 3, [OA_FUNC_PTR, OA_BIT1, OA_BIT2]),
     (''%release/reg'', ''of_RELEASE_REG'', 3, [OA_FUNC_PTR, OA_BIT1, OA_BIT2]),
     (''%release/wr'', ''of_RELEASE_WR'', 2, [OA_FUNC_PTR, OA_BIT1, OA_NONE]),
     (''%set/ar'', ''of_SET_AR'', 3, [OA_ARR_PTR, OA_BIT1, OA_BIT2]),
     (''%set/av'', ''of_SET_AV'', 3, [OA_ARR_PTR, OA_BIT1, OA_BIT2]),
     (''%set/v'', ''of_SET_VEC'', 3, [OA_FUNC_PTR, OA_BIT1, OA_BIT2]),
     (''%set/wr'', ''of_SET_WORDR'', 2, [OA_FUNC_PTR, OA_BIT1, OA_NONE]),
     (''%set/x0'', ''of_SET_X0'', 3, [OA_FUNC_PTR, OA_BIT1, OA_BIT2]),
     (''%shiftl/i0'', ''of_SHIFTL_I0'', 2, [OA_BIT1, OA_NUMBER, OA_NONE]),
     (''%shiftr/i0'', ''of_SHIFTR_I0'', 2, [OA_BIT1, OA_NUMBER, OA_NONE]),
     (''%shiftr/s/i0'', ''of_SHIFTR_S_I0'', 2, [OA_BIT1, OA_NUMBER, OA_NONE]),
     (''%sub'', ''of_SUB'', 3, [OA_BIT1, OA_BIT2, OA_NUMBER]),
     (''%sub/wr'', ''of_SUB_WR'', 2, [OA_BIT1, OA_BIT2, OA_NONE]),
     (''%subi'', ''of_SUBI'', 3, [OA_BIT1, OA_BIT2, OA_NUMBER]),
     (''%wait'', ''of_WAIT'', 1, [OA_FUNC_PTR, OA_NONE, OA_NONE]),
     (''%xnor'', ''of_XNOR'', 3, [OA_BIT1, OA_BIT2, OA_NUMBER]),
     (''%xnor/r'', ''of_XNORR'', 3, [OA_BIT1, OA_BIT2, OA_NUMBER]),
     (''%xor'', ''of_XOR'', 3, [OA_BIT1, OA_BIT2, OA_NUMBER]),
     (''%xor/r'', ''of_XORR'', 3, [OA_BIT1, OA_BIT2, OA_NUMBER])]"

text \<open>The binary search of the C library.\<close>

function bsearch :: "string \<Rightarrow> opcode_entry list \<Rightarrow> nat \<Rightarrow> nat \<Rightarrow> opcode_entry option" where
  "bsearch key table lower upper =
     (if lower < upper then
        let idx = (lower + upper) div 2
        in if key < fst (table ! idx) then bsearch key table lower idx
           else if fst (table ! idx) < key then bsearch key table (idx + 1) upper
           else Some (table ! idx)
      else None)"
  by pat_completeness auto

termination bsearch
  by (relation "measure (\<lambda>(key, table, lower, upper). upper - lower)") auto

definition lookup_opcode :: "string \<Rightarrow> opcode_entry option" where
  "lookup_opcode mnem = bsearch mnem opcode_table 0 (length opcode_table)"

section \<open>Labels\<close>

text \<open>
  The state of the assembler. The symbol table of the code labels is held as the map that it stands
  for: theory \<open>Symbols\<close> models the table itself (vvp/symbols.cc) and C40 shows that it acts as such a
  map. The assertion of \<open>key_strdup_\<close>, which ends vvp on a label longer than a chunk of names, is in
  that theory and not here: the labels are taken to be shorter.
\<close>

record assembler =
  space :: codespace
  sym_codespace :: "string \<Rightarrow> code_address option"
  resolv_list :: "(code_address \<times> string) list"
  compile_errors :: nat
  messages :: "string list"

definition new_assembler :: assembler where
  "new_assembler =
     \<lparr>space = codespace_init, sym_codespace = (\<lambda>l. None), resolv_list = [], compile_errors = 0, messages = []\<rparr>"

definition print_message :: "string \<Rightarrow> assembler \<Rightarrow> assembler" where
  "print_message m st = st\<lparr>messages := messages st @ [m]\<rparr>"

definition count_error :: "assembler \<Rightarrow> assembler" where
  "count_error st = st\<lparr>compile_errors := compile_errors st + 1\<rparr>"

definition put_instruction :: "code_address \<Rightarrow> (vvp_code \<Rightarrow> vvp_code) \<Rightarrow> assembler \<Rightarrow> assembler" where
  "put_instruction a f st = st\<lparr>space := put_code (space st) a (f (code_at (space st) a))\<rparr>"

text \<open>A reference of an instruction to a code label: is it resolved?\<close>

definition code_label_resolve :: "code_address \<times> string \<Rightarrow> bool \<Rightarrow> assembler \<Rightarrow> assembler \<times> bool" where
  "code_label_resolve ref mes st =
     (case ref of (a, label) \<Rightarrow>
        (case sym_codespace st label of
           Some target \<Rightarrow>
             (put_instruction a
                (\<lambda>c. if opcode c = ''of_FORK'' then c\<lparr>cptr2 := Some target\<rparr> else c\<lparr>cptr := Some target\<rparr>) st, True)
         | None \<Rightarrow> (if mes then print_message (''unresolved code label: '' @ label) st else st, False)))"

definition resolv_submit :: "code_address \<times> string \<Rightarrow> assembler \<Rightarrow> assembler" where
  "resolv_submit ref st =
     (case code_label_resolve ref False st of (st, done) \<Rightarrow>
        if done then st else st\<lparr>resolv_list := ref # resolv_list st\<rparr>)"

definition compile_codelabel :: "string \<Rightarrow> assembler \<Rightarrow> assembler" where
  "compile_codelabel label st =
     (case codespace_next (space st) of (cs, ptr) \<Rightarrow>
        st\<lparr>space := cs, sym_codespace := (sym_codespace st)(label := Some ptr)\<rparr>)"

definition compile_label_opt :: "string option \<Rightarrow> assembler \<Rightarrow> assembler" where
  "compile_label_opt label st = (case label of None \<Rightarrow> st | Some l \<Rightarrow> compile_codelabel l st)"

definition allocate_instruction :: "string \<Rightarrow> assembler \<Rightarrow> assembler \<times> code_address" where
  "allocate_instruction f st =
     (case codespace_allocate (space st) of (cs, a) \<Rightarrow>
        (put_instruction a (\<lambda>c. c\<lparr>opcode := f\<rparr>) (st\<lparr>space := cs\<rparr>), a))"

section \<open>Instructions\<close>

text \<open>An operand of a statement: a number, or a symbol with an index.\<close>

datatype operand = L_NUMB nat | L_SYMB string nat

definition name_operand :: "operand_e \<Rightarrow> string \<Rightarrow> code_address \<Rightarrow> assembler \<Rightarrow> assembler" where
  "name_operand t text a = put_instruction a (\<lambda>c. c\<lparr>names := names c @ [(t, text)]\<rparr>)"

fun compile_operand :: "code_address \<Rightarrow> operand_e \<Rightarrow> operand \<Rightarrow> assembler \<Rightarrow> assembler result" where
  "compile_operand a OA_NONE opa st = Inr st"
| "compile_operand a OA_BIT1 (L_NUMB n) st = Inr (put_instruction a (\<lambda>c. c\<lparr>bit_idx0 := n mod 2 ^ 32\<rparr>) st)"
| "compile_operand a OA_BIT2 (L_NUMB n) st = Inr (put_instruction a (\<lambda>c. c\<lparr>bit_idx1 := n mod 2 ^ 32\<rparr>) st)"
| "compile_operand a OA_NUMBER (L_NUMB n) st = Inr (put_instruction a (\<lambda>c. c\<lparr>number := n mod 2 ^ 64\<rparr>) st)"
| "compile_operand a OA_CODE_PTR (L_SYMB text idx) st =
     (if idx = 0 then Inr (resolv_submit (a, text) st) else Inl ''assert'')"
| "compile_operand a OA_ARR_PTR (L_SYMB text idx) st = Inr (name_operand OA_ARR_PTR text a st)"
| "compile_operand a OA_FUNC_PTR (L_SYMB text idx) st = Inr (name_operand OA_FUNC_PTR text a st)"
| "compile_operand a OA_FUNC_PTR2 (L_SYMB text idx) st = Inr (name_operand OA_FUNC_PTR2 text a st)"
| "compile_operand a OA_VPI_PTR (L_SYMB text idx) st = Inr (name_operand OA_VPI_PTR text a st)"
| "compile_operand a t opa st = Inr (print_message ''operand format'' st)"

fun compile_operands :: "code_address \<Rightarrow> (operand_e \<times> operand) list \<Rightarrow> assembler \<Rightarrow> assembler result" where
  "compile_operands a [] st = Inr st"
| "compile_operands a ((t, opa) # rest) st = bind_result (compile_operand a t opa st) (compile_operands a rest)"

definition compile_code :: "string option \<Rightarrow> string \<Rightarrow> operand list \<Rightarrow> assembler \<Rightarrow> assembler result" where
  "compile_code label mnem opa st =
     (let st = compile_label_opt label st
      in case lookup_opcode mnem of
           None \<Rightarrow> Inr (count_error (print_message ''Invalid opcode'' st))
         | Some (mnem, f, argc, argt) \<Rightarrow>
             (case allocate_instruction f st of (st, code) \<Rightarrow>
                if argc \<noteq> length opa then Inr (count_error (print_message ''operand count'' st))
                else compile_operands code (zip argt opa) st))"

text \<open>The two statements with an instruction that is not in the table.\<close>

definition compile_disable :: "string option \<Rightarrow> string \<Rightarrow> assembler \<Rightarrow> assembler" where
  "compile_disable label symb st =
     (case allocate_instruction ''of_DISABLE'' (compile_label_opt label st) of (st, code) \<Rightarrow>
        name_operand OA_VPI_PTR symb code st)"

definition compile_fork :: "string option \<Rightarrow> string \<Rightarrow> string \<Rightarrow> assembler \<Rightarrow> assembler" where
  "compile_fork label dest scope st =
     (case allocate_instruction ''of_FORK'' (compile_label_opt label st) of (st, code) \<Rightarrow>
        name_operand OA_VPI_PTR scope code (resolv_submit (code, dest) st))"

section \<open>The last references\<close>

text \<open>One round over the list, which is rebuilt in the opposite order: the state and the number of failures.\<close>

fun resolve_round :: "bool \<Rightarrow> (code_address \<times> string) list \<Rightarrow> assembler \<Rightarrow> nat \<Rightarrow> assembler \<times> nat" where
  "resolve_round mes [] st nerrs = (st, nerrs)"
| "resolve_round mes (cur # rest) st nerrs =
     (case code_label_resolve cur mes st of (st, done) \<Rightarrow>
        if done then resolve_round mes rest st nerrs
        else resolve_round mes rest (st\<lparr>resolv_list := cur # resolv_list st\<rparr>) (nerrs + 1))"

text \<open>The rounds of \<open>compile_cleanup\<close>, as many as the bound allows; \<open>lnerrs\<close> is -1 at first.\<close>

fun cleanup_rounds :: "nat \<Rightarrow> int \<Rightarrow> nat \<Rightarrow> assembler \<Rightarrow> (assembler \<times> nat) option" where
  "cleanup_rounds 0 lnerrs nerrs st = None"
| "cleanup_rounds (Suc fuel) lnerrs nerrs st =
     (let final = (int nerrs = lnerrs); lnerrs = int nerrs
      in case resolve_round final (resolv_list st) (st\<lparr>resolv_list := []\<rparr>) 0 of (st, nerrs) \<Rightarrow>
        let st = (if nerrs \<noteq> 0 \<and> final then print_message (''compile_cleanup: '' @ string_of_nat nerrs @ '' unresolved items'') st else st)
        in if nerrs \<noteq> 0 \<and> \<not> final then cleanup_rounds fuel lnerrs nerrs st else Some (st, nerrs))"

definition compile_cleanup :: "nat \<Rightarrow> assembler \<Rightarrow> assembler option" where
  "compile_cleanup fuel st =
     (case cleanup_rounds fuel (- 1) 0 st of
        None \<Rightarrow> None
      | Some (st, nerrs) \<Rightarrow> Some (st\<lparr>compile_errors := compile_errors st + nerrs\<rparr>))"

end
