(* ===== verification/VThread.thy ===== *)
theory VThread
  imports Vector4Arrays VCode
begin

text \<open>
  The instructions of simulator threads that compute on the bits of the thread (\<open>vvp/vthread.cc\<close>): the state
  that they use, the arithmetic on arrays of machine words, and one definition per instruction. All these
  instructions return \<open>true\<close>, so the result is the state of the thread. The code chooses between two
  variants of an instruction when it is run for the first time and stores the choice in the instruction;
  it depends on operands that do not change, so here it is made every time.
\<close>

section \<open>Threads\<close>

text \<open>
  The part of a thread that these instructions use. A word register holds an integer of 64 bits here; the
  instructions for floating point are left out.
\<close>

record vthread =
  pc :: code_address
  thr_bits :: vector4
  thr_words :: "nat \<Rightarrow> int"

definition thr_check_addr :: "vthread \<Rightarrow> nat \<Rightarrow> vthread" where
  "thr_check_addr thr addr =
     (if size4 (thr_bits thr) \<le> addr then thr\<lparr>thr_bits := resize (thr_bits thr) (addr + 1)\<rparr> else thr)"

definition thr_get_bit :: "vthread \<Rightarrow> nat \<Rightarrow> bit4 result" where
  "thr_get_bit thr addr =
     (if addr < size4 (thr_bits thr) then Inr (value4 (thr_bits thr) addr) else Inl ''assert'')"

definition with_bits :: "vthread \<Rightarrow> vector4 result \<Rightarrow> vthread result" where
  "with_bits thr r = bind_result r (\<lambda>v. Inr (thr\<lparr>thr_bits := v\<rparr>))"

definition thr_put_bit :: "vthread \<Rightarrow> nat \<Rightarrow> bit4 \<Rightarrow> vthread result" where
  "thr_put_bit thr addr b =
     (let thr = thr_check_addr thr addr in with_bits thr (set_bit4 (thr_bits thr) addr b))"

definition thr_set_vec :: "vthread \<Rightarrow> nat \<Rightarrow> vector4 \<Rightarrow> vthread result" where
  "thr_set_vec thr addr v = with_bits thr (set_vec (thr_bits thr) addr v)"

definition thr_setarray :: "vthread \<Rightarrow> nat \<Rightarrow> nat \<Rightarrow> word64 list \<Rightarrow> vthread result" where
  "thr_setarray thr addr wid val = with_bits thr (setarray (thr_bits thr) addr wid val)"

text \<open>Addresses below 4 stand for constants.\<close>

definition thr_index_to_bit4 :: "nat \<Rightarrow> bit4" where
  "thr_index_to_bit4 i = [BIT4_0, BIT4_1, BIT4_X, BIT4_Z] ! i"

definition array_words :: "nat \<Rightarrow> nat" where
  "array_words wid = (wid + 64 - 1) div 64"

definition vector_to_array :: "vthread \<Rightarrow> nat \<Rightarrow> nat \<Rightarrow> word64 list option result" where
  "vector_to_array thr addr wid =
     (let awid = array_words wid
      in if addr = 0 then Inr (Some (replicate awid 0))
         else if addr = 1 then
           let rest = wid - (awid - 1) * 64; val = replicate awid (- 1)
           in Inr (Some (if 0 < awid \<and> rest < 64 then val[awid - 1 := - 1 AND drop_bit (64 - rest) (- 1)] else val))
         else if addr < 4 then Inr None
         else subarray (thr_bits thr) addr wid)"

definition vthread_bits_to_vector :: "vthread \<Rightarrow> nat \<Rightarrow> nat \<Rightarrow> vector4 result" where
  "vthread_bits_to_vector thr b wid =
     (if 4 \<le> b then subvalue (thr_bits thr) b wid else Inr (new_vector4 wid (thr_index_to_bit4 b)))"

text \<open>
  A new thread: 32 bits, of which the first four are the constants. The word registers start with
  unspecified values, which are an argument here.
\<close>

definition vthread_new :: "code_address \<Rightarrow> (nat \<Rightarrow> int) \<Rightarrow> vthread result" where
  "vthread_new start ws =
     bind_result (thr_put_bit \<lparr>pc = start, thr_bits = new_vector4 32 BIT4_X, thr_words = ws\<rparr> 0 BIT4_0) (\<lambda>thr.
       bind_result (thr_put_bit thr 1 BIT4_1) (\<lambda>thr.
         bind_result (thr_put_bit thr 2 BIT4_X) (\<lambda>thr.
           thr_put_bit thr 3 BIT4_Z)))"

section \<open>Arithmetic on words\<close>

definition word_add_with_carry :: "word64 \<Rightarrow> word64 \<Rightarrow> word64 \<Rightarrow> word64 \<times> word64" where
  "word_add_with_carry a b carry =
     (let tmp = b + carry; s = a + tmp
      in (s, if tmp < b \<or> s < tmp \<or> s < a then 1 else 0))"

definition multiply_with_carry :: "word64 \<Rightarrow> word64 \<Rightarrow> word64 \<times> word64" where
  "multiply_with_carry a b =
     (let mask = push_bit 32 1 - 1;
        a0 = a AND mask; a1 = drop_bit 32 a AND mask;
        b0 = b AND mask; b1 = drop_bit 32 b AND mask;
        tmp = a0 * b0; r00 = tmp AND mask; c00 = drop_bit 32 tmp AND mask;
        tmp = a0 * b1; r01 = tmp AND mask; c01 = drop_bit 32 tmp AND mask;
        tmp = a1 * b0; r10 = tmp AND mask; c10 = drop_bit 32 tmp AND mask;
        tmp = a1 * b1; r11 = tmp AND mask; c11 = drop_bit 32 tmp AND mask;
        r1 = c00 + r01 + r10;
        r2 = drop_bit 32 r1 AND mask;
        r1 = r1 AND mask;
        r2 = r2 + (c01 + c10 + r11);
        r3 = drop_bit 32 r2 AND mask;
        r2 = r2 AND mask;
        r3 = r3 + c11;
        r3 = r3 AND mask
      in (push_bit 32 r1 + r00, push_bit 32 r3 + r2))"

text \<open>The loops over the words of two arrays, from the lowest word.\<close>

fun add_arrays :: "word64 \<Rightarrow> word64 list \<Rightarrow> word64 list \<Rightarrow> word64 list" where
  "add_arrays carry (a # as) (b # bs) =
     (case word_add_with_carry a b carry of (s, carry) \<Rightarrow> s # add_arrays carry as bs)"
| "add_arrays carry as bs = as"

text \<open>A product of two words is added at a word: the low half there and the high half after it.\<close>

fun add_high :: "word64 \<Rightarrow> word64 \<Rightarrow> word64 list \<Rightarrow> word64 list" where
  "add_high high carry [] = []"
| "add_high high carry (r # res) =
     (case word_add_with_carry r high carry of (x, carry) \<Rightarrow> x # add_high 0 carry res)"

definition add_product :: "word64 \<Rightarrow> word64 \<Rightarrow> nat \<Rightarrow> word64 list \<Rightarrow> word64 list" where
  "add_product a b base res =
     (case multiply_with_carry a b of
        (tmp, high) \<Rightarrow>
          (case drop base res of
             [] \<Rightarrow> res
           | r # rs \<Rightarrow> (case word_add_with_carry r tmp 0 of
               (x, carry) \<Rightarrow> take base res @ x # add_high high carry rs)))"

definition multiply_array_imm :: "word64 list \<Rightarrow> word64 \<Rightarrow> word64 list" where
  "multiply_array_imm val imm =
     fold (\<lambda>i. add_product (val ! i) imm i) [0..<length val] (replicate (length val) 0)"

definition multiply_arrays :: "word64 list \<Rightarrow> word64 list \<Rightarrow> word64 list" where
  "multiply_arrays ap bp =
     (let words = length ap
      in fold (\<lambda>i. fold (\<lambda>j. add_product (ap ! i) (bp ! j) (i + j)) [0..<words - i]) [0..<words]
           (replicate words 0))"

section \<open>Arithmetic instructions\<close>

text \<open>What an instruction does when an operand has an X or Z.\<close>

definition put_x :: "vthread \<Rightarrow> nat \<Rightarrow> nat \<Rightarrow> vthread result" where
  "put_x thr addr wid = thr_set_vec thr addr (new_vector4 wid BIT4_X)"

definition binary_array_op :: "(word64 list \<Rightarrow> word64 list \<Rightarrow> word64 list) \<Rightarrow> vthread \<Rightarrow> vvp_code \<Rightarrow> vthread result" where
  "binary_array_op f thr cp =
     (if bit_idx0 cp < 4 then Inl ''assert''
      else bind_result (vector_to_array thr (bit_idx0 cp) (number cp)) (\<lambda>lva.
        bind_result (vector_to_array thr (bit_idx1 cp) (number cp)) (\<lambda>lvb.
          case (lva, lvb) of
            (Some a, Some b) \<Rightarrow> thr_setarray thr (bit_idx0 cp) (number cp) (f a b)
          | _ \<Rightarrow> put_x thr (bit_idx0 cp) (number cp))))"

definition of_ADD :: "vthread \<Rightarrow> vvp_code \<Rightarrow> vthread result" where
  "of_ADD = binary_array_op (add_arrays 0)"

definition of_SUB :: "vthread \<Rightarrow> vvp_code \<Rightarrow> vthread result" where
  "of_SUB = binary_array_op (\<lambda>a b. add_arrays 1 a (map (\<lambda>w. NOT w) b))"

text \<open>A product of at most one word is computed in this word.\<close>

definition multiply_wid :: "nat \<Rightarrow> word64 list \<Rightarrow> word64 list \<Rightarrow> word64 list result" where
  "multiply_wid wid a b =
     (if wid \<le> 64 then bind_result (word_at a 0) (\<lambda>x. bind_result (word_at b 0) (\<lambda>y. Inr (a[0 := x * y])))
      else Inr (multiply_arrays a b))"

definition of_MUL :: "vthread \<Rightarrow> vvp_code \<Rightarrow> vthread result" where
  "of_MUL thr cp =
     (let adra = bit_idx0 cp; adrb = bit_idx1 cp; wid = number cp
      in if adra < 4 then Inl ''assert''
         else bind_result (vector_to_array thr adra wid) (\<lambda>ap.
           case ap of
             None \<Rightarrow> put_x thr adra wid
           | Some a \<Rightarrow> bind_result (vector_to_array thr adrb wid) (\<lambda>bp.
               case bp of
                 None \<Rightarrow> put_x thr adra wid
               | Some b \<Rightarrow> bind_result (multiply_wid wid a b) (thr_setarray thr adra wid))))"

definition immediate_array_op :: "(word64 list \<Rightarrow> word64 \<Rightarrow> word64 list) \<Rightarrow> vthread \<Rightarrow> vvp_code \<Rightarrow> vthread result" where
  "immediate_array_op f thr cp =
     (if bit_idx0 cp < 4 then Inl ''assert''
      else bind_result (vector_to_array thr (bit_idx0 cp) (number cp)) (\<lambda>lva.
        case lva of
          Some a \<Rightarrow> thr_setarray thr (bit_idx0 cp) (number cp) (f a (of_nat (bit_idx1 cp)))
        | None \<Rightarrow> put_x thr (bit_idx0 cp) (number cp)))"

text \<open>The immediate value is the lowest word, the others are zero.\<close>

definition imm_array :: "nat \<Rightarrow> word64 \<Rightarrow> word64 list" where
  "imm_array n imm = map (\<lambda>i. if i = 0 then imm else 0) [0..<n]"

definition of_ADDI :: "vthread \<Rightarrow> vvp_code \<Rightarrow> vthread result" where
  "of_ADDI = immediate_array_op (\<lambda>a imm. add_arrays 0 a (imm_array (length a) imm))"

definition of_SUBI :: "vthread \<Rightarrow> vvp_code \<Rightarrow> vthread result" where
  "of_SUBI = immediate_array_op (\<lambda>a imm. add_arrays 1 a (map (\<lambda>w. NOT w) (imm_array (length a) imm)))"

definition of_MULI :: "vthread \<Rightarrow> vvp_code \<Rightarrow> vthread result" where
  "of_MULI thr cp =
     (let adr = bit_idx0 cp; imm = of_nat (bit_idx1 cp); wid = number cp
      in if adr < 4 then Inl ''assert''
         else bind_result (vector_to_array thr adr wid) (\<lambda>val.
           case val of
             None \<Rightarrow> put_x thr adr wid
           | Some a \<Rightarrow>
               bind_result
                 (if wid \<le> 64 then bind_result (word_at a 0) (\<lambda>x. Inr (a[0 := x * imm]))
                  else Inr (multiply_array_imm a imm))
                 (thr_setarray thr adr wid)))"

section \<open>Bitwise instructions\<close>

text \<open>A loop over bit positions.\<close>

fun each :: "('i \<Rightarrow> 'a \<Rightarrow> 'a result) \<Rightarrow> 'i list \<Rightarrow> 'a \<Rightarrow> 'a result" where
  "each f [] s = Inr s"
| "each f (i # is) s = bind_result (f i s) (each f is)"

text \<open>An operand at a constant address does not move.\<close>

definition operand_bit :: "nat \<Rightarrow> nat \<Rightarrow> nat" where
  "operand_bit addr i = (if 4 \<le> addr then addr + i else addr)"

text \<open>
  The narrow variants go bit by bit and read every bit after the previous one was written; the wide
  variants read both vectors first.
\<close>

definition narrow_op :: "(bit4 \<Rightarrow> bit4 \<Rightarrow> bit4) \<Rightarrow> vthread \<Rightarrow> vvp_code \<Rightarrow> vthread result" where
  "narrow_op f thr cp =
     each (\<lambda>i thr.
         bind_result (thr_get_bit thr (bit_idx0 cp + i)) (\<lambda>lb.
           bind_result (thr_get_bit thr (operand_bit (bit_idx1 cp) i)) (\<lambda>rb.
             thr_put_bit thr (bit_idx0 cp + i) (f lb rb))))
       [0..<number cp] thr"

definition wide_op :: "(vector4 \<Rightarrow> vector4 \<Rightarrow> vector4 result) \<Rightarrow> vthread \<Rightarrow> vvp_code \<Rightarrow> vthread result" where
  "wide_op f thr cp =
     bind_result (vthread_bits_to_vector thr (bit_idx0 cp) (number cp)) (\<lambda>val.
       bind_result (vthread_bits_to_vector thr (bit_idx1 cp) (number cp)) (\<lambda>that.
         bind_result (f val that) (\<lambda>val. thr_set_vec thr (bit_idx0 cp) val)))"

definition bitwise_op ::
    "(bit4 \<Rightarrow> bit4 \<Rightarrow> bit4) \<Rightarrow> (vector4 \<Rightarrow> vector4 \<Rightarrow> vector4 result) \<Rightarrow> vthread \<Rightarrow> vvp_code \<Rightarrow> vthread result" where
  "bitwise_op narrow wide thr cp =
     (if bit_idx0 cp < 4 then Inl ''assert''
      else if number cp \<le> 4 then narrow_op narrow thr cp else wide_op wide thr cp)"

definition inverted :: "vector4 result \<Rightarrow> vector4 result" where
  "inverted r = bind_result r (\<lambda>v. Inr (invert v))"

definition of_AND :: "vthread \<Rightarrow> vvp_code \<Rightarrow> vthread result" where
  "of_AND = bitwise_op bit4_and vector_and"

definition of_OR :: "vthread \<Rightarrow> vvp_code \<Rightarrow> vthread result" where
  "of_OR = bitwise_op bit4_or vector_or"

definition of_NAND :: "vthread \<Rightarrow> vvp_code \<Rightarrow> vthread result" where
  "of_NAND = bitwise_op (\<lambda>a b. bit4_not (bit4_and a b)) (\<lambda>v w. inverted (vector_and v w))"

definition of_NOR :: "vthread \<Rightarrow> vvp_code \<Rightarrow> vthread result" where
  "of_NOR = bitwise_op (\<lambda>a b. bit4_not (bit4_or a b)) (\<lambda>v w. inverted (vector_or v w))"

definition bit4_xor :: "bit4 \<Rightarrow> bit4 \<Rightarrow> bit4" where
  "bit4_xor a b =
     (if bit4_is_xz a then BIT4_X else if bit4_is_xz b then BIT4_X
      else if a = BIT4_0 then b else if b = BIT4_0 then a else BIT4_0)"

definition of_XNOR :: "vthread \<Rightarrow> vvp_code \<Rightarrow> vthread result" where
  "of_XNOR thr cp =
     (if bit_idx0 cp < 4 then Inl ''assert'' else narrow_op (\<lambda>a b. bit4_not (bit4_xor a b)) thr cp)"

text \<open>The cases of \<open>of_XOR\<close>.\<close>

definition xor_cases :: "bit4 \<Rightarrow> bit4 \<Rightarrow> bit4" where
  "xor_cases lb rb =
     (if lb = BIT4_1 \<and> rb = BIT4_1 then BIT4_0
      else if lb = BIT4_0 \<and> rb = BIT4_0 then BIT4_0
      else if lb = BIT4_1 \<and> rb = BIT4_0 then BIT4_1
      else if lb = BIT4_0 \<and> rb = BIT4_1 then BIT4_1
      else BIT4_X)"

definition of_XOR :: "vthread \<Rightarrow> vvp_code \<Rightarrow> vthread result" where
  "of_XOR thr cp = (if bit_idx0 cp < 4 then Inl ''assert'' else narrow_op xor_cases thr cp)"

text \<open>The width of \<open>%inv\<close> is the second operand; the choice of the variant looks at the third.\<close>

definition of_INV :: "vthread \<Rightarrow> vvp_code \<Rightarrow> vthread result" where
  "of_INV thr cp =
     (let idx1 = bit_idx0 cp; wid = bit_idx1 cp
      in if idx1 < 4 then Inl ''assert''
         else if number cp \<le> 4 then
           each (\<lambda>i thr. bind_result (thr_get_bit thr (idx1 + i)) (\<lambda>lb. thr_put_bit thr (idx1 + i) (bit4_not lb)))
             [0..<wid] thr
         else bind_result (vthread_bits_to_vector thr idx1 wid) (\<lambda>val. thr_set_vec thr idx1 (invert val)))"

text \<open>The immediate of \<open>%andi\<close> is written into a vector of zeros.\<close>

definition of_ANDI :: "vthread \<Rightarrow> vvp_code \<Rightarrow> vthread result" where
  "of_ANDI thr cp =
     (let idx1 = bit_idx0 cp; wid = number cp
      in if idx1 < 4 then Inl ''assert''
         else bind_result (vthread_bits_to_vector thr idx1 wid) (\<lambda>val.
           bind_result (setarray (new_vector4 wid BIT4_0) 0 (if 64 < wid then 64 else wid) [of_nat (bit_idx1 cp)]) (\<lambda>imv.
             bind_result (vector_and val imv) (thr_set_vec thr idx1))))"

text \<open>The bits that differ become X.\<close>

definition of_BLEND :: "vthread \<Rightarrow> vvp_code \<Rightarrow> vthread result" where
  "of_BLEND thr cp =
     (if bit_idx0 cp < 4 then Inl ''assert''
      else each (\<lambda>i thr.
             bind_result (thr_get_bit thr (bit_idx0 cp + i)) (\<lambda>lb.
               bind_result (thr_get_bit thr (operand_bit (bit_idx1 cp) i)) (\<lambda>rb.
                 if lb \<noteq> rb then thr_put_bit thr (bit_idx0 cp + i) BIT4_X else Inr thr)))
           [0..<number cp] thr)"

section \<open>Reductions\<close>

text \<open>The result so far, and whether the loop ends.\<close>

fun reduce_bits :: "(bit4 \<Rightarrow> bit4 \<Rightarrow> bit4 \<times> bool) \<Rightarrow> vthread \<Rightarrow> nat list \<Rightarrow> bit4 \<Rightarrow> bit4 result" where
  "reduce_bits f thr [] lb = Inr lb"
| "reduce_bits f thr (a # as) lb =
     bind_result (thr_get_bit thr a) (\<lambda>rb.
       case f lb rb of (lb, stop) \<Rightarrow> if stop then Inr lb else reduce_bits f thr as lb)"

definition reduction :: "bit4 \<Rightarrow> (bit4 \<Rightarrow> bit4 \<Rightarrow> bit4 \<times> bool) \<Rightarrow> vthread \<Rightarrow> vvp_code \<Rightarrow> vthread result" where
  "reduction start f thr cp =
     (if bit_idx0 cp < 4 then Inl ''assert''
      else bind_result (reduce_bits f thr [bit_idx1 cp..<bit_idx1 cp + number cp] start) (\<lambda>lb.
        thr_put_bit thr (bit_idx0 cp) lb))"

definition stop_at :: "bit4 \<Rightarrow> bit4 \<Rightarrow> bit4 \<Rightarrow> bit4 \<Rightarrow> bit4 \<times> bool" where
  "stop_at stop found lb rb =
     (if rb = stop then (found, True)
      else if rb \<noteq> (if stop = BIT4_0 then BIT4_1 else BIT4_0) then (BIT4_X, False) else (lb, False))"

definition parity :: "bit4 \<Rightarrow> bit4 \<Rightarrow> bit4 \<times> bool" where
  "parity lb rb =
     (if rb = BIT4_1 then (bit4_not lb, False) else if rb \<noteq> BIT4_0 then (BIT4_X, True) else (lb, False))"

definition of_ANDR :: "vthread \<Rightarrow> vvp_code \<Rightarrow> vthread result" where
  "of_ANDR = reduction BIT4_1 (stop_at BIT4_0 BIT4_0)"

definition of_NANDR :: "vthread \<Rightarrow> vvp_code \<Rightarrow> vthread result" where
  "of_NANDR = reduction BIT4_0 (stop_at BIT4_0 BIT4_1)"

definition of_ORR :: "vthread \<Rightarrow> vvp_code \<Rightarrow> vthread result" where
  "of_ORR = reduction BIT4_0 (stop_at BIT4_1 BIT4_1)"

definition of_NORR :: "vthread \<Rightarrow> vvp_code \<Rightarrow> vthread result" where
  "of_NORR = reduction BIT4_1 (stop_at BIT4_1 BIT4_0)"

definition of_XORR :: "vthread \<Rightarrow> vvp_code \<Rightarrow> vthread result" where
  "of_XORR = reduction BIT4_0 parity"

definition of_XNORR :: "vthread \<Rightarrow> vvp_code \<Rightarrow> vthread result" where
  "of_XNORR = reduction BIT4_1 parity"

section \<open>Comparisons\<close>

definition put_flags :: "vthread \<Rightarrow> (nat \<times> bit4) list \<Rightarrow> vthread result" where
  "put_flags thr flags = each (\<lambda>(a, b) thr. thr_put_bit thr a b) flags thr"

fun compare_arrays :: "word64 list \<Rightarrow> word64 list \<Rightarrow> bit4 \<Rightarrow> bit4 \<Rightarrow> bit4 \<times> bit4" where
  "compare_arrays (a # as) (b # bs) eq lt =
     (if a = b then compare_arrays as bs eq lt
      else compare_arrays as bs BIT4_0 (if a < b then BIT4_1 else BIT4_0))"
| "compare_arrays as bs eq lt = (eq, lt)"

text \<open>\<open>eq\<close> and \<open>eeq\<close> when some bit is X or Z; the loop ends at a mismatch of defined bits.\<close>

fun compare_hard :: "vthread \<Rightarrow> nat \<Rightarrow> nat \<Rightarrow> nat list \<Rightarrow> bit4 \<Rightarrow> bit4 \<Rightarrow> (bit4 \<times> bit4) result" where
  "compare_hard thr idx1 idx2 [] eq same = Inr (eq, same)"
| "compare_hard thr idx1 idx2 (i # is) eq same =
     bind_result (thr_get_bit thr (operand_bit idx1 i)) (\<lambda>lv.
       bind_result (thr_get_bit thr (operand_bit idx2 i)) (\<lambda>rv.
         let same = (if lv \<noteq> rv then BIT4_0 else same);
           eq = (if eq = BIT4_1 \<and> (bit4_is_xz lv \<or> bit4_is_xz rv) then BIT4_X else eq);
           eq = (if lv = BIT4_0 \<and> rv = BIT4_1 then BIT4_0 else eq);
           eq = (if lv = BIT4_1 \<and> rv = BIT4_0 then BIT4_0 else eq)
         in if eq = BIT4_0 then Inr (eq, same) else compare_hard thr idx1 idx2 is eq same))"

definition of_CMPU_the_hard_way :: "vthread \<Rightarrow> vvp_code \<Rightarrow> vthread result" where
  "of_CMPU_the_hard_way thr cp =
     bind_result (compare_hard thr (bit_idx0 cp) (bit_idx1 cp) [0..<number cp] BIT4_1 BIT4_1) (\<lambda>(eq, same).
       put_flags thr [(4, eq), (5, BIT4_X), (6, same)])"

definition of_CMPU :: "vthread \<Rightarrow> vvp_code \<Rightarrow> vthread result" where
  "of_CMPU thr cp =
     bind_result (vector_to_array thr (bit_idx0 cp) (number cp)) (\<lambda>larray.
       case larray of
         None \<Rightarrow> of_CMPU_the_hard_way thr cp
       | Some a \<Rightarrow> bind_result (vector_to_array thr (bit_idx1 cp) (number cp)) (\<lambda>rarray.
           case rarray of
             None \<Rightarrow> of_CMPU_the_hard_way thr cp
           | Some b \<Rightarrow> (case compare_arrays a b BIT4_1 BIT4_0 of
               (eq, lt) \<Rightarrow> put_flags thr [(4, eq), (5, lt), (6, eq)])))"

text \<open>\<open>%cmp/x\<close> and \<open>%cmp/z\<close>: the first pair of bits that differ ends the loop.\<close>

fun compare_wild :: "(bit4 \<Rightarrow> bit4 \<Rightarrow> bool) \<Rightarrow> vthread \<Rightarrow> nat \<Rightarrow> nat \<Rightarrow> nat list \<Rightarrow> bit4 result" where
  "compare_wild differ thr idx1 idx2 [] = Inr BIT4_1"
| "compare_wild differ thr idx1 idx2 (i # is) =
     bind_result (thr_get_bit thr (operand_bit idx1 i)) (\<lambda>lv.
       bind_result (thr_get_bit thr (operand_bit idx2 i)) (\<lambda>rv.
         if differ lv rv then Inr BIT4_0 else compare_wild differ thr idx1 idx2 is))"

definition of_CMPX :: "vthread \<Rightarrow> vvp_code \<Rightarrow> vthread result" where
  "of_CMPX thr cp =
     bind_result (compare_wild (\<lambda>lv rv. lv \<noteq> rv \<and> \<not> bit4_is_xz lv \<and> \<not> bit4_is_xz rv) thr (bit_idx0 cp) (bit_idx1 cp) [0..<number cp])
       (\<lambda>eq. thr_put_bit thr 4 eq)"

definition of_CMPZ :: "vthread \<Rightarrow> vvp_code \<Rightarrow> vthread result" where
  "of_CMPZ thr cp =
     bind_result (compare_wild (\<lambda>lv rv. lv \<noteq> BIT4_Z \<and> rv \<noteq> BIT4_Z \<and> lv \<noteq> rv) thr (bit_idx0 cp) (bit_idx1 cp) [0..<number cp])
       (\<lambda>eq. thr_put_bit thr 4 eq)"

text \<open>The signed comparison; bits are ordered as the code numbers them.\<close>

fun bit4_number :: "bit4 \<Rightarrow> nat" where
  "bit4_number BIT4_0 = 0"
| "bit4_number BIT4_1 = 1"
| "bit4_number BIT4_Z = 2"
| "bit4_number BIT4_X = 3"

definition cmps_bit :: "bit4 \<Rightarrow> bit4 \<Rightarrow> bit4 \<times> bit4 \<times> bit4 \<Rightarrow> bit4 \<times> bit4 \<times> bit4" where
  "cmps_bit lv rv = (\<lambda>(eq, same, lt).
     let (lt, same) =
           (if bit4_number rv < bit4_number lv then (BIT4_0, BIT4_0)
            else if bit4_number lv < bit4_number rv then (BIT4_1, BIT4_0) else (lt, same));
       eq = (if eq = BIT4_X then eq
             else let eq = (if lv = BIT4_0 \<and> rv \<noteq> BIT4_0 then BIT4_0 else eq);
                 eq = (if lv = BIT4_1 \<and> rv \<noteq> BIT4_1 then BIT4_0 else eq)
               in if bit4_is_xz lv \<or> bit4_is_xz rv then BIT4_X else eq)
     in (eq, same, lt))"

fun compare_signed :: "vthread \<Rightarrow> nat \<Rightarrow> nat \<Rightarrow> nat list \<Rightarrow> bit4 \<times> bit4 \<times> bit4 \<Rightarrow> (bit4 \<times> bit4 \<times> bit4) result" where
  "compare_signed thr idx1 idx2 [] s = Inr s"
| "compare_signed thr idx1 idx2 (i # is) s =
     bind_result (thr_get_bit thr (operand_bit idx1 i)) (\<lambda>lv.
       bind_result (thr_get_bit thr (operand_bit idx2 i)) (\<lambda>rv.
         compare_signed thr idx1 idx2 is (cmps_bit lv rv s)))"

definition signed_lt :: "bit4 \<Rightarrow> bit4 \<Rightarrow> bit4 \<Rightarrow> bit4 \<Rightarrow> bit4" where
  "signed_lt eq sig1 sig2 lt =
     (let lt =
          (if eq = BIT4_X then BIT4_X
           else if sig1 = BIT4_1 \<and> sig2 = BIT4_0 then BIT4_1
           else if sig1 = BIT4_0 \<and> sig2 = BIT4_1 then BIT4_0
           else lt)
      in if lt \<noteq> BIT4_X then
           let lt = (if sig1 = BIT4_1 \<and> sig2 = BIT4_0 then BIT4_1 else lt)
           in if sig1 = BIT4_0 \<and> sig2 = BIT4_1 then BIT4_0 else lt
         else lt)"

definition of_CMPS :: "vthread \<Rightarrow> vvp_code \<Rightarrow> vthread result" where
  "of_CMPS thr cp =
     (let idx1 = bit_idx0 cp; idx2 = bit_idx1 cp;
        end1 = (if idx1 < 4 then idx1 else idx1 + number cp - 1);
        end2 = (if idx2 < 4 then idx2 else idx2 + number cp - 1);
        thr = thr_check_addr thr (if end2 < end1 then end1 else end2)
      in bind_result (thr_get_bit thr end1) (\<lambda>sig1.
           bind_result (thr_get_bit thr end2) (\<lambda>sig2.
             bind_result (compare_signed thr idx1 idx2 [0..<number cp] (BIT4_1, BIT4_1, BIT4_0)) (\<lambda>(eq, same, lt).
               put_flags thr [(4, eq), (5, signed_lt eq sig1 sig2 lt), (6, same)]))))"

text \<open>Comparisons with an immediate value of 32 bits, which is shifted to get its next bit.\<close>

fun compare_signed_imm :: "vthread \<Rightarrow> nat \<Rightarrow> 32 word \<Rightarrow> nat list \<Rightarrow> bit4 \<times> bit4 \<times> bit4 \<Rightarrow> (bit4 \<times> bit4 \<times> bit4) result" where
  "compare_signed_imm thr idx1 imm [] s = Inr s"
| "compare_signed_imm thr idx1 imm (i # is) s =
     bind_result (thr_get_bit thr (operand_bit idx1 i)) (\<lambda>lv.
       compare_signed_imm thr idx1 (drop_bit 1 imm) is (cmps_bit lv (if bit imm 0 then BIT4_1 else BIT4_0) s))"

definition of_CMPIS :: "vthread \<Rightarrow> vvp_code \<Rightarrow> vthread result" where
  "of_CMPIS thr cp =
     (let idx1 = bit_idx0 cp; imm = of_nat (bit_idx1 cp);
        end1 = (if idx1 < 4 then idx1 else idx1 + number cp - 1);
        thr = thr_check_addr thr end1
      in bind_result (thr_get_bit thr end1) (\<lambda>sig1.
           bind_result (compare_signed_imm thr idx1 imm [0..<number cp] (BIT4_1, BIT4_1, BIT4_0)) (\<lambda>(eq, same, lt).
             put_flags thr [(4, eq), (5, if eq = BIT4_X then BIT4_X else if sig1 = BIT4_1 then BIT4_1 else lt), (6, same)])))"

text \<open>The bit that the loop has read already is an argument; the next one is only read if there is one.\<close>

fun compare_hard_imm :: "vthread \<Rightarrow> nat \<Rightarrow> nat \<Rightarrow> word64 \<Rightarrow> bit4 \<Rightarrow> nat \<Rightarrow> bit4 \<Rightarrow> bit4 result" where
  "compare_hard_imm thr idx1 0 imm lv idx eq = Inr eq"
| "compare_hard_imm thr idx1 (Suc left) imm lv idx eq =
     (let rv = (if bit imm 0 then BIT4_1 else BIT4_0); imm = drop_bit 1 imm
      in if \<not> bit4_is_xz lv \<and> lv \<noteq> rv then Inr BIT4_0
         else let eq = (if bit4_is_xz lv then BIT4_X else eq)
           in if 4 \<le> idx1 \<and> 0 < left then
                bind_result (thr_get_bit thr (idx1 + idx + 1)) (\<lambda>lv. compare_hard_imm thr idx1 left imm lv (idx + 1) eq)
              else compare_hard_imm thr idx1 left imm lv (idx + 1) eq)"

definition of_CMPIU_the_hard_way :: "vthread \<Rightarrow> vvp_code \<Rightarrow> vthread result" where
  "of_CMPIU_the_hard_way thr cp =
     (let idx1 = bit_idx0 cp; wid = number cp;
        thr = (if 4 \<le> idx1 then thr_check_addr thr (idx1 + wid - 1) else thr)
      in bind_result (thr_get_bit thr idx1) (\<lambda>lv.
           bind_result (compare_hard_imm thr idx1 wid (of_nat (bit_idx1 cp)) lv 0 BIT4_1) (\<lambda>eq.
             put_flags thr [(4, eq), (5, BIT4_X), (6, BIT4_0)])))"

definition of_CMPIU :: "vthread \<Rightarrow> vvp_code \<Rightarrow> vthread result" where
  "of_CMPIU thr cp =
     bind_result (vector_to_array thr (bit_idx0 cp) (number cp)) (\<lambda>array.
       case array of
         None \<Rightarrow> of_CMPIU_the_hard_way thr cp
       | Some a \<Rightarrow> (case compare_arrays a (imm_array (length a) (of_nat (bit_idx1 cp))) BIT4_1 BIT4_0 of
           (eq, lt) \<Rightarrow> put_flags thr [(4, eq), (5, lt), (6, eq)]))"

section \<open>Moves and shifts\<close>

definition of_MOV :: "vthread \<Rightarrow> vvp_code \<Rightarrow> vthread result" where
  "of_MOV thr cp =
     (let dst = bit_idx0 cp; src = bit_idx1 cp; wid = number cp
      in if dst < 4 then Inl ''assert''
         else if 4 \<le> src then
           let thr = thr_check_addr (thr_check_addr thr (dst + wid - 1)) (src + wid - 1)
           in bind_result (subvalue (thr_bits thr) src wid) (thr_set_vec thr dst)
         else thr_set_vec (thr_check_addr thr (dst + wid - 1)) dst (new_vector4 wid (thr_index_to_bit4 src)))"

function movi_loop :: "nat \<Rightarrow> nat \<Rightarrow> word64 \<Rightarrow> vthread \<Rightarrow> vthread result" where
  "movi_loop dst wid imm thr =
     (if 0 < wid then
        let trans_wid = (if 8 * 64 < wid then 8 * 64 else wid)
        in bind_result (thr_setarray thr dst trans_wid (imm # replicate 7 0)) (\<lambda>thr.
             movi_loop (dst + trans_wid) (wid - trans_wid) 0 thr)
      else Inr thr)"
  by pat_completeness auto

termination movi_loop
  by (relation "measure (\<lambda>(dst, wid, imm, thr). wid)") simp_all

definition of_MOVI :: "vthread \<Rightarrow> vvp_code \<Rightarrow> vthread result" where
  "of_MOVI thr cp =
     movi_loop (bit_idx0 cp) (number cp) (of_nat (bit_idx1 cp)) (thr_check_addr thr (bit_idx0 cp + number cp - 1))"

text \<open>Bits are copied to lower addresses and the rest of the vector is filled.\<close>

definition shift_down :: "nat \<Rightarrow> nat \<Rightarrow> nat \<Rightarrow> bit4 \<Rightarrow> vthread \<Rightarrow> vthread result" where
  "shift_down base wid n fill thr =
     bind_result
       (each (\<lambda>i thr. bind_result (thr_get_bit thr (base + i + n)) (\<lambda>b. thr_put_bit thr (base + i) b)) [0..<wid - n] thr)
       (each (\<lambda>i thr. thr_put_bit thr (base + i) fill) [wid - n..<wid])"

text \<open>The low part of a vector is moved up and the bits below it are filled.\<close>

definition shift_up :: "nat \<Rightarrow> nat \<Rightarrow> nat \<Rightarrow> bit4 \<Rightarrow> vthread \<Rightarrow> vthread result" where
  "shift_up base wid n fill thr =
     bind_result (subvalue (thr_bits thr) base (wid - n)) (\<lambda>tmp.
       bind_result (thr_set_vec thr (base + n) tmp) (\<lambda>thr.
         thr_set_vec thr base (new_vector4 n fill)))"

text \<open>A left shift by the least integer computes \<open>0 - shift\<close>, which overflows.\<close>

definition of_SHIFTL_I0 :: "vthread \<Rightarrow> vvp_code \<Rightarrow> vthread result" where
  "of_SHIFTL_I0 thr cp =
     (let base = bit_idx0 cp; wid = number cp; shift = thr_words thr 0
      in if base < 4 then Inl ''assert''
         else let thr = thr_check_addr thr (base + wid - 1)
           in bind_result (thr_get_bit thr 4) (\<lambda>unknown.
             if unknown = BIT4_1 then thr_set_vec thr base (new_vector4 wid BIT4_X)
             else if int wid \<le> shift then thr_set_vec thr base (new_vector4 wid BIT4_0)
             else if 0 < shift then shift_up base wid (nat shift) BIT4_0 thr
             else if shift < 0 then
               if shift = - (2 ^ 63) then Inl ''overflow'' else shift_down base wid (nat (- shift)) BIT4_X thr
             else Inr thr))"

definition of_SHIFTR_I0 :: "vthread \<Rightarrow> vvp_code \<Rightarrow> vthread result" where
  "of_SHIFTR_I0 thr cp =
     (let base = bit_idx0 cp; wid = number cp; shift = thr_words thr 0
      in if base < 4 then Inl ''assert''
         else let thr = thr_check_addr thr (base + wid - 1)
           in bind_result (thr_get_bit thr 4) (\<lambda>unknown.
             if unknown = BIT4_1 then thr_set_vec thr base (new_vector4 wid BIT4_X)
             else if 0 < shift then shift_down base wid (nat shift) BIT4_0 thr
             else if shift < - int wid then thr_set_vec thr base (new_vector4 wid BIT4_X)
             else if shift < 0 then shift_up base wid (nat (- shift)) BIT4_X thr
             else Inr thr))"

text \<open>The shift amount of the signed shift is unsigned.\<close>

definition of_SHIFTR_S_I0 :: "vthread \<Rightarrow> vvp_code \<Rightarrow> vthread result" where
  "of_SHIFTR_S_I0 thr cp =
     (let base = bit_idx0 cp; wid = number cp; shift = nat (thr_words thr 0 mod 2 ^ 64)
      in bind_result (thr_get_bit thr (base + wid - 1)) (\<lambda>sgn.
           bind_result (thr_get_bit thr 4) (\<lambda>unknown.
             if unknown = BIT4_1 then thr_set_vec thr base (new_vector4 wid BIT4_X)
             else if wid \<le> shift then each (\<lambda>i thr. thr_put_bit thr (base + i) sgn) [0..<wid] thr
             else if 0 < shift then shift_down base wid shift sgn thr
             else Inr thr)))"

section \<open>Index registers\<close>

text \<open>A signed integer of 64 bits; sums and products wrap around as on the machine.\<close>

definition to_int64 :: "int \<Rightarrow> int" where
  "to_int64 x = (x + 2 ^ 63) mod 2 ^ 64 - 2 ^ 63"

definition get_as_64_bit :: "nat \<Rightarrow> nat \<Rightarrow> int" where
  "get_as_64_bit low_32 high_32 = to_int64 (int (push_bit 32 high_32 OR low_32))"

definition put_index :: "vthread \<Rightarrow> nat \<Rightarrow> int \<Rightarrow> vthread result" where
  "put_index thr i x = (if i < 16 then Inr (thr\<lparr>thr_words := (thr_words thr)(i := to_int64 x)\<rparr>) else Inl ''out of bounds'')"

definition of_IX_ADD :: "vthread \<Rightarrow> vvp_code \<Rightarrow> vthread result" where
  "of_IX_ADD thr cp = put_index thr (number cp) (thr_words thr (number cp) + get_as_64_bit (bit_idx0 cp) (bit_idx1 cp))"

definition of_IX_SUB :: "vthread \<Rightarrow> vvp_code \<Rightarrow> vthread result" where
  "of_IX_SUB thr cp = put_index thr (number cp) (thr_words thr (number cp) - get_as_64_bit (bit_idx0 cp) (bit_idx1 cp))"

definition of_IX_MUL :: "vthread \<Rightarrow> vvp_code \<Rightarrow> vthread result" where
  "of_IX_MUL thr cp = put_index thr (number cp) (thr_words thr (number cp) * get_as_64_bit (bit_idx0 cp) (bit_idx1 cp))"

definition of_IX_LOAD :: "vthread \<Rightarrow> vvp_code \<Rightarrow> vthread result" where
  "of_IX_LOAD thr cp = put_index thr (number cp) (get_as_64_bit (bit_idx0 cp) (bit_idx1 cp))"

text \<open>
  A vector as an index: the value, the last bit that was read and whether a bit is X or Z. A bit beyond
  the width of the register is shifted out of it, which is undefined.
\<close>

fun index_loop :: "vthread \<Rightarrow> nat \<Rightarrow> nat list \<Rightarrow> word64 \<Rightarrow> bit4 \<Rightarrow> (word64 \<times> bit4 \<times> bool) result" where
  "index_loop thr base [] v vv = Inr (v, vv, False)"
| "index_loop thr base (i # is) v vv =
     bind_result (thr_get_bit thr (operand_bit base i)) (\<lambda>vv.
       if bit4_is_xz vv then Inr (0, vv, True)
       else if 64 \<le> i then Inl ''shift''
       else index_loop thr base is (v OR push_bit i (of_bool (vv = BIT4_1))) vv)"

definition vector_to_index :: "vthread \<Rightarrow> nat \<Rightarrow> nat \<Rightarrow> bool \<Rightarrow> (vthread \<times> word64) result" where
  "vector_to_index thr base width signed_flag =
     bind_result (index_loop thr base [0..<width] 0 BIT4_0) (\<lambda>(v, vv, unknown_flag).
       let v = (if signed_flag \<and> \<not> unknown_flag
             then fold (\<lambda>i v. v OR push_bit i (of_bool (vv = BIT4_1))) [width..<64] v else v)
       in bind_result (thr_put_bit thr 4 (if unknown_flag then BIT4_1 else BIT4_0)) (\<lambda>thr. Inr (thr, v)))"

definition of_IX_GET :: "vthread \<Rightarrow> vvp_code \<Rightarrow> vthread result" where
  "of_IX_GET thr cp =
     bind_result (vector_to_index thr (bit_idx1 cp) (number cp) False) (\<lambda>(thr, v). put_index thr (bit_idx0 cp) (uint v))"

definition of_IX_GET_S :: "vthread \<Rightarrow> vvp_code \<Rightarrow> vthread result" where
  "of_IX_GET_S thr cp =
     bind_result (vector_to_index thr (bit_idx1 cp) (number cp) True) (\<lambda>(thr, v). put_index thr (bit_idx0 cp) (uint v))"

end
