(* ===== verification/VRun.thy ===== *)
theory VRun
  imports VThread
begin

text \<open>
  Running a thread (\<open>vthread_run\<close> in \<open>vvp/vthread.cc\<close>): the table of the instructions of \<open>VThread\<close>, the
  jumps, delays and the link at the end of a chunk, and the loop that fetches instructions.
\<close>

section \<open>Instructions that compute\<close>

text \<open>They return true and do not look at the program counter.\<close>

definition computing :: "(string \<times> (vthread \<Rightarrow> vvp_code \<Rightarrow> vthread result)) list" where
  "computing =
     [(''of_ADD'', of_ADD), (''of_SUB'', of_SUB), (''of_MUL'', of_MUL), (''of_ADDI'', of_ADDI), (''of_SUBI'', of_SUBI),
      (''of_MULI'', of_MULI), (''of_AND'', of_AND), (''of_OR'', of_OR), (''of_NAND'', of_NAND), (''of_NOR'', of_NOR),
      (''of_XOR'', of_XOR), (''of_XNOR'', of_XNOR), (''of_INV'', of_INV), (''of_ANDI'', of_ANDI), (''of_BLEND'', of_BLEND),
      (''of_ANDR'', of_ANDR), (''of_NANDR'', of_NANDR), (''of_ORR'', of_ORR), (''of_NORR'', of_NORR), (''of_XORR'', of_XORR),
      (''of_XNORR'', of_XNORR), (''of_CMPU'', of_CMPU), (''of_CMPS'', of_CMPS), (''of_CMPX'', of_CMPX), (''of_CMPZ'', of_CMPZ),
      (''of_CMPIU'', of_CMPIU), (''of_CMPIS'', of_CMPIS), (''of_MOV'', of_MOV), (''of_MOVI'', of_MOVI),
      (''of_SHIFTL_I0'', of_SHIFTL_I0), (''of_SHIFTR_I0'', of_SHIFTR_I0), (''of_SHIFTR_S_I0'', of_SHIFTR_S_I0),
      (''of_IX_ADD'', of_IX_ADD), (''of_IX_SUB'', of_IX_SUB), (''of_IX_MUL'', of_IX_MUL), (''of_IX_LOAD'', of_IX_LOAD),
      (''of_IX_GET'', of_IX_GET), (''of_IX_GET_S'', of_IX_GET_S), (''of_NOOP'', \<lambda>thr cp. Inr thr)]"

section \<open>Jumps and delays\<close>

text \<open>Is the instruction a jump, and which values of a bit make it?\<close>

definition jumps :: "(string \<times> bit4 list option) list" where
  "jumps = [(''of_JMP'', None), (''of_JMP0'', Some [BIT4_0]), (''of_JMP0XZ'', Some [BIT4_0, BIT4_X, BIT4_Z]), (''of_JMP1'', Some [BIT4_1])]"

definition jump_taken :: "bit4 list option \<Rightarrow> vthread \<Rightarrow> vvp_code \<Rightarrow> bool result" where
  "jump_taken values thr cp =
     (case values of
        None \<Rightarrow> Inr True
      | Some bs \<Rightarrow> bind_result (thr_get_bit thr (bit_idx0 cp)) (\<lambda>b. Inr (b \<in> set bs)))"

text \<open>
  What a thread needs of the rest of the simulator: whether it was stopped, scheduling the thread after a
  delay, and all other instructions. These see and change the bits and registers of the thread and tell how the
  thread goes on. They end it by setting its program counter to null, as \<open>of_END\<close>, \<open>of_DISABLE\<close> of the
  thread itself and \<open>of_ZOMBIE\<close> do; otherwise they leave the program counter alone.
\<close>

datatype outcome = Goes_on | Pauses | Ends

record 's world =
  is_stopped :: "'s \<Rightarrow> bool"
  schedule_self :: "nat \<Rightarrow> 's \<Rightarrow> 's"
  other_instruction :: "vvp_code \<Rightarrow> vector4 \<Rightarrow> (nat \<Rightarrow> int) \<Rightarrow> 's \<Rightarrow> (vector4 \<times> (nat \<Rightarrow> int) \<times> 's \<times> outcome) result"

text \<open>A jump; a program counter that is not a valid pointer is an error here already.\<close>

definition of_jump :: "'s world \<Rightarrow> bool \<Rightarrow> vthread \<Rightarrow> vvp_code \<Rightarrow> 's \<Rightarrow> (vthread \<times> 's \<times> bool) result" where
  "of_jump w taken thr cp s =
     bind_result
       (if taken then case cptr cp of None \<Rightarrow> Inl ''null pointer'' | Some a \<Rightarrow> Inr (thr\<lparr>pc := a\<rparr>) else Inr thr)
       (\<lambda>thr. if is_stopped w s then Inr (thr, schedule_self w 0 s, False) else Inr (thr, s, True))"

definition of_CHUNK_LINK :: "vthread \<Rightarrow> vvp_code \<Rightarrow> vthread result" where
  "of_CHUNK_LINK thr cp = (case cptr cp of None \<Rightarrow> Inl ''assert'' | Some a \<Rightarrow> Inr (thr\<lparr>pc := a\<rparr>))"

definition of_DELAY :: "'s world \<Rightarrow> vthread \<Rightarrow> vvp_code \<Rightarrow> 's \<Rightarrow> (vthread \<times> 's \<times> bool) result" where
  "of_DELAY w thr cp s = Inr (thr, schedule_self w ((push_bit 32 (bit_idx1 cp) + bit_idx0 cp) mod 2 ^ 64) s, False)"

definition of_DELAYX :: "'s world \<Rightarrow> vthread \<Rightarrow> vvp_code \<Rightarrow> 's \<Rightarrow> (vthread \<times> 's \<times> bool) result" where
  "of_DELAYX w thr cp s =
     (if 4 \<le> number cp then Inl ''assert''
      else Inr (thr, schedule_self w (nat (thr_words thr (number cp) mod 2 ^ 64)) s, False))"

section \<open>The loop\<close>

text \<open>The loop of one thread; the list of threads that \<open>vthread_run\<close> gets is run one after the other.\<close>

definition execute :: "'s world \<Rightarrow> vvp_code \<Rightarrow> vthread \<Rightarrow> 's \<Rightarrow> (vthread \<times> 's \<times> bool) result" where
  "execute w cp thr s =
     (case map_of computing (opcode cp) of
        Some f \<Rightarrow> bind_result (f thr cp) (\<lambda>thr. Inr (thr, s, True))
      | None \<Rightarrow>
          (case map_of jumps (opcode cp) of
             Some values \<Rightarrow> bind_result (jump_taken values thr cp) (\<lambda>taken. of_jump w taken thr cp s)
           | None \<Rightarrow>
               if opcode cp = ''of_CHUNK_LINK'' then bind_result (of_CHUNK_LINK thr cp) (\<lambda>thr. Inr (thr, s, True))
               else if opcode cp = ''of_DELAY'' then of_DELAY w thr cp s
               else if opcode cp = ''of_DELAYX'' then of_DELAYX w thr cp s
               else bind_result (other_instruction w cp (thr_bits thr) (thr_words thr) s) (\<lambda>(v, ws, s, out).
                 let thr = thr\<lparr>thr_bits := v, thr_words := ws\<rparr>
                 in case out of
                      Goes_on \<Rightarrow> Inr (thr, s, True)
                    | Pauses \<Rightarrow> Inr (thr, s, False)
                    | Ends \<Rightarrow> Inr (thr\<lparr>pc := codespace_null\<rparr>, s, False))))"

definition run_instruction :: "'s world \<Rightarrow> codespace \<Rightarrow> vthread \<Rightarrow> 's \<Rightarrow> (vthread \<times> 's \<times> bool) result" where
  "run_instruction w cs thr s =
     (case pc thr of (c, k) \<Rightarrow>
        if c < length (chunks cs) \<and> k < length (chunks cs ! c)
        then execute w (code_at cs (c, k)) (thr\<lparr>pc := (c, k + 1)\<rparr>) s
        else Inl ''bad address'')"

fun vthread_run :: "nat \<Rightarrow> 's world \<Rightarrow> codespace \<Rightarrow> vthread \<Rightarrow> 's \<Rightarrow> (vthread \<times> 's) result option" where
  "vthread_run 0 w cs thr s = None"
| "vthread_run (Suc fuel) w cs thr s =
     (case run_instruction w cs thr s of
        Inl e \<Rightarrow> Some (Inl e)
      | Inr (thr, s, rc) \<Rightarrow> if rc then vthread_run fuel w cs thr s else Some (Inr (thr, s)))"

end
