(* ===== verification/VCodeProps.thy ===== *)
theory VCodeProps
  imports VCode
begin

text \<open>
  The assembler of the simulator is correct: the binary search finds every opcode, instructions are
  laid out one after the other across the chunks, and every reference to a code label ends with the
  address of the instruction after the label, whether the label comes before or after the reference.
\<close>

section \<open>The table\<close>

declare bsearch.simps [simp del]

lemma bsearch_finds:
  assumes "sorted_wrt (<) (map fst table)" "fst (table ! i) = key" "l \<le> i" "i < u" "u \<le> length table"
  shows "bsearch key table l u = Some (table ! i)"
  using assms(3-5)
proof (induction "u - l" arbitrary: l u rule: less_induct)
  case less
  let ?m = "(l + u) div 2"
  have lt: "l < u" "?m < u" "l \<le> ?m" using less.prems by linarith+
  have order: "j < k \<Longrightarrow> k < length table \<Longrightarrow> fst (table ! j) < fst (table ! k)" for j k
    using assms(1) by (simp add: sorted_wrt_iff_nth_less)
  consider "?m < i" | "?m = i" | "i < ?m" by linarith
  then show ?case
  proof cases
    case 1
    have "fst (table ! ?m) < key" using order [OF 1] less.prems assms(2) by simp
    then have "bsearch key table l u = bsearch key table (?m + 1) u"
      using lt(1) by (subst bsearch.simps) (simp add: Let_def order_less_not_sym)
    also have "\<dots> = Some (table ! i)" using less.prems 1 lt by (intro less.hyps) linarith+
    finally show ?thesis .
  next
    case 2
    then show ?thesis using lt(1) assms(2) by (subst bsearch.simps) (simp add: Let_def)
  next
    case 3
    have "key < fst (table ! ?m)" using order [OF 3] less.prems assms(2) lt(2) by simp
    then have "bsearch key table l u = bsearch key table l ?m"
      using lt(1) by (subst bsearch.simps) (simp add: Let_def)
    also have "\<dots> = Some (table ! i)" using less.prems 3 lt by (intro less.hyps) linarith+
    finally show ?thesis .
  qed
qed

lemma bsearch_only:
  "bsearch key table l u = Some e \<Longrightarrow> u \<le> length table \<Longrightarrow> e \<in> set table \<and> fst e = key"
proof (induction "u - l" arbitrary: l u rule: less_induct)
  case less
  let ?m = "(l + u) div 2"
  show ?case
  proof (cases "l < u")
    case False
    then show ?thesis using less.prems(1) by (subst (asm) bsearch.simps) simp
  next
    case True
    then have m: "?m < u" "l \<le> ?m" by linarith+
    consider "key < fst (table ! ?m)" | "fst (table ! ?m) < key" | "fst (table ! ?m) = key" by fastforce
    then show ?thesis
    proof cases
      case 1
      then have "bsearch key table l ?m = Some e"
        using less.prems(1) True by (subst (asm) bsearch.simps) (simp add: Let_def)
      then show ?thesis using less.hyps [of ?m l] m less.prems(2) by simp
    next
      case 2
      then have "bsearch key table (?m + 1) u = Some e"
        using less.prems(1) True by (subst (asm) bsearch.simps) (simp add: Let_def order_less_not_sym)
      then show ?thesis using less.hyps [of u "?m + 1"] m less.prems(2) by simp
    next
      case 3
      then have "e = table ! ?m" using less.prems(1) True by (subst (asm) bsearch.simps) (simp add: Let_def)
      then show ?thesis using 3 m less.prems(2) by simp
    qed
  qed
qed

lemma bsearch_exact:
  assumes "sorted_wrt (<) (map fst table)"
  shows "bsearch key table 0 (length table) = map_option (Pair key) (map_of table key)"
proof (rule option_eqI)
  fix e
  have "distinct (map fst table)" using assms by (simp add: strict_sorted_iff)
  then have "map_of table key = Some v \<longleftrightarrow> (key, v) \<in> set table" for v by simp
  then have "map_option (Pair key) (map_of table key) = Some e \<longleftrightarrow> e \<in> set table \<and> fst e = key"
    by (cases e) auto
  moreover have "bsearch key table 0 (length table) = Some e \<longleftrightarrow> e \<in> set table \<and> fst e = key"
  proof
    assume "e \<in> set table \<and> fst e = key"
    then obtain i where "i < length table" "table ! i = e" "fst e = key" by (auto simp: in_set_conv_nth)
    then show "bsearch key table 0 (length table) = Some e" using bsearch_finds [OF assms, of i key 0] by simp
  qed (simp add: bsearch_only)
  ultimately show "bsearch key table 0 (length table) = Some e \<longleftrightarrow> map_option (Pair key) (map_of table key) = Some e"
    by simp
qed

lemma opcodes_sorted: "sorted_wrt (<) (map fst opcode_table)"
  by code_simp

theorem opcode_lookup_exact: "lookup_opcode mnem = map_option (Pair mnem) (map_of opcode_table mnem)"
  unfolding lookup_opcode_def by (rule bsearch_exact [OF opcodes_sorted])


section \<open>The layout of the code\<close>

text \<open>The address of a slot: a chunk holds 1023 instructions and the link to the next one.\<close>

definition slot_address :: "nat \<Rightarrow> code_address" where
  "slot_address k = (k div 1023, k mod 1023)"

lemma slot_address_inject [simp]: "slot_address j = slot_address k \<longleftrightarrow> j = k"
  unfolding slot_address_def by (metis div_mod_decomp prod.inject)

lemma slot_address_Suc:
  "slot_address (k + 1) = (if snd (slot_address k) = 1022 then (fst (slot_address k) + 1, 0)
     else (fst (slot_address k), snd (slot_address k) + 1))"
  unfolding slot_address_def by (simp add: div_Suc mod_Suc)

text \<open>A code space of which the given number of slots is in use.\<close>

definition space_ok :: "codespace \<Rightarrow> nat \<Rightarrow> bool" where
  "space_ok cs n \<longleftrightarrow>
     chunks cs \<noteq> [] \<and> (\<forall>c\<in>set (chunks cs). length c = 1024) \<and> within_chunk cs \<le> 1023 \<and>
     n = 1023 * (length (chunks cs) - 1) + within_chunk cs \<and>
     (\<forall>i<length (chunks cs). opcode (code_at cs (i, 1023)) = ''of_CHUNK_LINK'' \<and>
        (i + 1 < length (chunks cs) \<longrightarrow> cptr (code_at cs (i, 1023)) = Some (i + 1, 0)))"

lemma length_new_chunk [simp]: "length new_chunk = 1024"
  by (simp add: new_chunk_def code_chunk_size_def)

lemma new_chunk_link: "new_chunk ! 1023 = blank_code\<lparr>opcode := ''of_CHUNK_LINK''\<rparr>"
  by (simp add: new_chunk_def code_chunk_size_def nth_append)

lemma init_ok: "space_ok codespace_init 1"
  by (simp add: space_ok_def codespace_init_def code_at_def new_chunk_link)

definition valid_address :: "codespace \<Rightarrow> code_address \<Rightarrow> bool" where
  "valid_address cs a \<longleftrightarrow> fst a < length (chunks cs) \<and> snd a < length (chunks cs ! fst a)"

lemma code_at_put: "valid_address cs a \<Longrightarrow> code_at (put_code cs a c) b = (if b = a then c else code_at cs b)"
  by (cases a; cases b) (auto simp: valid_address_def code_at_def put_code_def nth_list_update)

lemma put_code_shape [simp]:
  "length (chunks (put_code cs a c)) = length (chunks cs)" "within_chunk (put_code cs a c) = within_chunk cs"
  "valid_address (put_code cs a c) b = valid_address cs b"
  by (simp_all add: put_code_def valid_address_def)
    (cases "fst a < length (chunks cs)"; cases "fst a = fst b"; auto)

lemma put_code_ok:
  assumes "space_ok cs n" "snd a < 1023"
  shows "space_ok (put_code cs a c) n"
proof -
  have len: "\<forall>c'\<in>set (chunks (put_code cs a c)). length c' = 1024"
    using assms(1) by (cases "fst a < length (chunks cs)")
      (auto simp: space_ok_def put_code_def list_update_beyond all_set_conv_all_nth nth_list_update)
  have "code_at (put_code cs a c) (i, 1023) = code_at cs (i, 1023)" if "i < length (chunks cs)" for i
    using that assms(2) by (cases "fst a = i") (auto simp: put_code_def code_at_def)
  moreover have "chunks (put_code cs a c) \<noteq> []" using assms(1) by (auto simp: space_ok_def put_code_def)
  ultimately show ?thesis using assms(1) len by (simp add: space_ok_def)
qed

lemma valid_slot: "space_ok cs n \<Longrightarrow> k < n \<Longrightarrow> valid_address cs (slot_address k)"
proof -
  assume ok: "space_ok cs n" and k: "k < n"
  then have "k < 1023 * length (chunks cs)" by (auto simp: space_ok_def Suc_le_eq [symmetric] neq_Nil_conv)
  then have "k div 1023 < length (chunks cs)" by (simp add: div_less_iff_less_mult mult.commute)
  moreover from this have "length (chunks cs ! (k div 1023)) = 1024" using ok by (simp add: space_ok_def)
  moreover have "k mod 1023 < 1023" by simp
  ultimately show ?thesis unfolding valid_address_def slot_address_def by (simp del: mod_less_divisor)
qed

lemma codespace_next_slot:
  assumes "space_ok cs n"
  shows "\<exists>cs'. codespace_next cs = (cs', slot_address n) \<and> space_ok cs' n \<and> within_chunk cs' < 1023 \<and>
    (\<forall>k<n. code_at cs' (slot_address k) = code_at cs (slot_address k))"
proof (cases "within_chunk cs = 1023")
  case False
  then have w: "within_chunk cs < 1023" and n: "n = 1023 * (length (chunks cs) - 1) + within_chunk cs"
    using assms by (auto simp: space_ok_def)
  then have "slot_address n = (length (chunks cs) - 1, within_chunk cs)" by (simp add: slot_address_def)
  then show ?thesis using False assms w by (simp add: codespace_next_def code_chunk_size_def)
next
  case True
  let ?m = "length (chunks cs)"
  have ne: "chunks cs \<noteq> []" "0 < ?m" using assms by (auto simp: space_ok_def)
  then have n: "n = 1023 * ?m" using assms True by (auto simp: space_ok_def neq_Nil_conv)
  define link where "link = (?m - 1, 1023 :: nat)"
  have len: "length (chunks cs ! i) = 1024" if "i < ?m" for i using that assms by (simp add: space_ok_def)
  have valid: "valid_address cs link" using ne len by (simp add: valid_address_def link_def)
  define cs1 where "cs1 = put_code cs link ((code_at cs link)\<lparr>cptr := Some (?m, 0)\<rparr>)"
  define cs2 where "cs2 = \<lparr>chunks = chunks cs1 @ [new_chunk], within_chunk = 0\<rparr>"
  have m1: "length (chunks cs1) = ?m" by (simp add: cs1_def)
  have old: "code_at cs2 a = code_at cs1 a" if "fst a < ?m" for a
    using that m1 by (simp add: cs2_def code_at_def nth_append)
  have at1: "code_at cs1 a = (if a = link then (code_at cs link)\<lparr>cptr := Some (?m, 0)\<rparr> else code_at cs a)" for a
    unfolding cs1_def by (rule code_at_put [OF valid])
  have next_eq: "codespace_next cs = (cs2, slot_address n)"
    using True ne n unfolding cs2_def cs1_def link_def
    by (simp add: codespace_next_def code_chunk_size_def Let_def slot_address_def)
  have "\<forall>c\<in>set (chunks cs2). length c = 1024"
  proof -
    have "\<forall>c\<in>set (chunks cs1). length c = 1024"
      using assms by (auto simp: cs1_def put_code_def space_ok_def link_def dest!: set_update_subset_insert [THEN subsetD])
    then show ?thesis by (auto simp: cs2_def)
  qed
  moreover have "opcode (code_at cs2 (i, 1023)) = ''of_CHUNK_LINK'' \<and>
      (i + 1 < ?m + 1 \<longrightarrow> cptr (code_at cs2 (i, 1023)) = Some (i + 1, 0))" if "i < ?m + 1" for i
  proof (cases "i < ?m")
    case i: True
    then show ?thesis using assms old [of "(i, 1023)"] at1 [of "(i, 1023)"] by (auto simp: space_ok_def link_def)
  next
    case False
    then have "i = ?m" using that by simp
    then show ?thesis using m1 by (simp add: cs2_def code_at_def nth_append new_chunk_link)
  qed
  ultimately have ok: "space_ok cs2 n" using m1 n by (simp add: space_ok_def cs2_def)
  have same: "code_at cs2 (slot_address k) = code_at cs (slot_address k)" if "k < n" for k
  proof -
    have "k div 1023 < ?m" using that n by (simp add: div_less_iff_less_mult mult.commute)
    moreover have "slot_address k \<noteq> link"
      using mod_less_divisor [of 1023 k] unfolding slot_address_def link_def by (metis less_irrefl prod.inject zero_less_numeral)
    ultimately show ?thesis using old [of "slot_address k"] at1 [of "slot_address k"] by (simp add: slot_address_def)
  qed
  show ?thesis using next_eq ok same by (intro exI [of _ cs2]) (simp add: cs2_def)
qed

lemma codespace_allocate_slot:
  assumes "space_ok cs n"
  shows "\<exists>cs'. codespace_allocate cs = (cs', slot_address n) \<and> space_ok cs' (n + 1) \<and>
    code_at cs' (slot_address n) = blank_code \<and> (\<forall>k<n. code_at cs' (slot_address k) = code_at cs (slot_address k))"
proof -
  obtain cs1 where cs1: "codespace_next cs = (cs1, slot_address n)" "space_ok cs1 n" "within_chunk cs1 < 1023"
    "\<forall>k<n. code_at cs1 (slot_address k) = code_at cs (slot_address k)"
    using codespace_next_slot [OF assms] by blast
  define cs2 where "cs2 = cs1\<lparr>within_chunk := within_chunk cs1 + 1\<rparr>"
  have ok: "space_ok cs2 (n + 1)" using cs1(2,3) by (auto simp: space_ok_def cs2_def code_at_def)
  then have valid: "valid_address cs2 (slot_address n)" by (rule valid_slot) simp
  have "snd (slot_address n) < 1023" by (simp add: slot_address_def)
  then have "space_ok (put_code cs2 (slot_address n) blank_code) (n + 1)" using ok by (intro put_code_ok)
  moreover have "code_at cs2 a = code_at cs1 a" for a by (simp add: cs2_def code_at_def)
  moreover have "codespace_allocate cs = (put_code cs2 (slot_address n) blank_code, slot_address n)"
    using cs1(1) by (simp add: codespace_allocate_def cs2_def)
  ultimately show ?thesis using cs1(4) code_at_put [OF valid, of blank_code] by auto
qed


section \<open>What a program should be assembled to\<close>

type_synonym statement = "string option \<times> string \<times> operand list"

fun compile_program :: "statement list \<Rightarrow> assembler \<Rightarrow> assembler result" where
  "compile_program [] st = Inr st"
| "compile_program ((label, mnem, opa) # rest) st = bind_result (compile_code label mnem opa st) (compile_program rest)"

text \<open>The address of the instruction at a label, when the first statement is at the given slot.\<close>

fun label_address :: "nat \<Rightarrow> statement list \<Rightarrow> string \<Rightarrow> code_address option" where
  "label_address k [] l = None"
| "label_address k ((label, mnem, opa) # rest) l =
     (if label = Some l then Some (slot_address k) else label_address (k + 1) rest l)"

definition labels :: "statement list \<Rightarrow> string list" where
  "labels prog = List.map_filter fst prog"

text \<open>An operand in an instruction, when the addresses of all labels are known.\<close>

fun fill :: "(string \<Rightarrow> code_address option) \<Rightarrow> operand_e \<times> operand \<Rightarrow> vvp_code \<Rightarrow> vvp_code" where
  "fill F (OA_BIT1, L_NUMB n) c = c\<lparr>bit_idx0 := n mod 2 ^ 32\<rparr>"
| "fill F (OA_BIT2, L_NUMB n) c = c\<lparr>bit_idx1 := n mod 2 ^ 32\<rparr>"
| "fill F (OA_NUMBER, L_NUMB n) c = c\<lparr>number := n mod 2 ^ 64\<rparr>"
| "fill F (OA_CODE_PTR, L_SYMB text idx) c = c\<lparr>cptr := F text\<rparr>"
| "fill F (OA_NONE, opa) c = c"
| "fill F (t, L_SYMB text idx) c = c\<lparr>names := names c @ [(t, text)]\<rparr>"
| "fill F (t, opa) c = c"

fun format_ok :: "operand_e \<times> operand \<Rightarrow> bool" where
  "format_ok (OA_NONE, opa) = True"
| "format_ok (OA_BIT1, opa) = (\<exists>n. opa = L_NUMB n)"
| "format_ok (OA_BIT2, opa) = (\<exists>n. opa = L_NUMB n)"
| "format_ok (OA_NUMBER, opa) = (\<exists>n. opa = L_NUMB n)"
| "format_ok (OA_CODE_PTR, opa) = (\<exists>text. opa = L_SYMB text 0)"
| "format_ok (t, opa) = (\<exists>text idx. opa = L_SYMB text idx)"

definition statement_ok :: "statement \<Rightarrow> bool" where
  "statement_ok s = (case s of (label, mnem, opa) \<Rightarrow>
     (case map_of opcode_table mnem of
        None \<Rightarrow> False
      | Some (f, argc, argt) \<Rightarrow> argc = length opa \<and> (\<forall>p\<in>set (zip argt opa). format_ok p)))"

definition assembled :: "(string \<Rightarrow> code_address option) \<Rightarrow> statement \<Rightarrow> vvp_code" where
  "assembled F s = (case s of (label, mnem, opa) \<Rightarrow>
     (case map_of opcode_table mnem of
        None \<Rightarrow> blank_code
      | Some (f, argc, argt) \<Rightarrow> fold (fill F) (zip argt opa) (blank_code\<lparr>opcode := f\<rparr>)))"

text \<open>The references to labels that no statement has.\<close>

fun undefined_operand :: "(string \<Rightarrow> code_address option) \<Rightarrow> code_address \<Rightarrow> operand_e \<times> operand \<Rightarrow> (code_address \<times> string) set" where
  "undefined_operand F a (OA_CODE_PTR, L_SYMB text idx) = (if F text = None then {(a, text)} else {})"
| "undefined_operand F a p = {}"

definition undefined_refs :: "(string \<Rightarrow> code_address option) \<Rightarrow> code_address \<Rightarrow> statement \<Rightarrow> (code_address \<times> string) set" where
  "undefined_refs F a s = (case s of (label, mnem, opa) \<Rightarrow>
     (case map_of opcode_table mnem of
        None \<Rightarrow> {}
      | Some (f, argc, argt) \<Rightarrow> (\<Union>p\<in>set (zip argt opa). undefined_operand F a p)))"

section \<open>References that wait\<close>

definition asm_ok :: "(string \<Rightarrow> code_address option) \<Rightarrow> assembler \<Rightarrow> nat \<Rightarrow> bool" where
  "asm_ok F st n \<longleftrightarrow>
     space_ok (space st) n \<and> sym_codespace st \<subseteq>\<^sub>m F \<and> distinct (map fst (resolv_list st)) \<and>
     (\<forall>(a, l)\<in>set (resolv_list st). (\<exists>k<n. a = slot_address k) \<and>
        cptr (code_at (space st) a) = None \<and> opcode (code_at (space st) a) \<noteq> ''of_FORK'')"

text \<open>An instruction as it will be when its reference is resolved.\<close>

definition complete :: "(string \<Rightarrow> code_address option) \<Rightarrow> assembler \<Rightarrow> code_address \<Rightarrow> vvp_code" where
  "complete F st a =
     (case map_of (resolv_list st) a of
        Some l \<Rightarrow> (code_at (space st) a)\<lparr>cptr := F l\<rparr>
      | None \<Rightarrow> code_at (space st) a)"

definition open_refs :: "(string \<Rightarrow> code_address option) \<Rightarrow> assembler \<Rightarrow> (code_address \<times> string) set" where
  "open_refs F st = {(a, l) \<in> set (resolv_list st). F l = None}"

lemma put_instruction_ok:
  assumes "asm_ok F st n" "k < n" "\<And>c. opcode (f c) = opcode c"
    "slot_address k \<notin> fst ` set (resolv_list st) \<or> (\<forall>c. cptr (f c) = cptr c)"
  shows "asm_ok F (put_instruction (slot_address k) f st) n"
    "code_at (space (put_instruction (slot_address k) f st)) b =
      (if b = slot_address k then f (code_at (space st) b) else code_at (space st) b)"
proof -
  have ok: "space_ok (space st) n" using assms(1) by (simp add: asm_ok_def)
  have "snd (slot_address k) < 1023" by (simp add: slot_address_def)
  then have sp: "space_ok (space (put_instruction (slot_address k) f st)) n"
    using put_code_ok [OF ok] by (simp add: put_instruction_def)
  show at: "code_at (space (put_instruction (slot_address k) f st)) b =
      (if b = slot_address k then f (code_at (space st) b) else code_at (space st) b)" for b
    using code_at_put [OF valid_slot [OF ok assms(2)]] by (simp add: put_instruction_def)
  have rl: "resolv_list (put_instruction (slot_address k) f st) = resolv_list st"
    "sym_codespace (put_instruction (slot_address k) f st) = sym_codespace st" by (simp_all add: put_instruction_def)
  have "(\<exists>k<n. a = slot_address k) \<and> cptr (if a = slot_address k then f (code_at (space st) a) else code_at (space st) a) = None \<and>
      opcode (if a = slot_address k then f (code_at (space st) a) else code_at (space st) a) \<noteq> ''of_FORK''"
    if "(a, l) \<in> set (resolv_list st)" for a l
  proof -
    have "a \<in> fst ` set (resolv_list st)" using that by force
    moreover have "(\<exists>k<n. a = slot_address k) \<and> cptr (code_at (space st) a) = None \<and> opcode (code_at (space st) a) \<noteq> ''of_FORK''"
      using assms(1) that unfolding asm_ok_def by blast
    ultimately show ?thesis using assms(3,4) by (cases "a = slot_address k") auto
  qed
  then show "asm_ok F (put_instruction (slot_address k) f st) n"
    using assms(1) sp unfolding asm_ok_def rl at by blast
qed

lemma put_instruction_frame [simp]:
  "resolv_list (put_instruction a f st) = resolv_list st" "sym_codespace (put_instruction a f st) = sym_codespace st"
  "compile_errors (put_instruction a f st) = compile_errors st" "messages (put_instruction a f st) = messages st"
  by (simp_all add: put_instruction_def)

lemma update_cptr_last: "(c\<lparr>cptr := x\<rparr>)\<lparr>cptr := y\<rparr> = c\<lparr>cptr := y\<rparr>"
  by simp

text \<open>What an operand does: \<open>plain\<close> is for all operands but code labels.\<close>

definition code_extends :: "(string \<Rightarrow> code_address option) \<Rightarrow> nat \<Rightarrow> nat \<Rightarrow> assembler \<Rightarrow> assembler \<Rightarrow> bool" where
  "code_extends F n k st st' \<longleftrightarrow> asm_ok F st' n \<and> sym_codespace st' = sym_codespace st \<and>
     compile_errors st' = compile_errors st \<and>
     opcode (code_at (space st') (slot_address k)) = opcode (code_at (space st) (slot_address k)) \<and>
     (\<forall>j<n. j \<noteq> k \<longrightarrow> complete F st' (slot_address j) = complete F st (slot_address j))"

lemma plain_operand:
  assumes "asm_ok F st n" "k < n" "format_ok (t, opa)" "t \<noteq> OA_CODE_PTR"
  shows "\<exists>st'. compile_operand (slot_address k) t opa st = Inr st' \<and> code_extends F n k st st' \<and>
    complete F st' (slot_address k) = fill F (t, opa) (complete F st (slot_address k)) \<and>
    resolv_list st' = resolv_list st \<and> cptr (code_at (space st') (slot_address k)) = cptr (code_at (space st) (slot_address k)) \<and>
    undefined_operand F (slot_address k) (t, opa) = {}"
proof -
  have step: "code_extends F n k st (put_instruction (slot_address k) f st)"
    "complete F (put_instruction (slot_address k) f st) (slot_address k) = f (complete F st (slot_address k))"
    "code_at (space (put_instruction (slot_address k) f st)) (slot_address k) = f (code_at (space st) (slot_address k))"
    if f: "\<And>c. opcode (f c) = opcode c" "\<And>c. cptr (f c) = cptr c" "\<And>c x. f (c\<lparr>cptr := x\<rparr>) = (f c)\<lparr>cptr := x\<rparr>" for f
    using put_instruction_ok [OF assms(1,2), of f] f
    by (auto simp: code_extends_def complete_def split: option.splits)
  have nums: "t \<in> {OA_BIT1, OA_BIT2, OA_NUMBER} \<Longrightarrow> \<exists>m. opa = L_NUMB m" using assms(3) by auto
  have syms: "t \<in> {OA_ARR_PTR, OA_FUNC_PTR, OA_FUNC_PTR2, OA_VPI_PTR} \<Longrightarrow> \<exists>text i. opa = L_SYMB text i" using assms(3) by auto
  have none: "code_extends F n k st st" using assms(1) by (simp add: code_extends_def)
  show ?thesis
    using assms(4) nums syms none by (cases t) (auto simp: name_operand_def step)
qed


lemma asm_ok_submit:
  assumes "asm_ok F st n" "k < n" "slot_address k \<notin> fst ` set (resolv_list st)"
    "cptr (code_at (space st) (slot_address k)) = None" "opcode (code_at (space st) (slot_address k)) \<noteq> ''of_FORK''"
  shows "code_extends F n k st (resolv_submit (slot_address k, l) st)"
    "complete F (resolv_submit (slot_address k, l) st) (slot_address k) = (complete F st (slot_address k))\<lparr>cptr := F l\<rparr>"
    "open_refs F (resolv_submit (slot_address k, l) st) =
       open_refs F st \<union> (if F l = None then {(slot_address k, l)} else {})"
    "fst ` set (resolv_list (resolv_submit (slot_address k, l) st)) \<subseteq> insert (slot_address k) (fst ` set (resolv_list st))"
proof -
  let ?a = "slot_address k"
  let ?st = "resolv_submit (?a, l) st"
  have sub: "sym_codespace st \<subseteq>\<^sub>m F" using assms(1) by (simp add: asm_ok_def)
  have none: "map_of (resolv_list st) ?a = None" using assms(3) by (auto simp: map_of_eq_None_iff)
  have "code_extends F n k st ?st \<and> complete F ?st ?a = (complete F st ?a)\<lparr>cptr := F l\<rparr> \<and>
      open_refs F ?st = open_refs F st \<union> (if F l = None then {(?a, l)} else {}) \<and>
      fst ` set (resolv_list ?st) \<subseteq> insert ?a (fst ` set (resolv_list st))"
  proof (cases "sym_codespace st l")
    case (Some t)
    then have F: "F l = Some t" using sub by (auto simp: map_le_def dom_def)
    define f where "f c = (if opcode c = ''of_FORK'' then c\<lparr>cptr2 := Some t\<rparr> else c\<lparr>cptr := Some t\<rparr>)" for c :: vvp_code
    have st: "?st = put_instruction ?a f st"
      using Some by (simp add: resolv_submit_def code_label_resolve_def f_def [abs_def])
    note p = put_instruction_ok [OF assms(1,2), of f]
    have op: "opcode (f c) = opcode c" for c by (simp add: f_def)
    have at: "code_at (space ?st) b = (if b = ?a then f (code_at (space st) b) else code_at (space st) b)" for b
      unfolding st by (rule p(2)) (use op assms(3) in auto)
    have "asm_ok F ?st n" unfolding st by (rule p(1)) (use op assms(3) in auto)
    moreover have at_slot: "code_at (space ?st) (slot_address j) = (if j = k then f (code_at (space st) ?a) else code_at (space st) (slot_address j))" for j
      using at by simp
    moreover have "resolv_list ?st = resolv_list st" "sym_codespace ?st = sym_codespace st" "compile_errors ?st = compile_errors st"
      unfolding st by simp_all
    moreover have "f (code_at (space st) ?a) = (code_at (space st) ?a)\<lparr>cptr := Some t\<rparr>" using assms(5) by (simp add: f_def)
    ultimately show ?thesis using none F op unfolding code_extends_def complete_def open_refs_def
      by (auto split: option.splits)
  next
    case None
    then have st: "?st = st\<lparr>resolv_list := (?a, l) # resolv_list st\<rparr>"
      by (simp add: resolv_submit_def code_label_resolve_def)
    have "asm_ok F ?st n" using assms unfolding st asm_ok_def by auto
    then show ?thesis using none unfolding code_extends_def complete_def open_refs_def st by (auto split: option.splits)
  qed
  then show "code_extends F n k st ?st" "complete F ?st ?a = (complete F st ?a)\<lparr>cptr := F l\<rparr>"
    "open_refs F ?st = open_refs F st \<union> (if F l = None then {(?a, l)} else {})"
    "fst ` set (resolv_list ?st) \<subseteq> insert ?a (fst ` set (resolv_list st))" by blast+
qed

lemma code_extends_trans:
  "code_extends F n k st st' \<Longrightarrow> code_extends F n k st' st'' \<Longrightarrow> code_extends F n k st st''"
  by (simp add: code_extends_def)

definition label_operands :: "(operand_e \<times> operand) list \<Rightarrow> nat" where
  "label_operands ps = length (filter (\<lambda>p. fst p = OA_CODE_PTR) ps)"

lemma operands_assembled:
  assumes "asm_ok F st n" "k < n" "\<forall>p\<in>set ps. format_ok p" "label_operands ps \<le> 1"
    "label_operands ps = 1 \<longrightarrow> slot_address k \<notin> fst ` set (resolv_list st) \<and> cptr (code_at (space st) (slot_address k)) = None"
    "opcode (code_at (space st) (slot_address k)) \<noteq> ''of_FORK''"
  shows "\<exists>st'. compile_operands (slot_address k) ps st = Inr st' \<and> code_extends F n k st st' \<and>
    complete F st' (slot_address k) = fold (fill F) ps (complete F st (slot_address k)) \<and>
    open_refs F st' = open_refs F st \<union> (\<Union>p\<in>set ps. undefined_operand F (slot_address k) p) \<and>
    fst ` set (resolv_list st') \<subseteq> insert (slot_address k) (fst ` set (resolv_list st))"
  using assms
proof (induction ps arbitrary: st)
  case Nil
  then show ?case by (auto simp: code_extends_def)
next
  case (Cons p ps)
  obtain t opa where p: "p = (t, opa)" by fastforce
  let ?a = "slot_address k"
  obtain st1 where st1: "compile_operand ?a t opa st = Inr st1" "code_extends F n k st st1"
    "complete F st1 ?a = fill F (t, opa) (complete F st ?a)"
    "open_refs F st1 = open_refs F st \<union> undefined_operand F ?a (t, opa)"
    "fst ` set (resolv_list st1) \<subseteq> insert ?a (fst ` set (resolv_list st))"
    "label_operands ps = 1 \<longrightarrow> ?a \<notin> fst ` set (resolv_list st1) \<and> cptr (code_at (space st1) ?a) = None"
  proof (cases "t = OA_CODE_PTR")
    case True
    then obtain lab where opa: "opa = L_SYMB lab 0" using Cons.prems(3) p by auto
    have one: "label_operands (p # ps) = 1" "label_operands ps = 0"
      using Cons.prems(4) True p by (auto simp: label_operands_def)
    then have new: "?a \<notin> fst ` set (resolv_list st)" "cptr (code_at (space st) ?a) = None"
      using Cons.prems(5) by auto
    note s = asm_ok_submit [OF Cons.prems(1,2) new Cons.prems(6), of lab]
    show ?thesis using s one(2) True opa by (intro that [of "resolv_submit (?a, lab) st"]) simp_all
  next
    case False
    have ok: "format_ok (t, opa)" using Cons.prems(3) p by simp
    have same: "label_operands (p # ps) = label_operands ps" using False p by (simp add: label_operands_def)
    obtain st' where st': "compile_operand ?a t opa st = Inr st'" "code_extends F n k st st'"
      "complete F st' ?a = fill F (t, opa) (complete F st ?a)" "resolv_list st' = resolv_list st"
      "cptr (code_at (space st') ?a) = cptr (code_at (space st) ?a)" "undefined_operand F ?a (t, opa) = {}"
      using plain_operand [OF Cons.prems(1,2) ok False] by blast
    show ?thesis by (rule that [OF st'(1-3)]) (use st'(4-6) Cons.prems(5) same in \<open>auto simp: open_refs_def\<close>)
  qed
  have "label_operands ps \<le> 1" using Cons.prems(4) by (auto simp: label_operands_def split: if_splits)
  moreover have "asm_ok F st1 n" "opcode (code_at (space st1) ?a) \<noteq> ''of_FORK''"
    using st1(2) Cons.prems(6) by (simp_all add: code_extends_def)
  moreover have "\<forall>p\<in>set ps. format_ok p" using Cons.prems(3) by simp
  ultimately obtain st2 where st2: "compile_operands ?a ps st1 = Inr st2" "code_extends F n k st1 st2"
    "complete F st2 ?a = fold (fill F) ps (complete F st1 ?a)"
    "open_refs F st2 = open_refs F st1 \<union> (\<Union>p\<in>set ps. undefined_operand F ?a p)"
    "fst ` set (resolv_list st2) \<subseteq> insert ?a (fst ` set (resolv_list st1))"
    using Cons.IH [of st1] Cons.prems(2) st1(6) by blast
  have "fst ` set (resolv_list st2) \<subseteq> insert ?a (fst ` set (resolv_list st))" using st2(5) st1(5) by blast
  then show ?case
    using st1(1,3,4) st2(1,3,4) code_extends_trans [OF st1(2) st2(2)] p by (intro exI [of _ st2]) (simp add: Un_assoc)
qed

section \<open>Statements\<close>

lemma table_facts:
  assumes "map_of opcode_table mnem = Some (f, argc, argt)"
  shows "f \<noteq> ''of_FORK''" "label_operands (zip argt opa) \<le> 1"
proof -
  have "list_all (\<lambda>(m, f, argc, argt). f \<noteq> ''of_FORK'' \<and> length (filter ((=) OA_CODE_PTR) argt) \<le> 1) opcode_table"
    by code_simp
  then have t: "f \<noteq> ''of_FORK''" "length (filter ((=) OA_CODE_PTR) argt) \<le> 1"
    using map_of_SomeD [OF assms] by (auto simp: list_all_iff)
  have "label_operands (zip xs ys) \<le> length (filter ((=) OA_CODE_PTR) xs)" for xs :: "operand_e list" and ys :: "operand list"
    by (induction xs ys rule: list_induct2') (auto simp: label_operands_def)
  then show "f \<noteq> ''of_FORK''" "label_operands (zip argt opa) \<le> 1" using t le_trans by blast+
qed

lemma asm_okD:
  assumes "asm_ok F st n" "(a, l) \<in> set (resolv_list st)"
  shows "(\<exists>k<n. a = slot_address k) \<and> cptr (code_at (space st) a) = None \<and> opcode (code_at (space st) a) \<noteq> ''of_FORK''"
  using assms unfolding asm_ok_def by blast

lemma asm_ok_more:
  assumes "asm_ok F st n" "space_ok cs m" "n \<le> m"
    "\<forall>k<n. code_at cs (slot_address k) = code_at (space st) (slot_address k)"
  shows "asm_ok F (st\<lparr>space := cs\<rparr>) m"
proof -
  have "(\<exists>k<m. a = slot_address k) \<and> cptr (code_at cs a) = None \<and> opcode (code_at cs a) \<noteq> ''of_FORK''"
    if mem: "(a, l) \<in> set (resolv_list st)" for a l
  proof -
    obtain k where k: "k < n" "a = slot_address k" "cptr (code_at (space st) a) = None" "opcode (code_at (space st) a) \<noteq> ''of_FORK''"
      using asm_okD [OF assms(1) mem] by blast
    then have "k < m" "code_at cs a = code_at (space st) a" using assms(3,4) by simp_all
    then show ?thesis using k by metis
  qed
  then have "\<forall>(a, l)\<in>set (resolv_list st). (\<exists>k<m. a = slot_address k) \<and>
      cptr (code_at cs a) = None \<and> opcode (code_at cs a) \<noteq> ''of_FORK''" by blast
  then show ?thesis using assms(1,2) unfolding asm_ok_def by simp
qed

lemma codelabel_ok:
  assumes "asm_ok F st n" "\<forall>l. label = Some l \<longrightarrow> F l = Some (slot_address n)"
  shows "asm_ok F (compile_label_opt label st) n" "compile_errors (compile_label_opt label st) = compile_errors st"
    "resolv_list (compile_label_opt label st) = resolv_list st"
    "dom (sym_codespace (compile_label_opt label st)) = dom (sym_codespace st) \<union> set_option label"
    "\<forall>k<n. code_at (space (compile_label_opt label st)) (slot_address k) = code_at (space st) (slot_address k)"
proof -
  have "asm_ok F (compile_label_opt label st) n \<and> compile_errors (compile_label_opt label st) = compile_errors st \<and>
      resolv_list (compile_label_opt label st) = resolv_list st \<and>
      dom (sym_codespace (compile_label_opt label st)) = dom (sym_codespace st) \<union> set_option label \<and>
      (\<forall>k<n. code_at (space (compile_label_opt label st)) (slot_address k) = code_at (space st) (slot_address k))"
  proof (cases label)
    case None
    then show ?thesis using assms(1) by (simp add: compile_label_opt_def)
  next
    case (Some l)
    obtain cs where cs: "codespace_next (space st) = (cs, slot_address n)" "space_ok cs n"
      "\<forall>k<n. code_at cs (slot_address k) = code_at (space st) (slot_address k)"
      using codespace_next_slot [of "space st" n] assms(1) by (auto simp: asm_ok_def)
    have ok: "asm_ok F (st\<lparr>space := cs\<rparr>) n" using asm_ok_more [OF assms(1) cs(2) _ cs(3)] by simp
    have "(sym_codespace st)(l \<mapsto> slot_address n) \<subseteq>\<^sub>m F"
      using assms Some by (auto simp: asm_ok_def map_le_def)
    then have "asm_ok F (st\<lparr>space := cs, sym_codespace := (sym_codespace st)(l \<mapsto> slot_address n)\<rparr>) n"
      using ok by (simp add: asm_ok_def)
    then show ?thesis using Some cs by (auto simp: compile_label_opt_def compile_codelabel_def)
  qed
  then show "asm_ok F (compile_label_opt label st) n" "compile_errors (compile_label_opt label st) = compile_errors st"
    "resolv_list (compile_label_opt label st) = resolv_list st"
    "dom (sym_codespace (compile_label_opt label st)) = dom (sym_codespace st) \<union> set_option label"
    "\<forall>k<n. code_at (space (compile_label_opt label st)) (slot_address k) = code_at (space st) (slot_address k)" by blast+
qed


lemma statement_assembled:
  assumes "asm_ok F st n" "statement_ok (label, mnem, opa)" "\<forall>l. label = Some l \<longrightarrow> F l = Some (slot_address n)"
  shows "\<exists>st'. compile_code label mnem opa st = Inr st' \<and> asm_ok F st' (n + 1) \<and> compile_errors st' = compile_errors st \<and>
    complete F st' (slot_address n) = assembled F (label, mnem, opa) \<and>
    (\<forall>j<n. complete F st' (slot_address j) = complete F st (slot_address j)) \<and>
    dom (sym_codespace st') = dom (sym_codespace st) \<union> set_option label \<and>
    open_refs F st' = open_refs F st \<union> undefined_refs F (slot_address n) (label, mnem, opa)"
proof -
  obtain f argc argt where e: "map_of opcode_table mnem = Some (f, argc, argt)" "argc = length opa"
    "\<forall>p\<in>set (zip argt opa). format_ok p"
    using assms(2) by (auto simp: statement_ok_def split: option.splits)
  note tf = table_facts [OF e(1)]
  define st1 where "st1 = compile_label_opt label st"
  note l = codelabel_ok [OF assms(1,3), folded st1_def]
  obtain cs where cs: "codespace_allocate (space st1) = (cs, slot_address n)" "space_ok cs (n + 1)"
    "code_at cs (slot_address n) = blank_code" "\<forall>k<n. code_at cs (slot_address k) = code_at (space st1) (slot_address k)"
    using codespace_allocate_slot [of "space st1" n] l(1) by (auto simp: asm_ok_def)
  define st2 where "st2 = st1\<lparr>space := cs\<rparr>"
  have ok2: "asm_ok F st2 (n + 1)" unfolding st2_def by (rule asm_ok_more [OF l(1) cs(2) _ cs(4)]) simp
  have new: "slot_address n \<notin> fst ` set (resolv_list st2)"
  proof
    assume "slot_address n \<in> fst ` set (resolv_list st2)"
    then obtain b where "(slot_address n, b) \<in> set (resolv_list st1)" by (auto simp: st2_def)
    from asm_okD [OF l(1) this] obtain k where "k < n" "slot_address n = slot_address k" by blast
    then show False by simp
  qed
  define st3 where "st3 = put_instruction (slot_address n) (\<lambda>c. c\<lparr>opcode := f\<rparr>) st2"
  have at3: "code_at (space st3) b = (if b = slot_address n then blank_code\<lparr>opcode := f\<rparr> else code_at cs b)" for b
    using code_at_put [OF valid_slot [OF cs(2)], of n] cs(3) by (simp add: st3_def st2_def put_instruction_def)
  have ok3: "asm_ok F st3 (n + 1)"
  proof -
    have "snd (slot_address n) < 1023" by (simp add: slot_address_def)
    then have "space_ok (space st3) (n + 1)" using put_code_ok [OF cs(2)] by (simp add: st3_def st2_def put_instruction_def)
    moreover have "code_at (space st3) (slot_address k) = code_at (space st1) (slot_address k)" if "k < n" for k
      using at3 cs(4) that by simp
    ultimately have "asm_ok F (st1\<lparr>space := space st3\<rparr>) (n + 1)" by (intro asm_ok_more [OF l(1)]) simp_all
    moreover have "st1\<lparr>space := space st3\<rparr> = st3" by (simp add: st3_def st2_def put_instruction_def)
    ultimately show ?thesis by simp
  qed
  have rl: "resolv_list st3 = resolv_list st" "compile_errors st3 = compile_errors st"
    using l by (simp_all add: st3_def st2_def)
  have dom3: "dom (sym_codespace st3) = dom (sym_codespace st) \<union> set_option label" using l(4) by (simp add: st3_def st2_def)
  have c3: "complete F st3 (slot_address n) = blank_code\<lparr>opcode := f\<rparr>"
    using new at3 rl(1) l(3) by (auto simp: complete_def st2_def map_of_eq_None_iff [symmetric])
  have cj: "complete F st3 (slot_address j) = complete F st (slot_address j)" if "j < n" for j
    using that at3 cs(4) l(5) rl(1) by (simp add: complete_def split: option.split)
  have "opcode (code_at (space st3) (slot_address n)) \<noteq> ''of_FORK''" using at3 tf(1) by simp
  moreover have "slot_address n \<notin> fst ` set (resolv_list st3) \<and> cptr (code_at (space st3) (slot_address n)) = None"
    using new at3 rl(1) l(3) by (simp add: st2_def blank_code_def)
  ultimately obtain st4 where st4: "compile_operands (slot_address n) (zip argt opa) st3 = Inr st4" "code_extends F (n + 1) n st3 st4"
    "complete F st4 (slot_address n) = fold (fill F) (zip argt opa) (complete F st3 (slot_address n))"
    "open_refs F st4 = open_refs F st3 \<union> (\<Union>p\<in>set (zip argt opa). undefined_operand F (slot_address n) p)"
    using operands_assembled [OF ok3 _ e(3) tf(2), of n] by auto
  have "compile_code label mnem opa st = Inr st4"
    using e(1,2) cs(1) st4(1)
    by (simp add: compile_code_def Let_def opcode_lookup_exact allocate_instruction_def st1_def [symmetric] st2_def [symmetric] st3_def [symmetric])
  moreover have "complete F st4 (slot_address n) = assembled F (label, mnem, opa)"
    using st4(3) c3 e(1) by (simp add: assembled_def)
  moreover have "open_refs F st4 = open_refs F st \<union> undefined_refs F (slot_address n) (label, mnem, opa)"
    using st4(4) rl(1) e(1) by (simp add: undefined_refs_def open_refs_def)
  ultimately show ?thesis using st4(2) cj rl(2) dom3 by (intro exI [of _ st4]) (simp add: code_extends_def)
qed

lemma program_assembled:
  assumes "asm_ok F st n" "\<forall>s\<in>set prog. statement_ok s"
    "\<forall>i<length prog. \<forall>l. fst (prog ! i) = Some l \<longrightarrow> F l = Some (slot_address (n + i))"
  shows "\<exists>st'. compile_program prog st = Inr st' \<and> asm_ok F st' (n + length prog) \<and> compile_errors st' = compile_errors st \<and>
    (\<forall>i<length prog. complete F st' (slot_address (n + i)) = assembled F (prog ! i)) \<and>
    (\<forall>j<n. complete F st' (slot_address j) = complete F st (slot_address j)) \<and>
    dom (sym_codespace st') = dom (sym_codespace st) \<union> (\<Union>s\<in>set prog. set_option (fst s)) \<and>
    open_refs F st' = open_refs F st \<union> (\<Union>i<length prog. undefined_refs F (slot_address (n + i)) (prog ! i))"
  using assms
proof (induction prog arbitrary: st n)
  case Nil
  then show ?case by simp
next
  case (Cons s prog)
  obtain label mnem opa where s: "s = (label, mnem, opa)" by (metis prod_cases3)
  have lab: "\<forall>l. label = Some l \<longrightarrow> F l = Some (slot_address n)" using Cons.prems(3) [rule_format, of 0] s by simp
  obtain st1 where st1: "compile_code label mnem opa st = Inr st1" "asm_ok F st1 (n + 1)" "compile_errors st1 = compile_errors st"
    "complete F st1 (slot_address n) = assembled F s" "\<forall>j<n. complete F st1 (slot_address j) = complete F st (slot_address j)"
    "dom (sym_codespace st1) = dom (sym_codespace st) \<union> set_option label"
    "open_refs F st1 = open_refs F st \<union> undefined_refs F (slot_address n) s"
    using statement_assembled [OF Cons.prems(1) _ lab, of mnem opa] Cons.prems(2) s by auto
  have lab2: "\<forall>i<length prog. \<forall>l. fst (prog ! i) = Some l \<longrightarrow> F l = Some (slot_address (n + 1 + i))"
    using Cons.prems(3) by fastforce
  have ok2: "\<forall>s\<in>set prog. statement_ok s" using Cons.prems(2) by simp
  obtain st2 where st2: "compile_program prog st1 = Inr st2" "asm_ok F st2 (n + 1 + length prog)"
    "compile_errors st2 = compile_errors st1"
    "\<forall>i<length prog. complete F st2 (slot_address (n + 1 + i)) = assembled F (prog ! i)"
    "\<forall>j<n + 1. complete F st2 (slot_address j) = complete F st1 (slot_address j)"
    "dom (sym_codespace st2) = dom (sym_codespace st1) \<union> (\<Union>s\<in>set prog. set_option (fst s))"
    "open_refs F st2 = open_refs F st1 \<union> (\<Union>i<length prog. undefined_refs F (slot_address (n + 1 + i)) (prog ! i))"
    using Cons.IH [OF st1(2) ok2 lab2] by (elim exE conjE) (rule that)
  have "complete F st2 (slot_address (n + i)) = assembled F ((s # prog) ! i)" if "i < length (s # prog)" for i
    using that st2(4,5) st1(4) by (cases i) auto
  moreover have "(\<Union>i<length (s # prog). undefined_refs F (slot_address (n + i)) ((s # prog) ! i)) =
      undefined_refs F (slot_address n) s \<union> (\<Union>i<length prog. undefined_refs F (slot_address (n + 1 + i)) (prog ! i))"
    by (simp add: lessThan_Suc_eq_insert_0 image_image)
  moreover have "compile_program (s # prog) st = Inr st2" using st1(1) st2(1) s by simp
  moreover have "\<forall>j<n. complete F st2 (slot_address j) = complete F st (slot_address j)" using st2(5) st1(5) by simp
  moreover have "dom (sym_codespace st2) = dom (sym_codespace st) \<union> (\<Union>s\<in>set (s # prog). set_option (fst s))"
    unfolding st2(6) st1(6) by (simp add: s Un_assoc)
  ultimately show ?case using st1(3,7) st2(2,3,7) by (intro exI [of _ st2]) (simp add: Un_assoc)
qed

section \<open>The last rounds\<close>

lemma asm_ok_cong:
  "asm_ok F st n \<Longrightarrow> space st' = space st \<Longrightarrow> sym_codespace st' = sym_codespace st \<Longrightarrow>
    set (resolv_list st') = set (resolv_list st) \<Longrightarrow> distinct (map fst (resolv_list st')) \<Longrightarrow> asm_ok F st' n"
  by (simp add: asm_ok_def)

lemma complete_cong: "space st = space st' \<Longrightarrow> map_of (resolv_list st) = map_of (resolv_list st') \<Longrightarrow> complete F st b = complete F st' b"
  by (simp add: complete_def split: option.split)

lemma resolve_round_result:
  assumes "asm_ok F (st\<lparr>resolv_list := work @ resolv_list st\<rparr>) n" "sym_codespace st = F"
    "\<forall>(a, l)\<in>set (resolv_list st). F l = None"
  shows "\<exists>st'. resolve_round mes work st nerrs = (st', nerrs + length (filter (\<lambda>(a, l). F l = None) work)) \<and>
    asm_ok F st' n \<and> sym_codespace st' = F \<and> compile_errors st' = compile_errors st \<and>
    resolv_list st' = rev (filter (\<lambda>(a, l). F l = None) work) @ resolv_list st \<and>
    (\<forall>k<n. complete F st' (slot_address k) = complete F (st\<lparr>resolv_list := work @ resolv_list st\<rparr>) (slot_address k))"
  using assms
proof (induction work arbitrary: st nerrs)
  case Nil
  then show ?case by simp
next
  case (Cons cur work)
  obtain a l where cur: "cur = (a, l)" by fastforce
  let ?st = "st\<lparr>resolv_list := (cur # work) @ resolv_list st\<rparr>"
  have props: "(\<exists>k<n. a = slot_address k) \<and> cptr (code_at (space ?st) a) = None \<and> opcode (code_at (space ?st) a) \<noteq> ''of_FORK''"
    using asm_okD [OF Cons.prems(1), of a l] cur by simp
  then obtain k where k: "k < n" "a = slot_address k" by blast
  have distinct: "distinct (map fst (cur # work @ resolv_list st))" using Cons.prems(1) by (simp add: asm_ok_def)
  show ?case
  proof (cases "F l")
    case None
    define st1 where "st1 = (if mes then print_message (''unresolved code label: '' @ l) st else st)"
    define st2 where "st2 = st1\<lparr>resolv_list := cur # resolv_list st1\<rparr>"
    have f: "space st2 = space st" "sym_codespace st2 = sym_codespace st" "resolv_list st2 = cur # resolv_list st"
      "compile_errors st2 = compile_errors st" by (simp_all add: st2_def st1_def print_message_def)
    have step: "resolve_round mes (cur # work) st nerrs = resolve_round mes work st2 (nerrs + 1)"
      using None Cons.prems(2) cur by (simp add: code_label_resolve_def st2_def st1_def)
    have mem: "set (work @ resolv_list st2) = set ((cur # work) @ resolv_list st)" using f(3) by auto
    have dist2: "distinct (map fst (work @ resolv_list st2))" using distinct f(3) by auto
    have ok: "asm_ok F (st2\<lparr>resolv_list := work @ resolv_list st2\<rparr>) n"
      by (rule asm_ok_cong [OF Cons.prems(1)]) (use f(1,2) mem dist2 in simp_all)
    have "map_of (work @ resolv_list st2) = map_of ((cur # work) @ resolv_list st)"
      using distinct dist2 mem by (intro map_of_inject_set [THEN iffD2]) (simp_all del: set_append)
    then have same: "complete F (st2\<lparr>resolv_list := work @ resolv_list st2\<rparr>) b = complete F ?st b" for b
      using f(1) by (intro complete_cong) simp_all
    have none: "\<forall>(a, l)\<in>set (resolv_list st2). F l = None" using Cons.prems(3) None cur f(3) by simp
    have "sym_codespace st2 = F" using f(2) Cons.prems(2) by simp
    from Cons.IH [OF ok this none, of "nerrs + 1"] show ?thesis
      unfolding step using same None cur f(3,4) by auto
  next
    case (Some t)
    define g where "g c = (if opcode c = ''of_FORK'' then c\<lparr>cptr2 := Some t\<rparr> else c\<lparr>cptr := Some t\<rparr>)" for c :: vvp_code
    define st1 where "st1 = put_instruction a g st"
    have step: "resolve_round mes (cur # work) st nerrs = resolve_round mes work st1 nerrs"
      using Some Cons.prems(2) cur by (simp add: code_label_resolve_def st1_def g_def [abs_def])
    have f: "sym_codespace st1 = sym_codespace st" "resolv_list st1 = resolv_list st" "compile_errors st1 = compile_errors st"
      by (simp_all add: st1_def)
    have base: "asm_ok F (st\<lparr>resolv_list := work @ resolv_list st\<rparr>) n"
      using Cons.prems(1) by (auto simp: asm_ok_def)
    have new: "slot_address k \<notin> fst ` set (work @ resolv_list st)" using distinct cur k(2) by auto
    have put: "put_instruction a g (st\<lparr>resolv_list := work @ resolv_list st\<rparr>) = st1\<lparr>resolv_list := work @ resolv_list st1\<rparr>"
      using f(2) by (simp add: st1_def put_instruction_def)
    have opg: "opcode (g c) = opcode c" for c by (simp add: g_def)
    have ok: "asm_ok F (st1\<lparr>resolv_list := work @ resolv_list st1\<rparr>) n"
      unfolding put [symmetric] k(2) by (rule put_instruction_ok(1) [OF base k(1)]) (use opg new in simp_all)
    have at: "code_at (space st1) b = (if b = a then g (code_at (space st) b) else code_at (space st) b)" for b
      using put_instruction_ok(2) [OF base k(1), of g b] opg new put k(2) by (simp add: st1_def put_instruction_def)
    have ga: "g (code_at (space st) a) = (code_at (space st) a)\<lparr>cptr := Some t\<rparr>" using props by (simp add: g_def)
    have na: "map_of (work @ resolv_list st) a = None" using new k(2) by (simp add: map_of_eq_None_iff image_Un)
    have same: "complete F (st1\<lparr>resolv_list := work @ resolv_list st1\<rparr>) b = complete F ?st b" for b
      using at ga na Some cur f(2) by (cases "b = a") (auto simp: complete_def split: option.splits)
    have none: "\<forall>(a, l)\<in>set (resolv_list st1). F l = None" using Cons.prems(3) f(2) by simp
    have "sym_codespace st1 = F" using f(1) Cons.prems(2) by simp
    from Cons.IH [OF ok this none, of nerrs] show ?thesis
      unfolding step using same Some cur f(2,3) by auto
  qed
qed


lemma cleanup_result:
  assumes "asm_ok F st n" "sym_codespace st = F"
  shows "\<exists>st'. compile_cleanup 3 st = Some st' \<and> asm_ok F st' n \<and>
    (\<forall>(a, l)\<in>set (resolv_list st'). F l = None) \<and>
    compile_errors st' = compile_errors st + card (open_refs F st) \<and>
    (\<forall>k<n. complete F st' (slot_address k) = complete F st (slot_address k))"
proof -
  let ?open = "filter (\<lambda>(a, l). F l = None)"
  define u where "u = length (?open (resolv_list st))"
  have round: "\<exists>st'. resolve_round mes (resolv_list s) (s\<lparr>resolv_list := []\<rparr>) 0 = (st', u) \<and> asm_ok F st' n \<and>
      sym_codespace st' = F \<and> compile_errors st' = compile_errors st \<and> ?open (resolv_list st') = resolv_list st' \<and>
      length (?open (resolv_list st')) = u \<and> (\<forall>k<n. complete F st' (slot_address k) = complete F st (slot_address k))"
    if s: "asm_ok F s n" "sym_codespace s = F" "compile_errors s = compile_errors st" "length (?open (resolv_list s)) = u"
      "\<forall>k<n. complete F s (slot_address k) = complete F st (slot_address k)" for mes s
  proof -
    have eq: "(s\<lparr>resolv_list := []\<rparr>)\<lparr>resolv_list := resolv_list s @ resolv_list (s\<lparr>resolv_list := []\<rparr>)\<rparr> = s" by simp
    then have "asm_ok F ((s\<lparr>resolv_list := []\<rparr>)\<lparr>resolv_list := resolv_list s @ resolv_list (s\<lparr>resolv_list := []\<rparr>)\<rparr>) n"
      using s(1) by metis
    from resolve_round_result [OF this, of mes 0] show ?thesis
      using s(2-5) unfolding eq by (auto simp: rev_filter [symmetric] filter_filter)
  qed
  have same: "\<forall>k<n. complete F st (slot_address k) = complete F st (slot_address k)" by simp
  obtain s1 where s1: "resolve_round False (resolv_list st) (st\<lparr>resolv_list := []\<rparr>) 0 = (s1, u)" "asm_ok F s1 n"
    "sym_codespace s1 = F" "compile_errors s1 = compile_errors st" "?open (resolv_list s1) = resolv_list s1"
    "length (?open (resolv_list s1)) = u" "\<forall>k<n. complete F s1 (slot_address k) = complete F st (slot_address k)"
    using round [OF assms refl u_def [symmetric] same, of False] by blast
  obtain s2 where s2: "resolve_round False (resolv_list s1) (s1\<lparr>resolv_list := []\<rparr>) 0 = (s2, u)" "asm_ok F s2 n"
    "sym_codespace s2 = F" "compile_errors s2 = compile_errors st" "?open (resolv_list s2) = resolv_list s2"
    "length (?open (resolv_list s2)) = u" "\<forall>k<n. complete F s2 (slot_address k) = complete F st (slot_address k)"
    using round [OF s1(2-4,6,7), of False] by blast
  obtain s3 where s3: "resolve_round True (resolv_list s2) (s2\<lparr>resolv_list := []\<rparr>) 0 = (s3, u)" "asm_ok F s3 n"
    "sym_codespace s3 = F" "compile_errors s3 = compile_errors st" "?open (resolv_list s3) = resolv_list s3"
    "length (?open (resolv_list s3)) = u" "\<forall>k<n. complete F s3 (slot_address k) = complete F st (slot_address k)"
    using round [OF s2(2-4,6,7), of True] by blast
  define s4 where "s4 = (if u \<noteq> 0 then print_message (''compile_cleanup: '' @ string_of_nat u @ '' unresolved items'') s3 else s1)"
  have three: "3 = Suc (Suc (Suc 0))" by simp
  have "cleanup_rounds 3 (- 1) 0 st = Some (s4, u)"
    unfolding three using s1(1) s2(1) s3(1) by (simp add: Let_def s4_def)
  then have "compile_cleanup 3 st = Some (s4\<lparr>compile_errors := compile_errors s4 + u\<rparr>)" by (simp add: compile_cleanup_def)
  moreover have "space s4 = (if u \<noteq> 0 then space s3 else space s1)" "resolv_list s4 = (if u \<noteq> 0 then resolv_list s3 else resolv_list s1)"
    "sym_codespace s4 = F" "compile_errors s4 = compile_errors st"
    using s1(3,4) s3(3,4) by (simp_all add: s4_def print_message_def)
  moreover from this have "asm_ok F (s4\<lparr>compile_errors := compile_errors s4 + u\<rparr>) n"
    using s1(2,3) s3(2,3) by (cases "u = 0") (auto simp: asm_ok_def)
  moreover have "complete F (s4\<lparr>compile_errors := compile_errors s4 + u\<rparr>) b = (if u \<noteq> 0 then complete F s3 b else complete F s1 b)" for b
    using calculation(2,3) by (auto intro!: complete_cong)
  moreover have "card (open_refs F st) = u"
  proof -
    have "open_refs F st = set (?open (resolv_list st))" by (auto simp: open_refs_def)
    moreover have "distinct (resolv_list st)" using assms(1) by (auto simp: asm_ok_def distinct_map)
    ultimately show ?thesis unfolding u_def by (metis distinct_card distinct_filter)
  qed
  moreover have "\<forall>(a, l)\<in>set (resolv_list s1). F l = None" "\<forall>(a, l)\<in>set (resolv_list s3). F l = None"
    using s1(5) s3(5) by (simp_all add: filter_id_conv)
  ultimately show ?thesis using s1(7) s3(7)
    by (intro exI [of _ "s4\<lparr>compile_errors := compile_errors s4 + u\<rparr>"]) (cases "u = 0"; simp)
qed

lemma label_address_nth:
  "distinct (labels prog) \<Longrightarrow> i < length prog \<Longrightarrow> fst (prog ! i) = Some l \<Longrightarrow>
    label_address k prog l = Some (slot_address (k + i))"
proof (induction prog arbitrary: i k)
  case (Cons s prog)
  obtain label mnem opa where s: "s = (label, mnem, opa)" by (metis prod_cases3)
  show ?case
  proof (cases i)
    case 0
    then show ?thesis using Cons.prems(3) s by simp
  next
    case (Suc j)
    have "l \<in> set (labels prog)" using Cons.prems(2,3) Suc 
      by (auto simp: labels_def List.map_filter_def in_set_conv_nth intro!: image_eqI [of _ _ "prog ! j"])
    then have "label \<noteq> Some l" using Cons.prems(1) s by (auto simp: labels_def map_filter_simps)
    moreover have "distinct (labels prog)" using Cons.prems(1) by (auto simp: labels_def map_filter_simps split: option.splits)
    ultimately show ?thesis using Cons.IH [of j "k + 1"] Cons.prems Suc s by simp
  qed
qed simp

lemma dom_label_address: "dom (label_address k prog) = (\<Union>s\<in>set prog. set_option (fst s))"
proof (induction prog arbitrary: k)
  case (Cons s prog)
  obtain label mnem opa where s: "s = (label, mnem, opa)" by (metis prod_cases3)
  have "dom (label_address k (s # prog)) = set_option label \<union> dom (label_address (k + 1) prog)"
    unfolding s by (auto simp: dom_def split: if_splits)
  also have "\<dots> = (\<Union>s\<in>set (s # prog). set_option (fst s))" unfolding Cons.IH by (simp add: s)
  finally show ?case .
qed (simp add: dom_def)

lemma new_assembler_ok: "asm_ok F new_assembler 1"
  using init_ok by (simp add: asm_ok_def new_assembler_def map_le_def)

lemma program_linked:
  assumes "\<forall>s\<in>set prog. statement_ok s" "distinct (labels prog)" "F = label_address 1 prog"
  shows "\<exists>st st'. compile_program prog new_assembler = Inr st \<and> compile_cleanup 3 st = Some st' \<and>
    asm_ok F st' (1 + length prog) \<and>
    (\<forall>i<length prog. code_at (space st') (slot_address (i + 1)) = assembled F (prog ! i)) \<and>
    compile_errors st' = card (\<Union>i<length prog. undefined_refs F (slot_address (i + 1)) (prog ! i))"
proof -
  have lab: "\<forall>i<length prog. \<forall>l. fst (prog ! i) = Some l \<longrightarrow> F l = Some (slot_address (1 + i))"
    using label_address_nth [OF assms(2)] assms(3) by blast
  obtain st where st: "compile_program prog new_assembler = Inr st" "asm_ok F st (1 + length prog)"
    "compile_errors st = 0" "\<forall>i<length prog. complete F st (slot_address (1 + i)) = assembled F (prog ! i)"
    "dom (sym_codespace st) = (\<Union>s\<in>set prog. set_option (fst s))"
    "open_refs F st = (\<Union>i<length prog. undefined_refs F (slot_address (1 + i)) (prog ! i))"
    using program_assembled [OF new_assembler_ok assms(1) lab] by (auto simp: new_assembler_def open_refs_def)
  have "sym_codespace st = F"
  proof (rule map_le_antisym)
    show le: "sym_codespace st \<subseteq>\<^sub>m F" using st(2) by (simp add: asm_ok_def)
    have "dom F = dom (sym_codespace st)" unfolding st(5) assms(3) by (rule dom_label_address)
    then show "F \<subseteq>\<^sub>m sym_codespace st" using le by (auto simp: map_le_def)
  qed
  then obtain st' where st': "compile_cleanup 3 st = Some st'" "asm_ok F st' (1 + length prog)"
    "\<forall>(a, l)\<in>set (resolv_list st'). F l = None" "compile_errors st' = card (open_refs F st)"
    "\<forall>k<1 + length prog. complete F st' (slot_address k) = complete F st (slot_address k)"
    using cleanup_result [OF st(2)] st(3) by auto
  have "code_at (space st') a = complete F st' a" for a
  proof (cases "map_of (resolv_list st') a")
    case (Some l)
    then have "(a, l) \<in> set (resolv_list st')" by (rule map_of_SomeD)
    then have "F l = None" "cptr (code_at (space st') a) = None" using st'(3) asm_okD [OF st'(2)] by auto
    then show ?thesis using Some by (simp add: complete_def)
  qed (simp add: complete_def)
  then show ?thesis using st(1,4,6) st'(1,2,4,5) by (auto simp: add.commute)
qed

text \<open>
  C35. Assembling a program whose statements have a known opcode with operands of the right number and
  form, and labels that are not defined twice: statement number i becomes the instruction at address
  i + 1 of the chain of chunks, with its operands and with the addresses of its labels, also of those
  that are defined later or whose chunk ends in between. The final loop over the open references ends within three
  rounds, and the number of errors is that of the references to undefined labels.
\<close>

theorem program_is_assembled:
  assumes "\<forall>s\<in>set prog. statement_ok s" "distinct (labels prog)" "F = label_address 1 prog"
  shows "\<exists>st st'. compile_program prog new_assembler = Inr st \<and> compile_cleanup 3 st = Some st' \<and>
    (\<forall>i<length prog. code_at (space st') (slot_address (i + 1)) = assembled F (prog ! i)) \<and>
    compile_errors st' = card (\<Union>i<length prog. undefined_refs F (slot_address (i + 1)) (prog ! i))"
  using program_linked [OF assms] by blast

theorem program_is_assembled_witness:
  "\<exists>st st'. compile_program [(Some ''L'', ''%jmp'', [L_SYMB ''M'' 0]), (None, ''%jmp'', [L_SYMB ''N'' 0]),
      (Some ''M'', ''%jmp'', [L_SYMB ''L'' 0])] new_assembler = Inr st \<and> compile_cleanup 3 st = Some st' \<and>
    cptr (code_at (space st') (slot_address 1)) = Some (slot_address 3) \<and> compile_errors st' = 1"
proof -
  let ?p = "[(Some ''L'', ''%jmp'', [L_SYMB ''M'' 0]), (None, ''%jmp'', [L_SYMB ''N'' 0]), (Some ''M'', ''%jmp'', [L_SYMB ''L'' 0])]"
  have "map_of opcode_table ''%jmp'' = Some (''of_JMP'', 1, [OA_CODE_PTR, OA_NONE, OA_NONE])" by code_simp
  then have s: "\<forall>s\<in>set ?p. statement_ok s" by (simp add: statement_ok_def)
  have p: "distinct (labels ?p)"
    "cptr (assembled (label_address 1 ?p) (?p ! 0)) = Some (slot_address 3)"
    "undefined_refs (label_address 1 ?p) (slot_address (0 + 1)) (?p ! 0) = {}"
    "undefined_refs (label_address 1 ?p) (slot_address (1 + 1)) (?p ! 1) = {(slot_address 2, ''N'')}"
    "undefined_refs (label_address 1 ?p) (slot_address (2 + 1)) (?p ! 2) = {}"
    by code_simp+
  have "{..<length ?p} = {0, 1, 2}" by auto
  then have "(\<Union>i<length ?p. undefined_refs (label_address 1 ?p) (slot_address (i + 1)) (?p ! i)) = {(slot_address 2, ''N'')}"
    using p(3-5) by simp
  then show ?thesis using program_is_assembled [OF s p(1) refl] p(2) by force
qed

end
