(* ===== verification/VThreadArith.thy ===== *)
theory VThreadArith
  imports VThread
begin

text \<open>
  What the arithmetic instructions of threads compute. Arrays of words are read as numbers, and
  an instruction is described by what it writes into the bits of the thread.
\<close>

section \<open>Arrays as numbers\<close>

definition num :: "word64 list \<Rightarrow> int" where
  "num ws = horner_sum uint (2 ^ 64) ws"

lemma num_simps [simp]: "num [] = 0" "num (w # ws) = uint w + 2 ^ 64 * num ws"
  by (simp_all add: num_def)

lemma num_append: "num (xs @ ys) = num xs + 2 ^ (64 * length xs) * num ys"
  by (induction xs) (simp_all add: algebra_simps power_add)

lemma num_replicate_0 [simp]: "num (replicate n 0) = 0"
  by (induction n) simp_all

lemma bit_num: "bit (num ws) k \<longleftrightarrow> k < 64 * length ws \<and> pbit ws k"
  by (simp add: num_def bit_horner_sum_uint_exp_iff [where 'a = 64, simplified] pbit_def less_mult_imp_div_less
        div_less_iff_less_mult mult.commute)

text \<open>The low bits of a number.\<close>

definition bits_of :: "nat \<Rightarrow> int \<Rightarrow> bit4 list" where
  "bits_of n x = map (\<lambda>k. if bit x k then BIT4_1 else BIT4_0) [0..<n]"

lemma length_bits_of [simp]: "length (bits_of n x) = n"
  by (simp add: bits_of_def)

lemma bits_of_mod: "n \<le> m \<Longrightarrow> bits_of n (x mod 2 ^ m) = bits_of n x"
  by (simp add: bits_of_def bit_take_bit_iff flip: take_bit_eq_mod)

lemma bits_of_cong: "x mod 2 ^ n = y mod 2 ^ n \<Longrightarrow> bits_of n x = bits_of n y"
  by (metis bits_of_mod le_refl)

lemma defined_bits_of: "defined (bits_of n x)"
  by (auto simp: defined_def bits_of_def)

lemma value_of_bits_of: "value_of (bits_of n x) = x mod 2 ^ n"
proof -
  have "value_of (bits_of n x) = horner_sum of_bool 2 (map (bit x) [0..<n])"
    by (simp add: value_of_def bits_of_def comp_def if_distrib cong: if_cong)
  then show ?thesis by (simp only: horner_sum_bit_eq_take_bit take_bit_eq_mod)
qed

lemma bit_value_of: "bit (value_of bs) k \<longleftrightarrow> k < length bs \<and> bs ! k = BIT4_1"
  by (auto simp: value_of_def bit_horner_sum_bit_iff)

lemma num_eq_value_of:
  assumes "length bs \<le> 64 * length ws" "\<And>k. k < 64 * length ws \<Longrightarrow> pbit ws k \<longleftrightarrow> k < length bs \<and> bs ! k = BIT4_1"
  shows "num ws = value_of bs"
proof (rule bit_eqI)
  fix k
  show "bit (num ws) k \<longleftrightarrow> bit (value_of bs) k"
    using assms unfolding bit_num bit_value_of by (cases "k < 64 * length ws") auto
qed

section \<open>Reading and writing\<close>

definition operand :: "vthread \<Rightarrow> nat \<Rightarrow> nat \<Rightarrow> bit4 list" where
  "operand thr addr n =
     (if addr < 4 then replicate n (thr_index_to_bit4 addr) else take n (drop addr (bits4 (thr_bits thr))))"

definition operand_ok :: "vthread \<Rightarrow> nat \<Rightarrow> nat \<Rightarrow> bool" where
  "operand_ok thr addr n \<longleftrightarrow> addr < 4 \<or> addr + n \<le> size4 (thr_bits thr)"

definition writes :: "vthread \<Rightarrow> nat \<Rightarrow> bit4 list \<Rightarrow> vthread result \<Rightarrow> bool" where
  "writes thr addr bs r \<longleftrightarrow>
     (\<exists>v. r = Inr (thr\<lparr>thr_bits := v\<rparr>) \<and> vector_ok v \<and>
        bits4 v = take addr (bits4 (thr_bits thr)) @ bs @ drop (addr + length bs) (bits4 (thr_bits thr)))"

lemma length_operand [simp]: "operand_ok thr addr n \<Longrightarrow> length (operand thr addr n) = n"
  by (auto simp: operand_def operand_ok_def)

lemma setarray_writes:
  assumes "vector_ok (thr_bits thr)" "addr + wid \<le> size4 (thr_bits thr)" "0 < wid" "wid \<le> 64 * length val"
  shows "writes thr addr (bits_of wid (num val)) (thr_setarray thr addr wid val)"
proof -
  let ?v = "thr_bits thr"
  obtain as bs where r: "setarray ?v addr wid val = Inr (?v\<lparr>abits := as, bbits := bs\<rparr>)"
    and p: "placed 0 addr wid val (abits ?v) as" "placed 0 addr wid (replicate (length val) 0) (bbits ?v) bs"
    using setarray_planes [OF assms] by blast
  have len: "length as = word_count (size4 ?v)" "length bs = word_count (size4 ?v)"
    using p assms(1) by (simp_all add: placed_def vector_ok_def)
  have pa: "pbit as k = (if addr \<le> k \<and> k < addr + wid then pbit val (k - addr) else pbit (abits ?v) k)" if "k < size4 ?v" for k
    using p(1) inside [OF that] assms(1) by (simp add: placed_def vector_ok_def)
  have pb: "pbit bs k = (\<not> (addr \<le> k \<and> k < addr + wid) \<and> pbit (bbits ?v) k)" if "k < size4 ?v" for k
    using p(2) inside [OF that] assms(1,4) by (auto simp: placed_def vector_ok_def pbit_replicate)
  have "bits4 (?v\<lparr>abits := as, bbits := bs\<rparr>) =
      take addr (bits4 ?v) @ bits_of wid (num val) @ drop (addr + wid) (bits4 ?v)"
  proof (intro nth_equalityI)
    show "length (bits4 (?v\<lparr>abits := as, bbits := bs\<rparr>)) =
        length (take addr (bits4 ?v) @ bits_of wid (num val) @ drop (addr + wid) (bits4 ?v))"
      using assms(2) by simp
    fix k assume "k < length (bits4 (?v\<lparr>abits := as, bbits := bs\<rparr>))"
    then have k: "k < size4 ?v" by simp
    then show "bits4 (?v\<lparr>abits := as, bbits := bs\<rparr>) ! k =
        (take addr (bits4 ?v) @ bits_of wid (num val) @ drop (addr + wid) (bits4 ?v)) ! k"
      using assms(2,4) pa [OF k] pb [OF k]
      by (auto simp: nth_append value4_pbit bits_of_def bit_num bit4_of_def)
  qed
  then show ?thesis using len r
    by (auto simp: writes_def thr_setarray_def with_bits_def vector_ok_def)
qed

lemma set_vec_writes:
  assumes "vector_ok (thr_bits thr)" "vector_ok w" "addr + size4 w \<le> size4 (thr_bits thr)" "0 < size4 w"
  shows "writes thr addr (bits4 w) (thr_set_vec thr addr w)"
  using set_vec_bits [OF assms] by (auto simp: writes_def thr_set_vec_def with_bits_def)

lemma put_x_writes:
  assumes "vector_ok (thr_bits thr)" "addr + n \<le> size4 (thr_bits thr)" "0 < n"
  shows "writes thr addr (replicate n BIT4_X) (put_x thr addr n)"
  using set_vec_writes [of thr "new_vector4 n BIT4_X" addr] assms by (simp add: put_x_def)

lemma array_words_cover: "n \<le> 64 * array_words n"
  by (auto simp: array_words_def)

lemma ones_array:
  assumes "0 < n"
  shows "\<exists>ws. vector_to_array thr 1 n = Inr (Some ws) \<and> length ws = array_words n \<and>
    (\<forall>k<64 * length ws. pbit ws k \<longleftrightarrow> k < n)"
proof -
  define aw where "aw = array_words n"
  define rest where "rest = n - (aw - 1) * 64"
  have aw: "0 < aw" "(aw - 1) * 64 < n" "n \<le> aw * 64"
    using assms by (auto simp: aw_def array_words_def div_greater_zero_iff)
  then have rest: "rest \<le> 64" "n = 64 * (aw - 1) + rest" by (auto simp: rest_def algebra_simps)
  define ws :: "word64 list" where
    "ws = (if rest < 64 then (replicate aw (- 1))[aw - 1 := - 1 AND drop_bit (64 - rest) (- 1)] else replicate aw (- 1))"
  have "pbit ws k \<longleftrightarrow> k < n" if k: "k < 64 * aw" for k
  proof -
    have d: "k div 64 < aw" using k by (simp add: less_mult_imp_div_less mult.commute)
    have m: "k = 64 * (k div 64) + k mod 64" by simp
    show ?thesis
    proof (cases "k div 64 = aw - 1")
      case True
      then have "k < n \<longleftrightarrow> k mod 64 < rest" using rest(2) m by linarith
      then show ?thesis using True d rest(1) by (auto simp: ws_def pbit_def bit_simps)
    next
      case False
      then have "k div 64 + 1 \<le> aw - 1" using d by simp
      then have "k < n" using aw(2) by linarith
      then show ?thesis using False d by (auto simp: ws_def pbit_def bit_simps)
    qed
  qed
  moreover have "vector_to_array thr 1 n = Inr (Some ws)"
    using aw(1) by (simp add: vector_to_array_def Let_def ws_def rest_def aw_def)
  ultimately show ?thesis by (auto simp: ws_def aw_def)
qed

lemma vector_to_array_value:
  assumes "vector_ok (thr_bits thr)" "operand_ok thr addr n" "0 < n"
  shows "if defined (operand thr addr n)
    then \<exists>ws. vector_to_array thr addr n = Inr (Some ws) \<and> length ws = array_words n \<and> num ws = value_of (operand thr addr n)
    else vector_to_array thr addr n = Inr None"
proof -
  have cover: "n \<le> 64 * array_words n" by (rule array_words_cover)
  consider "addr = 0" | "addr = 1" | "addr = 2 \<or> addr = 3" | "4 \<le> addr" by linarith
  then show ?thesis
  proof cases
    case 1
    have "num (replicate (array_words n) 0) = value_of (operand thr addr n)"
      using 1 cover by (intro num_eq_value_of) (auto simp: operand_def thr_index_to_bit4_def pbit_replicate)
    moreover have "defined (operand thr addr n)" using 1 by (auto simp: operand_def defined_def thr_index_to_bit4_def)
    ultimately show ?thesis using 1 by (auto simp: vector_to_array_def)
  next
    case 2
    obtain ws where ws: "vector_to_array thr 1 n = Inr (Some ws)" "length ws = array_words n"
      "\<forall>k<64 * length ws. pbit ws k \<longleftrightarrow> k < n" using ones_array [OF assms(3)] by blast
    have "num ws = value_of (operand thr addr n)"
      using 2 ws cover by (intro num_eq_value_of) (auto simp: operand_def thr_index_to_bit4_def)
    moreover have "defined (operand thr addr n)" using 2 by (auto simp: operand_def defined_def thr_index_to_bit4_def)
    ultimately show ?thesis using 2 ws(1,2) by auto
  next
    case 3
    then have "\<not> defined (operand thr addr n)"
      using assms(3) by (auto simp: operand_def defined_def thr_index_to_bit4_def)
    then show ?thesis using 3 by (auto simp: vector_to_array_def)
  next
    case 4
    let ?v = "thr_bits thr"
    have range: "addr + n \<le> size4 ?v" using 4 assms(2) by (simp add: operand_ok_def)
    have sub: "vector_to_array thr addr n = subarray ?v addr n" using 4 by (simp add: vector_to_array_def)
    have nth: "operand thr addr n ! k = bit4_of (pbit (abits ?v) (addr + k)) (pbit (bbits ?v) (addr + k))" if "k < n" for k
      using that range 4 by (simp add: operand_def value4_pbit)
    have len: "length (operand thr addr n) = n" using assms(2) by simp
    have def: "defined (operand thr addr n) \<longleftrightarrow> \<not> (\<exists>k<n. pbit (bbits ?v) (addr + k))"
      unfolding defined_def all_set_conv_all_nth len using nth by (auto simp: bit4_of_xz)
    show ?thesis
    proof (cases "defined (operand thr addr n)")
      case False
      then show ?thesis using subarray_bits [OF assms(1) range assms(3)] sub def by auto
    next
      case True
      then obtain ws where ws: "subarray ?v addr n = Inr (Some ws)" "length ws = array_words n"
        "\<forall>k<64 * length ws. pbit ws k \<longleftrightarrow> k < n \<and> pbit (abits ?v) (addr + k)"
        using subarray_bits [OF assms(1) range assms(3)] def by (auto simp: array_words_def split: if_splits)
      have one: "operand thr addr n ! k = BIT4_1 \<longleftrightarrow> pbit (abits ?v) (addr + k)" if "k < n" for k
        using nth [OF that] True def that by (auto simp: bit4_of_def)
      have "num ws = value_of (operand thr addr n)"
        using ws(2,3) cover one by (intro num_eq_value_of) (auto simp: len)
      then show ?thesis using True ws sub by auto
    qed
  qed
qed


section \<open>Words with carry\<close>

lemma num_bounds: "0 \<le> num ws" "num ws < 2 ^ (64 * length ws)"
proof -
  have "take_bit (64 * length ws) (num ws) = num ws"
    by (rule bit_eqI) (auto simp: bit_take_bit_iff bit_num)
  then have e: "num ws mod 2 ^ (64 * length ws) = num ws" by (simp add: take_bit_eq_mod)
  show "0 \<le> num ws" by (subst e [symmetric]) simp
  show "num ws < 2 ^ (64 * length ws)" by (subst e [symmetric]) simp
qed

lemma uint_word64: "0 \<le> uint w" "uint w < 2 ^ 64" for w :: word64
  using uint_lt2p [of w] by simp_all

lemma carry_step:
  fixes a b c t s M :: int
  assumes "0 \<le> a" "a < M" "0 \<le> b" "b < M" "c = 0 \<or> c = 1" "1 < M"
    "t = (if b + c < M then b + c else b + c - M)" "s = (if a + t < M then a + t else a + t - M)"
  shows "s + M * (if t < b \<or> s < t \<or> s < a then 1 else 0) = a + b + c"
  using assms by (auto split: if_splits)

lemma word_add_with_carry_exact:
  assumes "word_add_with_carry a b c = (s, c')" "c = 0 \<or> c = 1"
  shows "uint s + 2 ^ 64 * uint c' = uint a + uint b + uint c" "c' = 0 \<or> c' = 1"
proof -
  have s: "s = a + (b + c)" "c' = (if b + c < b \<or> s < b + c \<or> s < a then 1 else 0)"
    using assms(1) by (auto simp: word_add_with_carry_def Let_def)
  have r: "0 \<le> uint a" "uint a < 2 ^ 64" "0 \<le> uint b" "uint b < 2 ^ 64" using uint_word64 by simp_all
  have c: "uint c = 0 \<or> uint c = 1" using assms(2) by auto
  have t: "uint (b + c) = (if uint b + uint c < 2 ^ 64 then uint b + uint c else uint b + uint c - 2 ^ 64)"
    using uint_plus_if' [of b c] by simp
  have u: "uint s = (if uint a + uint (b + c) < 2 ^ 64 then uint a + uint (b + c) else uint a + uint (b + c) - 2 ^ 64)"
    using uint_plus_if' [of a "b + c"] s(1) by simp
  show "uint s + 2 ^ 64 * uint c' = uint a + uint b + uint c"
    using carry_step [OF r c _ t u] unfolding s(2) word_less_def by (simp split: if_splits)
  show "c' = 0 \<or> c' = 1" by (simp add: s(2))
qed

lemma congruent_step:
  fixes s M N :: int
  assumes "0 \<le> s" "s < M" "0 < N" "s + M * c' = a + b + c"
  shows "s + M * ((x + y + c') mod N) = (a + M * x + (b + M * y) + c) mod (M * N)"
proof -
  have e: "a + M * x + (b + M * y) + c = s + M * (x + y + c')" using assms(4) by (simp add: algebra_simps)
  have "(s + M * (x + y + c')) div M = x + y + c'" "(s + M * (x + y + c')) mod M = s"
    using assms(1,2) by simp_all
  then have "(s + M * (x + y + c')) mod (M * N) = M * ((x + y + c') mod N) + s"
    using assms(3) by (simp only: zmod_zmult2_eq less_imp_le)
  then show ?thesis using e by simp
qed

lemma add_arrays_num:
  "length as = length bs \<Longrightarrow> c = 0 \<or> c = 1 \<Longrightarrow>
    length (add_arrays c as bs) = length as \<and>
    num (add_arrays c as bs) = (num as + num bs + uint c) mod 2 ^ (64 * length as)"
proof (induction as arbitrary: bs c)
  case Nil
  then show ?case by auto
next
  case (Cons a as)
  then obtain b bs' where bs: "bs = b # bs'" "length as = length bs'" by (cases bs) auto
  obtain s c' where sc: "word_add_with_carry a b c = (s, c')" by fastforce
  note ex = word_add_with_carry_exact [OF sc Cons.prems(2)]
  have "num (add_arrays c (a # as) bs) = uint s + 2 ^ 64 * ((num as + num bs' + uint c') mod 2 ^ (64 * length as))"
    using Cons.IH [OF bs(2) ex(2)] bs(1) sc by simp
  also have "\<dots> = (uint a + 2 ^ 64 * num as + (uint b + 2 ^ 64 * num bs') + uint c) mod (2 ^ 64 * 2 ^ (64 * length as))"
    using ex(1) uint_word64 [of s] by (intro congruent_step) simp_all
  finally show ?case using Cons.IH [OF bs(2) ex(2)] bs(1) sc by (simp add: power_add)
qed

lemma num_map_NOT: "num (map (\<lambda>w. NOT w) ws) = 2 ^ (64 * length ws) - 1 - num ws"
proof (induction ws)
  case (Cons w ws)
  have "uint (NOT w) = 2 ^ 64 - 1 - uint w"
    using uint_word64 [of w] uint_sub_if' [of "- 1" w] not_eq_complement [of w]
    by (simp add: minus_diff_commute unsigned_minus_1_eq_mask mask_eq_exp_minus_1)
  then show ?case using Cons by (simp add: algebra_simps power_add)
qed simp

lemma add_high_num:
  "c = 0 \<or> c = 1 \<Longrightarrow> length (add_high high c res) = length res \<and>
    num (add_high high c res) = (num res + uint high + uint c) mod 2 ^ (64 * length res)"
proof (induction res arbitrary: high c)
  case (Cons r res)
  obtain s c' where sc: "word_add_with_carry r high c = (s, c')" by fastforce
  note ex = word_add_with_carry_exact [OF sc Cons.prems]
  have "num (add_high high c (r # res)) = uint s + 2 ^ 64 * ((num res + 0 + uint c') mod 2 ^ (64 * length res))"
    using Cons.IH [OF ex(2), of 0] sc by simp
  also have "\<dots> = (uint r + 2 ^ 64 * num res + (uint high + 2 ^ 64 * 0) + uint c) mod (2 ^ 64 * 2 ^ (64 * length res))"
    using ex(1) uint_word64 [of s] by (intro congruent_step) simp_all
  finally show ?case using Cons.IH [OF ex(2), of 0] sc by (simp add: power_add)
qed simp


section \<open>Products\<close>

lemma split_product: "x * n = x * (n mod B) + x * B * (n div B)" for x n B :: nat
proof -
  have "x * n = x * (n mod B + B * (n div B))" by simp
  then show ?thesis by (simp only: distrib_left mult.assoc)
qed

text \<open>The product of two words from the products of their halves, on natural numbers.\<close>

lemma half_products:
  fixes a0 a1 b0 b1 :: nat
  assumes "a0 < B" "a1 < B" "b0 < B" "b1 < B" and "r00 = a0 * b0 mod B" "c00 = a0 * b0 div B"
    "r01 = a0 * b1 mod B" "c01 = a0 * b1 div B" "r10 = a1 * b0 mod B" "c10 = a1 * b0 div B"
    "r11 = a1 * b1 mod B" "c11 = a1 * b1 div B"
    "r1 = c00 + r01 + r10" "r2 = r1 div B + (c01 + c10 + r11)"
  shows "(a0 + B * a1) * (b0 + B * b1) = r00 + B * (r1 mod B) + B * B * (r2 mod B + B * (r2 div B + c11))"
    "r2 div B + c11 < B"
proof -
  have p: "a0 * b0 = r00 + B * c00" "a0 * b1 = r01 + B * c01" "a1 * b0 = r10 + B * c10" "a1 * b1 = r11 + B * c11"
    using assms by simp_all
  have "(a0 + B * a1) * (b0 + B * b1) = a0 * b0 + B * (a0 * b1 + a1 * b0) + B * B * (a1 * b1)"
    by (simp add: algebra_simps)
  also have "\<dots> = r00 + B * r1 + B * B * (c01 + c10 + r11 + B * c11)"
    unfolding p(1-4) assms(13) by (simp add: algebra_simps)
  also have "\<dots> = r00 + B * (r1 mod B) + B * B * (r2 + B * c11)"
    unfolding assms(14) split_product [of B r1 B] by (simp add: algebra_simps)
  also have "\<dots> = r00 + B * (r1 mod B) + B * B * (r2 mod B + B * (r2 div B + c11))"
    unfolding distrib_left split_product [of "B * B" r2 B] by (simp add: algebra_simps)
  finally show eq: "(a0 + B * a1) * (b0 + B * b1) = r00 + B * (r1 mod B) + B * B * (r2 mod B + B * (r2 div B + c11))" .
  have "(a0 + B * a1) < B * B" "(b0 + B * b1) < B * B"
    using mult_le_mono2 [of "a1 + 1" B B] mult_le_mono2 [of "b1 + 1" B B] assms(1-4) by (simp_all add: algebra_simps)
  then have "(a0 + B * a1) * (b0 + B * b1) < B * B * (B * B)" by (intro mult_strict_mono') auto
  then have "B * B * (B * (r2 div B + c11)) < B * B * (B * B)"
    unfolding eq distrib_left [of "B * B" "r2 mod B"] by linarith
  then show "r2 div B + c11 < B" by (simp add: mult_less_cancel1)
qed

definition low_half :: "word64 \<Rightarrow> word64" where
  "low_half w = w AND (push_bit 32 1 - 1)"

definition high_half :: "word64 \<Rightarrow> word64" where
  "high_half w = drop_bit 32 w AND (push_bit 32 1 - 1)"

lemma mask_32: "push_bit 32 1 - 1 = (mask 32 :: word64)"
  by (simp add: mask_eq_exp_minus_1)

lemma unat_halves: "unat (low_half w) = unat w mod 2 ^ 32" "unat (high_half w) = unat w div 2 ^ 32"
proof -
  have "unat w < 2 ^ 64" using unsigned_less [of w] by simp
  moreover from this have "unat w div 2 ^ 32 < 2 ^ 32" by (simp add: div_less_iff_less_mult)
  ultimately show "unat (high_half w) = unat w div 2 ^ 32"
    unfolding high_half_def mask_32 take_bit_eq_mask [symmetric] unsigned_take_bit_eq unsigned_drop_bit_eq
    by (simp add: drop_bit_eq_div take_bit_eq_mod)
  show "unat (low_half w) = unat w mod 2 ^ 32"
    unfolding low_half_def mask_32 take_bit_eq_mask [symmetric] unsigned_take_bit_eq
    by (simp add: take_bit_eq_mod)
qed

lemma unat_half_less: "unat (low_half w) < 2 ^ 32" "unat (high_half w) < 2 ^ 32"
proof -
  have "unat w < 2 ^ 64" using unsigned_less [of w] by simp
  then show "unat (low_half w) < 2 ^ 32" "unat (high_half w) < 2 ^ 32"
    unfolding unat_halves by (simp_all add: div_less_iff_less_mult)
qed

lemma unat_product: "unat v < 2 ^ 32 \<Longrightarrow> unat w < 2 ^ 32 \<Longrightarrow> unat (v * w) = unat v * unat w" for v w :: word64
  using mult_strict_mono' [of "unat v" "2 ^ 32" "unat w" "2 ^ 32"]
  by (intro unat_mult_lem [THEN iffD1]) simp

lemma unat_sum: "unat v + unat w < 2 ^ 64 \<Longrightarrow> unat (v + w) = unat v + unat w" for v w :: word64
  by (intro unat_add_lem [THEN iffD1]) simp

lemma multiply_with_carry_halves:
  "multiply_with_carry a b =
     (let r1 = high_half (low_half a * low_half b) + low_half (low_half a * high_half b) + low_half (high_half a * low_half b);
        r2 = high_half r1 + (high_half (low_half a * high_half b) + high_half (high_half a * low_half b) + low_half (high_half a * high_half b));
        r3 = low_half (high_half r2 + high_half (high_half a * high_half b))
      in (push_bit 32 (low_half r1) + low_half (low_half a * low_half b), push_bit 32 r3 + low_half r2))"
  by (simp add: multiply_with_carry_def low_half_def high_half_def Let_def)

lemma unat_word_of_halves: "unat v < 2 ^ 32 \<Longrightarrow> unat w < 2 ^ 32 \<Longrightarrow> unat (push_bit 32 v + w) = 2 ^ 32 * unat v + unat w"
  for v w :: word64
proof -
  assume lt: "unat v < 2 ^ 32" "unat w < 2 ^ 32"
  have "unat (push_bit 32 v) = unat (v * 2 ^ 32)" by (simp add: push_bit_eq_mult)
  also have "\<dots> = unat v * 2 ^ 32" using lt(1) by (simp add: unat_word_ariths)
  finally show ?thesis using lt by (subst unat_sum) simp_all
qed

lemma multiply_with_carry_exact:
  assumes "multiply_with_carry a b = (l, h)"
  shows "uint l + 2 ^ 64 * uint h = uint a * uint b"
proof -
  define p00 p01 p10 p11 where "p00 = low_half a * low_half b" and "p01 = low_half a * high_half b"
    and "p10 = high_half a * low_half b" and "p11 = high_half a * high_half b"
  note ps = p00_def p01_def p10_def p11_def
  define r1 where "r1 = high_half p00 + low_half p01 + low_half p10"
  define r2 where "r2 = high_half r1 + (high_half p01 + high_half p10 + low_half p11)"
  have up: "unat p00 = unat (low_half a) * unat (low_half b)" "unat p01 = unat (low_half a) * unat (high_half b)"
    "unat p10 = unat (high_half a) * unat (low_half b)" "unat p11 = unat (high_half a) * unat (high_half b)"
    unfolding ps by (simp_all only: unat_product unat_half_less)
  note lt = unat_half_less
  have u1: "unat r1 = unat (high_half p00) + unat (low_half p01) + unat (low_half p10)"
    unfolding r1_def using lt(2) [of p00] lt(1) [of p01] lt(1) [of p10] by (simp add: unat_sum)
  have u2: "unat r2 = unat (high_half r1) + (unat (high_half p01) + unat (high_half p10) + unat (low_half p11))"
    unfolding r2_def using lt(2) [of r1] lt(2) [of p01] lt(2) [of p10] lt(1) [of p11] by (simp add: unat_sum)
  have ab: "unat x = unat (low_half x) + 2 ^ 32 * unat (high_half x)" for x
    unfolding unat_halves by simp
  note hp = half_products [OF lt(1) [of a] lt(2) [of a] lt(1) [of b] lt(2) [of b], folded up,
      OF unat_halves [of p00] unat_halves [of p01] unat_halves [of p10] unat_halves [of p11] u1,
      folded unat_halves, OF u2, folded unat_halves ab]
  have u3: "unat (high_half r2 + high_half p11) = unat (high_half r2) + unat (high_half p11)"
    using hp(2) by (intro unat_sum) simp
  then have u4: "unat (low_half (high_half r2 + high_half p11)) = unat (high_half r2) + unat (high_half p11)"
    using hp(2) unfolding unat_halves(1) [of "high_half r2 + high_half p11"] by simp
  define h1 where "h1 = low_half (high_half r2 + high_half p11)"
  have u5: "unat h1 = unat (high_half r2) + unat (high_half p11)" "unat h1 < 2 ^ 32"
    unfolding h1_def by (rule u4, rule lt)
  have lh: "l = push_bit 32 (low_half r1) + low_half p00" "h = push_bit 32 h1 + low_half r2"
    using assms unfolding h1_def multiply_with_carry_halves r2_def r1_def ps by (simp_all add: Let_def)
  have "unat l + 2 ^ 64 * unat h = unat a * unat b"
    unfolding lh hp(1) unat_word_of_halves [OF lt(1) lt(1)] unat_word_of_halves [OF u5(2) lt(1)] u5(1)
    by (simp add: algebra_simps)
  then have "int (unat l + 2 ^ 64 * unat h) = int (unat a * unat b)" by simp
  then show ?thesis by simp
qed


section \<open>Products of arrays\<close>

lemma mod_shift:
  fixes x y :: int
  assumes "0 \<le> x" "x < 2 ^ a"
  shows "x + 2 ^ a * ((y + z) mod 2 ^ b) = (x + 2 ^ a * y + 2 ^ a * z) mod 2 ^ (a + b)"
proof -
  have e: "x + 2 ^ a * y + 2 ^ a * z = x + 2 ^ a * (y + z)" by (simp add: algebra_simps)
  have "(x + 2 ^ a * (y + z)) div 2 ^ a = y + z" "(x + 2 ^ a * (y + z)) mod 2 ^ a = x" using assms by simp_all
  then show ?thesis unfolding e power_add by (simp add: zmod_zmult2_eq)
qed

lemma add_product_num:
  "length (add_product a b base res) = length res \<and>
    num (add_product a b base res) = (num res + 2 ^ (64 * base) * (uint a * uint b)) mod 2 ^ (64 * length res)"
proof (cases "drop base res")
  case Nil
  then have "length res \<le> base" by simp
  then have "(2 ^ (64 * length res) :: int) dvd 2 ^ (64 * base)" by (intro le_imp_power_dvd) simp
  then have "(2 ^ (64 * base) * (uint a * uint b)) mod 2 ^ (64 * length res) = 0"
    by (meson dvd_mult2 mod_0_imp_dvd dvd_imp_mod_0)
  then have "(num res + 2 ^ (64 * base) * (uint a * uint b)) mod 2 ^ (64 * length res) = num res mod 2 ^ (64 * length res)"
    by (metis add.right_neutral mod_add_right_eq)
  also have "\<dots> = num res" using num_bounds [of res] by simp
  finally show ?thesis using Nil by (auto simp: add_product_def split: prod.split)
next
  case (Cons r rs)
  obtain l h where lh: "multiply_with_carry a b = (l, h)" by fastforce
  obtain x c where xc: "word_add_with_carry r l 0 = (x, c)" by fastforce
  note ex = word_add_with_carry_exact [OF xc, simplified]
  have len: "length res = base + (1 + length rs)" using arg_cong [OF Cons, of length] by simp
  have res: "res = take base res @ r # rs" using Cons by (metis append_take_drop_id)
  have p: "add_product a b base res = take base res @ x # add_high h c rs"
    using Cons lh xc by (simp add: add_product_def)
  have ltake: "length (take base res) = base" using len by simp
  have high: "uint x + 2 ^ 64 * ((num rs + uint h + uint c) mod 2 ^ (64 * length rs)) =
      (uint r + 2 ^ 64 * num rs + (uint l + 2 ^ 64 * uint h) + 0) mod (2 ^ 64 * 2 ^ (64 * length rs))"
    using ex(1) uint_word64 [of x] by (intro congruent_step) simp_all
  have "num (add_product a b base res) = num (take base res) + 2 ^ (64 * base) *
      ((num (r # rs) + uint a * uint b) mod 2 ^ (64 * (1 + length rs)))"
    using high multiply_with_carry_exact [OF lh] add_high_num [OF ex(2), of h rs]
    unfolding p num_append ltake by (simp add: power_add)
  also have "\<dots> = (num (take base res) + 2 ^ (64 * base) * num (r # rs) + 2 ^ (64 * base) * (uint a * uint b)) mod
      2 ^ (64 * base + 64 * (1 + length rs))"
    using num_bounds [of "take base res"] unfolding ltake by (intro mod_shift)
  also have "num (take base res) + 2 ^ (64 * base) * num (r # rs) = num res"
    using num_append [of "take base res" "r # rs"] unfolding ltake res [symmetric] by simp
  finally show ?thesis using add_high_num [OF ex(2), of h rs] len unfolding p
    by (simp add: distrib_left add.left_commute)
qed

lemma fold_num:
  assumes "\<And>i res. i \<in> set is \<Longrightarrow> length res = n \<Longrightarrow>
      length (f i res) = n \<and> num (f i res) = (num res + g i) mod 2 ^ (64 * n)"
  shows "length res = n \<Longrightarrow> length (fold f is res) = n \<and>
    num (fold f is res) = (num res + (\<Sum>i\<leftarrow>is. g i)) mod 2 ^ (64 * n)"
  using assms
proof (induction "is" arbitrary: res)
  case Nil
  then show ?case using num_bounds [of res] by simp
next
  case (Cons i "is")
  have i: "length (f i res) = n" "num (f i res) = (num res + g i) mod 2 ^ (64 * n)"
    using Cons.prems by simp_all
  have "length (fold f is (f i res)) = n \<and>
      num (fold f is (f i res)) = (num (f i res) + (\<Sum>i\<leftarrow>is. g i)) mod 2 ^ (64 * n)"
    using Cons.prems(2) by (intro Cons.IH i) auto
  then show ?case by (simp add: i(2) mod_add_left_eq add.assoc)
qed

lemma num_sum: "num ws = (\<Sum>i\<leftarrow>[0..<length ws]. uint (ws ! i) * 2 ^ (64 * i))"
  by (simp add: num_def horner_sum_eq_sum interv_sum_list_conv_sum_set_nat atLeast0LessThan power_mult)

lemma multiply_array_imm_num:
  "length (multiply_array_imm val imm) = length val \<and>
    num (multiply_array_imm val imm) = (num val * uint imm) mod 2 ^ (64 * length val)"
proof -
  have "length (multiply_array_imm val imm) = length val \<and>
      num (multiply_array_imm val imm) =
        (num (replicate (length val) 0) + (\<Sum>i\<leftarrow>[0..<length val]. 2 ^ (64 * i) * (uint (val ! i) * uint imm))) mod 2 ^ (64 * length val)"
    unfolding multiply_array_imm_def using add_product_num by (intro fold_num) auto
  moreover have "(\<Sum>i\<leftarrow>[0..<length val]. 2 ^ (64 * i) * (uint (val ! i) * uint imm)) = num val * uint imm"
    unfolding num_sum sum_list_mult_const [symmetric] by (simp add: mult.assoc mult.commute mult.left_commute)
  ultimately show ?thesis by simp
qed

lemma multiply_arrays_num:
  assumes "length ap = length bp"
  shows "length (multiply_arrays ap bp) = length ap \<and>
    num (multiply_arrays ap bp) = (num ap * num bp) mod 2 ^ (64 * length ap)"
proof -
  let ?n = "length ap" and ?M = "2 ^ (64 * length ap) :: int"
  define g where "g i j = 2 ^ (64 * (i + j)) * (uint (ap ! i) * uint (bp ! j))" for i j
  have inner: "length (fold (\<lambda>j. add_product (ap ! i) (bp ! j) (i + j)) [0..<?n - i] res) = ?n \<and>
      num (fold (\<lambda>j. add_product (ap ! i) (bp ! j) (i + j)) [0..<?n - i] res) =
        (num res + (\<Sum>j\<leftarrow>[0..<?n - i]. g i j)) mod ?M" if "length res = ?n" for i res
    using that add_product_num unfolding g_def by (intro fold_num) auto
  have "length (multiply_arrays ap bp) = ?n \<and>
      num (multiply_arrays ap bp) =
        (num (replicate ?n 0) + (\<Sum>i\<leftarrow>[0..<?n]. \<Sum>j\<leftarrow>[0..<?n - i]. g i j)) mod ?M"
    unfolding multiply_arrays_def Let_def by (rule fold_num) (use inner in simp_all)
  moreover have "(\<Sum>i\<leftarrow>[0..<?n]. \<Sum>j\<leftarrow>[0..<?n - i]. g i j) mod ?M = (num ap * num bp) mod ?M"
  proof -
    have zero: "g i j mod ?M = 0" if "?n \<le> i + j" for i j
    proof -
      have "?M dvd 2 ^ (64 * (i + j))" using that by (intro le_imp_power_dvd) simp
      then show ?thesis unfolding g_def by (simp add: dvd_mult2)
    qed
    have row: "(\<Sum>j\<leftarrow>[0..<?n - i]. g i j) mod ?M = (\<Sum>j\<leftarrow>[0..<?n]. g i j) mod ?M" if "i < ?n" for i
    proof -
      have "(\<Sum>j<?n. g i j) = (\<Sum>j<?n - i. g i j) + (\<Sum>j\<in>{?n - i..<?n}. g i j)"
        by (simp add: sum.atLeastLessThan_concat atLeast0LessThan [symmetric])
      moreover have "?M dvd (\<Sum>j\<in>{?n - i..<?n}. g i j)"
        using zero by (intro dvd_sum) (auto simp: mod_eq_0_iff_dvd)
      ultimately show ?thesis
        by (simp add: interv_sum_list_conv_sum_set_nat atLeast0LessThan mod_add_right_eq [symmetric])
    qed
    have "(\<Sum>i<?n. \<Sum>j<?n - i. g i j) mod ?M = (\<Sum>i<?n. (\<Sum>j<?n - i. g i j) mod ?M) mod ?M"
      by (simp add: mod_sum_eq)
    also have "\<dots> = (\<Sum>i<?n. (\<Sum>j<?n. g i j) mod ?M) mod ?M"
      using row by (simp add: interv_sum_list_conv_sum_set_nat atLeast0LessThan)
    also have "\<dots> = (\<Sum>i<?n. \<Sum>j<?n. g i j) mod ?M" by (simp add: mod_sum_eq)
    also have "(\<Sum>i<?n. \<Sum>j<?n. g i j) = num ap * num bp"
      unfolding num_sum assms [symmetric] g_def
      by (simp add: interv_sum_list_conv_sum_set_nat atLeast0LessThan sum_product power_add distrib_left mult.assoc mult.commute mult.left_commute)
    finally show ?thesis by (simp add: interv_sum_list_conv_sum_set_nat atLeast0LessThan)
  qed
  ultimately show ?thesis by simp
qed

section \<open>Instructions\<close>

definition arith_result :: "nat \<Rightarrow> (int \<Rightarrow> int \<Rightarrow> int) \<Rightarrow> bit4 list \<Rightarrow> bit4 list \<Rightarrow> bit4 list" where
  "arith_result n g x y =
     (if defined x \<and> defined y then bits_of n (g (value_of x) (value_of y)) else replicate n BIT4_X)"

definition array_op :: "nat \<Rightarrow> (int \<Rightarrow> int \<Rightarrow> int) \<Rightarrow> word64 list \<Rightarrow> word64 list \<Rightarrow> word64 list \<Rightarrow> bool" where
  "array_op n g a b r \<longleftrightarrow> length r = array_words n \<and>
     num r mod 2 ^ (64 * array_words n) = g (num a) (num b) mod 2 ^ (64 * array_words n)"

lemma array_op_writes:
  assumes "array_op n g a b r" "vector_ok (thr_bits thr)" "d + n \<le> size4 (thr_bits thr)" "0 < n"
  shows "writes thr d (bits_of n (g (num a) (num b))) (thr_setarray thr d n r)"
proof -
  have "bits_of n (num r) = bits_of n (num r mod 2 ^ (64 * array_words n))"
    by (rule bits_of_mod [OF array_words_cover, symmetric])
  also have "\<dots> = bits_of n (g (num a) (num b))"
    using assms(1) bits_of_mod [OF array_words_cover] by (simp add: array_op_def)
  finally show ?thesis
    using setarray_writes [OF assms(2,3,4), of r] assms(1) array_words_cover [of n] by (simp add: array_op_def)
qed

lemma binary_array_op_writes:
  assumes "vector_ok (thr_bits thr)" "4 \<le> bit_idx0 cp" "bit_idx0 cp + number cp \<le> size4 (thr_bits thr)"
    "operand_ok thr (bit_idx1 cp) (number cp)" "0 < number cp"
    "\<And>a b. length a = array_words (number cp) \<Longrightarrow> length b = array_words (number cp) \<Longrightarrow> array_op (number cp) g a b (f a b)"
  shows "writes thr (bit_idx0 cp)
     (arith_result (number cp) g (operand thr (bit_idx0 cp) (number cp)) (operand thr (bit_idx1 cp) (number cp)))
     (binary_array_op f thr cp)"
proof -
  let ?n = "number cp"
  let ?x = "operand thr (bit_idx0 cp) ?n" and ?y = "operand thr (bit_idx1 cp) ?n"
  have "operand_ok thr (bit_idx0 cp) ?n" using assms(3) by (simp add: operand_ok_def)
  note a = vector_to_array_value [OF assms(1) this assms(5)] and b = vector_to_array_value [OF assms(1,4,5)]
  note x = put_x_writes [OF assms(1,3,5)]
  have guard: "\<not> bit_idx0 cp < 4" using assms(2) by simp
  show ?thesis
  proof (cases "defined ?x \<and> defined ?y")
    case True
    then obtain va vb where v: "vector_to_array thr (bit_idx0 cp) ?n = Inr (Some va)" "vector_to_array thr (bit_idx1 cp) ?n = Inr (Some vb)"
      "length va = array_words ?n" "length vb = array_words ?n" "num va = value_of ?x" "num vb = value_of ?y"
      using a b by auto
    then show ?thesis
      using array_op_writes [OF assms(6) [OF v(3,4)] assms(1,3,5)] True guard
      by (simp add: binary_array_op_def arith_result_def)
  next
    case False
    have "binary_array_op f thr cp = put_x thr (bit_idx0 cp) ?n"
      using a b False guard by (auto simp: binary_array_op_def split: if_splits)
    then show ?thesis using x False by (auto simp: arith_result_def)
  qed
qed

lemma add_array_op: "length a = array_words n \<Longrightarrow> length b = array_words n \<Longrightarrow> array_op n (+) a b (add_arrays 0 a b)"
  using add_arrays_num [of a b 0] by (simp add: array_op_def)

lemma sub_array_op:
  "length a = array_words n \<Longrightarrow> length b = array_words n \<Longrightarrow> array_op n (-) a b (add_arrays 1 a (map (\<lambda>w. NOT w) b))"
  using add_arrays_num [of a "map (\<lambda>w. NOT w) b" 1] mod_add_self2 [of "num a - num b" "2 ^ (64 * array_words n)"]
  by (simp add: array_op_def num_map_NOT algebra_simps)

lemma one_word: "0 < n \<Longrightarrow> n \<le> 64 \<Longrightarrow> array_words n = 1"
  unfolding array_words_def by (intro div_nat_eqI) auto

lemma word_product_num: "num [x * y] = (num [x] * num [y]) mod 2 ^ 64"
  by (simp add: uint_word_ariths)

lemma multiply_wid_array_op:
  assumes "0 < n" "length a = array_words n" "length b = array_words n"
  shows "\<exists>r. multiply_wid n a b = Inr r \<and> array_op n (*) a b r"
proof (cases "n \<le> 64")
  case True
  then have one: "array_words n = 1" using assms(1) by (intro one_word)
  then obtain x y where "a = [x]" "b = [y]" using assms(2,3) by (auto simp: length_Suc_conv)
  then show ?thesis using True one word_product_num [of x y] by (simp add: multiply_wid_def word_at_def array_op_def)
next
  case False
  then show ?thesis using multiply_arrays_num [of a b] assms by (auto simp: multiply_wid_def array_op_def)
qed

lemma of_MUL_writes:
  assumes "vector_ok (thr_bits thr)" "4 \<le> bit_idx0 cp" "bit_idx0 cp + number cp \<le> size4 (thr_bits thr)"
    "operand_ok thr (bit_idx1 cp) (number cp)" "0 < number cp"
  shows "writes thr (bit_idx0 cp)
     (arith_result (number cp) (*) (operand thr (bit_idx0 cp) (number cp)) (operand thr (bit_idx1 cp) (number cp)))
     (of_MUL thr cp)"
proof -
  define f where "f a b = (case multiply_wid (number cp) a b of Inr r \<Rightarrow> r | Inl e \<Rightarrow> [])" for a b
  have "array_op (number cp) (*) a b (f a b) \<and> multiply_wid (number cp) a b = Inr (f a b)"
    if "length a = array_words (number cp)" "length b = array_words (number cp)" for a b
    using multiply_wid_array_op [OF assms(5) that] by (auto simp: f_def)
  note f = this
  have "operand_ok thr (bit_idx0 cp) (number cp)" using assms(3) by (simp add: operand_ok_def)
  note a = vector_to_array_value [OF assms(1) this assms(5)] and b = vector_to_array_value [OF assms(1,4,5)]
  have "of_MUL thr cp = binary_array_op f thr cp"
    using a b f by (auto simp: of_MUL_def binary_array_op_def Let_def split: if_splits)
  then show ?thesis using binary_array_op_writes [OF assms, of "(*)" f] f by simp
qed

text \<open>A thread and an instruction for the instances below.\<close>

definition example_thread :: vthread where
  "example_thread =
     \<lparr>pc = (0, 1), thr_bits = \<lparr>size4 = 32, abits = [13574], bbits = [12]\<rparr>, thr_words = (\<lambda>i. 1)\<rparr>"

lemma example_bits:
  "bits4 (thr_bits example_thread) =
     [BIT4_0, BIT4_1, BIT4_X, BIT4_Z, BIT4_0, BIT4_0, BIT4_0, BIT4_0,
      BIT4_1, BIT4_0, BIT4_1, BIT4_0, BIT4_1, BIT4_1, BIT4_0, BIT4_0] @ replicate 16 BIT4_0"
  by code_simp

lemma example_vector_ok: "vector_ok (thr_bits example_thread)"
  by code_simp

definition example_code :: vvp_code where
  "example_code = blank_code\<lparr>bit_idx0 := 8, bit_idx1 := 12, number := 4\<rparr>"

lemma example_operands:
  "operand example_thread (bit_idx0 example_code) (number example_code) = [BIT4_1, BIT4_0, BIT4_1, BIT4_0]"
  "operand example_thread (bit_idx1 example_code) (number example_code) = [BIT4_1, BIT4_1, BIT4_0, BIT4_0]"
  "operand_ok example_thread (bit_idx0 example_code) (number example_code)"
  "operand_ok example_thread (bit_idx1 example_code) (number example_code)"
  "bit_idx0 example_code + number example_code \<le> size4 (thr_bits example_thread)"
  "bit_idx0 example_code = 8" "bit_idx1 example_code = 12" "number example_code = 4"
  by code_simp+

text \<open>
  C17. The instructions for sum, difference and product of vectors of any width, in a register or constant:
  if all bits of both operands are defined, the destination gets the low bits of the result over the
  integers, computed word by word with carries; if any bit is X or Z it gets X in every bit. No other bit
  of the thread changes, and there is no access outside the vectors.
\<close>

theorem arithmetic_instructions_exact:
  assumes "vector_ok (thr_bits thr)" "4 \<le> bit_idx0 cp" "bit_idx0 cp + number cp \<le> size4 (thr_bits thr)"
    "operand_ok thr (bit_idx1 cp) (number cp)" "0 < number cp"
    "x = operand thr (bit_idx0 cp) (number cp)" "y = operand thr (bit_idx1 cp) (number cp)"
  shows "writes thr (bit_idx0 cp) (arith_result (number cp) (+) x y) (of_ADD thr cp) \<and>
    writes thr (bit_idx0 cp) (arith_result (number cp) (-) x y) (of_SUB thr cp) \<and>
    writes thr (bit_idx0 cp) (arith_result (number cp) (*) x y) (of_MUL thr cp)"
  unfolding of_ADD_def of_SUB_def assms(6,7)
proof (intro conjI)
  show "writes thr (bit_idx0 cp)
     (arith_result (number cp) (+) (operand thr (bit_idx0 cp) (number cp)) (operand thr (bit_idx1 cp) (number cp)))
     (binary_array_op (add_arrays 0) thr cp)"
    by (rule binary_array_op_writes [OF assms(1-5) add_array_op])
  show "writes thr (bit_idx0 cp)
     (arith_result (number cp) (-) (operand thr (bit_idx0 cp) (number cp)) (operand thr (bit_idx1 cp) (number cp)))
     (binary_array_op (\<lambda>a b. add_arrays 1 a (map (\<lambda>w. NOT w) b)) thr cp)"
    by (rule binary_array_op_writes [OF assms(1-5) sub_array_op])
qed (rule of_MUL_writes [OF assms(1-5)])

theorem arithmetic_instructions_exact_witness:
  "writes example_thread 8 [BIT4_0, BIT4_0, BIT4_0, BIT4_1] (of_ADD example_thread example_code) \<and>
    writes example_thread 8 [BIT4_0, BIT4_1, BIT4_0, BIT4_0] (of_SUB example_thread example_code) \<and>
    writes example_thread 8 [BIT4_1, BIT4_1, BIT4_1, BIT4_1] (of_MUL example_thread example_code)"
proof -
  have "arith_result 4 (+) [BIT4_1, BIT4_0, BIT4_1, BIT4_0] [BIT4_1, BIT4_1, BIT4_0, BIT4_0] = [BIT4_0, BIT4_0, BIT4_0, BIT4_1]"
    "arith_result 4 (-) [BIT4_1, BIT4_0, BIT4_1, BIT4_0] [BIT4_1, BIT4_1, BIT4_0, BIT4_0] = [BIT4_0, BIT4_1, BIT4_0, BIT4_0]"
    "arith_result 4 (*) [BIT4_1, BIT4_0, BIT4_1, BIT4_0] [BIT4_1, BIT4_1, BIT4_0, BIT4_0] = [BIT4_1, BIT4_1, BIT4_1, BIT4_1]"
    by code_simp+
  then show ?thesis
    using arithmetic_instructions_exact [OF example_vector_ok _ example_operands(5,4) _ example_operands(1,2) [symmetric]]
    by (simp add: example_operands(6-8))
qed

section \<open>Immediate operands\<close>

lemma num_imm_array: "0 < n \<Longrightarrow> num (imm_array n imm) = uint imm"
proof -
  assume "0 < n"
  then obtain m where "n = Suc m" by (cases n) auto
  moreover have "map (\<lambda>i. if i = 0 then imm else 0) [0..<Suc m] = imm # replicate m 0"
    by (intro nth_equalityI) (auto simp: nth_Cons' simp del: upt_Suc)
  ultimately show ?thesis by (simp add: imm_array_def)
qed

lemma array_words_pos: "0 < n \<Longrightarrow> 0 < array_words n"
  by (simp add: array_words_def div_greater_zero_iff)

lemma immediate_array_op_writes:
  assumes "vector_ok (thr_bits thr)" "4 \<le> bit_idx0 cp" "bit_idx0 cp + number cp \<le> size4 (thr_bits thr)"
    "0 < number cp" "bit_idx1 cp < 2 ^ 32"
    "\<And>a. length a = array_words (number cp) \<Longrightarrow>
       array_op (number cp) g a (imm_array (array_words (number cp)) (of_nat (bit_idx1 cp))) (f a (of_nat (bit_idx1 cp)))"
  shows "writes thr (bit_idx0 cp)
     (arith_result (number cp) g (operand thr (bit_idx0 cp) (number cp)) (bits_of 32 (int (bit_idx1 cp))))
     (immediate_array_op f thr cp)"
proof -
  let ?n = "number cp"
  let ?x = "operand thr (bit_idx0 cp) ?n"
  have "operand_ok thr (bit_idx0 cp) ?n" using assms(3) by (simp add: operand_ok_def)
  note a = vector_to_array_value [OF assms(1) this assms(4)]
  note x = put_x_writes [OF assms(1,3,4)]
  have guard: "\<not> bit_idx0 cp < 4" using assms(2) by simp
  have imm: "num (imm_array (array_words ?n) (of_nat (bit_idx1 cp))) = value_of (bits_of 32 (int (bit_idx1 cp)))"
    using assms(5) num_imm_array [OF array_words_pos [OF assms(4)]]
    by (simp add: value_of_bits_of unsigned_of_nat take_bit_nat_eq_self_iff of_nat_less_iff [of _ "2 ^ 32", symmetric, where 'a = int] del: of_nat_less_iff)
  show ?thesis
  proof (cases "defined ?x")
    case True
    then obtain va where v: "vector_to_array thr (bit_idx0 cp) ?n = Inr (Some va)"
      "length va = array_words ?n" "num va = value_of ?x"
      using a by auto
    then show ?thesis
      using array_op_writes [OF assms(6) [OF v(2)] assms(1,3,4)] True guard imm
      by (simp add: immediate_array_op_def arith_result_def defined_bits_of)
  next
    case False
    have "immediate_array_op f thr cp = put_x thr (bit_idx0 cp) ?n"
      using a False guard by (auto simp: immediate_array_op_def split: if_splits)
    then show ?thesis using x False by (auto simp: arith_result_def)
  qed
qed

lemma of_MULI_as_array_op:
  assumes "0 < n" "length a = array_words n"
  shows "\<exists>r. (if n \<le> 64 then bind_result (word_at a 0) (\<lambda>x. Inr (a[0 := x * imm])) else Inr (multiply_array_imm a imm)) = Inr r \<and>
    array_op n (*) a (imm_array (array_words n) imm) r"
proof (cases "n \<le> 64")
  case True
  then have one: "array_words n = 1" using assms(1) by (intro one_word)
  then obtain x where "a = [x]" using assms(2) by (auto simp: length_Suc_conv)
  then show ?thesis using True one word_product_num [of x imm] num_imm_array [of 1 imm]
    by (simp add: word_at_def array_op_def)
next
  case False
  then show ?thesis using multiply_array_imm_num [of a imm] assms num_imm_array [OF array_words_pos [OF assms(1)]]
    by (auto simp: array_op_def)
qed

lemma of_MULI_writes:
  assumes "vector_ok (thr_bits thr)" "4 \<le> bit_idx0 cp" "bit_idx0 cp + number cp \<le> size4 (thr_bits thr)"
    "0 < number cp" "bit_idx1 cp < 2 ^ 32"
  shows "writes thr (bit_idx0 cp)
     (arith_result (number cp) (*) (operand thr (bit_idx0 cp) (number cp)) (bits_of 32 (int (bit_idx1 cp))))
     (of_MULI thr cp)"
proof -
  let ?n = "number cp"
  define step where "step a imm = (if ?n \<le> 64 then bind_result (word_at a 0) (\<lambda>x. Inr (a[0 := x * imm]))
    else Inr (multiply_array_imm a imm))" for a and imm :: word64
  define f where "f a imm = (case step a imm of Inr r \<Rightarrow> r | Inl e \<Rightarrow> [])" for a imm
  have f: "step a imm = Inr (f a imm) \<and> array_op ?n (*) a (imm_array (array_words ?n) imm) (f a imm)"
    if "length a = array_words ?n" for a imm
    using of_MULI_as_array_op [OF assms(4) that, of imm] by (auto simp: f_def step_def)
  have "operand_ok thr (bit_idx0 cp) ?n" using assms(3) by (simp add: operand_ok_def)
  note a = vector_to_array_value [OF assms(1) this assms(4)]
  have "of_MULI thr cp = immediate_array_op f thr cp"
    using a f unfolding of_MULI_def immediate_array_op_def Let_def step_def [symmetric]
    by (auto split: if_splits)
  then show ?thesis using immediate_array_op_writes [OF assms, of "(*)" f] f by simp
qed

text \<open>
  The same for a second operand of 32 bits that is part of the instruction.
\<close>

theorem immediate_instructions_exact:
  assumes "vector_ok (thr_bits thr)" "4 \<le> bit_idx0 cp" "bit_idx0 cp + number cp \<le> size4 (thr_bits thr)"
    "0 < number cp" "bit_idx1 cp < 2 ^ 32"
    "x = operand thr (bit_idx0 cp) (number cp)" "y = bits_of 32 (int (bit_idx1 cp))"
  shows "writes thr (bit_idx0 cp) (arith_result (number cp) (+) x y) (of_ADDI thr cp) \<and>
    writes thr (bit_idx0 cp) (arith_result (number cp) (-) x y) (of_SUBI thr cp) \<and>
    writes thr (bit_idx0 cp) (arith_result (number cp) (*) x y) (of_MULI thr cp)"
  unfolding of_ADDI_def of_SUBI_def assms(6,7)
proof (intro conjI)
  show "writes thr (bit_idx0 cp)
     (arith_result (number cp) (+) (operand thr (bit_idx0 cp) (number cp)) (bits_of 32 (int (bit_idx1 cp))))
     (immediate_array_op (\<lambda>a imm. add_arrays 0 a (imm_array (length a) imm)) thr cp)"
    by (rule immediate_array_op_writes [OF assms(1-5)]) (simp add: add_array_op imm_array_def)
  show "writes thr (bit_idx0 cp)
     (arith_result (number cp) (-) (operand thr (bit_idx0 cp) (number cp)) (bits_of 32 (int (bit_idx1 cp))))
     (immediate_array_op (\<lambda>a imm. add_arrays 1 a (map (\<lambda>w. NOT w) (imm_array (length a) imm))) thr cp)"
    by (rule immediate_array_op_writes [OF assms(1-5)]) (simp add: sub_array_op imm_array_def del: map_map)
qed (rule of_MULI_writes [OF assms(1-5)])

theorem immediate_instructions_exact_witness:
  "writes example_thread 8 [BIT4_1, BIT4_0, BIT4_0, BIT4_0] (of_ADDI example_thread example_code)"
proof -
  have "arith_result 4 (+) [BIT4_1, BIT4_0, BIT4_1, BIT4_0] (bits_of 32 12) = [BIT4_1, BIT4_0, BIT4_0, BIT4_0]"
    by code_simp
  then show ?thesis
    using immediate_instructions_exact [OF example_vector_ok _ example_operands(5) _ _ example_operands(1) [symmetric] refl]
    by (simp add: example_operands(6-8))
qed

end
