(* ===== verification/VThreadBits.thy ===== *)
theory VThreadBits
  imports VThreadArith
begin

text \<open>
  What the bitwise instructions, the reductions, the comparisons and the shifts of threads compute.
\<close>

section \<open>Bit by bit\<close>

text \<open>The bits of a thread start with the four constants.\<close>

definition thread_ok :: "vthread \<Rightarrow> bool" where
  "thread_ok thr \<longleftrightarrow> vector_ok (thr_bits thr) \<and> 8 \<le> size4 (thr_bits thr) \<and>
     take 4 (bits4 (thr_bits thr)) = [BIT4_0, BIT4_1, BIT4_X, BIT4_Z]"

lemma example_ok: "thread_ok example_thread"
  by code_simp

lemma get_bit_in_range: "i < size4 (thr_bits thr) \<Longrightarrow> thr_get_bit thr i = Inr (bits4 (thr_bits thr) ! i)"
  by (simp add: thr_get_bit_def)

lemma get_bit_update: "i < size4 v \<Longrightarrow> thr_get_bit (thr\<lparr>thr_bits := v\<rparr>) i = Inr (bits4 v ! i)"
  by (simp add: thr_get_bit_def)

lemma writes_one:
  assumes "vector_ok (thr_bits thr)" "i < size4 (thr_bits thr)"
  shows "\<exists>v. thr_put_bit thr i b = Inr (thr\<lparr>thr_bits := v\<rparr>) \<and> vector_ok v \<and> size4 v = size4 (thr_bits thr) \<and>
    bits4 v = (bits4 (thr_bits thr))[i := b]"
  using set_bit4_bits [OF assms, of b] assms(2) by (auto simp: thr_put_bit_def thr_check_addr_def with_bits_def Let_def)

lemma constant_bit:
  assumes "thread_ok thr" "a < 4"
  shows "bits4 (thr_bits thr) ! a = thr_index_to_bit4 a"
proof -
  have "bits4 (thr_bits thr) ! a = take 4 (bits4 (thr_bits thr)) ! a" using assms(2) by simp
  then show ?thesis using assms(1) by (simp add: thread_ok_def thr_index_to_bit4_def)
qed

lemma operand_nth:
  assumes "thread_ok thr" "operand_ok thr a n" "i < n"
  shows "operand thr a n ! i = bits4 (thr_bits thr) ! operand_bit a i" "operand_bit a i < size4 (thr_bits thr)"
  using assms constant_bit [OF assms(1), of a]
  by (auto simp: operand_def operand_bit_def operand_ok_def thread_ok_def simp del: nth_bits4)

lemma each_snoc: "each f (is @ [i]) s = bind_result (each f is s) (f i)"
proof (induction "is" arbitrary: s)
  case Nil
  show ?case by (cases "f i s") simp_all
next
  case (Cons j js)
  then show ?case by (cases "f j s") simp_all
qed

text \<open>A source that ends before the destination or starts after the start of it.\<close>

definition source_safe :: "vvp_code \<Rightarrow> bool" where
  "source_safe cp \<longleftrightarrow> bit_idx1 cp < 4 \<or> bit_idx0 cp \<le> bit_idx1 cp \<or> bit_idx1 cp + number cp \<le> bit_idx0 cp"

lemma updated_bits:
  "d + k < length bs \<Longrightarrow> length zs = k \<Longrightarrow>
    (take d bs @ zs @ drop (d + k) bs)[d + k := z] = take d bs @ (zs @ [z]) @ drop (d + Suc k) bs"
  by (simp add: list_update_append min_def Cons_nth_drop_Suc [symmetric])

lemma each_writes:
  assumes "vector_ok (thr_bits thr)" "d + n \<le> size4 (thr_bits thr)" "length z = n"
    and step: "\<And>k v. k < n \<Longrightarrow> size4 v = size4 (thr_bits thr) \<Longrightarrow>
      bits4 v = take d (bits4 (thr_bits thr)) @ take k z @ drop (d + k) (bits4 (thr_bits thr)) \<Longrightarrow>
      step k (thr\<lparr>thr_bits := v\<rparr>) = thr_put_bit (thr\<lparr>thr_bits := v\<rparr>) (d + k) (z ! k)"
  shows "writes thr d z (each step [0..<n] thr)"
proof -
  let ?bs = "bits4 (thr_bits thr)"
  have loop: "k \<le> n \<Longrightarrow> \<exists>v. each step [0..<k] thr = Inr (thr\<lparr>thr_bits := v\<rparr>) \<and> vector_ok v \<and>
      size4 v = size4 (thr_bits thr) \<and> bits4 v = take d ?bs @ take k z @ drop (d + k) ?bs" for k
  proof (induction k)
    case 0
    have "each step [0..<0] thr = Inr (thr\<lparr>thr_bits := thr_bits thr\<rparr>)" by simp
    then show ?case using assms(1) by (intro exI [of _ "thr_bits thr"]) simp
  next
    case (Suc k)
    then obtain v where v: "each step [0..<k] thr = Inr (thr\<lparr>thr_bits := v\<rparr>)" "vector_ok v" "size4 v = size4 (thr_bits thr)"
      "bits4 v = take d ?bs @ take k z @ drop (d + k) ?bs" by auto
    have k: "k < n" "d + k < size4 v" using Suc.prems assms(2) v(3) by simp_all
    obtain v' where v': "thr_put_bit (thr\<lparr>thr_bits := v\<rparr>) (d + k) (z ! k) = Inr (thr\<lparr>thr_bits := v'\<rparr>)"
      "vector_ok v'" "size4 v' = size4 v" "bits4 v' = (bits4 v)[d + k := z ! k]"
      using writes_one [of "thr\<lparr>thr_bits := v\<rparr>" "d + k" "z ! k"] v(2) k(2) by auto
    have "bits4 v' = take d ?bs @ take (Suc k) z @ drop (d + Suc k) ?bs"
      unfolding v'(4) v(4) using k v(3) assms(3)
      by (subst updated_bits) (simp_all add: take_Suc_conv_app_nth)
    then show ?case using v(1,3) v' step [OF k(1) v(3,4)] by (auto simp: each_snoc)
  qed
  show ?thesis using loop [of n] assms(3) by (auto simp: writes_def)
qed

text \<open>What a loop that writes from the lowest bit sees of the bits.\<close>

lemma seen_bits:
  assumes "i < d \<or> d + k \<le> i" "d + k \<le> length bs" "k \<le> length z" "i < length bs"
  shows "(take d bs @ take k z @ drop (d + k) bs) ! i = bs ! i"
  using assms by (auto simp: nth_append)

lemma narrow_op_writes:
  assumes "thread_ok thr" "4 \<le> bit_idx0 cp" "bit_idx0 cp + number cp \<le> size4 (thr_bits thr)"
    "operand_ok thr (bit_idx1 cp) (number cp)" "source_safe cp"
  shows "writes thr (bit_idx0 cp)
    (map2 f (operand thr (bit_idx0 cp) (number cp)) (operand thr (bit_idx1 cp) (number cp))) (narrow_op f thr cp)"
  unfolding narrow_op_def
proof (rule each_writes)
  let ?d = "bit_idx0 cp" and ?s = "bit_idx1 cp" and ?n = "number cp"
  let ?bs = "bits4 (thr_bits thr)"
  let ?z = "map2 f (operand thr ?d ?n) (operand thr ?s ?n)"
  have dest: "operand_ok thr ?d ?n" using assms(3) by (simp add: operand_ok_def)
  show lz: "length ?z = ?n" using dest assms(4) by simp
  fix k v assume k: "k < ?n" and v: "size4 v = size4 (thr_bits thr)" "bits4 v = take ?d ?bs @ take k ?z @ drop (?d + k) ?bs"
  note s = operand_nth [OF assms(1,4) k] and d = operand_nth [OF assms(1) dest k]
  have dk: "operand_bit ?d k = ?d + k" using assms(2) by (simp add: operand_bit_def)
  have off: "operand_bit ?s k < ?d \<or> ?d + k \<le> operand_bit ?s k"
    using assms(2,5) k by (auto simp: operand_bit_def source_safe_def)
  have kz: "k \<le> length ?z" unfolding lz using k by simp
  have "bits4 v ! operand_bit ?s k = ?bs ! operand_bit ?s k"
    unfolding v(2) using off s(2) k assms(3) kz by (intro seen_bits) simp_all
  moreover have "bits4 v ! (?d + k) = ?bs ! (?d + k)"
    unfolding v(2) using k assms(3) kz by (intro seen_bits) simp_all
  moreover have "?z ! k = f (?bs ! (?d + k)) (?bs ! operand_bit ?s k)"
    using k dest assms(4) d(1) s(1) dk by simp
  moreover have "operand_bit ?s k < size4 v" "?d + k < size4 v" using s(2) d(2) v(1) dk by simp_all
  ultimately show "bind_result (thr_get_bit (thr\<lparr>thr_bits := v\<rparr>) (?d + k)) (\<lambda>lb.
      bind_result (thr_get_bit (thr\<lparr>thr_bits := v\<rparr>) (operand_bit ?s k)) (\<lambda>rb.
        thr_put_bit (thr\<lparr>thr_bits := v\<rparr>) (?d + k) (f lb rb))) = thr_put_bit (thr\<lparr>thr_bits := v\<rparr>) (?d + k) (?z ! k)"
    by (simp only: get_bit_update bind_result_simps)
qed (use assms(1,3) in \<open>simp_all add: thread_ok_def\<close>)

lemma vthread_bits_to_vector_bits:
  assumes "vector_ok (thr_bits thr)" "operand_ok thr a n" "0 < n"
  shows "\<exists>v. vthread_bits_to_vector thr a n = Inr v \<and> vector_ok v \<and> size4 v = n \<and> bits4 v = operand thr a n"
proof (cases "a < 4")
  case True
  then show ?thesis by (simp add: vthread_bits_to_vector_def operand_def)
next
  case False
  then obtain r where r: "subvalue (thr_bits thr) a n = Inr r" "vector_ok r" "bits4 r = take n (drop a (bits4 (thr_bits thr)))"
    using subvalue_bits [OF assms(1) _ assms(3), of a] assms(2) by (auto simp: operand_ok_def)
  have "length (bits4 r) = n" unfolding r(3) using assms(2) False by (simp add: operand_ok_def)
  then have "size4 r = n" by simp
  then show ?thesis using r False by (simp add: vthread_bits_to_vector_def operand_def)
qed

definition vector_op :: "(vector4 \<Rightarrow> vector4 \<Rightarrow> vector4 result) \<Rightarrow> (bit4 \<Rightarrow> bit4 \<Rightarrow> bit4) \<Rightarrow> bool" where
  "vector_op g f \<longleftrightarrow> (\<forall>v w. vector_ok v \<longrightarrow> vector_ok w \<longrightarrow> size4 v = size4 w \<longrightarrow>
     (\<exists>r. g v w = Inr r \<and> vector_ok r \<and> bits4 r = map2 f (bits4 v) (bits4 w)))"

lemma bitwise_op_writes:
  assumes "thread_ok thr" "4 \<le> bit_idx0 cp" "bit_idx0 cp + number cp \<le> size4 (thr_bits thr)"
    "operand_ok thr (bit_idx1 cp) (number cp)" "0 < number cp" "number cp \<le> 4 \<longrightarrow> source_safe cp" "vector_op g f"
  shows "writes thr (bit_idx0 cp)
    (map2 f (operand thr (bit_idx0 cp) (number cp)) (operand thr (bit_idx1 cp) (number cp))) (bitwise_op f g thr cp)"
proof (cases "number cp \<le> 4")
  case True
  then show ?thesis using narrow_op_writes [OF assms(1-4), of f] assms(2,6) by (simp add: bitwise_op_def)
next
  case False
  let ?d = "bit_idx0 cp" and ?n = "number cp"
  have ok: "vector_ok (thr_bits thr)" using assms(1) by (simp add: thread_ok_def)
  have dest: "operand_ok thr ?d ?n" using assms(3) by (simp add: operand_ok_def)
  obtain v w where v: "vthread_bits_to_vector thr ?d ?n = Inr v" "vector_ok v" "size4 v = ?n" "bits4 v = operand thr ?d ?n"
    and w: "vthread_bits_to_vector thr (bit_idx1 cp) ?n = Inr w" "vector_ok w" "size4 w = ?n" "bits4 w = operand thr (bit_idx1 cp) ?n"
    using vthread_bits_to_vector_bits [OF ok dest assms(5)] vthread_bits_to_vector_bits [OF ok assms(4,5)] by blast
  obtain r where r: "g v w = Inr r" "vector_ok r" "bits4 r = map2 f (bits4 v) (bits4 w)"
    using assms(7) v(2,3) w(2,3) unfolding vector_op_def by metis
  have "length (bits4 r) = ?n" unfolding r(3) using v(3) w(3) by simp
  then have "writes thr ?d (bits4 r) (thr_set_vec thr ?d r)"
    using ok r(2) assms(3,5) by (intro set_vec_writes) simp_all
  then show ?thesis using False assms(2) v w r by (simp add: bitwise_op_def wide_op_def)
qed

lemma inverted_op: "vector_op g f \<Longrightarrow> vector_op (\<lambda>v w. inverted (g v w)) (\<lambda>a b. bit4_not (f a b))"
  unfolding vector_op_def
proof (intro allI impI)
  fix v w assume g: "\<forall>v w. vector_ok v \<longrightarrow> vector_ok w \<longrightarrow> size4 v = size4 w \<longrightarrow>
      (\<exists>r. g v w = Inr r \<and> vector_ok r \<and> bits4 r = map2 f (bits4 v) (bits4 w))"
    and vw: "vector_ok v" "vector_ok w" "size4 v = size4 w"
  then obtain r where "g v w = Inr r" "vector_ok r" "bits4 r = map2 f (bits4 v) (bits4 w)" by blast
  then show "\<exists>r. inverted (g v w) = Inr r \<and> vector_ok r \<and> bits4 r = map2 (\<lambda>a b. bit4_not (f a b)) (bits4 v) (bits4 w)"
    using invert_bits [of r] by (auto simp: inverted_def)
qed

lemma vector_ops: "vector_op vector_and bit4_and" "vector_op vector_or bit4_or"
  using and_bits or_bits by (simp_all add: vector_op_def)

lemma xor_cases_eq: "xor_cases a b = bit4_xor a b"
  by (cases a; cases b) (simp_all add: xor_cases_def bit4_xor_def)

text \<open>
  C31. The bitwise instructions set every bit of the destination to the operator of the four values of the
  two bits, for all widths and constant operands: the variants that go bit by bit under the condition that
  the source does not begin before a destination that it overlaps, the others always.
\<close>

theorem bitwise_instructions_exact:
  assumes "thread_ok thr" "4 \<le> bit_idx0 cp" "bit_idx0 cp + number cp \<le> size4 (thr_bits thr)"
    "operand_ok thr (bit_idx1 cp) (number cp)" "0 < number cp"
    "x = operand thr (bit_idx0 cp) (number cp)" "y = operand thr (bit_idx1 cp) (number cp)"
  shows "((number cp \<le> 4 \<longrightarrow> source_safe cp) \<longrightarrow>
      writes thr (bit_idx0 cp) (map2 bit4_and x y) (of_AND thr cp) \<and>
      writes thr (bit_idx0 cp) (map2 bit4_or x y) (of_OR thr cp) \<and>
      writes thr (bit_idx0 cp) (map2 (\<lambda>a b. bit4_not (bit4_and a b)) x y) (of_NAND thr cp) \<and>
      writes thr (bit_idx0 cp) (map2 (\<lambda>a b. bit4_not (bit4_or a b)) x y) (of_NOR thr cp)) \<and>
    (source_safe cp \<longrightarrow>
      writes thr (bit_idx0 cp) (map2 bit4_xor x y) (of_XOR thr cp) \<and>
      writes thr (bit_idx0 cp) (map2 (\<lambda>a b. bit4_not (bit4_xor a b)) x y) (of_XNOR thr cp))"
proof -
  have "writes thr (bit_idx0 cp) (map2 f x y) (bitwise_op f g thr cp)"
    if "vector_op g f" "number cp \<le> 4 \<longrightarrow> source_safe cp" for f g
    unfolding assms(6,7) by (rule bitwise_op_writes [OF assms(1-5) that(2,1)])
  moreover have "writes thr (bit_idx0 cp) (map2 f x y) (narrow_op f thr cp)" if "source_safe cp" for f
    unfolding assms(6,7) by (rule narrow_op_writes [OF assms(1-4) that])
  moreover have "\<not> bit_idx0 cp < 4" "xor_cases = bit4_xor" using assms(2) xor_cases_eq by (simp, blast)
  ultimately show ?thesis
    using vector_ops vector_ops [THEN inverted_op]
    unfolding of_AND_def of_OR_def of_NAND_def of_NOR_def of_XOR_def of_XNOR_def by simp
qed


theorem bitwise_instructions_exact_witness:
  "writes example_thread 8 [BIT4_1, BIT4_0, BIT4_0, BIT4_0] (of_AND example_thread example_code) \<and>
    writes example_thread 8 [BIT4_1, BIT4_0, BIT4_0, BIT4_1] (of_XNOR example_thread example_code)"
proof -
  have "map2 bit4_and [BIT4_1, BIT4_0, BIT4_1, BIT4_0] [BIT4_1, BIT4_1, BIT4_0, BIT4_0] = [BIT4_1, BIT4_0, BIT4_0, BIT4_0]"
    "map2 (\<lambda>a b. bit4_not (bit4_xor a b)) [BIT4_1, BIT4_0, BIT4_1, BIT4_0] [BIT4_1, BIT4_1, BIT4_0, BIT4_0] =
      [BIT4_1, BIT4_0, BIT4_0, BIT4_1]" "source_safe example_code"
    by code_simp+
  then show ?thesis
    using bitwise_instructions_exact [OF example_ok _ example_operands(5,4) _ example_operands(1,2) [symmetric]]
    by (simp add: example_operands(6-8))
qed

section \<open>Shifts\<close>

lemma each_cong: "(\<And>i s. i \<in> set is \<Longrightarrow> f i s = g i s) \<Longrightarrow> each f is s = each g is s"
proof (induction "is" arbitrary: s)
  case (Cons i "is")
  then show ?case by (cases "g i s") simp_all
qed simp

lemma each_append: "each f (is @ js) s = bind_result (each f is s) (each f js)"
proof (induction "is" arbitrary: s)
  case (Cons i "is")
  then show ?case by (cases "f i s") simp_all
qed simp

definition shifted_down :: "nat \<Rightarrow> bit4 \<Rightarrow> bit4 list \<Rightarrow> bit4 list" where
  "shifted_down n fill x = drop n x @ replicate (if n \<le> length x then n else length x) fill"

definition shifted_up :: "nat \<Rightarrow> bit4 \<Rightarrow> bit4 list \<Rightarrow> bit4 list" where
  "shifted_up n fill x = (if n \<le> length x then replicate n fill @ take (length x - n) x else replicate (length x) fill)"

lemma length_shifted [simp]: "length (shifted_down n fill x) = length x" "length (shifted_up n fill x) = length x"
  by (simp_all add: shifted_down_def shifted_up_def)

lemma fill_writes:
  assumes "vector_ok (thr_bits thr)" "d + n \<le> size4 (thr_bits thr)"
  shows "writes thr d (replicate n b) (each (\<lambda>i thr. thr_put_bit thr (d + i) b) [0..<n] thr)"
  using assms by (intro each_writes) simp_all

lemma fill_vector_writes:
  assumes "vector_ok (thr_bits thr)" "d + n \<le> size4 (thr_bits thr)" "0 < n"
  shows "writes thr d (replicate n b) (thr_set_vec thr d (new_vector4 n b))"
  using set_vec_writes [of thr "new_vector4 n b" d] assms by simp

lemma shift_down_writes:
  assumes "vector_ok (thr_bits thr)" "4 \<le> d" "d + n \<le> size4 (thr_bits thr)"
  shows "writes thr d (shifted_down m fill (operand thr d n)) (shift_down d n m fill thr)"
proof -
  define step where "step i thr = (if i < n - m then bind_result (thr_get_bit thr (d + i + m)) (\<lambda>b. thr_put_bit thr (d + i) b)
    else thr_put_bit thr (d + i) fill)" for i thr
  have "[0..<n] = [0..<n - m] @ [n - m..<n]"
    by (metis upt_add_eq_append le0 le_add_diff_inverse diff_le_self)
  then have "each step [0..<n] thr = bind_result (each step [0..<n - m] thr) (each step [n - m..<n])"
    by (simp add: each_append)
  also have "each step [0..<n - m] thr =
      each (\<lambda>i thr. bind_result (thr_get_bit thr (d + i + m)) (\<lambda>b. thr_put_bit thr (d + i) b)) [0..<n - m] thr"
    by (rule each_cong) (simp add: step_def)
  also have "each step [n - m..<n] = each (\<lambda>i thr. thr_put_bit thr (d + i) fill) [n - m..<n]"
    by (rule ext, rule each_cong) (simp add: step_def)
  finally have op: "shift_down d n m fill thr = each step [0..<n] thr" by (simp add: shift_down_def)
  let ?x = "operand thr d n" and ?bs = "bits4 (thr_bits thr)"
  let ?z = "shifted_down m fill ?x"
  have dest: "operand_ok thr d n" using assms(3) by (simp add: operand_ok_def)
  have nth: "?z ! k = (if k < n - m then ?bs ! (d + k + m) else fill)" if "k < n" for k
    using that dest assms(2,3) by (auto simp: shifted_down_def nth_append operand_def ac_simps simp del: nth_bits4)
  show ?thesis unfolding op
  proof (rule each_writes)
    fix k v assume k: "k < n" and v: "size4 v = size4 (thr_bits thr)" "bits4 v = take d ?bs @ take k ?z @ drop (d + k) ?bs"
    show "step k (thr\<lparr>thr_bits := v\<rparr>) = thr_put_bit (thr\<lparr>thr_bits := v\<rparr>) (d + k) (?z ! k)"
    proof (cases "k < n - m")
      case True
      then have "d + k + m < size4 v" using assms(3) v(1) by simp
      moreover have "bits4 v ! (d + k + m) = ?bs ! (d + k + m)"
        unfolding v(2) using True k dest assms(3) by (intro seen_bits) simp_all
      ultimately show ?thesis using True nth [OF k] by (simp only: step_def get_bit_update bind_result_simps if_True)
    next
      case False
      then show ?thesis using nth [OF k] by (simp add: step_def)
    qed
  qed (use assms dest in simp_all)
qed

lemma shift_up_writes:
  assumes "vector_ok (thr_bits thr)" "4 \<le> d" "d + n \<le> size4 (thr_bits thr)" "0 < m" "m < n"
  shows "writes thr d (shifted_up m fill (operand thr d n)) (shift_up d n m fill thr)"
proof -
  let ?v = "thr_bits thr" and ?bs = "bits4 (thr_bits thr)"
  have range: "d + (n - m) \<le> size4 ?v" using assms(3) by linarith
  obtain w where w: "subvalue ?v d (n - m) = Inr w" "vector_ok w" "bits4 w = take (n - m) (drop d ?bs)"
    using subvalue_bits [OF assms(1) range] assms(5) by auto
  have lw: "size4 w = n - m" using arg_cong [OF w(3), of length] assms(3) by simp
  obtain r where r: "set_vec ?v (d + m) w = Inr r" "vector_ok r"
    "bits4 r = take (d + m) ?bs @ bits4 w @ drop (d + m + size4 w) ?bs"
    using set_vec_bits [OF assms(1) w(2), of "d + m"] lw assms(3-5) by auto
  have lr: "size4 r = size4 ?v" using arg_cong [OF r(3), of length] lw assms(3-5) by simp
  obtain q where q: "set_vec r d (new_vector4 m fill) = Inr q" "vector_ok q"
    "bits4 q = take d (bits4 r) @ replicate m fill @ drop (d + m) (bits4 r)"
    using set_vec_bits [OF r(2), of "new_vector4 m fill" d] lr assms(3-5) by auto
  have "bits4 q = take d ?bs @ shifted_up m fill (operand thr d n) @ drop (d + n) ?bs"
    unfolding q(3) r(3) using assms(2-5) lw w(3) by (simp add: shifted_up_def operand_def)
  moreover have "length (shifted_up m fill (operand thr d n)) = n" using assms(3) by (simp add: operand_ok_def)
  moreover have "shift_up d n m fill thr = Inr (thr\<lparr>thr_bits := q\<rparr>)"
    using w(1) r(1) q(1) by (simp add: shift_up_def thr_set_vec_def with_bits_def)
  ultimately show ?thesis using q(2) unfolding writes_def by auto
qed


lemma thread_facts: "thread_ok thr \<Longrightarrow> vector_ok (thr_bits thr)" "thread_ok thr \<Longrightarrow> 4 < size4 (thr_bits thr)"
  by (simp_all add: thread_ok_def)

lemma check_addr_id: "addr < size4 (thr_bits thr) \<Longrightarrow> thr_check_addr thr addr = thr"
  by (simp add: thr_check_addr_def)

definition shift_left_result :: "int \<Rightarrow> bit4 list \<Rightarrow> bit4 list" where
  "shift_left_result n x =
     (if 0 \<le> n then shifted_up (nat n) BIT4_0 x else shifted_down (nat (- n)) BIT4_X x)"

definition shift_right_result :: "int \<Rightarrow> bit4 list \<Rightarrow> bit4 list" where
  "shift_right_result n x =
     (if 0 \<le> n then shifted_down (nat n) BIT4_0 x else shifted_up (nat (- n)) BIT4_X x)"

lemma shift_none: "shifted_up 0 fill x = x" "shifted_down 0 fill x = x"
  by (simp_all add: shifted_up_def shifted_down_def)

lemma writes_same:
  assumes "vector_ok (thr_bits thr)" "4 \<le> d" "d + n \<le> size4 (thr_bits thr)"
  shows "writes thr d (operand thr d n) (Inr thr)"
proof -
  have "take d bs @ take n (drop d bs) @ drop (d + n) bs = bs" for bs :: "bit4 list"
    by (metis append_take_drop_id drop_drop add.commute)
  moreover have "length (operand thr d n) = n" using assms by (simp add: operand_ok_def)
  ultimately show ?thesis
    using assms by (auto simp: writes_def operand_def intro!: exI [of _ "thr_bits thr"])
qed

lemma shift_left_writes:
  assumes "thread_ok thr" "4 \<le> bit_idx0 cp" "bit_idx0 cp + number cp \<le> size4 (thr_bits thr)" "0 < number cp"
    "bits4 (thr_bits thr) ! 4 \<noteq> BIT4_1" "thr_words thr 0 \<noteq> - (2 ^ 63)"
  shows "writes thr (bit_idx0 cp) (shift_left_result (thr_words thr 0) (operand thr (bit_idx0 cp) (number cp))) (of_SHIFTL_I0 thr cp)"
proof -
  let ?d = "bit_idx0 cp" and ?n = "number cp" and ?s = "thr_words thr 0"
  have lx: "length (operand thr ?d ?n) = ?n" using assms(3) by (simp add: operand_ok_def)
  note ok = thread_facts(1) [OF assms(1)]
  have op: "of_SHIFTL_I0 thr cp =
      (if int ?n \<le> ?s then thr_set_vec thr ?d (new_vector4 ?n BIT4_0)
       else if 0 < ?s then shift_up ?d ?n (nat ?s) BIT4_0 thr
       else if ?s < 0 then shift_down ?d ?n (nat (- ?s)) BIT4_X thr
       else Inr thr)"
    using assms thread_facts(2) [OF assms(1)]
    by (simp add: of_SHIFTL_I0_def check_addr_id get_bit_in_range Let_def del: nth_bits4)
  consider "int ?n \<le> ?s" | "0 < ?s" "?s < int ?n" | "?s < 0" | "?s = 0" by linarith
  then show ?thesis
  proof cases
    case 1
    then have "shift_left_result ?s (operand thr ?d ?n) = replicate ?n BIT4_0"
      using lx by (auto simp: shift_left_result_def shifted_up_def)
    then show ?thesis using 1 fill_vector_writes [OF ok assms(3,4)] unfolding op by simp
  next
    case 2
    then show ?thesis using shift_up_writes [OF ok assms(2,3), of "nat ?s" BIT4_0] unfolding op
      by (simp add: shift_left_result_def)
  next
    case 3
    then show ?thesis using shift_down_writes [OF ok assms(2,3), of "nat (- ?s)" BIT4_X] unfolding op
      by (simp add: shift_left_result_def)
  next
    case 4
    then show ?thesis using writes_same [OF ok assms(2,3)] assms(4) unfolding op
      by (simp add: shift_left_result_def shift_none)
  qed
qed

lemma shift_right_writes:
  assumes "thread_ok thr" "4 \<le> bit_idx0 cp" "bit_idx0 cp + number cp \<le> size4 (thr_bits thr)" "0 < number cp"
    "bits4 (thr_bits thr) ! 4 \<noteq> BIT4_1" "thr_words thr 0 \<noteq> - int (number cp)"
  shows "writes thr (bit_idx0 cp) (shift_right_result (thr_words thr 0) (operand thr (bit_idx0 cp) (number cp))) (of_SHIFTR_I0 thr cp)"
proof -
  let ?d = "bit_idx0 cp" and ?n = "number cp" and ?s = "thr_words thr 0"
  have lx: "length (operand thr ?d ?n) = ?n" using assms(3) by (simp add: operand_ok_def)
  note ok = thread_facts(1) [OF assms(1)]
  have op: "of_SHIFTR_I0 thr cp =
      (if 0 < ?s then shift_down ?d ?n (nat ?s) BIT4_0 thr
       else if ?s < - int ?n then thr_set_vec thr ?d (new_vector4 ?n BIT4_X)
       else if ?s < 0 then shift_up ?d ?n (nat (- ?s)) BIT4_X thr
       else Inr thr)"
    using assms thread_facts(2) [OF assms(1)]
    by (simp add: of_SHIFTR_I0_def check_addr_id get_bit_in_range Let_def del: nth_bits4)
  consider "0 < ?s" | "?s < - int ?n" | "- int ?n < ?s" "?s < 0" | "?s = 0" using assms(6) by linarith
  then show ?thesis
  proof cases
    case 1
    then show ?thesis using shift_down_writes [OF ok assms(2,3), of "nat ?s" BIT4_0] unfolding op
      by (simp add: shift_right_result_def)
  next
    case 2
    then have "shift_right_result ?s (operand thr ?d ?n) = replicate ?n BIT4_X"
      using lx by (auto simp: shift_right_result_def shifted_up_def)
    then show ?thesis using 2 fill_vector_writes [OF ok assms(3,4)] unfolding op by simp
  next
    case 3
    then show ?thesis using shift_up_writes [OF ok assms(2,3), of "nat (- ?s)" BIT4_X] unfolding op
      by (simp add: shift_right_result_def nat_less_iff)
  next
    case 4
    then show ?thesis using writes_same [OF ok assms(2,3)] assms(4) unfolding op
      by (simp add: shift_right_result_def shift_none)
  qed
qed

lemma shift_right_signed_writes:
  assumes "thread_ok thr" "4 \<le> bit_idx0 cp" "bit_idx0 cp + number cp \<le> size4 (thr_bits thr)" "0 < number cp"
    "bits4 (thr_bits thr) ! 4 \<noteq> BIT4_1" "x = operand thr (bit_idx0 cp) (number cp)"
  shows "writes thr (bit_idx0 cp) (shifted_down (nat (thr_words thr 0 mod 2 ^ 64)) (last x) x) (of_SHIFTR_S_I0 thr cp)"
proof -
  let ?d = "bit_idx0 cp" and ?n = "number cp"
  define s where "s = nat (thr_words thr 0 mod 2 ^ 64)"
  have lx: "length x = ?n" using assms(3,6) by (simp add: operand_ok_def)
  note ok = thread_facts(1) [OF assms(1)]
  have "last x = x ! (?n - 1)" using lx assms(4) by (subst last_conv_nth) auto
  also have "\<dots> = bits4 (thr_bits thr) ! (?d + ?n - 1)"
    using assms(2-4,6) by (simp add: operand_def del: nth_bits4)
  finally have sign: "thr_get_bit thr (?d + ?n - 1) = Inr (last x)"
    using assms(3,4) by (simp add: get_bit_in_range)
  have op: "of_SHIFTR_S_I0 thr cp =
      (if ?n \<le> s then each (\<lambda>i thr. thr_put_bit thr (?d + i) (last x)) [0..<?n] thr
       else if 0 < s then shift_down ?d ?n s (last x) thr else Inr thr)"
    using assms(5) sign get_bit_in_range [OF thread_facts(2) [OF assms(1)]] by (simp add: of_SHIFTR_S_I0_def Let_def s_def)
  consider "?n \<le> s" | "0 < s" "s < ?n" | "s = 0" by linarith
  then show ?thesis unfolding s_def [symmetric]
  proof cases
    case 1
    then have "shifted_down s (last x) x = replicate ?n (last x)" using lx by (auto simp: shifted_down_def)
    then show "writes thr ?d (shifted_down s (last x) x) (of_SHIFTR_S_I0 thr cp)"
      using 1 fill_writes [OF ok assms(3)] unfolding op by simp
  next
    case 2
    then show "writes thr ?d (shifted_down s (last x) x) (of_SHIFTR_S_I0 thr cp)"
      using shift_down_writes [OF ok assms(2,3), of s "last x"] unfolding op by (simp add: assms(6))
  next
    case 3
    then show "writes thr ?d (shifted_down s (last x) x) (of_SHIFTR_S_I0 thr cp)"
      using writes_same [OF ok assms(2,3)] assms(4) unfolding op by (simp add: assms(6) shift_none)
  qed
qed


text \<open>Moving a vector by its width to lower addresses writes an empty part behind it.\<close>

lemma merge_nothing: "i < length ws \<Longrightarrow> merge_word ws i 0 w = Inr ws"
  by (simp add: merge_word_def word_at_def put_word_def)

lemma set_words_empty:
  assumes "length ws = word_count sz" "src \<noteq> []" "adr \<le> sz"
  shows "set_words sz adr 0 src ws =
    (if adr = sz \<and> 0 < sz \<and> sz mod 64 = 0 then Inl (if sz \<le> 64 then ''shift'' else ''out of bounds'') else Inr ws)"
proof (cases "sz \<le> 64")
  case True
  then have "64 \<le> adr \<longleftrightarrow> adr = sz \<and> 0 < sz \<and> sz mod 64 = 0"
    using assms(3) mod_less [of sz 64] by (cases "sz < 64") auto
  moreover have "0 < length ws" using assms(1) by simp
  ultimately show ?thesis
    using True assms(2) by (simp add: set_words_def word_at_def Let_def merge_nothing)
next
  case False
  have inside: "adr div 64 < length ws \<longleftrightarrow> \<not> (adr = sz \<and> sz mod 64 = 0)"
  proof -
    have "word_count sz = (sz + 63) div 64" using False by (simp add: word_count_def)
    moreover have "64 * ((sz + 63) div 64) = sz \<longleftrightarrow> sz mod 64 = 0"
    proof
      assume "64 * ((sz + 63) div 64) = sz"
      then show "sz mod 64 = 0" by (metis mod_mult_self1_is_0)
    next
      assume "sz mod 64 = 0"
      then obtain q where "sz = 64 * q" by auto
      then show "64 * ((sz + 63) div 64) = sz" by simp
    qed
    ultimately have "64 * word_count sz = sz \<longleftrightarrow> sz mod 64 = 0" by metis
    moreover have "adr div 64 < word_count sz \<longleftrightarrow> adr < 64 * word_count sz"
      by (simp add: div_less_iff_less_mult mult.commute)
    ultimately show ?thesis using cover [of sz] assms(1,3) by linarith
  qed
  have "merge_word ws (adr div 64) 0 w = Inl ''out of bounds''" if "\<not> adr div 64 < length ws" for w
    using that by (simp add: merge_word_def word_at_def)
  then show ?thesis using False assms(2) inside
    by (auto simp: set_words_def word_at_def Let_def merge_nothing)
qed

lemma set_vec_empty:
  assumes "vector_ok v" "size4 w = 0" "abits w \<noteq> []" "bbits w \<noteq> []" "adr \<le> size4 v"
  shows "set_vec v adr w =
    (if adr = size4 v \<and> 0 < size4 v \<and> size4 v mod 64 = 0 then Inl (if size4 v \<le> 64 then ''shift'' else ''out of bounds'') else Inr v)"
  using assms by (auto simp: set_vec_def vector_ok_def set_words_empty)

lemma subvalue_empty:
  assumes "vector_ok v" "adr < size4 v"
  shows "\<exists>w. subvalue v adr 0 = Inr w \<and> size4 w = 0 \<and> abits w \<noteq> [] \<and> bbits w \<noteq> []"
proof -
  have "\<exists>r. sub_words (size4 v) adr 0 ws = Inr r \<and> r \<noteq> []" if "length ws = word_count (size4 v)" for ws
  proof (cases "64 < size4 v")
    case True
    then show ?thesis using that word_index [OF assms(2)] by (simp add: sub_words_def Let_def word_at_def)
  next
    case False
    then show ?thesis using that assms(2) by (simp add: sub_words_def word_at_def)
  qed
  then obtain as bs where "sub_words (size4 v) adr 0 (abits v) = Inr as" "as \<noteq> []"
    "sub_words (size4 v) adr 0 (bbits v) = Inr bs" "bs \<noteq> []" using assms(1) unfolding vector_ok_def by blast
  then show ?thesis using assms(2) by (simp add: subvalue_def)
qed

theorem shift_instructions_exact:
  assumes "thread_ok thr" "4 \<le> bit_idx0 cp" "bit_idx0 cp + number cp \<le> size4 (thr_bits thr)" "0 < number cp"
    "x = operand thr (bit_idx0 cp) (number cp)" "s = thr_words thr 0"
  shows "if bits4 (thr_bits thr) ! 4 = BIT4_1
    then \<forall>f\<in>{of_SHIFTL_I0, of_SHIFTR_I0, of_SHIFTR_S_I0}. writes thr (bit_idx0 cp) (replicate (number cp) BIT4_X) (f thr cp)
    else (s \<noteq> - (2 ^ 63) \<longrightarrow> writes thr (bit_idx0 cp) (shift_left_result s x) (of_SHIFTL_I0 thr cp)) \<and>
      (s \<noteq> - int (number cp) \<longrightarrow> writes thr (bit_idx0 cp) (shift_right_result s x) (of_SHIFTR_I0 thr cp)) \<and>
      writes thr (bit_idx0 cp) (shifted_down (nat (s mod 2 ^ 64)) (last x) x) (of_SHIFTR_S_I0 thr cp)"
proof (cases "bits4 (thr_bits thr) ! 4 = BIT4_1")
  case True
  then show ?thesis
    using assms(2-4) fill_vector_writes [OF thread_facts(1) [OF assms(1)] assms(3,4), of BIT4_X]
      get_bit_in_range [OF thread_facts(2) [OF assms(1)]] get_bit_in_range [of "bit_idx0 cp + number cp - 1" thr]
    by (simp add: of_SHIFTL_I0_def of_SHIFTR_I0_def of_SHIFTR_S_I0_def check_addr_id Let_def)
next
  case False
  then show ?thesis
    unfolding assms(6) using shift_left_writes [OF assms(1-4)] shift_right_writes [OF assms(1-4)]
      shift_right_signed_writes [OF assms(1-4) _ assms(5)] unfolding assms(5) by simp
qed

theorem shift_right_by_negative_width:
  assumes "thread_ok thr" "4 \<le> bit_idx0 cp" "bit_idx0 cp + number cp \<le> size4 (thr_bits thr)" "0 < number cp"
    "bits4 (thr_bits thr) ! 4 \<noteq> BIT4_1" "thr_words thr 0 = - int (number cp)"
  shows "if bit_idx0 cp + number cp = size4 (thr_bits thr) \<and> size4 (thr_bits thr) mod 64 = 0
    then \<exists>e. of_SHIFTR_I0 thr cp = Inl e
    else writes thr (bit_idx0 cp) (replicate (number cp) BIT4_X) (of_SHIFTR_I0 thr cp)"
proof -
  let ?d = "bit_idx0 cp" and ?n = "number cp"
  note ok = thread_facts(1) [OF assms(1)]
  have op: "of_SHIFTR_I0 thr cp = shift_up ?d ?n ?n BIT4_X thr"
    using assms get_bit_in_range [OF thread_facts(2) [OF assms(1)]]
    by (simp add: of_SHIFTR_I0_def check_addr_id Let_def del: nth_bits4)
  have "?d < size4 (thr_bits thr)" using assms(3,4) by simp
  then obtain w where w: "subvalue (thr_bits thr) ?d 0 = Inr w" "size4 w = 0" "abits w \<noteq> []" "bbits w \<noteq> []"
    using subvalue_empty [OF ok] by blast
  have "0 < size4 (thr_bits thr)" using assms(3,4) by simp
  note sv = set_vec_empty [OF ok w(2-4) assms(3)]
  show ?thesis
  proof (cases "?d + ?n = size4 (thr_bits thr) \<and> size4 (thr_bits thr) mod 64 = 0")
    case True
    then show ?thesis using w(1) sv \<open>0 < size4 (thr_bits thr)\<close> unfolding op
      by (simp add: shift_up_def thr_set_vec_def with_bits_def)
  next
    case False
    then have "shift_up ?d ?n ?n BIT4_X thr = thr_set_vec thr ?d (new_vector4 ?n BIT4_X)"
      using w(1) sv by (auto simp: shift_up_def thr_set_vec_def with_bits_def)
    then show ?thesis using False fill_vector_writes [OF ok assms(3,4), of BIT4_X] unfolding op by auto
  qed
qed

section \<open>Reductions\<close>

fun reduce_list :: "(bit4 \<Rightarrow> bit4 \<Rightarrow> bit4 \<times> bool) \<Rightarrow> bit4 list \<Rightarrow> bit4 \<Rightarrow> bit4" where
  "reduce_list f [] lb = lb"
| "reduce_list f (b # bs) lb = (case f lb b of (lb, stop) \<Rightarrow> if stop then lb else reduce_list f bs lb)"

lemma reduce_bits_list:
  "\<forall>a\<in>set as. a < size4 (thr_bits thr) \<Longrightarrow>
    reduce_bits f thr as lb = Inr (reduce_list f (map ((!) (bits4 (thr_bits thr))) as) lb)"
  by (induction as arbitrary: lb) (auto simp: get_bit_in_range split: prod.split simp del: nth_bits4)

lemma map_nth_part: "s + n \<le> length bs \<Longrightarrow> map ((!) bs) [s..<s + n] = take n (drop s bs)"
  by (intro nth_equalityI) auto

lemma put_bit_writes:
  assumes "vector_ok (thr_bits thr)" "a < size4 (thr_bits thr)"
  shows "writes thr a [b] (thr_put_bit thr a b)"
proof -
  obtain v where v: "thr_put_bit thr a b = Inr (thr\<lparr>thr_bits := v\<rparr>)" "vector_ok v" "bits4 v = (bits4 (thr_bits thr))[a := b]"
    using writes_one [OF assms] by blast
  then show ?thesis using assms(2) by (auto simp: writes_def upd_conv_take_nth_drop)
qed

lemma reduction_writes:
  assumes "thread_ok thr" "4 \<le> bit_idx0 cp" "bit_idx0 cp < size4 (thr_bits thr)" "bit_idx1 cp + number cp \<le> size4 (thr_bits thr)"
    "x = take (number cp) (drop (bit_idx1 cp) (bits4 (thr_bits thr)))"
  shows "writes thr (bit_idx0 cp) [reduce_list f x start] (reduction start f thr cp)"
proof -
  have "reduce_bits f thr [bit_idx1 cp..<bit_idx1 cp + number cp] start = Inr (reduce_list f x start)"
    using assms(4,5) reduce_bits_list [of "[bit_idx1 cp..<bit_idx1 cp + number cp]" thr f start] by (simp add: map_nth_part)
  then show ?thesis
    using put_bit_writes [OF thread_facts(1) [OF assms(1)] assms(3)] assms(2) by (simp add: reduction_def)
qed

lemma reduce_stop_at:
  assumes "stop = BIT4_0 \<or> stop = BIT4_1"
  shows "reduce_list (stop_at stop found) bs lb =
    (if stop \<in> set bs then found else if \<exists>b\<in>set bs. bit4_is_xz b then BIT4_X else lb)"
  using assms by (induction bs arbitrary: lb) (auto simp: stop_at_def xz_iff)

lemma foldr_and: "foldr bit4_and bs BIT4_1 = (if BIT4_0 \<in> set bs then BIT4_0 else if \<exists>b\<in>set bs. bit4_is_xz b then BIT4_X else BIT4_1)"
  by (induction bs) (auto simp: bit4_and_def xz_iff)

lemma foldr_or: "foldr bit4_or bs BIT4_0 = (if BIT4_1 \<in> set bs then BIT4_1 else if \<exists>b\<in>set bs. bit4_is_xz b then BIT4_X else BIT4_0)"
  by (induction bs) (auto simp: bit4_or_def xz_iff)

lemma bit4_xor_props:
  "bit4_xor BIT4_X b = BIT4_X" "bit4_xor a BIT4_X = BIT4_X" "bit4_xor (bit4_xor a b) c = bit4_xor a (bit4_xor b c)"
  "bit4_not (bit4_xor a b) = bit4_xor (bit4_not a) b"
  by (cases a; cases b; cases c; simp add: bit4_xor_def)+

lemma reduce_parity: "\<not> bit4_is_xz lb \<Longrightarrow> reduce_list parity bs lb = bit4_xor lb (foldr bit4_xor bs BIT4_0)"
proof (induction bs arbitrary: lb)
  case Nil
  then show ?case by (auto simp: bit4_xor_def)
next
  case (Cons b bs)
  then have lb: "lb = BIT4_0 \<or> lb = BIT4_1" by (auto simp: xz_iff)
  let ?q = "foldr bit4_xor bs BIT4_0"
  show ?case
  proof (cases "bit4_is_xz b")
    case True
    then have "bit4_xor b ?q = BIT4_X" by (simp add: bit4_xor_def)
    then show ?thesis using True by (auto simp: parity_def xz_iff bit4_xor_props)
  next
    case False
    have "bit4_xor lb (bit4_xor b ?q) = bit4_xor (bit4_xor lb b) ?q" by (simp add: bit4_xor_props)
    moreover have "parity lb b = (bit4_xor lb b, False)" "\<not> bit4_is_xz (bit4_xor lb b)"
      using False lb by (cases b; auto simp: parity_def bit4_xor_def)+
    ultimately show ?thesis using Cons.IH by simp
  qed
qed

text \<open>
  The reductions set one bit to the fold of the operator over the bits of a vector, although their
  loops end at the first bit that decides the result.
\<close>

theorem reduction_instructions_exact:
  assumes "thread_ok thr" "4 \<le> bit_idx0 cp" "bit_idx0 cp < size4 (thr_bits thr)" "bit_idx1 cp + number cp \<le> size4 (thr_bits thr)"
    "x = take (number cp) (drop (bit_idx1 cp) (bits4 (thr_bits thr)))"
  shows "writes thr (bit_idx0 cp) [foldr bit4_and x BIT4_1] (of_ANDR thr cp) \<and>
    writes thr (bit_idx0 cp) [bit4_not (foldr bit4_and x BIT4_1)] (of_NANDR thr cp) \<and>
    writes thr (bit_idx0 cp) [foldr bit4_or x BIT4_0] (of_ORR thr cp) \<and>
    writes thr (bit_idx0 cp) [bit4_not (foldr bit4_or x BIT4_0)] (of_NORR thr cp) \<and>
    writes thr (bit_idx0 cp) [foldr bit4_xor x BIT4_0] (of_XORR thr cp) \<and>
    writes thr (bit_idx0 cp) [bit4_not (foldr bit4_xor x BIT4_0)] (of_XNORR thr cp)"
proof -
  have r: "writes thr (bit_idx0 cp) [b] (reduction start f thr cp)" if "reduce_list f x start = b" for f start b
    using reduction_writes [OF assms, of f start] that by simp
  have xor0: "bit4_xor BIT4_0 (foldr bit4_xor x BIT4_0) = foldr bit4_xor x BIT4_0"
  proof (cases x)
    case (Cons a list)
    then show ?thesis by (simp add: bit4_xor_props(3) [symmetric]) (simp add: bit4_xor_def)
  qed (simp add: bit4_xor_def)
  have xor1: "bit4_xor BIT4_1 (foldr bit4_xor x BIT4_0) = bit4_not (foldr bit4_xor x BIT4_0)"
    using bit4_xor_props(4) [of BIT4_0 "foldr bit4_xor x BIT4_0"] xor0 by simp
  show ?thesis
    unfolding of_ANDR_def of_NANDR_def of_ORR_def of_NORR_def of_XORR_def of_XNORR_def
    by (intro conjI r) (simp_all add: reduce_stop_at reduce_parity foldr_and foldr_or xor0 xor1)
qed

theorem reduction_instructions_exact_witness:
  "writes example_thread 8 [BIT4_0] (of_ANDR example_thread example_code) \<and>
    writes example_thread 8 [BIT4_1] (of_ORR example_thread example_code)"
proof -
  have x: "[BIT4_1, BIT4_1, BIT4_0, BIT4_0] =
      take (number example_code) (drop (bit_idx1 example_code) (bits4 (thr_bits example_thread)))"
    "bit_idx0 example_code < size4 (thr_bits example_thread)"
    "bit_idx1 example_code + number example_code \<le> size4 (thr_bits example_thread)"
    "foldr bit4_and [BIT4_1, BIT4_1, BIT4_0, BIT4_0] BIT4_1 = BIT4_0"
    "foldr bit4_or [BIT4_1, BIT4_1, BIT4_0, BIT4_0] BIT4_0 = BIT4_1"
    by code_simp+
  show ?thesis
    using reduction_instructions_exact [OF example_ok _ x(2,3,1)] x(4,5) by (simp add: example_operands(6-8) del: foldr.simps)
qed

end
