(* ===== verification/VThreadIndex.thy ===== *)
theory VThreadIndex
  imports VThreadBits
begin

text \<open>
  Vectors as integers: what the index register holds after \<open>%ix/get\<close>, and how the shifts use it.
\<close>

section \<open>The value of a vector in a register\<close>

definition word_of_bits :: "bit4 list \<Rightarrow> word64" where
  "word_of_bits bs = of_int (value_of bs)"

lemma bit_word_of_bits: "bit (word_of_bits bs) j \<longleftrightarrow> j < 64 \<and> j < length bs \<and> bs ! j = BIT4_1"
  by (simp add: word_of_bits_def bit_of_int_iff bit_value_of)

lemma word_of_bits_snoc:
  "length bs < 64 \<Longrightarrow> word_of_bits bs OR push_bit (length bs) (of_bool (b = BIT4_1)) = word_of_bits (bs @ [b])"
  by (rule bit_word_eqI) (auto simp: bit_word_of_bits bit_simps nth_append)

lemma word_of_bits_0 [simp]: "word_of_bits [] = 0"
  by (simp add: word_of_bits_def)

lemma index_loop_defined:
  assumes "thread_ok thr" "operand_ok thr base n" "n \<le> 64" "x = operand thr base n" "defined x"
  shows "i \<le> n \<Longrightarrow> vv = (if i = 0 then BIT4_0 else x ! (i - 1)) \<Longrightarrow>
    index_loop thr base [i..<n] (word_of_bits (take i x)) vv =
      Inr (word_of_bits x, if n = 0 then BIT4_0 else last x, False)"
proof (induction "n - i" arbitrary: i vv)
  case 0
  have len: "length x = n" using assms(2,4) by simp
  then have "last x = x ! (n - 1)" if "n \<noteq> 0" using that by (subst last_conv_nth) auto
  then show ?case using 0 len by auto
next
  case (Suc m)
  then have i: "i < n" "[i..<n] = i # [Suc i..<n]" by (simp_all add: upt_conv_Cons)
  have len: "length x = n" using assms(2,4) by simp
  have get: "thr_get_bit thr (operand_bit base i) = Inr (x ! i)"
    using operand_nth [OF assms(1,2) i(1)] assms(4) by (simp only: get_bit_in_range)
  have "\<not> bit4_is_xz (x ! i)" using assms(5) i(1) len by (auto simp: defined_def)
  moreover have "word_of_bits (take i x) OR push_bit i (of_bool (x ! i = BIT4_1)) = word_of_bits (take (Suc i) x)"
    using word_of_bits_snoc [of "take i x" "x ! i"] i(1) len assms(3) by (simp add: take_Suc_conv_app_nth)
  moreover have "index_loop thr base [Suc i..<n] (word_of_bits (take (Suc i) x)) (x ! i) =
      Inr (word_of_bits x, if n = 0 then BIT4_0 else last x, False)"
    using Suc.hyps(1) [of "Suc i" "x ! i"] Suc.hyps(2) i(1) by simp
  ultimately show ?case unfolding i(2) using get i(1) assms(3) by simp
qed

lemma index_loop_undefined:
  assumes "thread_ok thr" "operand_ok thr base n" "n \<le> 64" "x = operand thr base n"
  shows "i \<le> n \<Longrightarrow> \<not> defined (drop i x) \<Longrightarrow> \<exists>vv'. index_loop thr base [i..<n] v vv = Inr (0, vv', True)"
proof (induction "n - i" arbitrary: i v vv)
  case 0
  then show ?case using assms(2,4) by (simp add: defined_def)
next
  case (Suc m)
  then have i: "i < n" "[i..<n] = i # [Suc i..<n]" by (simp_all add: upt_conv_Cons)
  have len: "length x = n" using assms(2,4) by simp
  have get: "thr_get_bit thr (operand_bit base i) = Inr (x ! i)"
    using operand_nth [OF assms(1,2) i(1)] assms(4) by (simp only: get_bit_in_range)
  show ?case
  proof (cases "bit4_is_xz (x ! i)")
    case True
    then show ?thesis unfolding i(2) using get by simp
  next
    case False
    have "drop i x = x ! i # drop (Suc i) x" using i(1) len by (simp add: Cons_nth_drop_Suc)
    then have "\<not> defined (drop (Suc i) x)" using Suc.prems(2) False by (auto simp: defined_def)
    moreover have "m = n - Suc i" using Suc.hyps(2) by simp
    ultimately obtain vv' where
      "index_loop thr base [Suc i..<n] (v OR push_bit i (of_bool (x ! i = BIT4_1))) (x ! i) = Inr (0, vv', True)"
      using Suc.hyps(1) [of "Suc i"] i(1) by fastforce
    then show ?thesis unfolding i(2) using get False i(1) assms(3) by simp
  qed
qed

text \<open>Sign extension to the width of the register.\<close>

definition extended :: "bit4 list \<Rightarrow> bit4 list" where
  "extended x = x @ replicate (64 - length x) (last x)"

lemma fold_pad_bits:
  "bit (fold (\<lambda>i v. v OR push_bit i (of_bool c)) [n..<m] v) j \<longleftrightarrow> bit v j \<or> c \<and> n \<le> j \<and> j < m \<and> j < 64" for v :: word64
  by (induction m) (auto simp: bit_simps less_Suc_eq)

lemma fold_extended:
  assumes "x \<noteq> []" "length x \<le> 64"
  shows "fold (\<lambda>i v. v OR push_bit i (of_bool (last x = BIT4_1))) [length x..<64] (word_of_bits x) = word_of_bits (extended x)"
  by (rule bit_word_eqI) (use assms in \<open>auto simp: fold_pad_bits bit_word_of_bits extended_def nth_append\<close>)

lemma uint_word_of_bits: "length bs \<le> 64 \<Longrightarrow> uint (word_of_bits bs) = value_of bs"
proof -
  assume "length bs \<le> 64"
  then have "(2 :: int) ^ length bs \<le> 2 ^ 64" by (intro power_increasing) simp_all
  then have "value_of bs < 2 ^ 64" using value_of_bounds(2) [of bs] by linarith
  then show ?thesis using value_of_bounds(1) [of bs]
    by (simp add: word_of_bits_def uint_word_of_int take_bit_eq_mod)
qed

lemma value_of_append: "value_of (xs @ ys) = value_of xs + 2 ^ length xs * value_of ys"
  by (induction xs) (simp_all add: algebra_simps)

definition signed_value :: "bit4 list \<Rightarrow> int" where
  "signed_value bs = value_of bs - (if last bs = BIT4_1 then 2 ^ length bs else 0)"

lemma value_of_last:
  assumes "x \<noteq> []"
  shows "last x = BIT4_1 \<Longrightarrow> 2 ^ (length x - 1) \<le> value_of x" "last x \<noteq> BIT4_1 \<Longrightarrow> value_of x < 2 ^ (length x - 1)"
proof -
  have "value_of x = value_of (butlast x) + 2 ^ (length x - 1) * of_bool (last x = BIT4_1)"
    using value_of_append [of "butlast x" "[last x]"] assms by simp
  moreover have "0 \<le> value_of (butlast x)" "value_of (butlast x) < 2 ^ (length x - 1)"
    using value_of_bounds [of "butlast x"] by simp_all
  ultimately show "last x = BIT4_1 \<Longrightarrow> 2 ^ (length x - 1) \<le> value_of x" "last x \<noteq> BIT4_1 \<Longrightarrow> value_of x < 2 ^ (length x - 1)"
    by simp_all
qed

lemma to_int64_id: "- (2 ^ 63) \<le> x \<Longrightarrow> x < 2 ^ 63 \<Longrightarrow> to_int64 x = x"
  by (simp add: to_int64_def)

lemma to_int64_wrap: "to_int64 (x + 2 ^ 64) = to_int64 x"
  unfolding to_int64_def using mod_add_self2 [of "x + 2 ^ 63" "2 ^ 64"] by (simp add: algebra_simps)

lemma signed_register:
  assumes "x \<noteq> []" "length x \<le> 64" "defined x"
  shows "to_int64 (uint (word_of_bits (extended x))) = signed_value x"
proof -
  have len: "length (extended x) = 64" using assms(2) by (simp add: extended_def)
  have pow: "(2 :: int) ^ length x = 2 * 2 ^ (length x - 1)" using assms(1) by (cases x) simp_all
  have small: "(2 :: int) ^ (length x - 1) \<le> 2 ^ 63" using assms(2) by (intro power_increasing) simp_all
  have bounds: "0 \<le> value_of x" "value_of x < 2 ^ length x" using value_of_bounds by auto
  have e: "value_of (extended x) = value_of x + 2 ^ length x * value_of (replicate (64 - length x) (last x))"
    by (simp add: extended_def value_of_append)
  have zero: "value_of (replicate k b) = 0" if "b \<noteq> BIT4_1" for k b using that by (induction k) simp_all
  show ?thesis
  proof (cases "last x = BIT4_1")
    case True
    have "2 ^ length x * (2 ^ (64 - length x) - 1) = (2 ^ 64 - 2 ^ length x :: int)"
      using assms(2) by (simp add: right_diff_distrib power_add [symmetric])
    then have "value_of (extended x) = (value_of x - 2 ^ length x) + 2 ^ 64"
      unfolding e using True by (simp add: value_of_ones)
    moreover have "to_int64 (value_of x - 2 ^ length x) = value_of x - 2 ^ length x"
      using value_of_last(1) [OF assms(1) True] bounds small pow by (intro to_int64_id) linarith+
    ultimately have "to_int64 (value_of (extended x)) = value_of x - 2 ^ length x" by (simp only: to_int64_wrap)
    then show ?thesis using True len by (simp add: uint_word_of_bits signed_value_def)
  next
    case False
    then have "to_int64 (value_of x) = value_of x"
      using value_of_last(2) [OF assms(1) False] bounds small by (intro to_int64_id) linarith+
    then show ?thesis using False len e zero by (simp add: uint_word_of_bits signed_value_def)
  qed
qed

lemma index_result:
  assumes "thread_ok thr" "operand_ok thr base n" "0 < n" "n \<le> 64" "x = operand thr base n"
  shows "\<exists>v. vector_ok v \<and> bits4 v = (bits4 (thr_bits thr))[4 := if defined x then BIT4_0 else BIT4_1] \<and>
    vector_to_index thr base n sg =
      Inr (thr\<lparr>thr_bits := v\<rparr>, if \<not> defined x then 0 else if sg then word_of_bits (extended x) else word_of_bits x)"
proof -
  let ?b = "if defined x then BIT4_0 else BIT4_1"
  obtain v where v: "thr_put_bit thr 4 ?b = Inr (thr\<lparr>thr_bits := v\<rparr>)" "vector_ok v"
    "bits4 v = (bits4 (thr_bits thr))[4 := ?b]"
    using writes_one [of thr 4 ?b] assms(1) by (auto simp: thread_ok_def)
  have "length x = n" using assms(2,5) by simp
  then have len: "length x = n" "x \<noteq> []" using assms(3) by auto
  show ?thesis
  proof (cases "defined x")
    case True
    have "index_loop thr base [0..<n] 0 BIT4_0 = Inr (word_of_bits x, last x, False)"
      using index_loop_defined [OF assms(1,2,4,5) True, of 0 BIT4_0] assms(3) by simp
    then show ?thesis using True v fold_extended [OF len(2)] len(1) assms(4)
      by (intro exI [of _ v]) (simp add: vector_to_index_def)
  next
    case False
    then obtain vv where "index_loop thr base [0..<n] 0 BIT4_0 = Inr (0, vv, True)"
      using index_loop_undefined [OF assms(1,2,4,5), of 0 0 BIT4_0] by auto
    then show ?thesis using False v by (intro exI [of _ v]) (simp add: vector_to_index_def)
  qed
qed

section \<open>Shifts by a vector\<close>

definition amount_of :: "bit4 list \<Rightarrow> int" where
  "amount_of x = (if defined x then signed_value x else 0)"

lemma get_signed_index:
  assumes "thread_ok thr" "operand_ok thr (bit_idx1 cp) (number cp)" "0 < number cp" "number cp \<le> 64" "bit_idx0 cp < 16"
    "x = operand thr (bit_idx1 cp) (number cp)"
  shows "\<exists>v. of_IX_GET_S thr cp = Inr (thr\<lparr>thr_bits := v, thr_words := (thr_words thr)(bit_idx0 cp := amount_of x)\<rparr>) \<and>
    vector_ok v \<and> bits4 v = (bits4 (thr_bits thr))[4 := if defined x then BIT4_0 else BIT4_1]"
proof -
  obtain v where v: "vector_ok v" "bits4 v = (bits4 (thr_bits thr))[4 := if defined x then BIT4_0 else BIT4_1]"
    "vector_to_index thr (bit_idx1 cp) (number cp) True =
      Inr (thr\<lparr>thr_bits := v\<rparr>, if \<not> defined x then 0 else if True then word_of_bits (extended x) else word_of_bits x)"
    using index_result [OF assms(1-4,6)] by blast
  have "length x = number cp" using assms(2,6) by simp
  then have "x \<noteq> []" "length x \<le> 64" using assms(3,4) by auto
  then have "defined x \<Longrightarrow> to_int64 (uint (word_of_bits (extended x))) = amount_of x" "\<not> defined x \<Longrightarrow> amount_of x = to_int64 0"
    using signed_register [of x] by (simp_all add: amount_of_def to_int64_def)
  then show ?thesis using v assms(5) by (intro exI [of _ v]) (simp add: of_IX_GET_S_def put_index_def)
qed

text \<open>
  C39. A shift by an amount in a vector, as two instructions: the first reads the vector of up to 64
  bits as a signed number into index register 0 and notes in bit 4 whether it has an X or Z, the second
  shifts. Left shift and right shift by a negative amount shift the other way and fill with X, otherwise
  with 0; the signed right shift takes the amount as an unsigned number of 64 bits and fills with copies
  of the last bit. All three give X in every bit if the amount has an X or Z. The thread stays well
  formed in between. Two amounts are left out: the least integer of 64 bits for the left shift, whose
  negation overflows, and minus the width of the vector for the right shift, see
  \<open>shift_right_by_negative_width\<close>. The shifted vector lies after bit 4.
\<close>

theorem shift_by_vector:
  assumes "thread_ok thr" "operand_ok thr (bit_idx1 get) (number get)" "0 < number get" "number get \<le> 64" "bit_idx0 get = 0"
    "4 < bit_idx0 cp" "bit_idx0 cp + number cp \<le> size4 (thr_bits thr)" "0 < number cp"
    "amount = operand thr (bit_idx1 get) (number get)" "x = operand thr (bit_idx0 cp) (number cp)"
  shows "\<exists>thr'. of_IX_GET_S thr get = Inr thr' \<and> thread_ok thr' \<and>
    bits4 (thr_bits thr') = (bits4 (thr_bits thr))[4 := if defined amount then BIT4_0 else BIT4_1] \<and>
    (if defined amount
     then (signed_value amount \<noteq> - (2 ^ 63) \<longrightarrow>
         writes thr' (bit_idx0 cp) (shift_left_result (signed_value amount) x) (of_SHIFTL_I0 thr' cp)) \<and>
       (signed_value amount \<noteq> - int (number cp) \<longrightarrow>
         writes thr' (bit_idx0 cp) (shift_right_result (signed_value amount) x) (of_SHIFTR_I0 thr' cp)) \<and>
       writes thr' (bit_idx0 cp) (shifted_down (nat (signed_value amount mod 2 ^ 64)) (last x) x) (of_SHIFTR_S_I0 thr' cp)
     else writes thr' (bit_idx0 cp) (replicate (number cp) BIT4_X) (of_SHIFTL_I0 thr' cp) \<and>
       writes thr' (bit_idx0 cp) (replicate (number cp) BIT4_X) (of_SHIFTR_I0 thr' cp) \<and>
       writes thr' (bit_idx0 cp) (replicate (number cp) BIT4_X) (of_SHIFTR_S_I0 thr' cp))"
proof -
  have "bit_idx0 get < 16" using assms(5) by simp
  then obtain v where v: "of_IX_GET_S thr get = Inr (thr\<lparr>thr_bits := v, thr_words := (thr_words thr)(0 := amount_of amount)\<rparr>)"
    "vector_ok v" "bits4 v = (bits4 (thr_bits thr))[4 := if defined amount then BIT4_0 else BIT4_1]"
    using get_signed_index [OF assms(1-4) _ assms(9)] assms(5) by auto
  define thr' where "thr' = thr\<lparr>thr_bits := v, thr_words := (thr_words thr)(0 := amount_of amount)\<rparr>"
  have size: "size4 v = size4 (thr_bits thr)" using arg_cong [OF v(3), of length] by simp
  have ok: "thread_ok thr'" using assms(1) v(2,3) size by (simp add: thread_ok_def thr'_def)
  have four: "bits4 (thr_bits thr') ! 4 = (if defined amount then BIT4_0 else BIT4_1)"
    using v(3) assms(1) by (simp add: thr'_def thread_ok_def del: nth_bits4)
  have same: "operand thr' (bit_idx0 cp) (number cp) = x"
    using assms(6,10) v(3) by (simp add: operand_def thr'_def drop_update_cancel)
  have range: "bit_idx0 cp + number cp \<le> size4 (thr_bits thr')" "4 \<le> bit_idx0 cp" using assms(6,7) size by (simp_all add: thr'_def)
  note s = shift_instructions_exact [OF ok range(2,1) assms(8) same [symmetric] refl]
  have w: "thr_words thr' 0 = amount_of amount" "thr_bits thr' = v" "of_IX_GET_S thr get = Inr thr'"
    using v(1) by (simp_all add: thr'_def)
  show ?thesis
  proof (cases "defined amount")
    case True
    then show ?thesis using s four ok v(3) w by (intro exI [of _ thr']) (simp add: amount_of_def)
  next
    case False
    then show ?thesis using s four ok v(3) w by (intro exI [of _ thr']) simp
  qed
qed

theorem shift_by_vector_witness:
  "\<exists>thr'. of_IX_GET_S example_thread (blank_code\<lparr>bit_idx1 := 14, number := 2\<rparr>) = Inr thr' \<and>
    writes thr' 8 [BIT4_1, BIT4_0, BIT4_1, BIT4_0] (of_SHIFTL_I0 thr' example_code)"
proof -
  let ?get = "blank_code\<lparr>bit_idx1 := 14, number := 2\<rparr>"
  have g: "operand_ok example_thread (bit_idx1 ?get) (number ?get)" "number ?get \<le> 64" "bit_idx0 ?get = 0"
    "[BIT4_0, BIT4_0] = operand example_thread (bit_idx1 ?get) (number ?get)"
    "shift_left_result (signed_value [BIT4_0, BIT4_0]) [BIT4_1, BIT4_0, BIT4_1, BIT4_0] = [BIT4_1, BIT4_0, BIT4_1, BIT4_0]"
    "defined [BIT4_0, BIT4_0]" "signed_value [BIT4_0, BIT4_0] = 0" by code_simp+
  show ?thesis
    using shift_by_vector [OF example_ok g(1) _ g(2,3) _ example_operands(5) _ g(4) example_operands(1) [symmetric]] g(5-7)
    by (auto simp add: example_operands(6-8) blank_code_def)
qed

end
