(* ===== verification/VThreadCompare.thy ===== *)
theory VThreadCompare
  imports VThreadIndex
begin

text \<open>
  What the comparison instructions of threads leave in the three flags: logical equality, less than
  and case equality of the operands.
\<close>

section \<open>Flags\<close>

lemma put_flags_writes:
  assumes "thread_ok thr"
  shows "writes thr 4 [a, b, c] (put_flags thr [(4, a), (5, b), (6, c)])"
proof -
  let ?bs = "bits4 (thr_bits thr)"
  have s: "8 \<le> size4 (thr_bits thr)" and ok: "vector_ok (thr_bits thr)" using assms by (simp_all add: thread_ok_def)
  obtain v1 where v1: "thr_put_bit thr 4 a = Inr (thr\<lparr>thr_bits := v1\<rparr>)" "vector_ok v1" "size4 v1 = size4 (thr_bits thr)" "bits4 v1 = ?bs[4 := a]"
    using writes_one [OF ok, of 4 a] s by auto
  obtain v2 where v2: "thr_put_bit (thr\<lparr>thr_bits := v1\<rparr>) 5 b = Inr (thr\<lparr>thr_bits := v2\<rparr>)" "vector_ok v2" "size4 v2 = size4 v1" "bits4 v2 = (bits4 v1)[5 := b]"
    using writes_one [of "thr\<lparr>thr_bits := v1\<rparr>" 5 b] v1 s by auto
  obtain v3 where v3: "thr_put_bit (thr\<lparr>thr_bits := v2\<rparr>) 6 c = Inr (thr\<lparr>thr_bits := v3\<rparr>)" "vector_ok v3" "size4 v3 = size4 v2" "bits4 v3 = (bits4 v2)[6 := c]"
    using writes_one [of "thr\<lparr>thr_bits := v2\<rparr>" 6 c] v2 v1(3) s by auto
  have "bits4 v3 = take 4 ?bs @ [a, b, c] @ drop 7 ?bs"
    unfolding v3(4) v2(4) v1(4) using s
    by (intro nth_equalityI) (auto simp: nth_list_update nth_append nth_Cons' simp del: nth_bits4)
  then show ?thesis using v1 v2 v3 by (simp add: writes_def put_flags_def) blast
qed

lemma operand_bits:
  assumes "thread_ok thr" "operand_ok thr a n" "i < n"
  shows "thr_get_bit thr (operand_bit a i) = Inr (operand thr a n ! i)"
  using operand_nth [OF assms] by (simp only: get_bit_in_range)

section \<open>Loops over pairs of bits\<close>

definition flag :: "bool \<Rightarrow> bit4" where
  "flag c = (if c then BIT4_1 else BIT4_0)"

lemma flag_simps [simp]: "flag True = BIT4_1" "flag False = BIT4_0"
  by (simp_all add: flag_def)

lemma zip_drop_nth: "i < length x \<Longrightarrow> i < length y \<Longrightarrow> zip (drop i x) (drop i y) = (x ! i, y ! i) # zip (drop (Suc i) x) (drop (Suc i) y)"
  by (simp add: Cons_nth_drop_Suc [symmetric])

definition conflict :: "bit4 \<times> bit4 \<Rightarrow> bool" where
  "conflict p \<longleftrightarrow> p = (BIT4_0, BIT4_1) \<or> p = (BIT4_1, BIT4_0)"

lemma compare_hard_result:
  assumes "thread_ok thr" "operand_ok thr a n" "operand_ok thr b n"
    "ps = zip (operand thr a n) (operand thr b n)"
  shows "i \<le> n \<Longrightarrow> eq = BIT4_1 \<or> eq = BIT4_X \<Longrightarrow>
    compare_hard thr a b [i..<n] eq same =
      Inr (if \<exists>p\<in>set (drop i ps). conflict p then BIT4_0
           else if \<exists>p\<in>set (drop i ps). bit4_is_xz (fst p) \<or> bit4_is_xz (snd p) then BIT4_X else eq,
         if \<exists>p\<in>set (drop i ps). fst p \<noteq> snd p then BIT4_0 else same)"
proof (induction "n - i" arbitrary: i eq same)
  case 0
  then show ?case using assms by simp
next
  case (Suc m)
  then have i: "i < n" "[i..<n] = i # [Suc i..<n]" by (simp_all add: upt_conv_Cons)
  have len: "length ps = n" using assms by simp
  define l r where lr: "l = operand thr a n ! i" "r = operand thr b n ! i"
  have d: "drop i ps = (l, r) # drop (Suc i) ps"
    using i(1) assms len by (simp add: Cons_nth_drop_Suc [symmetric] lr)
  have get: "thr_get_bit thr (operand_bit a i) = Inr l" "thr_get_bit thr (operand_bit b i) = Inr r"
    unfolding lr by (rule operand_bits [OF assms(1) _ i(1)], fact)+
  define eq' where "eq' = (if bit4_is_xz l \<or> bit4_is_xz r then BIT4_X else eq)"
  have c: "conflict (l, r) \<longleftrightarrow> l = BIT4_0 \<and> r = BIT4_1 \<or> l = BIT4_1 \<and> r = BIT4_0" by (simp add: conflict_def)
  show ?case
  proof (cases "conflict (l, r)")
    case True
    then show ?thesis unfolding i(2) d using get c Suc.prems(2) by (auto simp: Let_def)
  next
    case False
    have eq': "eq' = BIT4_1 \<or> eq' = BIT4_X" using Suc.prems(2) by (auto simp: eq'_def)
    have "compare_hard thr a b (i # [Suc i..<n]) eq same =
        compare_hard thr a b [Suc i..<n] eq' (if l \<noteq> r then BIT4_0 else same)"
      using get False Suc.prems(2) unfolding c by (auto simp: Let_def eq'_def)
    moreover note Suc.hyps(1) [of "Suc i", OF _ _ eq', of "if l \<noteq> r then BIT4_0 else same"]
    ultimately show ?thesis unfolding i(2) d using Suc.hyps(2) i(1) False by (auto simp: eq'_def)
  qed
qed

lemma num_inject: "length as = length bs \<Longrightarrow> num as = num bs \<longleftrightarrow> as = bs"
proof
  assume len: "length as = length bs" and n: "num as = num bs"
  show "as = bs"
  proof (rule nth_equalityI)
    fix i assume i: "i < length as"
    show "as ! i = bs ! i"
    proof (rule bit_eqI)
      fix j
      have "bit (num as) (64 * i + j) = bit (num bs) (64 * i + j)" using n by simp
      then show "bit (as ! i) j = bit (bs ! i) j"
        using i len by (cases "j < 64") (auto simp: bit_num bit_nth dest: bit_imp_le_length)
    qed
  qed (fact len)
qed simp

lemma higher_decides:
  fixes a b p q M :: int
  assumes "0 \<le> a" "a < M" "0 \<le> b" "b < M" "p \<noteq> q"
  shows "a + M * p < b + M * q \<longleftrightarrow> p < q"
proof (cases "p < q")
  case True
  then have "M * (p + 1) \<le> M * q" using assms by (intro mult_left_mono) auto
  then show ?thesis using True assms unfolding distrib_left by linarith
next
  case False
  then have "M * (q + 1) \<le> M * p" using assms by (intro mult_left_mono) auto
  then show ?thesis using False assms unfolding distrib_left by linarith
qed

lemma compare_arrays_result:
  "length as = length bs \<Longrightarrow> compare_arrays as bs eq lt =
    (if as = bs then eq else BIT4_0, if as = bs then lt else flag (num as < num bs))"
proof (induction as arbitrary: bs eq lt)
  case (Cons a as)
  then obtain b bs' where bs: "bs = b # bs'" "length as = length bs'" by (cases bs) auto
  have r: "0 \<le> uint a" "uint a < 2 ^ 64" "0 \<le> uint b" "uint b < 2 ^ 64" using uint_word64 by simp_all
  show ?case
  proof (cases "as = bs'")
    case True
    then show ?thesis using bs Cons.IH [OF bs(2)] by (auto simp: word_less_def flag_def word_uint_eq_iff)
  next
    case False
    then have "num as \<noteq> num bs'" using num_inject [OF bs(2)] by blast
    then have "uint a + 2 ^ 64 * num as < uint b + 2 ^ 64 * num bs' \<longleftrightarrow> num as < num bs'"
      by (rule higher_decides [OF r])
    then show ?thesis using False bs Cons.IH [OF bs(2)] by auto
  qed
qed simp

lemma value_of_inject: "defined x \<Longrightarrow> defined y \<Longrightarrow> length x = length y \<Longrightarrow> value_of x = value_of y \<longleftrightarrow> x = y"
proof
  assume d: "defined x" "defined y" "length x = length y" and v: "value_of x = value_of y"
  show "x = y"
  proof (rule nth_equalityI)
    fix i assume i: "i < length x"
    have "bit (value_of x) i = bit (value_of y) i" using v by simp
    then have "x ! i = BIT4_1 \<longleftrightarrow> y ! i = BIT4_1" using i d(3) by (simp add: bit_value_of)
    moreover have "\<not> bit4_is_xz (x ! i)" "\<not> bit4_is_xz (y ! i)" using d i by (auto simp: defined_def)
    ultimately show "x ! i = y ! i" by (auto simp: xz_iff)
  qed (fact d(3))
qed simp

section \<open>Unsigned comparison\<close>

lemma hard_way_writes:
  assumes "thread_ok thr" "operand_ok thr (bit_idx0 cp) (number cp)" "operand_ok thr (bit_idx1 cp) (number cp)"
    "x = operand thr (bit_idx0 cp) (number cp)" "y = operand thr (bit_idx1 cp) (number cp)" "\<not> (defined x \<and> defined y)"
  shows "writes thr 4 [if \<exists>p\<in>set (zip x y). conflict p then BIT4_0 else BIT4_X, BIT4_X, flag (x = y)] (of_CMPU_the_hard_way thr cp)"
proof -
  have len: "length x = number cp" "length y = number cp" using assms by simp_all
  have "\<exists>p\<in>set (zip x y). bit4_is_xz (fst p) \<or> bit4_is_xz (snd p)"
  proof -
    obtain i where "i < number cp" "bit4_is_xz (x ! i) \<or> bit4_is_xz (y ! i)"
      using assms(6) len by (auto simp: defined_def all_set_conv_all_nth)
    then show ?thesis using len by (intro bexI [of _ "(x ! i, y ! i)"]) (auto simp: set_zip)
  qed
  moreover have "(\<exists>p\<in>set (zip x y). fst p \<noteq> snd p) \<longleftrightarrow> x \<noteq> y"
    using len by (auto simp: set_zip list_eq_iff_nth_eq)
  ultimately have "compare_hard thr (bit_idx0 cp) (bit_idx1 cp) [0..<number cp] BIT4_1 BIT4_1 =
      Inr (if \<exists>p\<in>set (zip x y). conflict p then BIT4_0 else BIT4_X, flag (x = y))"
    using compare_hard_result [OF assms(1-3) refl, of 0 BIT4_1 BIT4_1] by (auto simp: assms(4,5))
  then show ?thesis using put_flags_writes [OF assms(1)] by (simp add: of_CMPU_the_hard_way_def)
qed

lemma of_CMPU_writes:
  assumes "thread_ok thr" "operand_ok thr (bit_idx0 cp) (number cp)" "operand_ok thr (bit_idx1 cp) (number cp)"
    "0 < number cp" "x = operand thr (bit_idx0 cp) (number cp)" "y = operand thr (bit_idx1 cp) (number cp)"
  shows "writes thr 4
    (if defined x \<and> defined y then [flag (value_of x = value_of y), flag (value_of x < value_of y), flag (x = y)]
     else [if \<exists>p\<in>set (zip x y). conflict p then BIT4_0 else BIT4_X, BIT4_X, flag (x = y)])
    (of_CMPU thr cp)"
proof -
  note a = vector_to_array_value [OF thread_facts(1) [OF assms(1)] assms(2,4), folded assms(5)]
    and b = vector_to_array_value [OF thread_facts(1) [OF assms(1)] assms(3,4), folded assms(6)]
  have len: "length x = length y" using assms by simp
  show ?thesis
  proof (cases "defined x \<and> defined y")
    case True
    then obtain va vb where v: "vector_to_array thr (bit_idx0 cp) (number cp) = Inr (Some va)"
      "vector_to_array thr (bit_idx1 cp) (number cp) = Inr (Some vb)"
      "length va = length vb" "num va = value_of x" "num vb = value_of y" using a b by auto
    have "va = vb \<longleftrightarrow> x = y"
      using value_of_inject [of x y] v(4,5) True len num_inject [OF v(3)] by auto
    then have "of_CMPU thr cp = put_flags thr [(4, flag (value_of x = value_of y)), (5, flag (value_of x < value_of y)), (6, flag (x = y))]"
      using v compare_arrays_result [OF v(3), of BIT4_1 BIT4_0] value_of_inject [of x y] True len
      by (simp add: of_CMPU_def)
    then show ?thesis using True put_flags_writes [OF assms(1)] by simp
  next
    case False
    then have "of_CMPU thr cp = of_CMPU_the_hard_way thr cp"
      using a b by (auto simp: of_CMPU_def split: if_splits)
    then show ?thesis using False hard_way_writes [OF assms(1-3,5,6)] by auto
  qed
qed

text \<open>
  C30. The unsigned comparison sets three flags: equality and order of the two values and identity of all
  bits. With an X or Z in an operand the order is unknown, and equality is 0 if two defined bits differ
  and X otherwise.
\<close>

theorem unsigned_comparison_exact:
  assumes "thread_ok thr" "operand_ok thr (bit_idx0 cp) (number cp)" "operand_ok thr (bit_idx1 cp) (number cp)"
    "0 < number cp" "x = operand thr (bit_idx0 cp) (number cp)" "y = operand thr (bit_idx1 cp) (number cp)"
  shows "writes thr 4
    (if defined x \<and> defined y then [flag (value_of x = value_of y), flag (value_of x < value_of y), flag (x = y)]
     else [if \<exists>p\<in>set (zip x y). conflict p then BIT4_0 else BIT4_X, BIT4_X, flag (x = y)])
    (of_CMPU thr cp)"
  using of_CMPU_writes [OF assms] .

theorem unsigned_comparison_exact_witness:
  "writes example_thread 4 [BIT4_0, BIT4_0, BIT4_0] (of_CMPU example_thread example_code)"
proof -
  have "defined [BIT4_1, BIT4_0, BIT4_1, BIT4_0]" "defined [BIT4_1, BIT4_1, BIT4_0, BIT4_0]" by code_simp+
  then show ?thesis
    using unsigned_comparison_exact [OF example_ok example_operands(3,4) _ example_operands(1,2) [symmetric]]
    by (simp add: example_operands(6-8) flag_def)
qed

section \<open>Signed comparison\<close>

lemma compare_signed_result:
  assumes "thread_ok thr" "operand_ok thr a n" "operand_ok thr b n"
  shows "i \<le> n \<Longrightarrow> compare_signed thr a b [i..<n] s =
    Inr (fold (\<lambda>(l, r). cmps_bit l r) (zip (drop i (operand thr a n)) (drop i (operand thr b n))) s)"
proof (induction "n - i" arbitrary: i s)
  case 0
  then show ?case using assms by simp
next
  case (Suc m)
  then have i: "i < n" "[i..<n] = i # [Suc i..<n]" by (simp_all add: upt_conv_Cons)
  have "zip (drop i (operand thr a n)) (drop i (operand thr b n)) =
      (operand thr a n ! i, operand thr b n ! i) # zip (drop (Suc i) (operand thr a n)) (drop (Suc i) (operand thr b n))"
    using i(1) assms by (intro zip_drop_nth) simp_all
  then show ?case
    unfolding i(2) using operand_bits [OF assms(1,2) i(1)] operand_bits [OF assms(1,3) i(1)] Suc.hyps(1) [of "Suc i"] Suc.hyps(2) i(1)
    by simp
qed

lemma cmps_step_defined:
  "\<not> bit4_is_xz l \<Longrightarrow> \<not> bit4_is_xz r \<Longrightarrow> eq \<noteq> BIT4_X \<Longrightarrow>
    cmps_bit l r (eq, same, lt) =
      (if l = r then eq else BIT4_0, if l = r then same else BIT4_0,
       if l = r then lt else flag (of_bool (l = BIT4_1) < (of_bool (r = BIT4_1) :: int)))"
  by (cases l; cases r) (simp_all add: cmps_bit_def)

lemma value_of_less_Cons:
  assumes "defined (l # ls)" "defined (r # rs)" "length ls = length rs"
  shows "value_of (l # ls) < value_of (r # rs) \<longleftrightarrow>
    (if ls = rs then of_bool (l = BIT4_1) < (of_bool (r = BIT4_1) :: int) else value_of ls < value_of rs)"
proof (cases "ls = rs")
  case False
  then have "value_of ls \<noteq> value_of rs" using value_of_inject [of ls rs] assms by (auto simp: defined_def)
  then show ?thesis using False higher_decides [of "of_bool (l = BIT4_1)" 2 "of_bool (r = BIT4_1)" "value_of ls" "value_of rs"]
    by simp
qed simp

lemma cmps_fold_defined:
  "length x = length y \<Longrightarrow> defined x \<Longrightarrow> defined y \<Longrightarrow> eq \<noteq> BIT4_X \<Longrightarrow>
    fold (\<lambda>(l, r). cmps_bit l r) (zip x y) (eq, same, lt) =
      (if x = y then eq else BIT4_0, if x = y then same else BIT4_0, if x = y then lt else flag (value_of x < value_of y))"
proof (induction x y arbitrary: eq same lt rule: list_induct2)
  case (Cons l ls r rs)
  have d: "\<not> bit4_is_xz l" "\<not> bit4_is_xz r" "defined ls" "defined rs" using Cons.prems by (auto simp: defined_def)
  have "fold (\<lambda>(l, r). cmps_bit l r) (zip (l # ls) (r # rs)) (eq, same, lt) =
      fold (\<lambda>(l, r). cmps_bit l r) (zip ls rs)
        (if l = r then eq else BIT4_0, if l = r then same else BIT4_0,
         if l = r then lt else flag (of_bool (l = BIT4_1) < (of_bool (r = BIT4_1) :: int)))"
    using cmps_step_defined [OF d(1,2) Cons.prems(3)] by simp
  also have "\<dots> = (if ls = rs then if l = r then eq else BIT4_0 else BIT4_0,
      if ls = rs then if l = r then same else BIT4_0 else BIT4_0,
      if ls = rs then if l = r then lt else flag (of_bool (l = BIT4_1) < (of_bool (r = BIT4_1) :: int))
      else flag (value_of ls < value_of rs))"
    using Cons.prems(3) by (intro Cons.IH d(3,4)) simp
  finally show ?case unfolding value_of_less_Cons [OF Cons.prems(1,2) Cons.hyps] by auto
qed simp

lemma cmps_step_unknown:
  "cmps_bit l r (eq, same, lt) = (eq', same', lt') \<Longrightarrow>
    (bit4_is_xz l \<or> bit4_is_xz r \<or> eq = BIT4_X \<longrightarrow> eq' = BIT4_X) \<and> same' = (if l = r then same else BIT4_0)"
  by (cases l; cases r) (auto simp: cmps_bit_def split: if_splits)

lemma cmps_fold_unknown:
  "length x = length y \<Longrightarrow> eq = BIT4_X \<or> \<not> (defined x \<and> defined y) \<Longrightarrow>
    \<exists>lt'. fold (\<lambda>(l, r). cmps_bit l r) (zip x y) (eq, same, lt) = (BIT4_X, if x = y then same else BIT4_0, lt')"
proof (induction x y arbitrary: eq same lt rule: list_induct2)
  case (Cons l ls r rs)
  obtain eq' same' lt' where s: "cmps_bit l r (eq, same, lt) = (eq', same', lt')" by (metis prod_cases3)
  note st = cmps_step_unknown [OF s]
  have "eq' = BIT4_X \<or> \<not> (defined ls \<and> defined rs)" using Cons.prems st by (auto simp: defined_def)
  from Cons.IH [OF this, of same' lt'] show ?case using st s by auto
qed (auto simp: defined_def)

lemma operand_last:
  assumes "thread_ok thr" "operand_ok thr a n" "0 < n"
  shows "thr_get_bit thr (if a < 4 then a else a + n - 1) = Inr (last (operand thr a n))"
    "(if a < 4 then a else a + n - 1) < size4 (thr_bits thr)"
proof -
  have e: "operand_bit a (n - 1) = (if a < 4 then a else a + n - 1)" using assms(3) by (simp add: operand_bit_def)
  have "length (operand thr a n) = n" using assms(2) by simp
  then have "last (operand thr a n) = operand thr a n ! (n - 1)" using assms(3) by (subst last_conv_nth) auto
  then show "thr_get_bit thr (if a < 4 then a else a + n - 1) = Inr (last (operand thr a n))"
    using operand_bits [OF assms(1,2), of "n - 1"] assms(3) unfolding e by simp
  show "(if a < 4 then a else a + n - 1) < size4 (thr_bits thr)"
    using operand_nth(2) [OF assms(1,2), of "n - 1"] assms(3) unfolding e by simp
qed

lemma signed_lt_value:
  assumes "defined x" "defined y" "length x = length y" "0 < length x"
  shows "signed_lt (flag (x = y)) (last x) (last y) (if x = y then BIT4_0 else flag (value_of x < value_of y)) =
    flag (signed_value x < signed_value y)"
proof -
  have "x \<noteq> []" "y \<noteq> []" using assms(3,4) by auto
  then have "\<not> bit4_is_xz (last x)" "\<not> bit4_is_xz (last y)"
    using assms(1,2) last_in_set unfolding defined_def by blast+
  then have "last x = BIT4_0 \<or> last x = BIT4_1" "last y = BIT4_0 \<or> last y = BIT4_1" by (auto simp: xz_iff)
  moreover have "value_of x < 2 ^ length x" "value_of y < 2 ^ length x" "0 \<le> value_of x" "0 \<le> value_of y"
    using value_of_bounds [of x] value_of_bounds [of y] assms(3) by simp_all
  ultimately show ?thesis
    using assms(3) by (auto simp: signed_lt_def signed_value_def flag_def Let_def)
qed

lemma of_CMPS_writes:
  assumes "thread_ok thr" "operand_ok thr (bit_idx0 cp) (number cp)" "operand_ok thr (bit_idx1 cp) (number cp)"
    "0 < number cp" "x = operand thr (bit_idx0 cp) (number cp)" "y = operand thr (bit_idx1 cp) (number cp)"
  shows "writes thr 4
    (if defined x \<and> defined y then [flag (value_of x = value_of y), flag (signed_value x < signed_value y), flag (x = y)]
     else [BIT4_X, BIT4_X, flag (x = y)])
    (of_CMPS thr cp)"
proof -
  let ?n = "number cp"
  note l0 = operand_last [OF assms(1,2,4), folded assms(5)] and l1 = operand_last [OF assms(1,3,4), folded assms(6)]
  have len: "length x = length y" "0 < length x" using assms by simp_all
  obtain eq same lt where f: "fold (\<lambda>(l, r). cmps_bit l r) (zip x y) (BIT4_1, BIT4_1, BIT4_0) = (eq, same, lt)"
    by (metis prod_cases3)
  have loop: "compare_signed thr (bit_idx0 cp) (bit_idx1 cp) [0..<?n] (BIT4_1, BIT4_1, BIT4_0) = Inr (eq, same, lt)"
    using compare_signed_result [OF assms(1-3), of 0 "(BIT4_1, BIT4_1, BIT4_0)"] f by (simp add: assms(5,6))
  have check: "thr_check_addr thr
      (if (if bit_idx1 cp < 4 then bit_idx1 cp else bit_idx1 cp + ?n - 1) < (if bit_idx0 cp < 4 then bit_idx0 cp else bit_idx0 cp + ?n - 1)
       then (if bit_idx0 cp < 4 then bit_idx0 cp else bit_idx0 cp + ?n - 1)
       else (if bit_idx1 cp < 4 then bit_idx1 cp else bit_idx1 cp + ?n - 1)) = thr"
    by (rule check_addr_id) (use l0(2) l1(2) in \<open>simp split: if_splits\<close>)
  have op: "of_CMPS thr cp = put_flags thr [(4, eq), (5, signed_lt eq (last x) (last y) lt), (6, same)]"
    unfolding of_CMPS_def Let_def check
    by (simp only: l0(1) l1(1) loop bind_result_simps prod.case)
  show ?thesis
  proof (cases "defined x \<and> defined y")
    case True
    then have "eq = flag (x = y)" "same = flag (x = y)" "lt = (if x = y then BIT4_0 else flag (value_of x < value_of y))"
      using cmps_fold_defined [OF len(1), of BIT4_1 BIT4_1 BIT4_0] f by auto
    then show ?thesis
      using True op signed_lt_value [of x y] len value_of_inject [of x y] put_flags_writes [OF assms(1)] by simp
  next
    case False
    then have "eq = BIT4_X" "same = flag (x = y)"
      using cmps_fold_unknown [OF len(1), of BIT4_1 BIT4_1 BIT4_0] f by auto
    then show ?thesis
      using False op put_flags_writes [OF assms(1)] by (auto simp: signed_lt_def)
  qed
qed

text \<open>
  C33. The signed comparison \<open>%cmp/s\<close> beside the unsigned one. Both set the same flag for identity of
  all bits. On defined operands both give equality of the values, and they differ in the order only,
  which is that of two's complement or that of the unsigned values, as \<open>opcodes.txt\<close> says. With an X
  or Z in an operand the order is unknown for both and equality is X for the signed one. So the flags
  for equality agree exactly if the operands are defined or no two defined bits differ: otherwise the
  unsigned comparison gives 0 and the signed one X, against the document.
\<close>

theorem signed_comparison_exact:
  assumes "thread_ok thr" "operand_ok thr (bit_idx0 cp) (number cp)" "operand_ok thr (bit_idx1 cp) (number cp)"
    "0 < number cp" "x = operand thr (bit_idx0 cp) (number cp)" "y = operand thr (bit_idx1 cp) (number cp)"
  shows "\<exists>eq lt eq_u lt_u. writes thr 4 [eq, lt, flag (x = y)] (of_CMPS thr cp) \<and>
    writes thr 4 [eq_u, lt_u, flag (x = y)] (of_CMPU thr cp) \<and>
    (if defined x \<and> defined y
     then eq = flag (value_of x = value_of y) \<and> eq_u = eq \<and>
       lt = flag (signed_value x < signed_value y) \<and> lt_u = flag (value_of x < value_of y)
     else eq = BIT4_X \<and> eq_u = (if \<exists>p\<in>set (zip x y). conflict p then BIT4_0 else BIT4_X) \<and> lt = BIT4_X \<and> lt_u = BIT4_X) \<and>
    (eq = eq_u \<longleftrightarrow> defined x \<and> defined y \<or> \<not> (\<exists>p\<in>set (zip x y). conflict p))"
  using of_CMPS_writes [OF assms] of_CMPU_writes [OF assms] by (cases "defined x \<and> defined y"; cases "\<exists>p\<in>set (zip x y). conflict p") auto

theorem signed_comparison_exact_witness:
  "writes example_thread 4 [BIT4_0, BIT4_0, BIT4_0] (of_CMPS example_thread example_code) \<and>
   writes example_thread 4 [BIT4_0, BIT4_0, BIT4_0] (of_CMPU example_thread example_code)"
proof -
  let ?x = "[BIT4_1, BIT4_0, BIT4_1, BIT4_0]" and ?y = "[BIT4_1, BIT4_1, BIT4_0, BIT4_0]"
  have d: "defined ?x" "defined ?y" "flag (?x = ?y) = BIT4_0" "flag (value_of ?x = value_of ?y) = BIT4_0"
    "flag (value_of ?x < value_of ?y) = BIT4_0" "flag (signed_value ?x < signed_value ?y) = BIT4_0" by code_simp+
  then show ?thesis
    using signed_comparison_exact [OF example_ok example_operands(3,4) _ example_operands(1,2) [symmetric]]
    unfolding d(3-6) by (auto simp: example_operands(6-8))
qed

end
