(* ===== verification/VRunProps.thy ===== *)
theory VRunProps
  imports VRun VCodeProps VThreadCompare
begin

text \<open>
  Running an assembled program: executing the statements of the program in their order, with jumps to
  labels, is what the loop over the chain of chunks does.
\<close>

section \<open>Computing does not depend on the program counter\<close>

named_theorems pc_simps

definition at_pc :: "code_address \<Rightarrow> vthread result \<Rightarrow> vthread result" where
  "at_pc p r = bind_result r (\<lambda>thr. Inr (thr\<lparr>pc := p\<rparr>))"

lemma at_pc_results [pc_simps]: "at_pc p (Inl e) = Inl e" "at_pc p (Inr thr) = Inr (thr\<lparr>pc := p\<rparr>)"
  by (simp_all add: at_pc_def)

lemma at_pc_after [pc_simps]: "at_pc p (bind_result r f) = bind_result r (\<lambda>x. at_pc p (f x))"
  by (cases r) (simp_all add: at_pc_def)

lemma at_pc_before [pc_simps]: "bind_result (at_pc p r) g = bind_result r (\<lambda>thr. g (thr\<lparr>pc := p\<rparr>))"
  by (cases r) (simp_all add: at_pc_def)

lemmas at_pc_cases [pc_simps] = option.case_distrib [where h = "at_pc p" for p] prod.case_distrib [where h = "at_pc p" for p]

lemma at_pc_if [pc_simps]: "at_pc p (if b then r else r') = (if b then at_pc p r else at_pc p r')"
  by simp

lemma with_bits_pc [pc_simps]: "with_bits (thr\<lparr>pc := p\<rparr>) r = at_pc p (with_bits thr r)"
  by (cases thr; cases r) (simp_all add: with_bits_def pc_simps)

lemma access_pc [pc_simps]:
  "thr_check_addr (thr\<lparr>pc := p\<rparr>) a = (thr_check_addr thr a)\<lparr>pc := p\<rparr>"
  "thr_get_bit (thr\<lparr>pc := p\<rparr>) a = thr_get_bit thr a"
  "vector_to_array (thr\<lparr>pc := p\<rparr>) a n = vector_to_array thr a n"
  "vthread_bits_to_vector (thr\<lparr>pc := p\<rparr>) a n = vthread_bits_to_vector thr a n"
  by (cases thr; simp add: thr_check_addr_def thr_get_bit_def vector_to_array_def vthread_bits_to_vector_def Let_def)+

lemma writes_pc [pc_simps]:
  "thr_put_bit (thr\<lparr>pc := p\<rparr>) a = (\<lambda>b. at_pc p (thr_put_bit thr a b))"
  "thr_set_vec (thr\<lparr>pc := p\<rparr>) a = (\<lambda>v. at_pc p (thr_set_vec thr a v))"
  "thr_setarray (thr\<lparr>pc := p\<rparr>) a n = (\<lambda>ws. at_pc p (thr_setarray thr a n ws))"
  "put_x (thr\<lparr>pc := p\<rparr>) a n = at_pc p (put_x thr a n)"
  by (simp_all add: thr_put_bit_def thr_set_vec_def thr_setarray_def put_x_def Let_def access_pc with_bits_pc fun_eq_iff)

lemma each_pc:
  assumes "\<And>i thr. f i (thr\<lparr>pc := p\<rparr>) = at_pc p (f i thr)"
  shows "each f is (thr\<lparr>pc := p\<rparr>) = at_pc p (each f is thr)"
  by (induction "is" arbitrary: thr) (simp_all add: assms pc_simps)

lemmas pc_cong = option.case_cong prod.case_cong if_cong

lemma arithmetic_pc [pc_simps]:
  "of_ADD (thr\<lparr>pc := p\<rparr>) cp = at_pc p (of_ADD thr cp)"
  "of_SUB (thr\<lparr>pc := p\<rparr>) cp = at_pc p (of_SUB thr cp)"
  "of_MUL (thr\<lparr>pc := p\<rparr>) cp = at_pc p (of_MUL thr cp)"
  "of_ADDI (thr\<lparr>pc := p\<rparr>) cp = at_pc p (of_ADDI thr cp)"
  "of_SUBI (thr\<lparr>pc := p\<rparr>) cp = at_pc p (of_SUBI thr cp)"
  "of_MULI (thr\<lparr>pc := p\<rparr>) cp = at_pc p (of_MULI thr cp)"
  by (simp_all add: of_ADD_def of_SUB_def of_MUL_def of_ADDI_def of_SUBI_def of_MULI_def binary_array_op_def
      immediate_array_op_def Let_def pc_simps cong: pc_cong)

lemma narrow_pc: "narrow_op f (thr\<lparr>pc := p\<rparr>) cp = at_pc p (narrow_op f thr cp)"
  unfolding narrow_op_def by (rule each_pc) (simp add: pc_simps)

lemma wide_pc: "wide_op f (thr\<lparr>pc := p\<rparr>) cp = at_pc p (wide_op f thr cp)"
  by (simp add: wide_op_def pc_simps)

lemma bitwise_pc [pc_simps]:
  "of_AND (thr\<lparr>pc := p\<rparr>) cp = at_pc p (of_AND thr cp)"
  "of_OR (thr\<lparr>pc := p\<rparr>) cp = at_pc p (of_OR thr cp)"
  "of_NAND (thr\<lparr>pc := p\<rparr>) cp = at_pc p (of_NAND thr cp)"
  "of_NOR (thr\<lparr>pc := p\<rparr>) cp = at_pc p (of_NOR thr cp)"
  "of_XOR (thr\<lparr>pc := p\<rparr>) cp = at_pc p (of_XOR thr cp)"
  "of_XNOR (thr\<lparr>pc := p\<rparr>) cp = at_pc p (of_XNOR thr cp)"
  by (simp_all add: of_AND_def of_OR_def of_NAND_def of_NOR_def of_XOR_def of_XNOR_def bitwise_op_def narrow_pc wide_pc pc_simps)

lemma other_bits_pc [pc_simps]:
  "of_INV (thr\<lparr>pc := p\<rparr>) cp = at_pc p (of_INV thr cp)"
  "of_ANDI (thr\<lparr>pc := p\<rparr>) cp = at_pc p (of_ANDI thr cp)"
  "of_BLEND (thr\<lparr>pc := p\<rparr>) cp = at_pc p (of_BLEND thr cp)"
  unfolding of_INV_def of_ANDI_def of_BLEND_def Let_def
  by (simp_all add: pc_simps) (intro impI each_pc; simp add: pc_simps cong: if_cong)+

lemma reduce_bits_pc: "reduce_bits f (thr\<lparr>pc := p\<rparr>) as lb = reduce_bits f thr as lb"
  by (induction "as" arbitrary: lb) (simp_all add: pc_simps cong: prod.case_cong if_cong)

lemma reduction_pc: "reduction start f (thr\<lparr>pc := p\<rparr>) cp = at_pc p (reduction start f thr cp)"
  by (simp add: reduction_def reduce_bits_pc pc_simps)

lemma reductions_pc [pc_simps]:
  "of_ANDR (thr\<lparr>pc := p\<rparr>) cp = at_pc p (of_ANDR thr cp)"
  "of_NANDR (thr\<lparr>pc := p\<rparr>) cp = at_pc p (of_NANDR thr cp)"
  "of_ORR (thr\<lparr>pc := p\<rparr>) cp = at_pc p (of_ORR thr cp)"
  "of_NORR (thr\<lparr>pc := p\<rparr>) cp = at_pc p (of_NORR thr cp)"
  "of_XORR (thr\<lparr>pc := p\<rparr>) cp = at_pc p (of_XORR thr cp)"
  "of_XNORR (thr\<lparr>pc := p\<rparr>) cp = at_pc p (of_XNORR thr cp)"
  by (simp_all add: of_ANDR_def of_NANDR_def of_ORR_def of_NORR_def of_XORR_def of_XNORR_def reduction_pc)

lemma put_flags_pc [pc_simps]: "put_flags (thr\<lparr>pc := p\<rparr>) fs = at_pc p (put_flags thr fs)"
  unfolding put_flags_def by (rule each_pc) (simp add: pc_simps split: prod.split)

lemma compare_loops_pc:
  "compare_hard (thr\<lparr>pc := p\<rparr>) i1 i2 is eq sm = compare_hard thr i1 i2 is eq sm"
  "compare_wild g (thr\<lparr>pc := p\<rparr>) i1 i2 is = compare_wild g thr i1 i2 is"
  "compare_signed (thr\<lparr>pc := p\<rparr>) i1 i2 is st = compare_signed thr i1 i2 is st"
  "compare_signed_imm (thr\<lparr>pc := p\<rparr>) i1 imm is st = compare_signed_imm thr i1 imm is st"
  subgoal by (induction "is" arbitrary: eq sm) (simp_all add: pc_simps Let_def cong: if_cong)
  subgoal by (induction "is") (simp_all add: pc_simps cong: if_cong)
  subgoal by (induction "is" arbitrary: st) (simp_all add: pc_simps)
  subgoal by (induction "is" arbitrary: st imm) (simp_all add: pc_simps)
  done

lemma compare_hard_imm_pc: "compare_hard_imm (thr\<lparr>pc := p\<rparr>) i1 n imm lv k eq = compare_hard_imm thr i1 n imm lv k eq"
  by (induction n arbitrary: imm lv k eq) (simp_all add: pc_simps Let_def cong: if_cong)

lemma comparisons_pc [pc_simps]:
  "of_CMPU (thr\<lparr>pc := p\<rparr>) cp = at_pc p (of_CMPU thr cp)"
  "of_CMPS (thr\<lparr>pc := p\<rparr>) cp = at_pc p (of_CMPS thr cp)"
  "of_CMPX (thr\<lparr>pc := p\<rparr>) cp = at_pc p (of_CMPX thr cp)"
  "of_CMPZ (thr\<lparr>pc := p\<rparr>) cp = at_pc p (of_CMPZ thr cp)"
  "of_CMPIU (thr\<lparr>pc := p\<rparr>) cp = at_pc p (of_CMPIU thr cp)"
  "of_CMPIS (thr\<lparr>pc := p\<rparr>) cp = at_pc p (of_CMPIS thr cp)"
  by (simp_all add: of_CMPU_def of_CMPU_the_hard_way_def of_CMPS_def of_CMPX_def of_CMPZ_def of_CMPIU_def
      of_CMPIU_the_hard_way_def of_CMPIS_def compare_loops_pc compare_hard_imm_pc Let_def pc_simps cong: pc_cong)

lemma movi_loop_pc: "movi_loop dst wid imm (thr\<lparr>pc := p\<rparr>) = at_pc p (movi_loop dst wid imm thr)"
proof (induction dst wid imm thr rule: movi_loop.induct)
  case (1 dst wid imm thr)
  then show ?case
    by (subst (1 2) movi_loop.simps) (simp add: pc_simps Let_def del: movi_loop.simps)
qed

lemma moves_pc [pc_simps]:
  "of_MOV (thr\<lparr>pc := p\<rparr>) cp = at_pc p (of_MOV thr cp)"
  "of_MOVI (thr\<lparr>pc := p\<rparr>) cp = at_pc p (of_MOVI thr cp)"
  by (simp_all add: of_MOV_def of_MOVI_def movi_loop_pc Let_def pc_simps del: movi_loop.simps)

lemma shift_down_pc: "shift_down base wid n fl (thr\<lparr>pc := p\<rparr>) = at_pc p (shift_down base wid n fl thr)"
proof -
  have "each (\<lambda>i thr. bind_result (thr_get_bit thr (base + i + n)) (thr_put_bit thr (base + i))) is (thr\<lparr>pc := p\<rparr>) =
      at_pc p (each (\<lambda>i thr. bind_result (thr_get_bit thr (base + i + n)) (thr_put_bit thr (base + i))) is thr)" for "is" thr
    by (rule each_pc) (simp add: pc_simps)
  moreover have "each (\<lambda>i thr. thr_put_bit thr (base + i) fl) is (thr\<lparr>pc := p\<rparr>) =
      at_pc p (each (\<lambda>i thr. thr_put_bit thr (base + i) fl) is thr)" for "is" thr
    by (rule each_pc) (simp add: pc_simps)
  ultimately show ?thesis by (simp add: shift_down_def pc_simps)
qed

lemma shift_up_pc: "shift_up base wid n fl (thr\<lparr>pc := p\<rparr>) = at_pc p (shift_up base wid n fl thr)"
  by (simp add: shift_up_def pc_simps)

lemma shifts_pc [pc_simps]:
  "of_SHIFTL_I0 (thr\<lparr>pc := p\<rparr>) cp = at_pc p (of_SHIFTL_I0 thr cp)"
  "of_SHIFTR_I0 (thr\<lparr>pc := p\<rparr>) cp = at_pc p (of_SHIFTR_I0 thr cp)"
  "of_SHIFTR_S_I0 (thr\<lparr>pc := p\<rparr>) cp = at_pc p (of_SHIFTR_S_I0 thr cp)"
proof -
  have words: "thr_words (thr_check_addr thr a) = thr_words thr" for thr a by (simp add: thr_check_addr_def)
  have each: "each (\<lambda>i thr. thr_put_bit thr (base + i) b) is (thr\<lparr>pc := p\<rparr>) =
      at_pc p (each (\<lambda>i thr. thr_put_bit thr (base + i) b) is thr)" for "is" thr base b
    by (rule each_pc) (simp add: pc_simps)
  show "of_SHIFTL_I0 (thr\<lparr>pc := p\<rparr>) cp = at_pc p (of_SHIFTL_I0 thr cp)"
    "of_SHIFTR_I0 (thr\<lparr>pc := p\<rparr>) cp = at_pc p (of_SHIFTR_I0 thr cp)"
    "of_SHIFTR_S_I0 (thr\<lparr>pc := p\<rparr>) cp = at_pc p (of_SHIFTR_S_I0 thr cp)"
    by (simp_all add: of_SHIFTL_I0_def of_SHIFTR_I0_def of_SHIFTR_S_I0_def shift_down_pc shift_up_pc each Let_def
        pc_simps cong: if_cong)
qed

lemma put_index_pc [pc_simps]: "put_index (thr\<lparr>pc := p\<rparr>) i x = at_pc p (put_index thr i x)"
  by (cases thr) (simp add: put_index_def pc_simps)

lemma index_loop_pc: "index_loop (thr\<lparr>pc := p\<rparr>) base is v vv = index_loop thr base is v vv"
  by (induction "is" arbitrary: v vv) (simp_all add: pc_simps cong: if_cong)

lemma vector_to_index_pc:
  "vector_to_index (thr\<lparr>pc := p\<rparr>) base n sg = bind_result (vector_to_index thr base n sg) (\<lambda>(thr, v). Inr (thr\<lparr>pc := p\<rparr>, v))"
proof -
  have "bind_result (at_pc p r) (\<lambda>thr. Inr (thr, v)) =
      bind_result (bind_result r (\<lambda>thr. Inr (thr, v))) (\<lambda>(thr, v). Inr (thr\<lparr>pc := p\<rparr>, v))" for r and v :: word64
    by (cases r) (simp_all add: pc_simps)
  then show ?thesis
    by (cases "index_loop thr base [0..<n] 0 BIT4_0")
      (auto simp: vector_to_index_def index_loop_pc writes_pc Let_def split: prod.splits)
qed

lemma index_pc [pc_simps]:
  "of_IX_ADD (thr\<lparr>pc := p\<rparr>) cp = at_pc p (of_IX_ADD thr cp)"
  "of_IX_SUB (thr\<lparr>pc := p\<rparr>) cp = at_pc p (of_IX_SUB thr cp)"
  "of_IX_MUL (thr\<lparr>pc := p\<rparr>) cp = at_pc p (of_IX_MUL thr cp)"
  "of_IX_LOAD (thr\<lparr>pc := p\<rparr>) cp = at_pc p (of_IX_LOAD thr cp)"
  "of_IX_GET (thr\<lparr>pc := p\<rparr>) cp = at_pc p (of_IX_GET thr cp)"
  "of_IX_GET_S (thr\<lparr>pc := p\<rparr>) cp = at_pc p (of_IX_GET_S thr cp)"
  subgoal by (simp add: of_IX_ADD_def pc_simps)
  subgoal by (simp add: of_IX_SUB_def pc_simps)
  subgoal by (simp add: of_IX_MUL_def pc_simps)
  subgoal by (simp add: of_IX_LOAD_def pc_simps)
  subgoal by (cases "vector_to_index thr (bit_idx1 cp) (number cp) False")
      (auto simp: of_IX_GET_def vector_to_index_pc pc_simps)
  subgoal by (cases "vector_to_index thr (bit_idx1 cp) (number cp) True")
      (auto simp: of_IX_GET_S_def vector_to_index_pc pc_simps)
  done

lemma computing_pc: "map_of computing f = Some g \<Longrightarrow> g (thr\<lparr>pc := p\<rparr>) cp = at_pc p (g thr cp)"
  by (drule map_of_SomeD) (auto simp: computing_def pc_simps)

section \<open>Executing the statements of a program\<close>

fun label_index :: "statement list \<Rightarrow> string \<Rightarrow> nat option" where
  "label_index [] l = None"
| "label_index ((label, mnem, opa) # rest) l =
     (if label = Some l then Some 0 else map_option Suc (label_index rest l))"

text \<open>A statement as an instruction, without the address of a label.\<close>

definition source_code :: "statement \<Rightarrow> vvp_code" where
  "source_code s = assembled (\<lambda>l. None) s"

definition jump_target :: "statement list \<Rightarrow> operand list \<Rightarrow> nat result" where
  "jump_target prog opa =
     (case opa of
        L_SYMB l idx # rest \<Rightarrow> (case label_index prog l of None \<Rightarrow> Inl ''null pointer'' | Some j \<Rightarrow> Inr j)
      | _ \<Rightarrow> Inl ''null pointer'')"

text \<open>One statement: the index of the next one, the thread, the world, and how the thread goes on.\<close>

definition source_step ::
    "'s world \<Rightarrow> statement list \<Rightarrow> nat \<Rightarrow> vthread \<Rightarrow> 's \<Rightarrow> (nat \<times> vthread \<times> 's \<times> outcome) result" where
  "source_step w prog i thr s =
     (if length prog \<le> i then Inl ''end of the program''
      else let cp = source_code (prog ! i); opa = snd (snd (prog ! i))
        in case map_of computing (opcode cp) of
             Some f \<Rightarrow> bind_result (f thr cp) (\<lambda>thr. Inr (i + 1, thr, s, Goes_on))
           | None \<Rightarrow>
               (case map_of jumps (opcode cp) of
                  Some values \<Rightarrow>
                    bind_result (jump_taken values thr cp) (\<lambda>taken.
                      bind_result (if taken then jump_target prog opa else Inr (i + 1)) (\<lambda>j.
                        if is_stopped w s then Inr (j, thr, schedule_self w 0 s, Pauses) else Inr (j, thr, s, Goes_on)))
                | None \<Rightarrow>
                    if opcode cp = ''of_DELAY'' then
                      Inr (i + 1, thr, schedule_self w ((push_bit 32 (bit_idx1 cp) + bit_idx0 cp) mod 2 ^ 64) s, Pauses)
                    else if opcode cp = ''of_DELAYX'' then
                      if 4 \<le> number cp then Inl ''assert''
                      else Inr (i + 1, thr, schedule_self w (nat (thr_words thr (number cp) mod 2 ^ 64)) s, Pauses)
                    else bind_result (other_instruction w cp (thr_bits thr) (thr_words thr) s) (\<lambda>(v, ws, s, out).
                      Inr (i + 1, thr\<lparr>thr_bits := v, thr_words := ws\<rparr>, s, out))))"

text \<open>Where the thread stops: before a statement, or nowhere because it has ended.\<close>

fun source_run :: "nat \<Rightarrow> 's world \<Rightarrow> statement list \<Rightarrow> nat \<Rightarrow> vthread \<Rightarrow> 's \<Rightarrow> (nat option \<times> vthread \<times> 's) result option" where
  "source_run 0 w prog i thr s = None"
| "source_run (Suc n) w prog i thr s =
     (case source_step w prog i thr s of
        Inl e \<Rightarrow> Some (Inl e)
      | Inr (j, thr, s, out) \<Rightarrow>
          (case out of
             Goes_on \<Rightarrow> source_run n w prog j thr s
           | Pauses \<Rightarrow> Some (Inr (Some j, thr, s))
           | Ends \<Rightarrow> Some (Inr (None, thr, s))))"

section \<open>Assembled statements\<close>

lemma label_address_index: "label_address k prog l = map_option (\<lambda>i. slot_address (k + i)) (label_index prog l)"
  by (induction prog arbitrary: k) (auto split: option.splits simp: option.map_comp o_def)

lemma jump_table:
  "\<forall>(mnem, f, argc, argt)\<in>set opcode_table.
     if map_of jumps f = None then OA_CODE_PTR \<notin> set argt
     else (argc = 1 \<and> argt = [OA_CODE_PTR, OA_NONE, OA_NONE] \<or> argc = 2 \<and> argt = [OA_CODE_PTR, OA_BIT1, OA_NONE])"
  by code_simp

lemma fill_no_label: "t \<noteq> OA_CODE_PTR \<Longrightarrow> fill F (t, opa) = fill G (t, opa)"
  by (cases t; cases opa) auto

lemma fold_fill_no_label: "OA_CODE_PTR \<notin> set ts \<Longrightarrow> fold (fill F) (zip ts opa) c = fold (fill G) (zip ts opa) c"
proof (induction ts arbitrary: opa c)
  case (Cons t ts)
  then show ?case using fill_no_label [of t F _ G] by (cases opa) auto
qed simp

lemma opcode_fill: "opcode (fill F p c) = opcode c"
  by (induction F p c rule: fill.induct) auto

lemma opcode_fold_fill: "opcode (fold (fill F) ps c) = opcode c"
  by (induction ps arbitrary: c) (simp_all add: opcode_fill)

lemma assembled_source:
  assumes "statement_ok (label, mnem, opa)"
  shows "assembled F (label, mnem, opa) =
    (if map_of jumps (opcode (source_code (label, mnem, opa))) = None then source_code (label, mnem, opa)
     else (source_code (label, mnem, opa))\<lparr>cptr := (case opa of L_SYMB l idx # rest \<Rightarrow> F l | _ \<Rightarrow> None)\<rparr>)"
    "map_of jumps (opcode (source_code (label, mnem, opa))) \<noteq> None \<Longrightarrow> \<exists>l idx rest. opa = L_SYMB l idx # rest"
proof -
  obtain f argc argt where e: "map_of opcode_table mnem = Some (f, argc, argt)" "argc = length opa"
    "\<forall>p\<in>set (zip argt opa). format_ok p"
    using assms by (auto simp: statement_ok_def split: option.splits)
  have entry: "(mnem, f, argc, argt) \<in> set opcode_table" using e(1) by (rule map_of_SomeD)
  have op: "opcode (source_code (label, mnem, opa)) = f"
    using e(1) by (simp add: source_code_def assembled_def opcode_fold_fill)
  show "assembled F (label, mnem, opa) =
    (if map_of jumps (opcode (source_code (label, mnem, opa))) = None then source_code (label, mnem, opa)
     else (source_code (label, mnem, opa))\<lparr>cptr := (case opa of L_SYMB l idx # rest \<Rightarrow> F l | _ \<Rightarrow> None)\<rparr>)"
  proof (cases "map_of jumps f = None")
    case True
    then have "OA_CODE_PTR \<notin> set argt" using bspec [OF jump_table entry] by simp
    then show ?thesis using True e(1) fold_fill_no_label [of argt F opa _ "\<lambda>l. None"]
      unfolding op by (simp add: source_code_def assembled_def)
  next
    case False
    then have "argc = 1 \<and> argt = [OA_CODE_PTR, OA_NONE, OA_NONE] \<or> argc = 2 \<and> argt = [OA_CODE_PTR, OA_BIT1, OA_NONE]"
      using bspec [OF jump_table entry] by (simp split: if_splits)
    then show ?thesis using False e unfolding op
      by (auto simp: source_code_def assembled_def length_Suc_conv numeral_2_eq_2)
  qed
  show "\<exists>l idx rest. opa = L_SYMB l idx # rest" if "map_of jumps (opcode (source_code (label, mnem, opa))) \<noteq> None"
    using bspec [OF jump_table entry] that e(2,3) unfolding op
    by (auto simp: length_Suc_conv numeral_2_eq_2 split: if_splits)
qed

section \<open>One instruction\<close>

text \<open>The address after a statement is that of the next one, or the link that leads there.\<close>

definition at_index :: "code_address \<Rightarrow> nat \<Rightarrow> bool" where
  "at_index a i \<longleftrightarrow> a = slot_address (i + 1) \<or> snd a = 1023 \<and> slot_address (i + 1) = (fst a + 1, 0)"

definition at_place :: "code_address \<Rightarrow> nat option \<Rightarrow> bool" where
  "at_place a place \<longleftrightarrow> (case place of None \<Rightarrow> a = codespace_null | Some i \<Rightarrow> at_index a i)"

text \<open>The place after a statement.\<close>

definition next_place :: "nat \<Rightarrow> outcome \<Rightarrow> nat option" where
  "next_place j out = (if out = Ends then None else Some j)"

lemma at_place_simps [simp]: "at_place a None \<longleftrightarrow> a = codespace_null" "at_place a (Some i) \<longleftrightarrow> at_index a i"
  "next_place j Goes_on = Some j" "next_place j Pauses = Some j" "next_place j Ends = None"
  by (simp_all add: at_place_def next_place_def)

lemma at_index_next: "slot_address (i + 1) = (c, k) \<Longrightarrow> at_index (c, k + 1) (i + 1)"
  using slot_address_Suc [of "i + 1"] by (auto simp: at_index_def split: if_splits)

lemma link_opcode: "\<forall>(mnem, f, argc, argt)\<in>set opcode_table. f \<noteq> ''of_CHUNK_LINK''"
  by code_simp

lemma separate_tables: "\<forall>f\<in>set (''of_CHUNK_LINK'' # map fst jumps). f \<notin> set (map fst computing)"
  by code_simp

lemma jumps_compute_nothing: "map_of jumps f = Some values \<Longrightarrow> map_of computing f = None"
  using separate_tables by (force simp: map_of_eq_None_iff dest: map_of_SomeD)

lemma link_separate [simp]: "map_of computing ''of_CHUNK_LINK'' = None" "map_of jumps ''of_CHUNK_LINK'' = None"
  using separate_tables by (force simp: map_of_eq_None_iff, simp add: jumps_def)

lemma source_opcode: "statement_ok s \<Longrightarrow> opcode (source_code s) \<noteq> ''of_CHUNK_LINK''"
  using link_opcode
  by (cases s) (fastforce simp: statement_ok_def source_code_def assembled_def opcode_fold_fill split: option.splits dest: map_of_SomeD)

lemma jump_taken_pc:
  "jump_taken values (thr\<lparr>pc := p\<rparr>) cp = jump_taken values thr cp"
  "jump_taken values thr (cp\<lparr>cptr := a\<rparr>) = jump_taken values thr cp"
  by (simp_all add: jump_taken_def pc_simps split: option.split)

definition linked :: "codespace \<Rightarrow> statement list \<Rightarrow> bool" where
  "linked cs prog \<longleftrightarrow>
     space_ok cs (1 + length prog) \<and> (\<forall>s\<in>set prog. statement_ok s) \<and>
     (\<forall>i<length prog. code_at cs (slot_address (i + 1)) = assembled (label_address 1 prog) (prog ! i))"

lemma link_run:
  assumes "linked cs prog" "i < length prog" "snd a = 1023" "slot_address (i + 1) = (fst a + 1, 0)"
  shows "run_instruction w cs (thr\<lparr>pc := a\<rparr>) s = Inr (thr\<lparr>pc := slot_address (i + 1)\<rparr>, s, True)"
proof -
  have ok: "space_ok cs (1 + length prog)" using assms(1) by (simp add: linked_def)
  have "valid_address cs (slot_address (i + 1))" using valid_slot [OF ok] assms(2) by simp
  then have c: "fst a + 1 < length (chunks cs)" using assms(4) by (simp add: valid_address_def)
  moreover have "length (chunks cs ! fst a) = 1024" using ok c by (simp add: space_ok_def)
  moreover have "opcode (code_at cs (fst a, 1023)) = ''of_CHUNK_LINK''" "cptr (code_at cs (fst a, 1023)) = Some (fst a + 1, 0)"
    using ok c by (auto simp: space_ok_def)
  ultimately show ?thesis using assms(3,4)
    by (cases a) (simp add: run_instruction_def execute_def of_CHUNK_LINK_def)
qed

lemma statement_run:
  assumes "linked cs prog" "source_step w prog i thr s = Inr (j, thr', s', out)"
  shows "\<exists>p. at_place p (next_place j out) \<and>
    run_instruction w cs (thr\<lparr>pc := slot_address (i + 1)\<rparr>) s = Inr (thr'\<lparr>pc := p\<rparr>, s', out = Goes_on)"
proof -
  have i: "i < length prog" using assms(2) by (auto simp: source_step_def split: if_splits)
  obtain label mnem opa where st: "prog ! i = (label, mnem, opa)" by (metis prod_cases3)
  let ?sc = "source_code (prog ! i)" and ?F = "label_address 1 prog"
  obtain c k where ck: "slot_address (i + 1) = (c, k)" by force
  have ok: "statement_ok (prog ! i)" "code_at cs (c, k) = assembled ?F (prog ! i)" "valid_address cs (c, k)"
    using assms(1) i valid_slot [of cs "1 + length prog" "i + 1"] by (auto simp: linked_def ck [symmetric])
  have run: "run_instruction w cs (thr\<lparr>pc := slot_address (i + 1)\<rparr>) s = execute w (assembled ?F (prog ! i)) (thr\<lparr>pc := (c, k + 1)\<rparr>) s"
    unfolding ck using ok(2,3) by (simp add: run_instruction_def valid_address_def)
  have next_ok: "at_index (c, k + 1) (i + 1)" using at_index_next [OF ck] .
  have nolink: "opcode ?sc \<noteq> ''of_CHUNK_LINK''" using source_opcode [OF ok(1)] .
  have eq: "assembled ?F (prog ! i) = ?sc" if "map_of jumps (opcode ?sc) = None"
    using assembled_source(1) [of label mnem opa ?F] ok(1) that st by simp
  consider (comp) f where "map_of computing (opcode ?sc) = Some f" "map_of jumps (opcode ?sc) = None"
    | (jump) vs where "map_of jumps (opcode ?sc) = Some vs" "map_of computing (opcode ?sc) = None"
    | (rest) "map_of computing (opcode ?sc) = None" "map_of jumps (opcode ?sc) = None"
    using jumps_compute_nothing by (metis not_Some_eq)
  then show ?thesis
  proof cases
    case comp
    obtain t where t: "f thr ?sc = Inr t" "j = i + 1" "thr' = t" "s' = s" "out = Goes_on"
      using assms(2) i comp by (cases "f thr ?sc") (auto simp: source_step_def)
    have "execute w ?sc (thr\<lparr>pc := (c, k + 1)\<rparr>) s = Inr (t\<lparr>pc := (c, k + 1)\<rparr>, s, True)"
      by (simp add: execute_def comp(1) computing_pc [OF comp(1)] t(1) at_pc_results)
    then show ?thesis using next_ok t(2-5) unfolding run eq [OF comp(2)] by auto
  next
    case jump
    obtain l idx rest where opa: "opa = L_SYMB l idx # rest"
      using assembled_source(2) [of label mnem opa] ok(1) jump(1) st by auto
    have as: "assembled ?F (prog ! i) = ?sc\<lparr>cptr := ?F l\<rparr>"
      using assembled_source(1) [of label mnem opa ?F] ok(1) jump(1) st opa by simp
    obtain t where t: "jump_taken vs thr ?sc = Inr t"
      using assms(2) i jump by (cases "jump_taken vs thr ?sc") (auto simp: source_step_def)
    have ex: "execute w (assembled ?F (prog ! i)) (thr\<lparr>pc := (c, k + 1)\<rparr>) s =
        of_jump w t (thr\<lparr>pc := (c, k + 1)\<rparr>) (?sc\<lparr>cptr := ?F l\<rparr>) s"
      using jump t unfolding as by (simp add: execute_def jump_taken_pc)
    have src: "source_step w prog i thr s =
        bind_result (if t then jump_target prog opa else Inr (i + 1)) (\<lambda>j.
          if is_stopped w s then Inr (j, thr, schedule_self w 0 s, Pauses) else Inr (j, thr, s, Goes_on))"
      using jump t i st by (simp add: source_step_def)
    show ?thesis
    proof (cases t)
      case False
      then show ?thesis using assms(2) next_ok unfolding run ex src by (auto simp: of_jump_def split: if_splits)
    next
      case True
      then obtain j' where j': "label_index prog l = Some j'"
        using assms(2) unfolding src opa by (cases "label_index prog l") (auto simp: jump_target_def)
      then have "?F l = Some (slot_address (j' + 1))" by (simp add: label_address_index)
      moreover have "at_index (slot_address (j' + 1)) j'" by (simp add: at_index_def)
      ultimately show ?thesis using assms(2) True j' unfolding run ex src opa
        by (intro exI [of _ "slot_address (j' + 1)"]) (auto simp: of_jump_def jump_target_def split: if_splits)
    qed
  next
    case rest
    consider "opcode ?sc = ''of_DELAY''" | "opcode ?sc = ''of_DELAYX''"
      | (other) "opcode ?sc \<noteq> ''of_DELAY''" "opcode ?sc \<noteq> ''of_DELAYX''" by blast
    then show ?thesis
    proof cases
      case other
      obtain v ws where o: "other_instruction w ?sc (thr_bits thr) (thr_words thr) s = Inr (v, ws, s', out)"
          "j = i + 1" "thr' = thr\<lparr>thr_bits := v, thr_words := ws\<rparr>"
        using assms(2) i rest other
        by (cases "other_instruction w ?sc (thr_bits thr) (thr_words thr) s") (auto simp: source_step_def)
      then have ex: "execute w ?sc (thr\<lparr>pc := (c, k + 1)\<rparr>) s =
          Inr (thr'\<lparr>pc := if out = Ends then codespace_null else (c, k + 1)\<rparr>, s', out = Goes_on)"
        by (cases out; cases thr) (simp_all add: execute_def rest other nolink)
      show ?thesis using next_ok \<open>j = i + 1\<close> unfolding run eq [OF rest(2)] ex
        by (intro exI [of _ "if out = Ends then codespace_null else (c, k + 1)"]) (cases out; simp)
    next
      case 1
      then have "j = i + 1" "execute w ?sc (thr\<lparr>pc := (c, k + 1)\<rparr>) s = Inr (thr'\<lparr>pc := (c, k + 1)\<rparr>, s', out = Goes_on)" "out = Pauses"
        using assms(2) i rest by (auto simp: source_step_def execute_def of_DELAY_def Let_def)
      then show ?thesis using next_ok unfolding run eq [OF rest(2)] by auto
    next
      case 2
      then have "j = i + 1" "execute w ?sc (thr\<lparr>pc := (c, k + 1)\<rparr>) s = Inr (thr'\<lparr>pc := (c, k + 1)\<rparr>, s', out = Goes_on)" "out = Pauses"
        using assms(2) i rest by (auto simp: source_step_def execute_def of_DELAYX_def Let_def split: if_splits)
      then show ?thesis using next_ok unfolding run eq [OF rest(2)] by auto
    qed
  qed
qed

lemma program_run:
  assumes "linked cs prog" "source_run n w prog i thr s = Some (Inr (place, thr', s'))" "at_index a i"
  shows "\<exists>m p. at_place p place \<and> vthread_run m w cs (thr\<lparr>pc := a\<rparr>) s = Some (Inr (thr'\<lparr>pc := p\<rparr>, s'))"
  using assms(2,3)
proof (induction n arbitrary: i thr s a)
  case (Suc n)
  obtain i1 t1 s1 out where step: "source_step w prog i thr s = Inr (i1, t1, s1, out)"
    using Suc.prems(1) by (auto split: sum.splits)
  have i: "i < length prog" using step by (auto simp: source_step_def split: if_splits)
  obtain p where p: "at_place p (next_place i1 out)"
    "run_instruction w cs (thr\<lparr>pc := slot_address (i + 1)\<rparr>) s = Inr (t1\<lparr>pc := p\<rparr>, s1, out = Goes_on)"
    using statement_run [OF assms(1) step] by blast
  have "\<exists>m q. at_place q place \<and> vthread_run m w cs (thr\<lparr>pc := slot_address (i + 1)\<rparr>) s = Some (Inr (thr'\<lparr>pc := q\<rparr>, s'))"
  proof (cases "out = Goes_on")
    case True
    then have "source_run n w prog i1 t1 s1 = Some (Inr (place, thr', s'))" "at_index p i1" using Suc.prems(1) step p(1) by simp_all
    from Suc.IH [OF this] obtain m q where
      "at_place q place" "vthread_run m w cs (t1\<lparr>pc := p\<rparr>) s1 = Some (Inr (thr'\<lparr>pc := q\<rparr>, s'))" by blast
    then show ?thesis using p(2) True by (intro exI [of _ "Suc m"] exI [of _ q]) simp
  next
    case False
    then have "place = next_place i1 out" "thr' = t1" "s' = s1" using Suc.prems(1) step by (cases out; simp)+
    then show ?thesis using p False by (intro exI [of _ "Suc 0"] exI [of _ p]) simp
  qed
  then obtain m q where mq: "at_place q place"
    "vthread_run m w cs (thr\<lparr>pc := slot_address (i + 1)\<rparr>) s = Some (Inr (thr'\<lparr>pc := q\<rparr>, s'))" by blast
  show ?case
  proof (cases "a = slot_address (i + 1)")
    case True
    then show ?thesis using mq by blast
  next
    case False
    then have "snd a = 1023" "slot_address (i + 1) = (fst a + 1, 0)" using Suc.prems(2) by (auto simp: at_index_def)
    then have "run_instruction w cs (thr\<lparr>pc := a\<rparr>) s = Inr (thr\<lparr>pc := slot_address (i + 1)\<rparr>, s, True)"
      by (rule link_run [OF assms(1) i])
    then have "vthread_run (Suc m) w cs (thr\<lparr>pc := a\<rparr>) s = Some (Inr (thr'\<lparr>pc := q\<rparr>, s'))"
      using mq(2) by simp
    then show ?thesis using mq(1) by blast
  qed
qed simp

section \<open>The program\<close>

text \<open>
  C15. Running an assembled program does what executing its statements one after the other does. The
  statements are executed from number \<open>i\<close> on, and the loop starts at the address of that
  statement, or at the link that leads to it. If the execution of the statements pauses the thread
  before statement \<open>j\<close>, the loop over the instructions stops at the address of statement
  \<open>j\<close> or the link before it; if it ends the thread, the loop stops with a null program
  counter. The bits and registers of the thread and the changes of the world are the same. Jumps and
  delays are executed as they are modelled; the instructions that are not modelled are any functions
  that change bits, registers and world and let the thread go on, pause or end. The program may have any
  length, so that it lies in a chain of chunks, and may jump to any of its labels, also to later ones.
  Its opcodes are known, its operands have the right number and form, and no label is defined twice.
\<close>

theorem assembled_program_runs:
  assumes "\<forall>s\<in>set prog. statement_ok s" "distinct (labels prog)" "at_index a i"
    "source_run n w prog i thr s = Some (Inr (place, thr', s'))"
  shows "\<exists>st st' m p. compile_program prog new_assembler = Inr st \<and> compile_cleanup 3 st = Some st' \<and> at_place p place \<and>
    vthread_run m w (space st') (thr\<lparr>pc := a\<rparr>) s = Some (Inr (thr'\<lparr>pc := p\<rparr>, s'))"
proof -
  obtain st st' where st: "compile_program prog new_assembler = Inr st" "compile_cleanup 3 st = Some st'"
    "asm_ok (label_address 1 prog) st' (1 + length prog)"
    "\<forall>i<length prog. code_at (space st') (slot_address (i + 1)) = assembled (label_address 1 prog) (prog ! i)"
    using program_linked [OF assms(1,2) refl] by blast
  have "linked (space st') prog" using st(3,4) assms(1) by (simp add: linked_def asm_ok_def)
  then show ?thesis using program_run [OF _ assms(4,3)] st(1,2) by blast
qed

theorem assembled_program_runs_witness:
  "\<exists>st st' m p. compile_program [(None, ''%jmp/1'', [L_SYMB ''E'' 0, L_NUMB 1]), (None, ''%noop'', []),
      (Some ''E'', ''%end'', [])] new_assembler = Inr st \<and> compile_cleanup 3 st = Some st' \<and> p = codespace_null \<and>
    vthread_run m \<lparr>is_stopped = \<lambda>s. False, schedule_self = \<lambda>d s. s @ [d], other_instruction = \<lambda>cp v ws s. Inr (v, ws, s @ [5], Ends)\<rparr>
      (space st') (example_thread\<lparr>pc := (0, 1)\<rparr>) [] =
      Some (Inr (example_thread\<lparr>pc := p\<rparr>, [5]))"
  (is "\<exists>st st' m p. compile_program ?prog _ = _ \<and> _ \<and> _ \<and> vthread_run m ?w _ _ _ = _")
proof -
  have e: "map_of opcode_table ''%jmp/1'' = Some (''of_JMP1'', 2, [OA_CODE_PTR, OA_BIT1, OA_NONE])"
    "map_of opcode_table ''%noop'' = Some (''of_NOOP'', 0, [OA_NONE, OA_NONE, OA_NONE])"
    "map_of opcode_table ''%end'' = Some (''of_END'', 0, [OA_NONE, OA_NONE, OA_NONE])" by code_simp+
  then have ok: "\<forall>s\<in>set ?prog. statement_ok s" by (simp add: statement_ok_def)
  have l: "distinct (labels ?prog)" by code_simp
  have c: "map_of computing ''of_JMP1'' = None" "map_of computing ''of_END'' = None" "map_of jumps ''of_END'' = None"
    by (simp_all add: computing_def jumps_def)
  have b: "thr_get_bit example_thread 1 = Inr BIT4_1" by code_simp
  have s: "source_code (None, ''%jmp/1'', [L_SYMB ''E'' 0, L_NUMB 1]) = blank_code\<lparr>opcode := ''of_JMP1'', bit_idx0 := 1\<rparr>"
    "source_code (Some ''E'', ''%end'', []) = blank_code\<lparr>opcode := ''of_END''\<rparr>"
    by (simp_all add: source_code_def assembled_def e blank_code_def)
  have "source_run (Suc (Suc 0)) ?w ?prog 0 example_thread [] = Some (Inr (None, example_thread, [5]))"
    using b by (simp add: source_step_def Let_def s s [simplified] c blank_code_def jumps_def jump_taken_def jump_target_def)
  from assembled_program_runs [OF ok l _ this, of "(0, 1)"] show ?thesis by (auto simp: at_index_def slot_address_def)
qed

end
