(* ===== verification/VSched.thy ===== *)
theory VSched
  imports Vector4Ops
begin

text \<open>
  The scheduler of the simulator (\<open>vvp/schedule.cc\<close>): the list of time steps with their queues of
  events, the operations that put an event into it, and the loop of \<open>schedule_simulate\<close>.
\<close>

section \<open>Events and time steps\<close>

text \<open>
  Threads, nets, arrays and call-back objects are named by numbers. Assignments of strength values and of
  floating point values, which are handled like those of vectors, are left out.
\<close>

datatype event =
    vthread_event nat
  | del_thr_event nat
  | assign_vector4_event nat vector4 nat nat
  | assign_array_word nat nat vector4 nat
  | generic_event nat bool

datatype event_queue = SEQ_START | SEQ_ACTIVE | SEQ_NBASSIGN | SEQ_RWSYNC | SEQ_ROSYNC | DEL_THREAD

text \<open>
  A time step, with its delay after the previous one. The code keeps a queue as a circular list with a
  pointer to its last cell; here it is the list of its events, the next one first.
\<close>

record event_time =
  delay :: nat
  start :: "event list"
  active :: "event list"
  nbassign :: "event list"
  rwsync :: "event list"
  rosync :: "event list"
  del_thr :: "event list"

definition new_time :: "nat \<Rightarrow> event_time" where
  "new_time d = \<lparr>delay = d, start = [], active = [], nbassign = [], rwsync = [], rosync = [], del_thr = []\<rparr>"

fun queue_of :: "event_queue \<Rightarrow> event_time \<Rightarrow> event list" where
  "queue_of SEQ_START c = start c"
| "queue_of SEQ_ACTIVE c = active c"
| "queue_of SEQ_NBASSIGN c = nbassign c"
| "queue_of SEQ_RWSYNC c = rwsync c"
| "queue_of SEQ_ROSYNC c = rosync c"
| "queue_of DEL_THREAD c = del_thr c"

fun set_queue :: "event_queue \<Rightarrow> event list \<Rightarrow> event_time \<Rightarrow> event_time" where
  "set_queue SEQ_START es c = c\<lparr>start := es\<rparr>"
| "set_queue SEQ_ACTIVE es c = c\<lparr>active := es\<rparr>"
| "set_queue SEQ_NBASSIGN es c = c\<lparr>nbassign := es\<rparr>"
| "set_queue SEQ_RWSYNC es c = c\<lparr>rwsync := es\<rparr>"
| "set_queue SEQ_ROSYNC es c = c\<lparr>rosync := es\<rparr>"
| "set_queue DEL_THREAD es c = c\<lparr>del_thr := es\<rparr>"

text \<open>
  The scheduler. The simulation time has 64 bits and wraps around. The last three fields are not kept by
  the program, the statements about it need them: the time that has elapsed, which does not wrap around,
  and what was scheduled and what was run, each with its elapsed time.
\<close>

record scheduler =
  sched_list :: "event_time list"
  schedule_init_list :: "event list"
  schedule_runnable :: bool
  schedule_stopped_flag :: bool
  schedule_time :: word64
  error_messages :: "string list"
  elapsed :: nat
  events_scheduled :: "(nat \<times> event) list"
  events_run :: "(nat \<times> event) list"

definition new_scheduler :: scheduler where
  "new_scheduler =
     \<lparr>sched_list = [], schedule_init_list = [], schedule_runnable = True, schedule_stopped_flag = False,
      schedule_time = 0, error_messages = [], elapsed = 0, events_scheduled = [], events_run = []\<rparr>"

section \<open>Scheduling\<close>

text \<open>The events at the start of a time step: a second one is put into the list of active events.\<close>

definition enqueue :: "event \<Rightarrow> event_queue \<Rightarrow> event_time \<Rightarrow> event_time result" where
  "enqueue cur q c =
     (if q = SEQ_START then
        if start c = [] then Inr (c\<lparr>start := [cur]\<rparr>)
        else if active c = [] then Inl ''null pointer''
        else Inr (c\<lparr>active := active c @ [cur]\<rparr>)
      else Inr (set_queue q (queue_of q c @ [cur]) c))"

text \<open>The search for the time step, after the first one.\<close>

fun find_time :: "(event_time \<Rightarrow> event_time result) \<Rightarrow> nat \<Rightarrow> event_time list \<Rightarrow> event_time list result" where
  "find_time put d [] = Inl ''null pointer''"
| "find_time put d (c # rest) =
     (if rest \<noteq> [] \<and> delay c < d then bind_result (find_time put (d - delay c) rest) (\<lambda>rest. Inr (c # rest))
      else if d < delay c then bind_result (put (new_time d)) (\<lambda>t. Inr (t # c\<lparr>delay := delay c - d\<rparr> # rest))
      else if delay c = d then bind_result (put c) (\<lambda>c. Inr (c # rest))
      else bind_result (put (new_time (d - delay c))) (\<lambda>t. Inr [c, t]))"

definition insert_event :: "event \<Rightarrow> nat \<Rightarrow> event_queue \<Rightarrow> event_time list \<Rightarrow> event_time list result" where
  "insert_event cur d q ts =
     (case ts of
        [] \<Rightarrow> bind_result (enqueue cur q (new_time d)) (\<lambda>t. Inr [t])
      | c # rest \<Rightarrow>
          if d < delay c then
            bind_result (enqueue cur q (new_time d)) (\<lambda>t. Inr (t # c\<lparr>delay := delay c - d\<rparr> # rest))
          else find_time (enqueue cur q) d ts)"

definition schedule_event :: "event \<Rightarrow> nat \<Rightarrow> event_queue \<Rightarrow> scheduler \<Rightarrow> scheduler result" where
  "schedule_event cur d q st =
     bind_result (insert_event cur d q (sched_list st)) (\<lambda>ts.
       Inr (st\<lparr>sched_list := ts, events_scheduled := events_scheduled st @ [(elapsed st + d, cur)]\<rparr>))"

text \<open>An event before all others of the current time.\<close>

definition schedule_event_push :: "event \<Rightarrow> scheduler \<Rightarrow> scheduler result" where
  "schedule_event_push cur st =
     (case sched_list st of
        [] \<Rightarrow> schedule_event cur 0 SEQ_ACTIVE st
      | c # rest \<Rightarrow>
          if 0 < delay c then schedule_event cur 0 SEQ_ACTIVE st
          else Inr (st\<lparr>sched_list := c\<lparr>active := cur # active c\<rparr> # rest,
                       events_scheduled := events_scheduled st @ [(elapsed st, cur)]\<rparr>))"

definition schedule_vthread :: "nat \<Rightarrow> nat \<Rightarrow> bool \<Rightarrow> scheduler \<Rightarrow> scheduler result" where
  "schedule_vthread thr d push_flag st =
     (if push_flag \<and> d = 0 then schedule_event_push (vthread_event thr) st
      else schedule_event (vthread_event thr) d SEQ_ACTIVE st)"

definition schedule_assign_vector :: "nat \<Rightarrow> nat \<Rightarrow> nat \<Rightarrow> vector4 \<Rightarrow> nat \<Rightarrow> scheduler \<Rightarrow> scheduler result" where
  "schedule_assign_vector ptr base vwid v d st =
     schedule_event (assign_vector4_event ptr v base vwid) d SEQ_NBASSIGN st"

definition schedule_assign_plucked_vector ::
    "nat \<Rightarrow> nat \<Rightarrow> vector4 \<Rightarrow> nat \<Rightarrow> nat \<Rightarrow> scheduler \<Rightarrow> scheduler result" where
  "schedule_assign_plucked_vector ptr d src adr wid st =
     bind_result (subvalue src adr wid) (\<lambda>v. schedule_event (assign_vector4_event ptr v 0 0) d SEQ_NBASSIGN st)"

definition schedule_assign_array_word ::
    "nat \<Rightarrow> nat \<Rightarrow> nat \<Rightarrow> vector4 \<Rightarrow> nat \<Rightarrow> scheduler \<Rightarrow> scheduler result" where
  "schedule_assign_array_word mem adr off v d st = schedule_event (assign_array_word mem adr v off) d SEQ_NBASSIGN st"

definition schedule_set_vector :: "nat \<Rightarrow> vector4 \<Rightarrow> scheduler \<Rightarrow> scheduler result" where
  "schedule_set_vector ptr v st = schedule_event (assign_vector4_event ptr v 0 0) 0 SEQ_ACTIVE st"

text \<open>Initial values form a stack of their own.\<close>

definition schedule_init_vector :: "nat \<Rightarrow> vector4 \<Rightarrow> scheduler \<Rightarrow> scheduler" where
  "schedule_init_vector ptr v st =
     st\<lparr>schedule_init_list := assign_vector4_event ptr v 0 0 # schedule_init_list st,
        events_scheduled := events_scheduled st @ [(elapsed st, assign_vector4_event ptr v 0 0)]\<rparr>"

definition schedule_del_thr :: "nat \<Rightarrow> scheduler \<Rightarrow> scheduler result" where
  "schedule_del_thr thr st = schedule_event (del_thr_event thr) 0 DEL_THREAD st"

definition schedule_generic :: "nat \<Rightarrow> nat \<Rightarrow> bool \<Rightarrow> bool \<Rightarrow> bool \<Rightarrow> scheduler \<Rightarrow> scheduler result" where
  "schedule_generic obj d sync_flag ro_flag delete_when_done st =
     schedule_event (generic_event obj delete_when_done) d
       (if sync_flag then if ro_flag then SEQ_ROSYNC else SEQ_RWSYNC else SEQ_ACTIVE) st"

definition schedule_at_start_of_simtime :: "nat \<Rightarrow> nat \<Rightarrow> scheduler \<Rightarrow> scheduler result" where
  "schedule_at_start_of_simtime obj d st = schedule_event (generic_event obj False) d SEQ_START st"

definition schedule_finish :: "scheduler \<Rightarrow> scheduler" where
  "schedule_finish st = st\<lparr>schedule_runnable := False\<rparr>"

definition schedule_stop :: "scheduler \<Rightarrow> scheduler" where
  "schedule_stop st = st\<lparr>schedule_stopped_flag := True\<rparr>"

section \<open>The rest of the simulator\<close>

text \<open>
  What events do outside the scheduler is a parameter: a function of the event, the simulation time, the
  two flags and a state of its own. It acts on the scheduler by requests, one for each operation above.
\<close>

datatype request =
    Vthread nat nat bool
  | Assign_vector nat nat nat vector4 nat
  | Assign_plucked_vector nat nat vector4 nat nat
  | Assign_array_word nat nat nat vector4 nat
  | Set_vector nat vector4
  | Del_thr nat
  | Generic nat nat bool bool bool
  | At_start_of_simtime nat nat
  | Finish
  | Stop

fun apply_request :: "request \<Rightarrow> scheduler \<Rightarrow> scheduler result" where
  "apply_request (Vthread thr d push_flag) st = schedule_vthread thr d push_flag st"
| "apply_request (Assign_vector ptr base vwid v d) st = schedule_assign_vector ptr base vwid v d st"
| "apply_request (Assign_plucked_vector ptr d src adr wid) st = schedule_assign_plucked_vector ptr d src adr wid st"
| "apply_request (Assign_array_word mem adr off v d) st = schedule_assign_array_word mem adr off v d st"
| "apply_request (Set_vector ptr v) st = schedule_set_vector ptr v st"
| "apply_request (Del_thr thr) st = schedule_del_thr thr st"
| "apply_request (Generic obj d sync_flag ro_flag del) st = schedule_generic obj d sync_flag ro_flag del st"
| "apply_request (At_start_of_simtime obj d) st = schedule_at_start_of_simtime obj d st"
| "apply_request Finish st = Inr (schedule_finish st)"
| "apply_request Stop st = Inr (schedule_stop st)"

fun apply_requests :: "request list \<Rightarrow> scheduler \<Rightarrow> scheduler result" where
  "apply_requests [] st = Inr st"
| "apply_requests (r # rs) st = bind_result (apply_request r st) (apply_requests rs)"

record 's client =
  on_event :: "event \<Rightarrow> word64 \<Rightarrow> bool \<Rightarrow> bool \<Rightarrow> 's \<Rightarrow> 's \<times> request list"
  on_delete :: "nat \<Rightarrow> 's \<Rightarrow> 's"
  stop_handler :: "'s \<Rightarrow> 's \<times> request list"
  next_sim_time :: "word64 \<Rightarrow> 's \<Rightarrow> 's \<times> request list"
  end_of_compile :: "'s \<Rightarrow> 's \<times> request list"
  start_of_sim :: "'s \<Rightarrow> 's \<times> request list"
  postsim :: "'s \<Rightarrow> 's \<times> request list"

type_synonym 's simulation = "scheduler \<times> 's"

definition callback :: "('s \<Rightarrow> 's \<times> request list) \<Rightarrow> 's simulation \<Rightarrow> 's simulation result" where
  "callback f sim =
     (case sim of (st, s) \<Rightarrow> (case f s of (s', rs) \<Rightarrow> bind_result (apply_requests rs st) (\<lambda>st'. Inr (st', s'))))"

text \<open>Running an event; the deletion of a thread has no effect on the scheduler.\<close>

definition run_run :: "'s client \<Rightarrow> event \<Rightarrow> 's simulation \<Rightarrow> 's simulation result" where
  "run_run cl cur sim =
     (case sim of (st, s) \<Rightarrow>
        let st = st\<lparr>events_run := events_run st @ [(elapsed st, cur)]\<rparr>
        in case cur of
             del_thr_event thr \<Rightarrow> Inr (st, on_delete cl thr s)
           | _ \<Rightarrow> callback (on_event cl cur (schedule_time st) (schedule_runnable st) (schedule_stopped_flag st)) (st, s))"

section \<open>Simulation\<close>

text \<open>Loops that may run for ever have fuel: \<open>None\<close> when it is used up.\<close>

definition bind_run :: "'a result option \<Rightarrow> ('a \<Rightarrow> 'b result option) \<Rightarrow> 'b result option" where
  "bind_run r f = (case r of None \<Rightarrow> None | Some (Inl e) \<Rightarrow> Some (Inl e) | Some (Inr x) \<Rightarrow> f x)"

text \<open>Changes of the current time step, the first of the list.\<close>

definition change_head :: "(event_time \<Rightarrow> event_time) \<Rightarrow> scheduler \<Rightarrow> scheduler" where
  "change_head f st =
     (case sched_list st of [] \<Rightarrow> st | c # rest \<Rightarrow> st\<lparr>sched_list := f c # rest\<rparr>)"

definition head_queue :: "event_queue \<Rightarrow> scheduler \<Rightarrow> event list" where
  "head_queue q st = (case sched_list st of [] \<Rightarrow> [] | c # rest \<Rightarrow> queue_of q c)"

definition pop :: "event_queue \<Rightarrow> scheduler \<Rightarrow> scheduler" where
  "pop q st = change_head (\<lambda>c. set_queue q (tl (queue_of q c)) c) st"

text \<open>Runs the events of a queue, with those that are added meanwhile.\<close>

fun drain :: "nat \<Rightarrow> 's client \<Rightarrow> event_queue \<Rightarrow> 's simulation \<Rightarrow> 's simulation result option" where
  "drain 0 cl q sim = None"
| "drain (Suc fuel) cl q sim =
     (case head_queue q (fst sim) of
        [] \<Rightarrow> Some (Inr sim)
      | cur # rest \<Rightarrow>
          bind_run (Some (run_run cl cur (pop q (fst sim), snd sim))) (drain fuel cl q))"

definition run_rosync :: "nat \<Rightarrow> 's client \<Rightarrow> 's simulation \<Rightarrow> 's simulation result option" where
  "run_rosync fuel cl sim =
     bind_run (drain fuel cl SEQ_ROSYNC sim) (\<lambda>sim.
       bind_run (drain fuel cl DEL_THREAD sim) (\<lambda>(st, s).
         Some (Inr (if head_queue SEQ_ACTIVE st \<noteq> [] \<or> head_queue SEQ_NBASSIGN st \<noteq> [] \<or> head_queue SEQ_RWSYNC st \<noteq> []
           then st\<lparr>error_messages := error_messages st @ [''SCHEDULER ERROR: read-only sync events created RW events!'']\<rparr>
           else st, s))))"

text \<open>The parts of a round of the main loop.\<close>

definition advance_time :: "nat \<Rightarrow> 's client \<Rightarrow> 's simulation \<Rightarrow> 's simulation result option" where
  "advance_time fuel cl sim =
     (case sim of (st, s) \<Rightarrow>
        (case sched_list st of
           [] \<Rightarrow> Some (Inr sim)
         | c # rest \<Rightarrow>
             if 0 < delay c then
               let st = change_head (\<lambda>c. c\<lparr>delay := 0\<rparr>) (st\<lparr>schedule_time := schedule_time st + of_nat (delay c), elapsed := elapsed st + delay c\<rparr>)
               in bind_run (Some (callback (next_sim_time cl (schedule_time st)) (st, s))) (drain fuel cl SEQ_START)
             else Some (Inr sim)))"

definition advance_queues :: "event_time \<Rightarrow> event_time" where
  "advance_queues c =
     (if active c \<noteq> [] then c
      else if nbassign c \<noteq> [] then c\<lparr>active := nbassign c, nbassign := []\<rparr>
      else c\<lparr>active := rwsync c, rwsync := []\<rparr>)"

definition run_step :: "nat \<Rightarrow> 's client \<Rightarrow> 's simulation \<Rightarrow> 's simulation result option" where
  "run_step fuel cl sim =
     (case sim of (st, s) \<Rightarrow>
        let st = change_head advance_queues st
        in case head_queue SEQ_ACTIVE st of
             [] \<Rightarrow> bind_run (run_rosync fuel cl (st, s)) (\<lambda>(st, s). Some (Inr (st\<lparr>sched_list := tl (sched_list st)\<rparr>, s)))
           | cur # rest \<Rightarrow> Some (run_run cl cur (pop SEQ_ACTIVE st, s)))"

text \<open>A round; the flag says whether it was the last.\<close>

definition main_round :: "nat \<Rightarrow> 's client \<Rightarrow> 's simulation \<Rightarrow> ('s simulation \<times> bool) result option" where
  "main_round fuel cl sim =
     (case sim of (st, s) \<Rightarrow>
        (case sched_list st of
           [] \<Rightarrow> Some (Inr (sim, True))
         | c # rest \<Rightarrow>
             if schedule_stopped_flag st then
               bind_run (Some (callback (stop_handler cl) (st\<lparr>schedule_stopped_flag := False\<rparr>, s))) (\<lambda>(st, s).
                 Some (Inr ((st, s), \<not> schedule_runnable st)))
             else if 0 < delay c \<and> \<not> schedule_runnable st then Some (Inr (sim, True))
             else bind_run (advance_time fuel cl sim) (\<lambda>sim.
               bind_run (run_step fuel cl sim) (\<lambda>sim. Some (Inr (sim, False))))))"

fun main_loop :: "nat \<Rightarrow> 's client \<Rightarrow> 's simulation \<Rightarrow> 's simulation result option" where
  "main_loop 0 cl sim = None"
| "main_loop (Suc fuel) cl sim =
     bind_run (main_round fuel cl sim) (\<lambda>(sim, done). if done then Some (Inr sim) else main_loop fuel cl sim)"

text \<open>Initialisation, in the order of the stack.\<close>

fun run_init :: "nat \<Rightarrow> 's client \<Rightarrow> 's simulation \<Rightarrow> 's simulation result option" where
  "run_init 0 cl sim = None"
| "run_init (Suc fuel) cl (st, s) =
     (case schedule_init_list st of
        [] \<Rightarrow> Some (Inr (st, s))
      | cur # rest \<Rightarrow> bind_run (Some (run_run cl cur (st\<lparr>schedule_init_list := rest\<rparr>, s))) (run_init fuel cl))"

text \<open>The simulation up to its main loop, and all of it.\<close>

definition start_simulation :: "nat \<Rightarrow> 's client \<Rightarrow> 's simulation \<Rightarrow> 's simulation result option" where
  "start_simulation fuel cl sim =
     bind_run (Some (callback (end_of_compile cl) (fst sim\<lparr>schedule_time := 0, elapsed := 0\<rparr>, snd sim))) (\<lambda>sim.
       bind_run (run_init fuel cl sim) (\<lambda>sim. Some (callback (start_of_sim cl) sim)))"

definition schedule_simulate :: "nat \<Rightarrow> 's client \<Rightarrow> 's simulation \<Rightarrow> 's simulation result option" where
  "schedule_simulate fuel cl sim =
     bind_run (start_simulation fuel cl sim) (\<lambda>(st, s).
       bind_run (if schedule_runnable st then main_loop fuel cl (st, s) else Some (Inr (st, s))) (\<lambda>sim.
         Some (callback (postsim cl) sim)))"

end
