(* ===== verification/VSchedProps.thy ===== *)
theory VSchedProps
  imports VSched "HOL-Library.Multiset"
begin

text \<open>
  The scheduler as an agenda: what is due at which time. Scheduling adds one event at the end of one
  queue; a simulation runs every event once, at its time, and in the order of time.
\<close>

section \<open>The agenda\<close>

text \<open>The queue of events that are due at an absolute time.\<close>

fun agenda_of :: "nat \<Rightarrow> event_time list \<Rightarrow> event_queue \<Rightarrow> nat \<Rightarrow> event list" where
  "agenda_of now [] q t = []"
| "agenda_of now (c # ts) q t = (if t = now + delay c then queue_of q c else agenda_of (now + delay c) ts q t)"

definition agenda :: "scheduler \<Rightarrow> event_queue \<Rightarrow> nat \<Rightarrow> event list" where
  "agenda st = agenda_of (elapsed st) (sched_list st)"

definition contents :: "event_time \<Rightarrow> event list" where
  "contents c = start c @ active c @ nbassign c @ rwsync c @ rosync c @ del_thr c"

text \<open>All events with the times when they are due.\<close>

fun pending_of :: "nat \<Rightarrow> event_time list \<Rightarrow> (nat \<times> event) multiset" where
  "pending_of now [] = {#}"
| "pending_of now (c # ts) =
     image_mset (Pair (now + delay c)) (mset (contents c)) + pending_of (now + delay c) ts"

definition pending :: "scheduler \<Rightarrow> (nat \<times> event) multiset" where
  "pending st = pending_of (elapsed st) (sched_list st)"

text \<open>Time steps are in the order of time; only the first one can be that of the current time.\<close>

definition ordered :: "event_time list \<Rightarrow> bool" where
  "ordered ts \<longleftrightarrow> (\<forall>c\<in>set (tl ts). 0 < delay c)"

lemma ordered_simps [simp]: "ordered []" "ordered (c # ts) \<longleftrightarrow> (\<forall>c\<in>set ts. 0 < delay c)"
  by (simp_all add: ordered_def)

lemma ordered_Cons: "ordered (c # ts) \<Longrightarrow> ordered ts"
  by (cases ts) simp_all

lemma queue_set_queue [simp]: "queue_of p (set_queue q es c) = (if p = q then es else queue_of p c)"
  by (cases p; cases q) simp_all

lemma delay_set_queue [simp]: "delay (set_queue q es c) = delay c"
  by (cases q) simp_all

lemma queue_new_time [simp]: "queue_of q (new_time d) = []" "delay (new_time d) = d" "contents (new_time d) = []"
  by (cases q; simp add: new_time_def contents_def)+

lemma start_new_time [simp]: "start (new_time d) = []"
  by (simp add: new_time_def)

lemma queue_set_delay [simp]: "queue_of q (c\<lparr>delay := d\<rparr>) = queue_of q c" "contents (c\<lparr>delay := d\<rparr>) = contents c"
  by (cases q; simp add: contents_def)+

lemma agenda_before: "t < now \<Longrightarrow> agenda_of now ts q t = []"
  by (induction ts arbitrary: now) auto

lemma agenda_later: "\<forall>c\<in>set ts. 0 < delay c \<Longrightarrow> t \<le> now \<Longrightarrow> agenda_of now ts q t = []"
  by (cases ts) (auto intro: agenda_before)

lemma pending_time: "(t, e) \<in># pending_of now ts \<Longrightarrow> now \<le> t"
  by (induction ts arbitrary: now) fastforce+

lemma pending_later: "\<forall>c\<in>set ts. 0 < delay c \<Longrightarrow> (t, e) \<in># pending_of now ts \<Longrightarrow> now < t"
  by (cases ts) (auto dest: pending_time)

section \<open>Scheduling an event\<close>

lemma enqueue_effect:
  assumes "q = SEQ_START \<Longrightarrow> start c = []"
  shows "enqueue e q c = Inr (set_queue q (queue_of q c @ [e]) c)"
  using assms by (cases "q = SEQ_START") (simp_all add: enqueue_def)

lemma enqueue_new [simp]: "enqueue e q (new_time d) = Inr (set_queue q [e] (new_time d))"
  using enqueue_effect [of q "new_time d" e] by simp

lemma mset_contents_add: "mset (contents (set_queue q (queue_of q c @ [e]) c)) = add_mset e (mset (contents c))"
  by (cases q) (simp_all add: contents_def)

lemma contents_new_add: "mset (contents (set_queue q [e] (new_time d))) = {#e#}"
  using mset_contents_add [of q "new_time d" e] by simp

text \<open>Adding an event at the end of a queue, as a change of the agenda.\<close>

definition added :: "event \<Rightarrow> nat \<Rightarrow> event_queue \<Rightarrow> nat \<Rightarrow> event_time list \<Rightarrow> event_time list \<Rightarrow> bool" where
  "added e d q now ts ts' \<longleftrightarrow>
     ts' \<noteq> [] \<and> pending_of now ts' = add_mset (now + d, e) (pending_of now ts) \<and>
     (\<forall>p t. agenda_of now ts' p t =
        (if p = q \<and> t = now + d then agenda_of now ts p t @ [e] else agenda_of now ts p t))"

lemma find_time_effect:
  assumes "ordered ts" "ts \<noteq> []" "q = SEQ_START \<Longrightarrow> agenda_of now ts q (now + d) = []"
  shows "\<exists>ts'. find_time (enqueue e q) d ts = Inr ts' \<and> ordered ts' \<and> added e d q now ts ts' \<and>
    delay (hd ts') = (if d < delay (hd ts) then d else delay (hd ts))"
  using assms
proof (induction ts arbitrary: d now)
  case (Cons c rest)
  have ord: "ordered rest" "\<forall>c\<in>set rest. 0 < delay c" using Cons.prems(1) ordered_Cons by auto
  show ?case
  proof (cases "rest \<noteq> [] \<and> delay c < d")
    case True
    then have "q = SEQ_START \<Longrightarrow> agenda_of (now + delay c) rest q (now + delay c + (d - delay c)) = []"
      using Cons.prems(3) by simp
    then obtain ts' where ts': "find_time (enqueue e q) (d - delay c) rest = Inr ts'" "ordered ts'"
      "added e (d - delay c) q (now + delay c) rest ts'"
      "delay (hd ts') = (if d - delay c < delay (hd rest) then d - delay c else delay (hd rest))"
      using Cons.IH [OF ord(1), of "now + delay c" "d - delay c"] True by auto
    have "0 < delay (hd ts')" using ts'(4) True ord(2) by (cases rest) auto
    then have "\<forall>c\<in>set ts'. 0 < delay c" using ts'(2) by (cases ts') auto
    then show ?thesis using ts' True by (auto simp: added_def)
  next
    case False
    note no_walk = this
    show ?thesis
    proof (cases d "delay c" rule: linorder_cases)
      case less
      then show ?thesis using no_walk ord(2) contents_new_add [of q e d] agenda_before [of _ "now + delay c"]
        by (auto simp: added_def enqueue_effect)
    next
      case equal
      then show ?thesis using no_walk ord(2) Cons.prems(3)
        by (auto simp: added_def enqueue_effect mset_contents_add)
    next
      case greater
      then have "rest = []" using no_walk by simp
      then show ?thesis using greater contents_new_add [of q e "d - delay c"]
        by (auto simp: added_def enqueue_effect)
    qed
  qed
qed simp

text \<open>A second event for the start of a time step becomes an active event.\<close>

lemma find_time_start_again:
  assumes "ordered ts" "agenda_of now ts SEQ_START (now + d) \<noteq> []"
  shows "find_time (enqueue e SEQ_START) d ts =
    (if agenda_of now ts SEQ_ACTIVE (now + d) = [] then Inl ''null pointer'' else find_time (enqueue e SEQ_ACTIVE) d ts)"
  using assms
proof (induction ts arbitrary: d now)
  case (Cons c rest)
  have ord: "ordered rest" using Cons.prems(1) ordered_Cons by auto
  have later: "d < delay c \<Longrightarrow> False"
    using Cons.prems(2) agenda_before [of "now + d" "now + delay c" rest SEQ_START] by auto
  show ?case
  proof (cases "rest \<noteq> [] \<and> delay c < d")
    case True
    then show ?thesis using Cons.IH [OF ord, of "now + delay c" "d - delay c"] Cons.prems(2) by auto
  next
    case False
    then show ?thesis using later Cons.prems(2)
      by (cases d "delay c" rule: linorder_cases) (auto simp: enqueue_def)
  qed
qed simp

lemma insert_start_again:
  assumes "ordered ts" "agenda_of now ts SEQ_START (now + d) \<noteq> []"
  shows "insert_event e d SEQ_START ts =
    (if agenda_of now ts SEQ_ACTIVE (now + d) = [] then Inl ''null pointer'' else insert_event e d SEQ_ACTIVE ts)"
proof -
  obtain c rest where ts: "ts = c # rest" using assms(2) by (cases ts) auto
  have "\<not> d < delay c" using assms(2) agenda_before [of "now + d" "now + delay c" rest SEQ_START] ts by auto
  then show ?thesis using find_time_start_again [OF assms] unfolding ts insert_event_def by simp
qed

text \<open>The first time step is that of the current time.\<close>

definition at_step :: "event_time list \<Rightarrow> bool" where
  "at_step ts \<longleftrightarrow> ts \<noteq> [] \<and> delay (hd ts) = 0"

lemma insert_event_effect:
  assumes "ordered ts" "q = SEQ_START \<Longrightarrow> agenda_of now ts q (now + d) = []"
  shows "\<exists>ts'. insert_event e d q ts = Inr ts' \<and> ordered ts' \<and> (at_step ts \<longrightarrow> at_step ts') \<and> added e d q now ts ts'"
proof (cases ts)
  case Nil
  then show ?thesis by (simp add: insert_event_def added_def contents_new_add at_step_def)
next
  case (Cons c rest)
  have "insert_event e d q ts = find_time (enqueue e q) d ts"
    by (simp add: insert_event_def Cons)
  then obtain ts' where f: "insert_event e d q ts = Inr ts'" "ordered ts'" "added e d q now ts ts'"
    "delay (hd ts') = (if d < delay (hd ts) then d else delay (hd ts))"
    using find_time_effect [OF assms(1) _ assms(2), of e] Cons by auto
  moreover have "ts' \<noteq> []" using f(3) by (simp add: added_def)
  ultimately show ?thesis by (auto simp: at_step_def)
qed

text \<open>
  The state after an event was scheduled: it is at the end of its queue, or at the front if that is
  wanted.
\<close>

definition puts :: "bool \<Rightarrow> event \<Rightarrow> nat \<Rightarrow> event_queue \<Rightarrow> scheduler \<Rightarrow> scheduler result \<Rightarrow> bool" where
  "puts front e d q st r \<longleftrightarrow>
     (\<exists>ts. r = Inr (st\<lparr>sched_list := ts, events_scheduled := events_scheduled st @ [(elapsed st + d, e)]\<rparr>) \<and>
        ordered ts \<and> (at_step (sched_list st) \<longrightarrow> at_step ts) \<and>
        pending_of (elapsed st) ts = add_mset (elapsed st + d, e) (pending st) \<and>
        (\<forall>p t. agenda_of (elapsed st) ts p t =
           (if p = q \<and> t = elapsed st + d
            then if front then e # agenda st p t else agenda st p t @ [e]
            else agenda st p t)))"

lemma schedule_event_puts:
  assumes "ordered (sched_list st)" "q = SEQ_START \<Longrightarrow> agenda st q (elapsed st + d) = []"
  shows "puts False e d q st (schedule_event e d q st)"
  using insert_event_effect [of "sched_list st" q "elapsed st" d e] assms
  by (auto simp: puts_def schedule_event_def added_def agenda_def pending_def)

lemma schedule_event_push_puts:
  assumes "ordered (sched_list st)"
  shows "puts True e 0 SEQ_ACTIVE st (schedule_event_push e st)"
proof (cases "sched_list st = [] \<or> 0 < delay (hd (sched_list st))")
  case True
  then have op: "schedule_event_push e st = schedule_event e 0 SEQ_ACTIVE st"
    by (auto simp: schedule_event_push_def split: list.splits)
  have "agenda st SEQ_ACTIVE (elapsed st) = []"
    using True assms by (cases "sched_list st") (auto simp: agenda_def intro: agenda_before)
  then show ?thesis
    using schedule_event_puts [OF assms, of SEQ_ACTIVE 0 e] unfolding op puts_def by auto
next
  case False
  then obtain c rest where ts: "sched_list st = c # rest" "delay c = 0" by (cases "sched_list st") auto
  have "queue_of p (c\<lparr>active := e # active c\<rparr>) = (if p = SEQ_ACTIVE then e # active c else queue_of p c)" for p
    by (cases p) simp_all
  moreover have "mset (contents (c\<lparr>active := e # active c\<rparr>)) = add_mset e (mset (contents c))"
    by (simp add: contents_def)
  ultimately show ?thesis using ts assms
    by (auto simp: puts_def schedule_event_push_def agenda_def pending_def at_step_def)
qed

section \<open>Requests\<close>

text \<open>The event that a request schedules, with its delay and queue.\<close>

fun requested :: "request \<Rightarrow> (event \<times> nat \<times> event_queue) option" where
  "requested (Vthread thr d push_flag) = Some (vthread_event thr, d, SEQ_ACTIVE)"
| "requested (Assign_vector ptr base vwid v d) = Some (assign_vector4_event ptr v base vwid, d, SEQ_NBASSIGN)"
| "requested (Assign_plucked_vector ptr d src adr wid) =
     (case subvalue src adr wid of Inl e \<Rightarrow> None | Inr v \<Rightarrow> Some (assign_vector4_event ptr v 0 0, d, SEQ_NBASSIGN))"
| "requested (Assign_array_word mem adr off v d) = Some (assign_array_word mem adr v off, d, SEQ_NBASSIGN)"
| "requested (Set_vector ptr v) = Some (assign_vector4_event ptr v 0 0, 0, SEQ_ACTIVE)"
| "requested (Del_thr thr) = Some (del_thr_event thr, 0, DEL_THREAD)"
| "requested (Generic obj d sync_flag ro_flag del) =
     Some (generic_event obj del, d, if sync_flag then if ro_flag then SEQ_ROSYNC else SEQ_RWSYNC else SEQ_ACTIVE)"
| "requested (At_start_of_simtime obj d) = Some (generic_event obj False, d, SEQ_START)"
| "requested Finish = None"
| "requested Stop = None"

definition pushes :: "request \<Rightarrow> bool" where
  "pushes x \<longleftrightarrow> (\<exists>thr. x = Vthread thr 0 True)"

lemma apply_request_puts:
  assumes "ordered (sched_list st)" "requested x = Some (e, d, q)" "q = SEQ_START \<Longrightarrow> agenda st q (elapsed st + d) = []"
  shows "puts (pushes x) e d q st (apply_request x st)"
proof (cases x)
  case (Vthread thr d' push_flag)
  then show ?thesis using assms schedule_event_push_puts [OF assms(1)]
    by (auto simp: schedule_vthread_def pushes_def intro!: schedule_event_puts)
qed (use assms in \<open>auto simp: pushes_def schedule_assign_vector_def schedule_assign_plucked_vector_def schedule_set_vector_def
  schedule_assign_array_word_def schedule_del_thr_def schedule_generic_def schedule_at_start_of_simtime_def
  intro: schedule_event_puts split: sum.splits\<close>)

section \<open>The invariant\<close>

text \<open>
  The events of a list that belong to a time. What is not true of the events of a queue: that they
  are read-only, deletions, or assignments of a kind that is only made without blocking.
\<close>

definition at_time :: "nat \<Rightarrow> (nat \<times> event) list \<Rightarrow> event list" where
  "at_time t ps = map snd (filter (\<lambda>p. fst p = t) ps)"

lemma at_time_append [simp]: "at_time t (ps @ qs) = at_time t ps @ at_time t qs"
  "at_time t [] = []" "at_time t [(u, e)] = (if u = t then [e] else [])"
  by (simp_all add: at_time_def)

definition fits :: "(event \<Rightarrow> bool) \<Rightarrow> (event \<Rightarrow> bool) \<Rightarrow> event \<Rightarrow> event_queue \<Rightarrow> bool" where
  "fits ro nb e q \<longleftrightarrow> q \<noteq> SEQ_START \<and> (q = SEQ_ROSYNC \<longrightarrow> ro e) \<and> (q = DEL_THREAD \<longrightarrow> (\<exists>thr. e = del_thr_event thr)) \<and>
     (nb e \<longrightarrow> q = SEQ_NBASSIGN)"

definition sched_inv :: "(event \<Rightarrow> bool) \<Rightarrow> (event \<Rightarrow> bool) \<Rightarrow> scheduler \<Rightarrow> bool" where
  "sched_inv ro nb st \<longleftrightarrow>
     ordered (sched_list st) \<and>
     (\<forall>q t. \<forall>e\<in>set (agenda st q t). fits ro (\<lambda>e. nb e \<and> q \<noteq> SEQ_ACTIVE) e q) \<and>
     mset (events_scheduled st) =
       mset (events_run st) + pending st + image_mset (Pair 0) (mset (schedule_init_list st)) \<and>
     (schedule_init_list st \<noteq> [] \<longrightarrow> elapsed st = 0 \<and> (\<forall>e\<in>set (schedule_init_list st). \<not> nb e)) \<and>
     sorted (map fst (events_run st)) \<and> (\<forall>p\<in>set (events_run st). fst p \<le> elapsed st) \<and> schedule_time st = of_nat (elapsed st) \<and>
     (\<forall>t. filter nb (at_time t (events_scheduled st)) =
        filter nb (at_time t (events_run st) @ agenda st SEQ_ACTIVE t @ agenda st SEQ_NBASSIGN t))"

lemma puts_inv:
  assumes "sched_inv ro nb st" "puts front e d q st r" "fits ro nb e q" "front \<longrightarrow> q = SEQ_ACTIVE"
  shows "\<exists>ts. r = Inr (st\<lparr>sched_list := ts, events_scheduled := events_scheduled st @ [(elapsed st + d, e)]\<rparr>) \<and>
    sched_inv ro nb (st\<lparr>sched_list := ts, events_scheduled := events_scheduled st @ [(elapsed st + d, e)]\<rparr>) \<and>
    (at_step (sched_list st) \<longrightarrow> at_step ts) \<and>
    (\<forall>p t. (p, t) \<noteq> (q, elapsed st + d) \<longrightarrow> agenda_of (elapsed st) ts p t = agenda st p t) \<and>
    pending_of (elapsed st) ts = add_mset (elapsed st + d, e) (pending st)"
proof -
  obtain ts where ts: "r = Inr (st\<lparr>sched_list := ts, events_scheduled := events_scheduled st @ [(elapsed st + d, e)]\<rparr>)"
    "ordered ts" "at_step (sched_list st) \<longrightarrow> at_step ts"
    "pending_of (elapsed st) ts = add_mset (elapsed st + d, e) (pending st)"
    "\<forall>p t. agenda_of (elapsed st) ts p t =
           (if p = q \<and> t = elapsed st + d
            then if front then e # agenda st p t else agenda st p t @ [e]
            else agenda st p t)"
    using assms(2) unfolding puts_def by blast
  let ?st = "st\<lparr>sched_list := ts, events_scheduled := events_scheduled st @ [(elapsed st + d, e)]\<rparr>"
  have ag: "agenda ?st p t = (if p = q \<and> t = elapsed st + d
      then if front then e # agenda st p t else agenda st p t @ [e] else agenda st p t)" for p t
    using ts(5) by (simp add: agenda_def)
  have "sched_inv ro nb ?st"
    unfolding sched_inv_def
  proof (intro conjI allI ballI)
    fix p t e' assume "e' \<in> set (agenda ?st p t)"
    then show "fits ro (\<lambda>e. nb e \<and> p \<noteq> SEQ_ACTIVE) e' p"
      using assms(1,3) unfolding ag sched_inv_def fits_def by (fastforce split: if_splits)
  next
    show "mset (events_scheduled ?st) =
       mset (events_run ?st) + pending ?st + image_mset (Pair 0) (mset (schedule_init_list ?st))"
      using assms(1) ts(4) by (simp add: sched_inv_def pending_def)
  next
    fix t
    show "filter nb (at_time t (events_scheduled ?st)) =
        filter nb (at_time t (events_run ?st) @ agenda ?st SEQ_ACTIVE t @ agenda ?st SEQ_NBASSIGN t)"
      using assms(1,3,4) unfolding ag by (auto simp: sched_inv_def fits_def)
  qed (use assms(1) ts(2) in \<open>auto simp: sched_inv_def\<close>)
  then show ?thesis using ts ag by (intro exI [of _ ts]) (auto simp: agenda_def)
qed

section \<open>Requests keep the invariant\<close>

definition legal :: "(event \<Rightarrow> bool) \<Rightarrow> (event \<Rightarrow> bool) \<Rightarrow> request \<Rightarrow> bool" where
  "legal ro nb x \<longleftrightarrow> x = Finish \<or> x = Stop \<or> (\<exists>e d q. requested x = Some (e, d, q) \<and> fits ro nb e q)"

text \<open>A request of a read-only event: nothing else at the current time.\<close>

definition read_only :: "request \<Rightarrow> bool" where
  "read_only x \<longleftrightarrow>
     (case requested x of None \<Rightarrow> True | Some (e, d, q) \<Rightarrow> 0 < d \<or> q = SEQ_ROSYNC \<or> q = DEL_THREAD)"

definition quiet :: "scheduler \<Rightarrow> bool" where
  "quiet st \<longleftrightarrow> (\<forall>q\<in>{SEQ_ACTIVE, SEQ_NBASSIGN, SEQ_RWSYNC}. agenda st q (elapsed st) = [])"

text \<open>What requests do not change.\<close>

definition same :: "scheduler \<Rightarrow> scheduler \<Rightarrow> bool" where
  "same st st' \<longleftrightarrow>
     elapsed st' = elapsed st \<and> schedule_time st' = schedule_time st \<and> schedule_init_list st' = schedule_init_list st \<and>
     events_run st' = events_run st \<and> error_messages st' = error_messages st \<and>
     (at_step (sched_list st) \<longrightarrow> at_step (sched_list st'))"

lemma same_refl [simp]: "same st st"
  by (simp add: same_def)

lemma same_trans: "same a b \<Longrightarrow> same b c \<Longrightarrow> same a c"
  by (simp add: same_def)

lemma sched_inv_cong:
  assumes "sched_list st' = sched_list st" "schedule_init_list st' = schedule_init_list st" "elapsed st' = elapsed st" "schedule_time st' = schedule_time st"
    "events_scheduled st' = events_scheduled st" "events_run st' = events_run st"
  shows "sched_inv ro nb st' = sched_inv ro nb st"
  using assms by (simp add: sched_inv_def agenda_def pending_def)

lemma pushes_fits: "requested x = Some (e, d, q) \<Longrightarrow> pushes x \<longrightarrow> q = SEQ_ACTIVE"
  by (auto simp: pushes_def)

lemma legal_request:
  assumes "sched_inv ro nb st" "legal ro nb x"
  shows "\<exists>st'. apply_request x st = Inr st' \<and> sched_inv ro nb st' \<and> same st st' \<and> (quiet st \<and> read_only x \<longrightarrow> quiet st')"
proof (cases "requested x")
  case None
  then have "x = Finish \<or> x = Stop" using assms(2) by (simp add: legal_def)
  moreover have "sched_inv ro nb (schedule_finish st) = sched_inv ro nb st"
    "sched_inv ro nb (schedule_stop st) = sched_inv ro nb st"
    by (rule sched_inv_cong; simp add: schedule_finish_def schedule_stop_def)+
  ultimately show ?thesis using assms(1)
    by (auto simp: same_def quiet_def agenda_def schedule_finish_def schedule_stop_def)
next
  case (Some p)
  obtain e d q where p: "p = (e, d, q)" by (cases p)
  have f: "fits ro nb e q" using assms(2) Some p by (auto simp: legal_def)
  have "puts (pushes x) e d q st (apply_request x st)"
    using apply_request_puts [of st x e d q] assms(1) Some p f by (simp add: sched_inv_def fits_def)
  then obtain ts where
    ts: "apply_request x st = Inr (st\<lparr>sched_list := ts, events_scheduled := events_scheduled st @ [(elapsed st + d, e)]\<rparr>)"
    "sched_inv ro nb (st\<lparr>sched_list := ts, events_scheduled := events_scheduled st @ [(elapsed st + d, e)]\<rparr>)"
    "at_step (sched_list st) \<longrightarrow> at_step ts"
    "\<forall>p t. (p, t) \<noteq> (q, elapsed st + d) \<longrightarrow> agenda_of (elapsed st) ts p t = agenda st p t"
    using puts_inv [OF assms(1) _ f] pushes_fits [of x e d q] Some p by blast
  moreover have "read_only x \<Longrightarrow> 0 < d \<or> q = SEQ_ROSYNC \<or> q = DEL_THREAD" using Some p by (simp add: read_only_def)
  ultimately have "same st (st\<lparr>sched_list := ts, events_scheduled := events_scheduled st @ [(elapsed st + d, e)]\<rparr>) \<and>
      (quiet st \<and> read_only x \<longrightarrow>
        quiet (st\<lparr>sched_list := ts, events_scheduled := events_scheduled st @ [(elapsed st + d, e)]\<rparr>))"
    by (auto simp: same_def quiet_def agenda_def)
  then show ?thesis using ts(1,2) by blast
qed

lemma legal_requests:
  assumes "sched_inv ro nb st" "\<forall>x\<in>set xs. legal ro nb x"
  shows "\<exists>st'. apply_requests xs st = Inr st' \<and> sched_inv ro nb st' \<and> same st st' \<and>
    (quiet st \<and> (\<forall>x\<in>set xs. read_only x) \<longrightarrow> quiet st')"
  using assms
proof (induction xs arbitrary: st)
  case (Cons x xs)
  obtain st1 where st1: "apply_request x st = Inr st1" "sched_inv ro nb st1" "same st st1"
    "quiet st \<and> read_only x \<longrightarrow> quiet st1"
    using legal_request [OF Cons.prems(1), of x] Cons.prems(2) by auto
  obtain st2 where "apply_requests xs st1 = Inr st2" "sched_inv ro nb st2" "same st1 st2"
    "quiet st1 \<and> (\<forall>x\<in>set xs. read_only x) \<longrightarrow> quiet st2"
    using Cons.IH [OF st1(2)] Cons.prems(2) by auto
  then show ?case using st1 same_trans by (intro exI [of _ st2]) auto
qed simp

section \<open>Running events\<close>

definition legal_client :: "(event \<Rightarrow> bool) \<Rightarrow> (event \<Rightarrow> bool) \<Rightarrow> 's client \<Rightarrow> bool" where
  "legal_client ro nb cl \<longleftrightarrow>
     (\<forall>e t r b s. \<forall>x\<in>set (snd (on_event cl e t r b s)). legal ro nb x \<and> (ro e \<longrightarrow> read_only x)) \<and>
     (\<forall>s. \<forall>x\<in>set (snd (stop_handler cl s)). legal ro nb x) \<and>
     (\<forall>t s. \<forall>x\<in>set (snd (next_sim_time cl t s)). legal ro nb x) \<and>
     (\<forall>s. \<forall>x\<in>set (snd (end_of_compile cl s)). legal ro nb x) \<and>
     (\<forall>s. \<forall>x\<in>set (snd (start_of_sim cl s)). legal ro nb x) \<and>
     (\<forall>s. \<forall>x\<in>set (snd (postsim cl s)). legal ro nb x)"

lemma callback_inv:
  assumes "sched_inv ro nb st" "\<forall>x\<in>set (snd (f s)). legal ro nb x"
  shows "\<exists>st' s'. callback f (st, s) = Inr (st', s') \<and> sched_inv ro nb st' \<and> same st st' \<and>
    (quiet st \<and> (\<forall>x\<in>set (snd (f s)). read_only x) \<longrightarrow> quiet st')"
  using legal_requests [OF assms] by (auto simp: callback_def split: prod.splits)

text \<open>The first event of a queue of the current time.\<close>

lemma head_agenda: "at_step (sched_list st) \<Longrightarrow> head_queue q st = agenda st q (elapsed st)"
  by (cases "sched_list st") (auto simp: at_step_def head_queue_def agenda_def)

lemma pop_effect:
  assumes "at_step (sched_list st)" "head_queue q st = e # es"
  shows "agenda (pop q st) = (\<lambda>p t. if p = q \<and> t = elapsed st then es else agenda st p t)"
    "pending st = add_mset (elapsed st, e) (pending (pop q st))"
    "ordered (sched_list (pop q st)) = ordered (sched_list st)" "at_step (sched_list (pop q st))"
    "elapsed (pop q st) = elapsed st" "schedule_time (pop q st) = schedule_time st" "schedule_init_list (pop q st) = schedule_init_list st"
    "events_run (pop q st) = events_run st" "events_scheduled (pop q st) = events_scheduled st"
    "error_messages (pop q st) = error_messages st"
    "schedule_runnable (pop q st) = schedule_runnable st" "schedule_stopped_flag (pop q st) = schedule_stopped_flag st"
proof -
  obtain c rest where ts: "sched_list st = c # rest" "delay c = 0" using assms(1) by (cases "sched_list st") (auto simp: at_step_def)
  have q: "queue_of q c = e # es" using assms(2) ts by (simp add: head_queue_def)
  have "mset (contents c) = add_mset e (mset (contents (set_queue q es c)))"
    using q by (cases q) (simp_all add: contents_def)
  then show "pending st = add_mset (elapsed st, e) (pending (pop q st))"
    using ts q by (simp add: pending_def pop_def change_head_def)
  show "agenda (pop q st) = (\<lambda>p t. if p = q \<and> t = elapsed st then es else agenda st p t)"
    using ts q by (auto simp: agenda_def pop_def change_head_def fun_eq_iff)
qed (use assms in \<open>auto simp: pop_def change_head_def at_step_def split: list.splits\<close>)

text \<open>The event is taken out of the queue and noted as run.\<close>

definition taken :: "event_queue \<Rightarrow> event \<Rightarrow> scheduler \<Rightarrow> scheduler" where
  "taken q e st = (pop q st)\<lparr>events_run := events_run st @ [(elapsed st, e)]\<rparr>"

lemma taken_inv:
  assumes "sched_inv ro nb st" "at_step (sched_list st)" "head_queue q st = e # es"
    "q = SEQ_ACTIVE \<or> \<not> nb e"
  shows "sched_inv ro nb (taken q e st)"
proof -
  note p = pop_effect [OF assms(2,3)]
  have q: "agenda st q (elapsed st) = e # es" using assms(2,3) head_agenda by metis
  have ag: "agenda (taken q e st) = agenda (pop q st)" by (simp add: agenda_def taken_def)
  show ?thesis
    unfolding sched_inv_def
  proof (intro conjI allI ballI)
    fix p' t e' assume "e' \<in> set (agenda (taken q e st) p' t)"
    then have "e' \<in> set (agenda st p' t)" unfolding ag p(1) using q by (auto split: if_splits)
    then show "fits ro (\<lambda>e. nb e \<and> p' \<noteq> SEQ_ACTIVE) e' p'" using assms(1) by (simp add: sched_inv_def)
  next
    have "pending (taken q e st) = pending (pop q st)" by (simp add: pending_def taken_def)
    then show "mset (events_scheduled (taken q e st)) =
       mset (events_run (taken q e st)) + pending (taken q e st) + image_mset (Pair 0) (mset (schedule_init_list (taken q e st)))"
      using assms(1) p(2,7,8,9) by (simp add: sched_inv_def taken_def)
  next
    show "sorted (map fst (events_run (taken q e st)))"
      using assms(1) by (auto simp: sched_inv_def taken_def sorted_append)
  next
    fix t
    show "filter nb (at_time t (events_scheduled (taken q e st))) =
        filter nb (at_time t (events_run (taken q e st)) @ agenda (taken q e st) SEQ_ACTIVE t @ agenda (taken q e st) SEQ_NBASSIGN t)"
      unfolding ag p(1) using assms(1,4) q p(9) by (auto simp: sched_inv_def taken_def)
  qed (use assms(1) p in \<open>auto simp: sched_inv_def taken_def\<close>)
qed

lemma head_fits:
  assumes "sched_inv ro nb st" "at_step (sched_list st)" "head_queue q st = e # es"
  shows "fits ro (\<lambda>e. nb e \<and> q \<noteq> SEQ_ACTIVE) e q"
proof -
  have "e \<in> set (agenda st q (elapsed st))" using assms(3) by (simp add: head_agenda [OF assms(2), symmetric])
  then show ?thesis using assms(1) by (simp add: sched_inv_def)
qed

lemma run_taken:
  assumes "legal_client ro nb cl" "sched_inv ro nb st" "at_step (sched_list st)" "head_queue q st = e # es"
    "q \<noteq> SEQ_NBASSIGN"
  shows "\<exists>st' s'. run_run cl e (pop q st, s) = Inr (st', s') \<and> sched_inv ro nb st' \<and> same (taken q e st) st' \<and>
    (quiet st \<and> (q = SEQ_ROSYNC \<or> q = DEL_THREAD) \<longrightarrow> quiet st') \<and> (q = DEL_THREAD \<longrightarrow> st' = taken q e st)"
proof -
  note p = pop_effect [OF assms(3,4)] and f = head_fits [OF assms(2-4)]
  have inv: "sched_inv ro nb (taken q e st)"
    using taken_inv [OF assms(2-4)] f assms(5) by (auto simp: fits_def)
  have t: "(pop q st)\<lparr>events_run := events_run (pop q st) @ [(elapsed (pop q st), e)]\<rparr> = taken q e st"
    by (simp add: taken_def p)
  have q: "quiet (taken q e st)" if "quiet st" "q = SEQ_ROSYNC \<or> q = DEL_THREAD"
  proof -
    have "agenda (taken q e st) = agenda (pop q st)" "elapsed (taken q e st) = elapsed st"
      by (simp_all add: agenda_def taken_def p(5))
    then show ?thesis using that p(1) by (auto simp: quiet_def)
  qed
  show ?thesis
  proof (cases "\<exists>thr. e = del_thr_event thr")
    case True
    then show ?thesis using inv q by (auto simp: run_run_def t)
  next
    case False
    let ?f = "on_event cl e (schedule_time (taken q e st)) (schedule_runnable (taken q e st)) (schedule_stopped_flag (taken q e st))"
    have run: "run_run cl e (pop q st, s) = callback ?f (taken q e st, s)"
      using False unfolding run_run_def prod.case Let_def t by (simp add: taken_def split: event.split)
    have l: "\<forall>x\<in>set (snd (?f s)). legal ro nb x \<and> (ro e \<longrightarrow> read_only x)"
      using assms(1) by (simp add: legal_client_def)
    then obtain st' s' where "callback ?f (taken q e st, s) = Inr (st', s')" "sched_inv ro nb st'" "same (taken q e st) st'"
      "quiet (taken q e st) \<and> (\<forall>x\<in>set (snd (?f s)). read_only x) \<longrightarrow> quiet st'"
      using callback_inv [OF inv, of ?f s] by blast
    then show ?thesis using q f l False unfolding run by (auto simp: fits_def)
  qed
qed

lemma drain_inv:
  assumes "\<And>sim e es. I sim \<Longrightarrow> head_queue q (fst sim) = e # es \<Longrightarrow>
      \<exists>sim'. run_run cl e (pop q (fst sim), snd sim) = Inr sim' \<and> I sim'"
  shows "I sim \<Longrightarrow> drain fuel cl q sim = Some r \<Longrightarrow> \<exists>sim'. r = Inr sim' \<and> I sim' \<and> head_queue q (fst sim') = []"
proof (induction fuel arbitrary: sim)
  case (Suc fuel)
  show ?case
  proof (cases "head_queue q (fst sim)")
    case Nil
    then show ?thesis using Suc.prems by (intro exI [of _ sim]) simp
  next
    case (Cons e es)
    then obtain sim' where "run_run cl e (pop q (fst sim), snd sim) = Inr sim'" "I sim'"
      using assms Suc.prems(1) by blast
    then show ?thesis using Suc.IH Suc.prems(2) Cons by (simp add: bind_run_def)
  qed
qed simp

text \<open>What holds at a time step while it is processed.\<close>

definition in_step :: "(event \<Rightarrow> bool) \<Rightarrow> (event \<Rightarrow> bool) \<Rightarrow> scheduler \<Rightarrow> scheduler \<Rightarrow> bool" where
  "in_step ro nb st0 st \<longleftrightarrow>
     sched_inv ro nb st \<and> at_step (sched_list st) \<and> elapsed st = elapsed st0 \<and> schedule_time st = schedule_time st0 \<and>
     schedule_init_list st = schedule_init_list st0 \<and> error_messages st = error_messages st0 \<and>
     (\<exists>ps. events_run st = events_run st0 @ ps)"

lemma same_in_step:
  assumes "in_step ro nb st0 st" "sched_inv ro nb st'" "same (taken q e st) st'" "head_queue q st = e # es"
  shows "in_step ro nb st0 st'"
proof -
  have "at_step (sched_list st)" using assms(1) by (simp add: in_step_def)
  note p = pop_effect [OF this assms(4)]
  show ?thesis using assms(1-3) p by (auto simp: in_step_def same_def taken_def)
qed

lemma run_in_step:
  assumes "legal_client ro nb cl" "in_step ro nb st0 st" "head_queue q st = e # es" "q \<noteq> SEQ_NBASSIGN"
  shows "\<exists>st' s'. run_run cl e (pop q st, s) = Inr (st', s') \<and> in_step ro nb st0 st' \<and>
    (quiet st \<and> (q = SEQ_ROSYNC \<or> q = DEL_THREAD) \<longrightarrow> quiet st') \<and>
    (q = DEL_THREAD \<and> head_queue SEQ_ROSYNC st = [] \<longrightarrow> head_queue SEQ_ROSYNC st' = [])"
proof -
  have st: "sched_inv ro nb st" "at_step (sched_list st)" using assms(2) by (simp_all add: in_step_def)
  obtain st' s' where r: "run_run cl e (pop q st, s) = Inr (st', s')" "sched_inv ro nb st'" "same (taken q e st) st'"
    "quiet st \<and> (q = SEQ_ROSYNC \<or> q = DEL_THREAD) \<longrightarrow> quiet st'" "q = DEL_THREAD \<longrightarrow> st' = taken q e st"
    using run_taken [OF assms(1) st assms(3,4)] by blast
  have "in_step ro nb st0 st'" using same_in_step [OF assms(2) r(2,3) assms(3)] .
  moreover have "head_queue SEQ_ROSYNC (taken DEL_THREAD e st) = head_queue SEQ_ROSYNC st"
    by (cases "sched_list st") (simp_all add: head_queue_def taken_def pop_def change_head_def)
  ultimately show ?thesis using r by auto
qed

text \<open>The end of a time step: nothing is lost.\<close>

lemma run_rosync_inv:
  assumes "legal_client ro nb cl" "in_step ro nb st0 st" "quiet st" "run_rosync fuel cl (st, s) = Some r"
  shows "\<exists>st' s'. r = Inr (st', s') \<and> in_step ro nb st0 st' \<and> (\<forall>q. head_queue q st' = [])"
proof -
  let ?I = "\<lambda>sim :: 'a simulation. in_step ro nb st0 (fst sim) \<and> quiet (fst sim)"
  have I: "?I (st, s)" using assms(2,3) by simp
  obtain r1 where d1: "drain fuel cl SEQ_ROSYNC (st, s) = Some r1"
    using assms(4) by (auto simp: run_rosync_def bind_run_def split: option.splits)
  have "\<exists>sim'. r1 = Inr sim' \<and> ?I sim' \<and> head_queue SEQ_ROSYNC (fst sim') = []"
  proof (rule drain_inv [where I = ?I, OF _ I d1])
    fix sim e es assume "?I sim" "head_queue SEQ_ROSYNC (fst sim) = e # es"
    then show "\<exists>sim'. run_run cl e (pop SEQ_ROSYNC (fst sim), snd sim) = Inr sim' \<and> ?I sim'"
      using run_in_step [OF assms(1), of st0 "fst sim" SEQ_ROSYNC e es "snd sim"] by auto
  qed
  then obtain sim1 where s1: "r1 = Inr sim1" "?I sim1" "head_queue SEQ_ROSYNC (fst sim1) = []" by blast
  let ?J = "\<lambda>sim :: 'a simulation. ?I sim \<and> head_queue SEQ_ROSYNC (fst sim) = []"
  obtain r2 where d2: "drain fuel cl DEL_THREAD sim1 = Some r2"
    using assms(4) d1 s1(1) by (auto simp: run_rosync_def bind_run_def split: option.splits)
  have J: "?J sim1" using s1 by simp
  have "\<exists>sim'. r2 = Inr sim' \<and> ?J sim' \<and> head_queue DEL_THREAD (fst sim') = []"
  proof (rule drain_inv [where I = ?J, OF _ J d2])
    fix sim e es assume "?J sim" "head_queue DEL_THREAD (fst sim) = e # es"
    then show "\<exists>sim'. run_run cl e (pop DEL_THREAD (fst sim), snd sim) = Inr sim' \<and> ?J sim'"
      using run_in_step [OF assms(1), of st0 "fst sim" DEL_THREAD e es "snd sim"] by auto
  qed
  then obtain st2 s2 where s2: "r2 = Inr (st2, s2)" "in_step ro nb st0 st2" "quiet st2"
    "head_queue SEQ_ROSYNC st2 = []" "head_queue DEL_THREAD st2 = []" by auto
  have inv: "sched_inv ro nb st2" "at_step (sched_list st2)" using s2(2) by (simp_all add: in_step_def)
  have empty: "head_queue q st2 = []" for q
    using s2(3-5) head_fits [OF inv, of SEQ_START] unfolding quiet_def head_agenda [OF inv(2), symmetric]
    by (cases q; cases "head_queue SEQ_START st2") (auto simp: fits_def)
  then have "r = Inr (st2, s2)"
    using assms(4) d1 d2 s1(1) s2(1) by (simp add: run_rosync_def bind_run_def)
  then show ?thesis using s2(2) empty by blast
qed

section \<open>The main loop\<close>

lemma sched_inv_agenda:
  assumes "sched_inv ro nb st" "ordered (sched_list st')" "agenda st' = agenda st" "pending st' = pending st"
    "schedule_init_list st' = schedule_init_list st" "events_scheduled st' = events_scheduled st" "events_run st' = events_run st"
    "elapsed st \<le> elapsed st'" "schedule_init_list st = [] \<or> elapsed st' = 0" "schedule_time st' = of_nat (elapsed st')"
  shows "sched_inv ro nb st'"
  using assms unfolding sched_inv_def by (auto intro: order_trans)

lemma start_empty:
  assumes "sched_inv ro nb st" "at_step (sched_list st)"
  shows "head_queue SEQ_START st = []"
  using head_fits [OF assms, of SEQ_START] by (cases "head_queue SEQ_START st") (auto simp: fits_def)

lemma advance_time_inv:
  assumes "legal_client ro nb cl" "sched_inv ro nb st" "sched_list st \<noteq> []" "schedule_init_list st = []"
    "advance_time fuel cl (st, s) = Some r"
  shows "\<exists>st' s'. r = Inr (st', s') \<and> sched_inv ro nb st' \<and> at_step (sched_list st') \<and> schedule_init_list st' = [] \<and>
    error_messages st' = error_messages st \<and> events_run st' = events_run st \<and> elapsed st \<le> elapsed st'"
proof -
  obtain c rest where ts: "sched_list st = c # rest" using assms(3) by (cases "sched_list st") auto
  show ?thesis
  proof (cases "0 < delay c")
    case False
    then show ?thesis using assms ts by (auto simp: advance_time_def at_step_def)
  next
    case True
    let ?st1 = "change_head (\<lambda>c. c\<lparr>delay := 0\<rparr>) (st\<lparr>schedule_time := schedule_time st + of_nat (delay c), elapsed := elapsed st + delay c\<rparr>)"
    have "sched_inv ro nb ?st1"
      by (rule sched_inv_agenda [OF assms(2)])
        (use ts assms(2,4) in \<open>auto simp: change_head_def agenda_def pending_def fun_eq_iff sched_inv_def\<close>)
    moreover have "\<forall>x\<in>set (snd (next_sim_time cl (schedule_time ?st1) s)). legal ro nb x"
      using assms(1) by (simp add: legal_client_def)
    ultimately obtain st2 s2 where st2: "callback (next_sim_time cl (schedule_time ?st1)) (?st1, s) = Inr (st2, s2)"
      "sched_inv ro nb st2" "same ?st1 st2"
      using callback_inv [of ro nb ?st1 "next_sim_time cl (schedule_time ?st1)" s] by blast
    have step: "at_step (sched_list st2)" using st2(3) ts by (simp add: same_def at_step_def change_head_def)
    have "r = Inr (st2, s2)"
      using assms(5) True ts st2(1) start_empty [OF st2(2) step]
      by (cases fuel) (simp_all add: advance_time_def bind_run_def Let_def)
    then show ?thesis using st2 step assms(4) ts by (auto simp: same_def change_head_def)
  qed
qed

lemma advance_queues_inv:
  assumes "sched_inv ro nb st" "at_step (sched_list st)"
  shows "in_step ro nb st (change_head advance_queues st)"
    "head_queue SEQ_ACTIVE (change_head advance_queues st) = [] \<Longrightarrow> quiet (change_head advance_queues st)"
proof -
  let ?st = "change_head advance_queues st"
  obtain c rest where ts: "sched_list st = c # rest" "delay c = 0"
    using assms(2) by (cases "sched_list st") (auto simp: at_step_def)
  let ?now = "elapsed st"
  have step: "at_step (sched_list ?st)" using ts by (simp add: at_step_def change_head_def advance_queues_def)
  have head: "queue_of q c = agenda st q ?now" for q using ts by (simp add: agenda_def)
  have other: "agenda ?st q t = agenda st q t" if "t \<noteq> ?now" for q t
    using that ts by (simp add: agenda_def change_head_def advance_queues_def)
  have at: "agenda ?st q ?now = queue_of q (advance_queues c)" for q
    using ts by (simp add: agenda_def change_head_def advance_queues_def)
  have keeps: "agenda ?st SEQ_ACTIVE t @ agenda ?st SEQ_NBASSIGN t =
      (if agenda st SEQ_ACTIVE t @ agenda st SEQ_NBASSIGN t = [] \<and> t = ?now then agenda st SEQ_RWSYNC t
       else agenda st SEQ_ACTIVE t @ agenda st SEQ_NBASSIGN t)" for t
    using other [of t] at head [of SEQ_ACTIVE] head [of SEQ_NBASSIGN] head [of SEQ_RWSYNC]
    by (cases "t = ?now") (auto simp: advance_queues_def)
  have fit: "fits ro (\<lambda>e. nb e \<and> q \<noteq> SEQ_ACTIVE) e q" if "e \<in> set (agenda st q t)" for e q t
    using that assms(1) by (simp add: sched_inv_def)
  have rw: "filter nb (agenda st SEQ_RWSYNC t) = []" for t
    using fit [of _ SEQ_RWSYNC t] by (auto simp: fits_def filter_empty_conv)
  have "sched_inv ro nb ?st"
    unfolding sched_inv_def
  proof (intro conjI allI ballI)
    fix q t e assume e: "e \<in> set (agenda ?st q t)"
    show "fits ro (\<lambda>e. nb e \<and> q \<noteq> SEQ_ACTIVE) e q"
    proof (cases "q = SEQ_ACTIVE")
      case False
      then have "e \<in> set (agenda st q t)"
        using e other [of t q] at head [of q] by (cases "t = ?now"; cases q) (auto simp: advance_queues_def split: if_splits)
      then show ?thesis by (rule fit)
    qed (simp add: fits_def)
  next
    have "mset (contents (advance_queues c)) = mset (contents c)"
      by (auto simp: contents_def advance_queues_def)
    then have "pending ?st = pending st"
      using ts by (simp add: pending_def change_head_def advance_queues_def)
    then show "mset (events_scheduled ?st) =
       mset (events_run ?st) + pending ?st + image_mset (Pair 0) (mset (schedule_init_list ?st))"
      using assms(1) ts by (simp add: sched_inv_def change_head_def)
  next
    fix t
    have "filter nb (agenda ?st SEQ_ACTIVE t @ agenda ?st SEQ_NBASSIGN t) =
        filter nb (agenda st SEQ_ACTIVE t @ agenda st SEQ_NBASSIGN t)"
      unfolding keeps using rw [of t] by auto
    then show "filter nb (at_time t (events_scheduled ?st)) =
        filter nb (at_time t (events_run ?st) @ agenda ?st SEQ_ACTIVE t @ agenda ?st SEQ_NBASSIGN t)"
      using assms(1) ts by (simp add: sched_inv_def change_head_def)
  qed (use assms(1) ts in \<open>auto simp: sched_inv_def change_head_def advance_queues_def\<close>)
  then show "in_step ro nb st ?st" using step ts by (auto simp: in_step_def change_head_def)
  have "elapsed ?st = ?now" using ts by (simp add: change_head_def)
  then show "head_queue SEQ_ACTIVE ?st = [] \<Longrightarrow> quiet ?st"
    using at unfolding head_agenda [OF step] by (auto simp: quiet_def advance_queues_def split: if_splits)
qed

lemma remove_step:
  assumes "sched_inv ro nb st" "at_step (sched_list st)" "\<forall>q. head_queue q st = []"
  shows "sched_inv ro nb (st\<lparr>sched_list := tl (sched_list st)\<rparr>)" "pending (st\<lparr>sched_list := tl (sched_list st)\<rparr>) = pending st"
proof -
  obtain c rest where ts: "sched_list st = c # rest" "delay c = 0"
    using assms(2) by (cases "sched_list st") (auto simp: at_step_def)
  have q: "queue_of q c = []" for q using assms(3) ts by (simp add: head_queue_def)
  have "contents c = []"
    using q [of SEQ_START] q [of SEQ_ACTIVE] q [of SEQ_NBASSIGN] q [of SEQ_RWSYNC] q [of SEQ_ROSYNC] q [of DEL_THREAD]
    by (simp add: contents_def)
  then show p: "pending (st\<lparr>sched_list := tl (sched_list st)\<rparr>) = pending st" using ts by (simp add: pending_def)
  have ord: "\<forall>c\<in>set rest. 0 < delay c" using assms(1) ts by (simp add: sched_inv_def)
  have "agenda (st\<lparr>sched_list := tl (sched_list st)\<rparr>) = agenda st"
    using ts q agenda_later [OF ord] by (auto simp: agenda_def fun_eq_iff)
  then show "sched_inv ro nb (st\<lparr>sched_list := tl (sched_list st)\<rparr>)"
    by (intro sched_inv_agenda [OF assms(1)]) (use ts p assms(1) ordered_Cons in \<open>auto simp: sched_inv_def\<close>)
qed

lemma run_step_inv:
  assumes "legal_client ro nb cl" "sched_inv ro nb st" "at_step (sched_list st)" "run_step fuel cl (st, s) = Some r"
  shows "\<exists>st' s'. r = Inr (st', s') \<and> sched_inv ro nb st' \<and> schedule_init_list st' = schedule_init_list st \<and>
    error_messages st' = error_messages st \<and> elapsed st' = elapsed st \<and>
    (\<exists>ps. events_run st' = events_run st @ ps)"
proof -
  let ?st1 = "change_head advance_queues st"
  note a = advance_queues_inv [OF assms(2,3)]
  show ?thesis
  proof (cases "head_queue SEQ_ACTIVE ?st1")
    case Nil
    obtain r1 where r1: "run_rosync fuel cl (?st1, s) = Some r1"
      using assms(4) Nil by (auto simp: run_step_def bind_run_def split: option.splits)
    then obtain st2 s2 where s2: "r1 = Inr (st2, s2)" "in_step ro nb st st2" "\<forall>q. head_queue q st2 = []"
      using run_rosync_inv [OF assms(1) a(1) a(2) [OF Nil]] by blast
    then have inv: "sched_inv ro nb st2" "at_step (sched_list st2)" by (simp_all add: in_step_def)
    have "r = Inr (st2\<lparr>sched_list := tl (sched_list st2)\<rparr>, s2)"
      using assms(4) Nil r1 s2(1) by (simp add: run_step_def bind_run_def)
    then show ?thesis using remove_step(1) [OF inv s2(3)] s2(2) by (simp add: in_step_def)
  next
    case (Cons e es)
    obtain st2 s2 where s2: "run_run cl e (pop SEQ_ACTIVE ?st1, s) = Inr (st2, s2)" "in_step ro nb st st2"
      using run_in_step [OF assms(1) a(1) Cons, of s] by auto
    have "r = Inr (st2, s2)" using assms(4) Cons s2(1) by (simp add: run_step_def)
    then show ?thesis using s2(2) by (simp add: in_step_def)
  qed
qed

definition idle :: "(event \<Rightarrow> bool) \<Rightarrow> (event \<Rightarrow> bool) \<Rightarrow> scheduler \<Rightarrow> bool" where
  "idle ro nb st \<longleftrightarrow> sched_inv ro nb st \<and> schedule_init_list st = []"

lemma idle_callback:
  assumes "idle ro nb st" "\<forall>x\<in>set (snd (f s)). legal ro nb x"
  shows "\<exists>st' s'. callback f (st, s) = Inr (st', s') \<and> idle ro nb st' \<and> same st st'"
  using callback_inv [of ro nb st f s] assms by (auto simp: idle_def same_def)

lemma main_round_inv:
  assumes "legal_client ro nb cl" "idle ro nb st" "main_round fuel cl (st, s) = Some r"
  shows "\<exists>st' s' done. r = Inr ((st', s'), done) \<and> idle ro nb st' \<and> error_messages st' = error_messages st \<and>
    (done \<longrightarrow> sched_list st' = [] \<or> \<not> schedule_runnable st')"
proof (cases "sched_list st = [] \<or> \<not> schedule_stopped_flag st \<and> 0 < delay (hd (sched_list st)) \<and> \<not> schedule_runnable st")
  case True
  then have "r = Inr ((st, s), True)" "sched_list st = [] \<or> \<not> schedule_runnable st"
    using assms(3) by (auto simp: main_round_def split: list.splits)
  then show ?thesis using assms(2) by auto
next
  case False
  then obtain c rest where ts: "sched_list st = c # rest" by (cases "sched_list st") auto
  show ?thesis
  proof (cases "schedule_stopped_flag st")
    case True
    have "idle ro nb (st\<lparr>schedule_stopped_flag := False\<rparr>)"
      using assms(2) by (simp add: idle_def sched_inv_def agenda_def pending_def)
    moreover have "\<forall>x\<in>set (snd (stop_handler cl s)). legal ro nb x" using assms(1) by (simp add: legal_client_def)
    ultimately obtain st' s' where "callback (stop_handler cl) (st\<lparr>schedule_stopped_flag := False\<rparr>, s) = Inr (st', s')"
      "idle ro nb st'" "same (st\<lparr>schedule_stopped_flag := False\<rparr>) st'"
      using idle_callback [where f = "stop_handler cl" and s = s and st = "st\<lparr>schedule_stopped_flag := False\<rparr>"] by blast
    then show ?thesis using assms(3) ts True by (auto simp: main_round_def bind_run_def same_def)
  next
    case not_stopped: False
    have inv: "sched_inv ro nb st" "schedule_init_list st = []" using assms(2) by (simp_all add: idle_def)
    have op: "bind_run (advance_time fuel cl (st, s)) (\<lambda>sim. bind_run (run_step fuel cl sim) (\<lambda>sim. Some (Inr (sim, False)))) = Some r"
      using assms(3) ts not_stopped False by (auto simp: main_round_def split: if_splits)
    then obtain r1 where r1: "advance_time fuel cl (st, s) = Some r1" by (auto simp: bind_run_def split: option.splits)
    then obtain st1 s1 where s1: "r1 = Inr (st1, s1)" "sched_inv ro nb st1" "at_step (sched_list st1)"
      "schedule_init_list st1 = []" "error_messages st1 = error_messages st"
      using advance_time_inv [OF assms(1) inv(1) _ inv(2) r1] ts by auto
    obtain r2 where r2: "run_step fuel cl (st1, s1) = Some r2"
      using op r1 s1(1) by (auto simp: bind_run_def split: option.splits)
    then obtain st2 s2 where s2: "r2 = Inr (st2, s2)" "sched_inv ro nb st2" "schedule_init_list st2 = schedule_init_list st1"
      "error_messages st2 = error_messages st1"
      using run_step_inv [OF assms(1) s1(2,3)] by blast
    have "r = Inr ((st2, s2), False)" using op r1 s1(1) r2 s2(1) by (simp add: bind_run_def)
    then show ?thesis using s1 s2 by (intro exI [of _ st2] exI [of _ s2] exI [of _ False]) (simp add: idle_def)
  qed
qed

lemma main_loop_inv:
  assumes "legal_client ro nb cl"
  shows "idle ro nb (fst sim) \<Longrightarrow> main_loop fuel cl sim = Some r \<Longrightarrow>
    \<exists>st' s'. r = Inr (st', s') \<and> idle ro nb st' \<and> error_messages st' = error_messages (fst sim) \<and>
      (sched_list st' = [] \<or> \<not> schedule_runnable st')"
proof (induction fuel arbitrary: sim)
  case (Suc fuel)
  obtain st s where sim: "sim = (st, s)" by (cases sim)
  obtain r1 where r1: "main_round fuel cl (st, s) = Some r1"
    using Suc.prems(2) sim by (auto simp: bind_run_def split: option.splits)
  then obtain st1 s1 fin where s1: "r1 = Inr ((st1, s1), fin)" "idle ro nb st1" "error_messages st1 = error_messages st"
    "fin \<longrightarrow> sched_list st1 = [] \<or> \<not> schedule_runnable st1"
    using main_round_inv [OF assms _ r1] Suc.prems(1) sim by auto
  show ?case
  proof (cases fin)
    case True
    then show ?thesis using Suc.prems(2) sim r1 s1 by (auto simp: bind_run_def)
  next
    case False
    then have "main_loop fuel cl (st1, s1) = Some r" using Suc.prems(2) sim r1 s1(1) by (simp add: bind_run_def)
    then show ?thesis using Suc.IH [of "(st1, s1)"] s1(2,3) sim by simp
  qed
qed simp

lemma run_init_inv:
  assumes "legal_client ro nb cl"
  shows "sched_inv ro nb (fst sim) \<Longrightarrow> length (schedule_init_list (fst sim)) < fuel \<Longrightarrow>
    \<exists>st' s'. run_init fuel cl sim = Some (Inr (st', s')) \<and> idle ro nb st' \<and> error_messages st' = error_messages (fst sim)"
proof (induction fuel arbitrary: sim)
  case (Suc fuel)
  obtain st s where sim: "sim = (st, s)" by (cases sim)
  show ?case
  proof (cases "schedule_init_list st")
    case Nil
    then show ?thesis using Suc.prems sim by (auto simp: idle_def)
  next
    case (Cons e es)
    let ?st = "st\<lparr>schedule_init_list := es, events_run := events_run st @ [(elapsed st, e)]\<rparr>"
    have inv: "sched_inv ro nb ?st"
      using Suc.prems(1) sim Cons by (auto simp: sched_inv_def agenda_def pending_def sorted_append)
    have "\<exists>st' s'. run_run cl e (st\<lparr>schedule_init_list := es\<rparr>, s) = Inr (st', s') \<and> sched_inv ro nb st' \<and> same ?st st'"
    proof (cases "\<exists>thr. e = del_thr_event thr")
      case True
      then show ?thesis using inv by (auto simp: run_run_def)
    next
      case False
      let ?f = "on_event cl e (schedule_time st) (schedule_runnable st) (schedule_stopped_flag st)"
      have "run_run cl e (st\<lparr>schedule_init_list := es\<rparr>, s) = callback ?f (?st, s)"
        using False by (simp add: run_run_def Let_def split: event.split)
      moreover have "\<forall>x\<in>set (snd (?f s)). legal ro nb x" using assms by (simp add: legal_client_def)
      ultimately show ?thesis using callback_inv [OF inv, of ?f s] by auto
    qed
    then obtain st' s' where r: "run_run cl e (st\<lparr>schedule_init_list := es\<rparr>, s) = Inr (st', s')" "sched_inv ro nb st'"
      "same ?st st'" by blast
    then show ?thesis using Suc.IH [of "(st', s')"] Suc.prems(2) Cons sim by (auto simp: same_def bind_run_def)
  qed
qed simp

lemma run_init_mono: "run_init fuel cl sim = Some r \<Longrightarrow> fuel \<le> fuel' \<Longrightarrow> run_init fuel' cl sim = Some r"
proof (induction fuel arbitrary: sim fuel')
  case (Suc fuel)
  obtain f where f: "fuel' = Suc f" "fuel \<le> f" using Suc.prems(2) by (cases fuel') auto
  show ?case using Suc.prems(1) Suc.IH [OF _ f(2)] unfolding f(1)
    by (cases sim) (auto simp: bind_run_def split: list.splits sum.splits)
qed simp

lemma start_inv:
  assumes "legal_client ro nb cl" "sched_inv ro nb st0" "elapsed st0 = 0" "schedule_time st0 = 0"
    "length (schedule_init_list st0) = n"
  shows "\<exists>st s. (\<forall>fuel>n. start_simulation fuel cl (st0, s0) = Some (Inr (st, s))) \<and> idle ro nb st \<and>
    error_messages st = error_messages st0"
proof -
  have l: "\<forall>x\<in>set (snd (end_of_compile cl s)). legal ro nb x" "\<forall>x\<in>set (snd (start_of_sim cl s)). legal ro nb x"
    for s using assms(1) by (simp_all add: legal_client_def)
  have st0: "st0\<lparr>schedule_time := 0, elapsed := 0\<rparr> = st0" using assms(3,4) by (cases st0) simp
  obtain st1 s1 where s1: "callback (end_of_compile cl) (st0, s0) = Inr (st1, s1)" "sched_inv ro nb st1" "same st0 st1"
    using callback_inv [where f = "end_of_compile cl" and s = s0, OF assms(2) l(1)] by blast
  have n: "length (schedule_init_list (fst (st1, s1))) < Suc n" using s1(3) assms(5) by (simp add: same_def)
  obtain st2 s2 where s2: "run_init (Suc n) cl (st1, s1) = Some (Inr (st2, s2))" "idle ro nb st2" "error_messages st2 = error_messages st1"
    using run_init_inv [OF assms(1) _ n] s1(2) by auto
  obtain st3 s3 where s3: "callback (start_of_sim cl) (st2, s2) = Inr (st3, s3)" "idle ro nb st3" "same st2 st3"
    using idle_callback [where f = "start_of_sim cl" and s = s2, OF s2(2) l(2)] by blast
  have "start_simulation fuel cl (st0, s0) = Some (Inr (st3, s3))" if "n < fuel" for fuel
    using run_init_mono [OF s2(1), of fuel] that st0 s1(1) s3(1) by (simp add: start_simulation_def bind_run_def)
  then show ?thesis using s1(3) s2(3) s3(2,3) by (intro exI [of _ st3] exI [of _ s3]) (simp add: same_def)
qed

lemma start_mono:
  assumes "start_simulation fuel cl sim = Some r" "fuel \<le> fuel'"
  shows "start_simulation fuel' cl sim = Some r"
proof (cases "callback (end_of_compile cl) (fst sim\<lparr>schedule_time := 0, elapsed := 0\<rparr>, snd sim)")
  case (Inl e)
  then have "start_simulation f cl sim = Some (Inl e)" for f by (simp add: start_simulation_def bind_run_def)
  then show ?thesis using assms(1) by simp
next
  case (Inr sim1)
  obtain r1 where r1: "run_init fuel cl sim1 = Some r1"
    using assms(1) Inr by (auto simp: start_simulation_def bind_run_def split: option.splits)
  then show ?thesis using assms(1) Inr run_init_mono [OF r1 assms(2)] by (simp add: start_simulation_def bind_run_def)
qed

lemma simulate_inv:
  assumes "legal_client ro nb cl" "sched_inv ro nb st0" "elapsed st0 = 0" "schedule_time st0 = 0"
    "schedule_simulate fuel cl (st0, s0) = Some r"
  shows "\<exists>st s. r = Inr (st, s) \<and> idle ro nb st \<and> error_messages st = error_messages st0 \<and>
    ((\<forall>s. snd (postsim cl s) = []) \<and> schedule_runnable st \<longrightarrow> sched_list st = [])"
proof -
  have l: "\<forall>x\<in>set (snd (postsim cl s)). legal ro nb x" for s using assms(1) by (simp add: legal_client_def)
  obtain st3 s3 where s3: "\<forall>f>length (schedule_init_list st0). start_simulation f cl (st0, s0) = Some (Inr (st3, s3))"
    "idle ro nb st3" "error_messages st3 = error_messages st0" using start_inv [OF assms(1-4) refl] by blast
  obtain r3 where r3: "start_simulation fuel cl (st0, s0) = Some r3"
    using assms(5) by (auto simp: schedule_simulate_def bind_run_def split: option.splits)
  have "r3 = Inr (st3, s3)"
    using start_mono [OF r3, of "fuel + Suc (length (schedule_init_list st0))"] s3(1) by simp
  then have op: "bind_run (if schedule_runnable st3 then main_loop fuel cl (st3, s3) else Some (Inr (st3, s3))) (\<lambda>sim.
      Some (callback (postsim cl) sim)) = Some r"
    using r3 assms(5) by (simp add: schedule_simulate_def bind_run_def)
  obtain st4 s4 where s4: "(if schedule_runnable st3 then main_loop fuel cl (st3, s3) else Some (Inr (st3, s3))) = Some (Inr (st4, s4))"
    "idle ro nb st4" "error_messages st4 = error_messages st3" "sched_list st4 = [] \<or> \<not> schedule_runnable st4"
  proof (cases "schedule_runnable st3")
    case True
    then obtain r4 where "main_loop fuel cl (st3, s3) = Some r4" using op by (auto simp: bind_run_def split: option.splits)
    then show ?thesis using that True main_loop_inv [OF assms(1), of "(st3, s3)" fuel r4] s3(2) by auto
  next
    case False
    then show ?thesis using that s3(2) by simp
  qed
  obtain st5 s5 where s5: "callback (postsim cl) (st4, s4) = Inr (st5, s5)" "idle ro nb st5" "same st4 st5"
    using idle_callback [where f = "postsim cl" and s = s4, OF s4(2) l] by blast
  have "r = Inr (st5, s5)" using op s4(1) s5(1) by (simp add: bind_run_def)
  moreover have "error_messages st5 = error_messages st0" using s3(3) s4(3) s5(3) by (simp add: same_def)
  moreover have "st5 = st4" if "\<forall>s. snd (postsim cl s) = []"
    using s5(1) that by (cases "postsim cl s4") (auto simp: callback_def dest: spec [of _ s4])
  ultimately show ?thesis using s5(2) s4(4) by auto
qed

text \<open>The states after any number of rounds of the main loop.\<close>

inductive reaches :: "'s client \<Rightarrow> 's simulation \<Rightarrow> 's simulation \<Rightarrow> bool" for cl where
  reaches_refl: "reaches cl sim sim"
| reaches_step: "main_round fuel cl sim = Some (Inr (sim1, False)) \<Longrightarrow> reaches cl sim1 sim2 \<Longrightarrow> reaches cl sim sim2"

lemma reaches_inv:
  assumes "reaches cl sim sim'" "legal_client ro nb cl" "idle ro nb (fst sim)"
  shows "idle ro nb (fst sim') \<and> error_messages (fst sim') = error_messages (fst sim)"
  using assms(1,3)
proof induction
  case (reaches_step fuel sim sim1 sim2)
  then show ?case using main_round_inv [OF assms(2), of "fst sim" fuel "snd sim"] by auto
qed simp

lemma main_round_never_fails:
  "legal_client ro nb cl \<Longrightarrow> idle ro nb st \<Longrightarrow> main_round fuel cl (st, s) \<noteq> Some (Inl e)"
  using main_round_inv [of ro nb cl st fuel s "Inl e"] by auto

section \<open>What a simulation does\<close>

text \<open>The events that the compiler schedules before the simulation starts.\<close>

definition set_up :: "request list \<Rightarrow> (nat \<times> vector4) list \<Rightarrow> scheduler result" where
  "set_up rs ivs =
     bind_result (apply_requests rs new_scheduler) (\<lambda>st. Inr (fold (\<lambda>(ptr, v). schedule_init_vector ptr v) ivs st))"

definition fresh :: "scheduler \<Rightarrow> bool" where
  "fresh st \<longleftrightarrow> elapsed st = 0 \<and> schedule_time st = 0 \<and> error_messages st = []"

lemma init_vector_inv:
  assumes "sched_inv ro nb st" "fresh st" "\<not> nb (assign_vector4_event ptr v 0 0)"
  shows "sched_inv ro nb (schedule_init_vector ptr v st)" "fresh (schedule_init_vector ptr v st)"
    "length (schedule_init_list (schedule_init_vector ptr v st)) = length (schedule_init_list st) + 1"
  using assms by (auto simp: schedule_init_vector_def sched_inv_def agenda_def pending_def fresh_def)

lemma init_vectors_inv:
  assumes "sched_inv ro nb st" "fresh st" "\<forall>p\<in>set ivs. \<not> nb (assign_vector4_event (fst p) (snd p) 0 0)"
  shows "sched_inv ro nb (fold (\<lambda>(ptr, v). schedule_init_vector ptr v) ivs st) \<and>
    fresh (fold (\<lambda>(ptr, v). schedule_init_vector ptr v) ivs st) \<and>
    length (schedule_init_list (fold (\<lambda>(ptr, v). schedule_init_vector ptr v) ivs st)) = length (schedule_init_list st) + length ivs"
  using assms by (induction ivs arbitrary: st) (auto simp: init_vector_inv)

lemma set_up_inv:
  assumes "\<forall>x\<in>set rs. legal ro nb x" "\<forall>p\<in>set ivs. \<not> nb (assign_vector4_event (fst p) (snd p) 0 0)"
    "set_up rs ivs = Inr st0"
  shows "sched_inv ro nb st0" "fresh st0" "length (schedule_init_list st0) = length ivs"
proof -
  have new: "sched_inv ro nb new_scheduler"
    by (simp add: sched_inv_def new_scheduler_def agenda_def pending_def)
  obtain st where st: "apply_requests rs new_scheduler = Inr st" "sched_inv ro nb st" "same new_scheduler st"
    using legal_requests [OF new assms(1)] by blast
  have f: "fresh st" "schedule_init_list st = []" using st(3) by (simp_all add: same_def new_scheduler_def fresh_def)
  have st0: "st0 = fold (\<lambda>(ptr, v). schedule_init_vector ptr v) ivs st"
    using assms(3) st(1) by (simp add: set_up_def)
  show "sched_inv ro nb st0" "fresh st0" "length (schedule_init_list st0) = length ivs"
    unfolding st0 using init_vectors_inv [OF st(2) f(1) assms(2)] f(2) by auto
qed

lemma set_up_start:
  assumes "legal_client ro nb cl" "\<forall>x\<in>set rs. legal ro nb x" "\<forall>p\<in>set ivs. \<not> nb (assign_vector4_event (fst p) (snd p) 0 0)"
    "set_up rs ivs = Inr st0"
  shows "\<exists>st s. start_simulation (length ivs + 1) cl (st0, s0) = Some (Inr (st, s)) \<and> idle ro nb st \<and> error_messages st = []"
proof -
  note up = set_up_inv [OF assms(2-4)]
  have f: "elapsed st0 = 0" "schedule_time st0 = 0" "error_messages st0 = []" using up(2) by (simp_all add: fresh_def)
  obtain st s where "\<forall>fuel>length ivs. start_simulation fuel cl (st0, s0) = Some (Inr (st, s))" "idle ro nb st"
    "error_messages st = error_messages st0" using start_inv [OF assms(1) up(1) f(1,2) up(3)] by blast
  then show ?thesis using f(3) by auto
qed

lemma set_up_simulate:
  assumes "legal_client ro nb cl" "\<forall>x\<in>set rs. legal ro nb x" "\<forall>p\<in>set ivs. \<not> nb (assign_vector4_event (fst p) (snd p) 0 0)"
    "set_up rs ivs = Inr st0" "schedule_simulate fuel cl (st0, s0) = Some r"
  shows "\<exists>st s. r = Inr (st, s) \<and> idle ro nb st \<and> error_messages st = [] \<and>
    ((\<forall>s. snd (postsim cl s) = []) \<and> schedule_runnable st \<longrightarrow> sched_list st = [])"
  using simulate_inv [OF assms(1) set_up_inv(1) [OF assms(2-4)] _ _ assms(5)] set_up_inv(2) [OF assms(2-4)]
  by (simp add: fresh_def)

text \<open>A client for the instances below: a thread that assigns a vector and starts another thread later.\<close>

definition example_client :: "unit client" where
  "example_client =
     \<lparr>on_event = (\<lambda>e t r b s. ((), if e = vthread_event 0
          then [Assign_vector 1 0 0 (new_vector4 4 BIT4_1) 0, Vthread 1 5 False, Generic 7 0 True True True] else [])),
      on_delete = (\<lambda>thr s. ()), stop_handler = (\<lambda>s. ((), [])), next_sim_time = (\<lambda>t s. ((), [])),
      end_of_compile = (\<lambda>s. ((), [])), start_of_sim = (\<lambda>s. ((), [])), postsim = (\<lambda>s. ((), []))\<rparr>"

definition example_requests :: "request list" where
  "example_requests = [Vthread 0 3 False, Assign_vector 2 0 0 (new_vector4 4 BIT4_0) 3]"

definition is_read_only :: "event \<Rightarrow> bool" where
  "is_read_only e \<longleftrightarrow> e = generic_event 7 True"

definition is_assignment :: "event \<Rightarrow> bool" where
  "is_assignment e \<longleftrightarrow> (case e of assign_vector4_event ptr v base vwid \<Rightarrow> base = 0 \<and> vwid = 0 | _ \<Rightarrow> False)"

lemma example_legal:
  "legal_client is_read_only (\<lambda>e. False) example_client" "legal_client is_read_only is_assignment example_client"
  "\<forall>x\<in>set example_requests. legal is_read_only (\<lambda>e. False) x" "\<forall>x\<in>set example_requests. legal is_read_only is_assignment x"
  by (auto simp: legal_client_def example_client_def example_requests_def legal_def fits_def is_read_only_def
      is_assignment_def read_only_def)

text \<open>
  C34. Scheduling an event adds it at the end of its queue for the time that is its delay from now, and changes
  nothing else, whether the delays before and after it have to be changed or not. The only exception are
  the events at the start of a time step: a second one is lost to them, because it is put into the list
  of active events, which may be empty.
\<close>

theorem scheduling_adds_one_event:
  assumes "ordered (sched_list st)"
  shows "if q = SEQ_START \<and> agenda st q (elapsed st + d) \<noteq> []
    then schedule_event e d q st =
      (if agenda st SEQ_ACTIVE (elapsed st + d) = [] then Inl ''null pointer'' else schedule_event e d SEQ_ACTIVE st)
    else \<exists>st'. schedule_event e d q st = Inr st' \<and> ordered (sched_list st') \<and> elapsed st' = elapsed st \<and>
      agenda st' = (agenda st)(q := (agenda st q)(elapsed st + d := agenda st q (elapsed st + d) @ [e])) \<and>
      pending st' = add_mset (elapsed st + d, e) (pending st)"
proof (cases "q = SEQ_START \<and> agenda st q (elapsed st + d) \<noteq> []")
  case True
  then show ?thesis using insert_start_again [OF assms] by (auto simp: schedule_event_def agenda_def)
next
  case False
  then have "puts False e d q st (schedule_event e d q st)" using schedule_event_puts [OF assms] by blast
  then show ?thesis using False by (auto simp: puts_def agenda_def pending_def fun_eq_iff)
qed

theorem scheduling_adds_one_event_witness:
  "\<exists>st'. schedule_event (vthread_event 1) 2 SEQ_ACTIVE new_scheduler = Inr st' \<and>
    agenda st' SEQ_ACTIVE 2 = [vthread_event 1] \<and> pending st' = {#(2, vthread_event 1)#}"
  using scheduling_adds_one_event [of new_scheduler SEQ_ACTIVE 2 "vthread_event 1"]
  by (auto simp: new_scheduler_def agenda_def pending_def)

definition on_schedule :: "scheduler \<Rightarrow> bool" where
  "on_schedule st \<longleftrightarrow>
     mset (events_scheduled st) = mset (events_run st) + pending st \<and> (\<forall>p\<in>#pending st. elapsed st \<le> fst p) \<and>
     sorted (map fst (events_run st)) \<and> (\<forall>p\<in>set (events_run st). fst p \<le> elapsed st) \<and>
     schedule_time st = of_nat (elapsed st) \<and> error_messages st = []"

lemma idle_on_schedule: "idle ro nb st \<Longrightarrow> error_messages st = [] \<Longrightarrow> on_schedule st"
  by (auto simp: idle_def sched_inv_def on_schedule_def pending_def dest: pending_time)

text \<open>
  C26. No event is lost, run twice or run at a wrong time, however long the simulation runs. The start
  of the simulation, which runs the initial values, ends. In every state that rounds of the main loop
  can reach, of simulations that end and of those that do not, the events that were scheduled are those
  that were run and those that are pending, each with the time that was its delay after it was
  scheduled; they were run in the order of time, none is overdue, and no round fails. Times are elapsed
  times, which do not wrap around; the simulation time of the program is the elapsed time modulo two to
  the 64. If the simulation ends, the same holds in the end, and nothing is pending if it was not
  finished early and the callbacks after it schedule nothing. Assumed of the events, the callbacks and
  the compiler: they schedule no events for the start of a time step, and events of the read-only queue
  schedule nothing for the same time but read-only events and deletions.
\<close>

theorem simulation_runs_each_event_once:
  assumes "legal_client ro (\<lambda>e. False) cl" "\<forall>x\<in>set rs. legal ro (\<lambda>e. False) x" "set_up rs ivs = Inr st0"
  shows "\<exists>st1 s1. start_simulation (length ivs + 1) cl (st0, s0) = Some (Inr (st1, s1)) \<and>
    (\<forall>st s. reaches cl (st1, s1) (st, s) \<longrightarrow> on_schedule st \<and> (\<forall>fuel e. main_round fuel cl (st, s) \<noteq> Some (Inl e))) \<and>
    (\<forall>fuel r. schedule_simulate fuel cl (st0, s0) = Some r \<longrightarrow>
       (\<exists>st s. r = Inr (st, s) \<and> on_schedule st \<and>
          ((\<forall>s. snd (postsim cl s) = []) \<and> schedule_runnable st \<longrightarrow> pending st = {#})))"
proof -
  have none: "\<forall>p\<in>set ivs. \<not> (\<lambda>e. False) (assign_vector4_event (fst p) (snd p) 0 0)" by simp
  obtain st1 s1 where s1: "start_simulation (length ivs + 1) cl (st0, s0) = Some (Inr (st1, s1))" "idle ro (\<lambda>e. False) st1"
    "error_messages st1 = []" using set_up_start [OF assms(1,2) none assms(3)] by blast
  have "on_schedule st \<and> (\<forall>fuel e. main_round fuel cl (st, s) \<noteq> Some (Inl e))" if "reaches cl (st1, s1) (st, s)" for st s
    using reaches_inv [OF that assms(1)] s1(2,3) main_round_never_fails [OF assms(1)]
      idle_on_schedule [of ro "\<lambda>e. False" st] by simp
  moreover have "\<exists>st s. r = Inr (st, s) \<and> on_schedule st \<and>
      ((\<forall>s. snd (postsim cl s) = []) \<and> schedule_runnable st \<longrightarrow> pending st = {#})"
    if "schedule_simulate fuel cl (st0, s0) = Some r" for fuel r
    using set_up_simulate [OF assms(1,2) none assms(3) that] idle_on_schedule by (fastforce simp: pending_def)
  ultimately show ?thesis using s1(1) by blast
qed

theorem simulation_runs_each_event_once_witness:
  "\<exists>st0 st s. set_up example_requests [(2, new_vector4 4 BIT4_X)] = Inr st0 \<and>
    schedule_simulate 20 example_client (st0, ()) = Some (Inr (st, s)) \<and>
    map fst (events_run st) = [0, 3, 3, 3, 3, 8] \<and> mset (events_scheduled st) = mset (events_run st)"
proof -
  obtain st0 where st0: "set_up example_requests [(2, new_vector4 4 BIT4_X)] = Inr st0"
    "(case schedule_simulate 20 example_client (st0, ()) of
        Some (Inr (st, s)) \<Rightarrow> schedule_runnable st \<and> map fst (events_run st) = [0, 3, 3, 3, 3, 8] | _ \<Rightarrow> False)"
  proof
    show "set_up example_requests [(2, new_vector4 4 BIT4_X)] = Inr (projr (set_up example_requests [(2, new_vector4 4 BIT4_X)]))"
      by code_simp
    show "(case schedule_simulate 20 example_client (projr (set_up example_requests [(2, new_vector4 4 BIT4_X)]), ()) of
        Some (Inr (st, s)) \<Rightarrow> schedule_runnable st \<and> map fst (events_run st) = [0, 3, 3, 3, 3, 8] | _ \<Rightarrow> False)"
      by code_simp
  qed
  then obtain st s where st: "schedule_simulate 20 example_client (st0, ()) = Some (Inr (st, s))"
    "schedule_runnable st" "map fst (events_run st) = [0, 3, 3, 3, 3, 8]"
    by (auto split: option.splits sum.splits)
  have "\<exists>st' s'. Inr (st, s) = (Inr (st', s') :: unit simulation result) \<and> on_schedule st' \<and>
      ((\<forall>s. snd (postsim example_client s) = []) \<and> schedule_runnable st' \<longrightarrow> pending st' = {#})"
    using simulation_runs_each_event_once [OF example_legal(1,3) st0(1), of "()"] st(1) by blast
  moreover have "\<forall>s. snd (postsim example_client s) = []" by (simp add: example_client_def)
  ultimately have "on_schedule st" "pending st = {#}" using st(2) by auto
  then have "mset (events_scheduled st) = mset (events_run st)" by (simp add: on_schedule_def)
  then show ?thesis using st0(1) st(1,3) by (intro exI [of _ st0] exI [of _ st] exI [of _ s]) simp
qed

text \<open>The events of a kind that wait for a time, as active events or as assignments.\<close>

definition waiting :: "(event \<Rightarrow> bool) \<Rightarrow> scheduler \<Rightarrow> nat \<Rightarrow> event list" where
  "waiting nb st t = filter nb (agenda st SEQ_ACTIVE t @ agenda st SEQ_NBASSIGN t)"

definition in_order :: "(event \<Rightarrow> bool) \<Rightarrow> scheduler \<Rightarrow> bool" where
  "in_order nb st \<longleftrightarrow>
     (\<forall>t. filter nb (at_time t (events_scheduled st)) = filter nb (at_time t (events_run st)) @ waiting nb st t)"

lemma idle_in_order: "idle ro nb st \<Longrightarrow> in_order nb st"
  by (auto simp: idle_def sched_inv_def in_order_def waiting_def)

text \<open>
  C21. Nonblocking assignments take effect in the order in which they were scheduled for a time. Take
  any kind of events that are only scheduled as nonblocking assignments, also not as initial values. In
  every state that rounds of the main loop can reach, those that were scheduled for a time are, in this
  order, those that were run at this time and those that wait for it. Between them other events may run,
  which may schedule further ones. If the simulation ends, the same holds in the end, and none waits if
  it was not finished early and the callbacks after it schedule nothing. Assumed of the events, the
  callbacks and the compiler, as in the previous property: they schedule no events for the start of a
  time step, and events of the read-only queue schedule nothing for the same time but read-only events
  and deletions.
\<close>

theorem assignments_in_order:
  assumes "legal_client ro nb cl" "\<forall>x\<in>set rs. legal ro nb x" "set_up rs ivs = Inr st0"
    "\<forall>p\<in>set ivs. \<not> nb (assign_vector4_event (fst p) (snd p) 0 0)"
  shows "\<exists>st1 s1. start_simulation (length ivs + 1) cl (st0, s0) = Some (Inr (st1, s1)) \<and>
    (\<forall>st s. reaches cl (st1, s1) (st, s) \<longrightarrow> in_order nb st) \<and>
    (\<forall>fuel r. schedule_simulate fuel cl (st0, s0) = Some r \<longrightarrow>
       (\<exists>st s. r = Inr (st, s) \<and> in_order nb st \<and>
          ((\<forall>s. snd (postsim cl s) = []) \<and> schedule_runnable st \<longrightarrow> (\<forall>t. waiting nb st t = []))))"
proof -
  obtain st1 s1 where s1: "start_simulation (length ivs + 1) cl (st0, s0) = Some (Inr (st1, s1))" "idle ro nb st1"
    using set_up_start [OF assms(1,2,4,3)] by blast
  have "in_order nb st" if "reaches cl (st1, s1) (st, s)" for st s
    using reaches_inv [OF that assms(1)] s1(2) idle_in_order [of ro nb st] by simp
  moreover have "\<exists>st s. r = Inr (st, s) \<and> in_order nb st \<and>
      ((\<forall>s. snd (postsim cl s) = []) \<and> schedule_runnable st \<longrightarrow> (\<forall>t. waiting nb st t = []))"
    if "schedule_simulate fuel cl (st0, s0) = Some r" for fuel r
    using set_up_simulate [OF assms(1,2,4,3) that] idle_in_order by (fastforce simp: waiting_def agenda_def)
  ultimately show ?thesis using s1(1) by blast
qed

theorem assignments_in_order_witness:
  "\<exists>st0 st s. set_up example_requests [] = Inr st0 \<and>
    schedule_simulate 20 example_client (st0, ()) = Some (Inr (st, s)) \<and>
    filter is_assignment (at_time 3 (events_run st)) =
      [assign_vector4_event 2 (new_vector4 4 BIT4_0) 0 0, assign_vector4_event 1 (new_vector4 4 BIT4_1) 0 0]"
proof -
  let ?as = "[assign_vector4_event 2 (new_vector4 4 BIT4_0) 0 0, assign_vector4_event 1 (new_vector4 4 BIT4_1) 0 0]"
  let ?st0 = "projr (set_up example_requests [])"
  have st0: "set_up example_requests [] = Inr ?st0" by code_simp
  have "case schedule_simulate 20 example_client (?st0, ()) of
      Some (Inr (st, s)) \<Rightarrow> schedule_runnable st \<and> filter is_assignment (at_time 3 (events_scheduled st)) = ?as | _ \<Rightarrow> False"
    by code_simp
  then obtain st s where st: "schedule_simulate 20 example_client (?st0, ()) = Some (Inr (st, s))"
    "schedule_runnable st" "filter is_assignment (at_time 3 (events_scheduled st)) = ?as"
    by (auto split: option.splits sum.splits)
  have "\<exists>st' s'. Inr (st, s) = (Inr (st', s') :: unit simulation result) \<and> in_order is_assignment st' \<and>
      ((\<forall>s. snd (postsim example_client s) = []) \<and> schedule_runnable st' \<longrightarrow> (\<forall>t. waiting is_assignment st' t = []))"
    using assignments_in_order [OF example_legal(2,4) st0, of "()"] st(1) by simp blast
  moreover have "\<forall>s. snd (postsim example_client s) = []" by (simp add: example_client_def)
  ultimately have "in_order is_assignment st" "waiting is_assignment st 3 = []" using st(2) by auto
  then have "filter is_assignment (at_time 3 (events_run st)) = ?as" using st(3) unfolding in_order_def by simp
  then show ?thesis using st0 st(1) by blast
qed

end
