(* ===== verification/VSchedLive.thy ===== *)
theory VSchedLive
  imports VSchedProps
begin

text \<open>
  The scheduler makes progress: if events of the current time cannot cause each other for ever, every
  pending event is run.
\<close>

section \<open>What running an event adds\<close>

text \<open>The events that requests schedule, with their times.\<close>

definition news :: "nat \<Rightarrow> request list \<Rightarrow> (nat \<times> event) list" where
  "news now xs = List.map_filter (\<lambda>x. map_option (\<lambda>(e, d, q). (now + d, e)) (requested x)) xs"

lemma news_simps [simp]:
  "news now [] = []"
  "requested x = None \<Longrightarrow> news now (x # xs) = news now xs"
  "requested x = Some (e, d, q) \<Longrightarrow> news now (x # xs) = (now + d, e) # news now xs"
  by (simp_all add: news_def List.map_filter_def)

definition no_control :: "request list \<Rightarrow> bool" where
  "no_control xs \<longleftrightarrow> Finish \<notin> set xs \<and> Stop \<notin> set xs"

text \<open>The scheduler still runs.\<close>

definition running :: "scheduler \<Rightarrow> bool" where
  "running st \<longleftrightarrow> schedule_runnable st \<and> \<not> schedule_stopped_flag st"

lemma requests_add:
  assumes "sched_inv ro nb st" "\<forall>x\<in>set xs. legal ro nb x" "no_control xs" "apply_requests xs st = Inr st'"
  shows "pending st' = pending st + mset (news (elapsed st) xs)"
    "events_scheduled st' = events_scheduled st @ news (elapsed st) xs" "running st' = running st"
proof -
  have "pending st' = pending st + mset (news (elapsed st) xs) \<and>
    events_scheduled st' = events_scheduled st @ news (elapsed st) xs \<and> running st' = running st"
    using assms
  proof (induction xs arbitrary: st)
    case (Cons x xs)
    obtain e d q where x: "requested x = Some (e, d, q)" "fits ro nb e q"
      using Cons.prems(2,3) by (auto simp: legal_def no_control_def)
    obtain st1 where st1: "apply_request x st = Inr st1" "sched_inv ro nb st1" "same st st1"
      using legal_request [OF Cons.prems(1), of x] Cons.prems(2) by auto
    have "puts (pushes x) e d q st (Inr st1)"
      using apply_request_puts [of st x e d q] Cons.prems(1) x st1(1) by (simp add: sched_inv_def fits_def)
    then have "pending st1 = add_mset (elapsed st + d, e) (pending st)"
      "events_scheduled st1 = events_scheduled st @ [(elapsed st + d, e)]" "running st1 = running st"
      by (auto simp: puts_def pending_def running_def)
    moreover have "pending st' = pending st1 + mset (news (elapsed st1) xs) \<and>
        events_scheduled st' = events_scheduled st1 @ news (elapsed st1) xs \<and> running st' = running st1"
      using Cons.IH [OF st1(2)] Cons.prems(2-4) st1(1) by (auto simp: no_control_def)
    ultimately show ?case using x(1) st1(3) by (simp add: same_def)
  qed simp
  then show "pending st' = pending st + mset (news (elapsed st) xs)"
    "events_scheduled st' = events_scheduled st @ news (elapsed st) xs" "running st' = running st" by auto
qed

text \<open>
  A client whose events cannot cause each other for ever at the same time: there is a rank that falls.
\<close>

definition progressing :: "(event \<Rightarrow> nat) \<Rightarrow> 's client \<Rightarrow> bool" where
  "progressing rank cl \<longleftrightarrow>
     (\<forall>e t r b s. no_control (snd (on_event cl e t r b s)) \<and>
        (\<forall>x\<in>set (snd (on_event cl e t r b s)). \<forall>e' q. requested x = Some (e', 0, q) \<longrightarrow> rank e' < rank e)) \<and>
     (\<forall>t s. no_control (snd (next_sim_time cl t s)))"

text \<open>Running an event replaces it by later ones and by ones of lower rank.\<close>

definition replaces :: "(event \<Rightarrow> nat) \<Rightarrow> event \<Rightarrow> scheduler \<Rightarrow> scheduler \<Rightarrow> bool" where
  "replaces rank e st st' \<longleftrightarrow>
     (\<exists>ns. add_mset (elapsed st, e) (pending st') = pending st + mset ns \<and>
        events_scheduled st' = events_scheduled st @ ns \<and>
        (\<forall>p\<in>set ns. elapsed st < fst p \<or> rank (snd p) < rank e)) \<and>
     events_run st' = events_run st @ [(elapsed st, e)] \<and> running st' = running st"

lemma news_rank:
  assumes "\<forall>x\<in>set xs. \<forall>e' q. requested x = Some (e', 0, q) \<longrightarrow> rank e' < rank e"
  shows "\<forall>p\<in>set (news now xs). now < fst p \<or> rank (snd p) < rank e"
  using assms by (fastforce simp: news_def List.map_filter_def split: option.splits)

lemma run_replaces:
  assumes "legal_client ro nb cl" "progressing rank cl" "in_step ro nb st0 st" "head_queue q st = e # es" "q \<noteq> SEQ_NBASSIGN"
    "run_run cl e (pop q st, s) = Inr (st', s')"
  shows "replaces rank e st st'"
proof -
  have st: "sched_inv ro nb st" "at_step (sched_list st)" using assms(3) by (simp_all add: in_step_def)
  note p = pop_effect [OF st(2) assms(4)] and f = head_fits [OF st assms(4)]
  let ?t = "taken q e st"
  have t: "(pop q st)\<lparr>events_run := events_run (pop q st) @ [(elapsed (pop q st), e)]\<rparr> = ?t"
    by (simp add: taken_def p)
  have inv: "sched_inv ro nb ?t" using taken_inv [OF st assms(4)] f assms(5) by (auto simp: fits_def)
  have pt: "pending st = add_mset (elapsed st, e) (pending ?t)" "elapsed ?t = elapsed st"
    "events_scheduled ?t = events_scheduled st" "events_run ?t = events_run st @ [(elapsed st, e)]"
    "running ?t = running st"
    using p by (simp_all add: taken_def pending_def running_def)
  show ?thesis
  proof (cases "\<exists>thr. e = del_thr_event thr")
    case True
    then have "st' = ?t" using assms(6) by (auto simp: run_run_def t)
    then show ?thesis using pt by (simp add: replaces_def)
  next
    case False
    let ?xs = "snd (on_event cl e (schedule_time ?t) (schedule_runnable ?t) (schedule_stopped_flag ?t) s)"
    have "callback (on_event cl e (schedule_time ?t) (schedule_runnable ?t) (schedule_stopped_flag ?t)) (?t, s) = Inr (st', s')"
      using False assms(6) unfolding run_run_def prod.case Let_def t by (simp add: taken_def split: event.splits)
    then have ap: "apply_requests ?xs ?t = Inr st'"
      by (auto simp: callback_def bind_result_eq_Inr split: prod.splits)
    have l: "\<forall>x\<in>set ?xs. legal ro nb x" "no_control ?xs"
      "\<forall>x\<in>set ?xs. \<forall>e' q. requested x = Some (e', 0, q) \<longrightarrow> rank e' < rank e"
      using assms(1,2) by (simp_all add: legal_client_def progressing_def)
    have "events_run st' = events_run ?t"
      using legal_requests [OF inv l(1)] ap by (auto simp: same_def)
    then show ?thesis using requests_add [OF inv l(1,2) ap] news_rank [OF l(3), of "elapsed st"] pt
      by (auto simp: replaces_def)
  qed
qed

section \<open>Time steps end\<close>

text \<open>The ranks of the events that are due now.\<close>

definition current :: "(event \<Rightarrow> nat) \<Rightarrow> scheduler \<Rightarrow> nat multiset" where
  "current rank st = image_mset (\<lambda>p. rank (snd p)) (filter_mset (\<lambda>p. fst p = elapsed st) (pending st))"

lemma replaces_current:
  assumes "replaces rank e st st'" "elapsed st' = elapsed st"
  shows "(current rank st', current rank st) \<in> mult less_than"
proof -
  let ?now = "elapsed st"
  let ?f = "\<lambda>M. image_mset (\<lambda>p. rank (snd p)) (filter_mset (\<lambda>p. fst p = ?now) M)"
  obtain ns where ns: "add_mset (?now, e) (pending st') = pending st + mset ns"
    "\<forall>p\<in>set ns. ?now < fst p \<or> rank (snd p) < rank e" using assms(1) by (auto simp: replaces_def)
  have low: "b < rank e" if "b \<in># ?f (mset ns)" for b using that ns(2) by fastforce
  have eq: "add_mset (rank e) (current rank st') = current rank st + ?f (mset ns)"
    using arg_cong [OF ns(1), of ?f] assms(2) by (simp add: current_def)
  then have "rank e \<in># current rank st + ?f (mset ns)" by (metis union_single_eq_member)
  then have "rank e \<in># current rank st" using low by auto
  then obtain M where M: "current rank st = add_mset (rank e) M" by (metis multi_member_split)
  then have "current rank st' = M + ?f (mset ns)" using eq by simp
  moreover have "\<forall>b. b \<in># ?f (mset ns) \<longrightarrow> (b, rank e) \<in> less_than" using low unfolding less_than_iff by blast
  ultimately have "(current rank st', current rank st) \<in> mult1 less_than" using M unfolding mult1_def by blast
  then show ?thesis by (simp add: mult_def)
qed

text \<open>What was scheduled and run only grows.\<close>

definition moved :: "scheduler \<Rightarrow> scheduler \<Rightarrow> bool" where
  "moved st st' \<longleftrightarrow> (\<exists>ns. events_scheduled st' = events_scheduled st @ ns) \<and> (\<exists>ps. events_run st' = events_run st @ ps) \<and>
     running st' = running st"

lemma moved_refl [simp]: "moved st st"
  by (simp add: moved_def)

lemma moved_trans: "moved a b \<Longrightarrow> moved b c \<Longrightarrow> moved a c"
  by (auto simp: moved_def)

lemma replaces_moved: "replaces rank e st st' \<Longrightarrow> moved st st'"
  by (auto simp: replaces_def moved_def)

lemma moved_pending:
  assumes "idle ro nb st" "idle ro nb st'" "moved st st'" "p \<in># pending st"
  shows "p \<in># pending st' \<or> (\<exists>ps. events_run st' = events_run st @ ps \<and> p \<in> set ps)"
proof -
  obtain ns ps where m: "events_scheduled st' = events_scheduled st @ ns" "events_run st' = events_run st @ ps"
    using assms(3) by (auto simp: moved_def)
  then have "pending st + mset ns = mset ps + pending st'"
    using assms(1,2) by (auto simp: idle_def sched_inv_def ac_simps)
  then have "p \<in># mset ps + pending st'" using assms(4) by (metis union_iff)
  then show ?thesis using m(2) by auto
qed

lemma drain_mono: "drain fuel cl q sim = Some r \<Longrightarrow> fuel \<le> fuel' \<Longrightarrow> drain fuel' cl q sim = Some r"
proof (induction fuel arbitrary: sim fuel')
  case (Suc fuel)
  obtain f where f: "fuel' = Suc f" "fuel \<le> f" using Suc.prems(2) by (cases fuel') auto
  show ?case using Suc.prems(1) Suc.IH [OF _ f(2)] unfolding f(1)
    by (auto simp: bind_run_def split: list.splits sum.splits)
qed simp

lemma drain_ends:
  assumes "legal_client ro nb cl" "progressing rank cl" "q \<noteq> SEQ_NBASSIGN"
  shows "in_step ro nb st0 (fst sim) \<Longrightarrow>
    \<exists>fuel sim'. drain fuel cl q sim = Some (Inr sim') \<and> in_step ro nb st0 (fst sim') \<and> moved (fst sim) (fst sim')"
proof (induction "current rank (fst sim)" arbitrary: sim rule: wf_induct_rule [OF wf_mult [OF wf_less_than]])
  case less: 1
  obtain st s where sim: "sim = (st, s)" by (cases sim)
  show ?case
  proof (cases "head_queue q st")
    case Nil
    then have "drain 1 cl q sim = Some (Inr sim)" using sim by simp
    then show ?thesis using less.prems by (intro exI [of _ 1] exI [of _ sim]) simp
  next
    case (Cons e es)
    have st: "in_step ro nb st0 st" using less.prems sim by simp
    obtain st1 s1 where r: "run_run cl e (pop q st, s) = Inr (st1, s1)" "in_step ro nb st0 st1"
      using run_in_step [OF assms(1) st Cons assms(3)] by blast
    have rep: "replaces rank e st st1" by (rule run_replaces [OF assms(1,2) st Cons assms(3) r(1)])
    have "elapsed st1 = elapsed st" using r(2) less.prems sim by (simp add: in_step_def)
    then have "(current rank (fst (st1, s1)), current rank (fst sim)) \<in> mult less_than"
      using replaces_current [OF rep] sim by simp
    then obtain fuel sim' where d: "drain fuel cl q (st1, s1) = Some (Inr sim')" "in_step ro nb st0 (fst sim')"
      "moved st1 (fst sim')" using less.hyps [of "(st1, s1)"] r(2) by auto
    have "drain (Suc fuel) cl q sim = Some (Inr sim')" using d(1) Cons r(1) sim by (simp add: bind_run_def)
    then show ?thesis using d(2,3) moved_trans [OF replaces_moved [OF rep]] sim by (intro exI [of _ "Suc fuel"] exI [of _ sim']) simp
  qed
qed

lemma run_rosync_ends:
  assumes "legal_client ro nb cl" "progressing rank cl" "in_step ro nb st0 st" "quiet st"
  shows "\<exists>fuel st' s'. (\<forall>f\<ge>fuel. run_rosync f cl (st, s) = Some (Inr (st', s'))) \<and>
    in_step ro nb st0 st' \<and> (\<forall>q. head_queue q st' = []) \<and> moved st st'"
proof -
  obtain f1 sim1 where d1: "drain f1 cl SEQ_ROSYNC (st, s) = Some (Inr sim1)" "in_step ro nb st0 (fst sim1)" "moved st (fst sim1)"
    using drain_ends [OF assms(1,2), of SEQ_ROSYNC st0 "(st, s)"] assms(3) by auto
  obtain f2 sim2 where d2: "drain f2 cl DEL_THREAD sim1 = Some (Inr sim2)" "moved (fst sim1) (fst sim2)"
    using drain_ends [OF assms(1,2), of DEL_THREAD st0 sim1] d1(2) by auto
  let ?f = "max f1 f2"
  have run: "run_rosync f cl (st, s) = run_rosync ?f cl (st, s)" if "?f \<le> f" for f
    using drain_mono [OF d1(1), of f] drain_mono [OF d1(1), of ?f] drain_mono [OF d2(1), of f] drain_mono [OF d2(1), of ?f] that
    by (simp add: run_rosync_def bind_run_def)
  obtain r where r: "run_rosync ?f cl (st, s) = Some r"
    using drain_mono [OF d1(1), of ?f] drain_mono [OF d2(1), of ?f]
    by (cases sim2) (auto simp: run_rosync_def bind_run_def)
  obtain st' s' where st': "r = Inr (st', s')" "in_step ro nb st0 st'" "\<forall>q. head_queue q st' = []"
    using run_rosync_inv [OF assms(1,3,4) r] by blast
  have "st' = fst sim2 \<or> (\<exists>m. st' = (fst sim2)\<lparr>error_messages := m\<rparr>)"
    using r st'(1) drain_mono [OF d1(1), of ?f] drain_mono [OF d2(1), of ?f]
    by (auto simp: run_rosync_def bind_run_def split: prod.splits if_splits)
  then have "moved st st'" using moved_trans [OF d1(3) d2(2)] by (auto simp: moved_def running_def)
  then show ?thesis using run r st' by (metis (no_types, lifting))
qed

section \<open>Progress of the main loop\<close>

lemma advance_time_ends:
  assumes "legal_client ro nb cl" "progressing rank cl" "idle ro nb st" "sched_list st \<noteq> []"
  shows "\<exists>st' s'. (\<forall>fuel. advance_time (Suc fuel) cl (st, s) = Some (Inr (st', s'))) \<and> idle ro nb st' \<and>
    at_step (sched_list st') \<and> moved st st' \<and> (st' = st \<or> elapsed st < elapsed st')"
proof -
  obtain c rest where ts: "sched_list st = c # rest" using assms(4) by (cases "sched_list st") auto
  show ?thesis
  proof (cases "0 < delay c")
    case False
    then show ?thesis using assms(3) ts by (auto simp: advance_time_def at_step_def)
  next
    case True
    let ?st1 = "change_head (\<lambda>c. c\<lparr>delay := 0\<rparr>) (st\<lparr>schedule_time := schedule_time st + of_nat (delay c), elapsed := elapsed st + delay c\<rparr>)"
    let ?f = "next_sim_time cl (schedule_time ?st1)"
    have inv: "sched_inv ro nb ?st1"
      by (rule sched_inv_agenda [of ro nb st])
        (use ts assms(3) in \<open>auto simp: change_head_def agenda_def pending_def fun_eq_iff sched_inv_def idle_def\<close>)
    have l: "\<forall>x\<in>set (snd (?f s)). legal ro nb x" "no_control (snd (?f s))"
      using assms(1,2) by (simp_all add: legal_client_def progressing_def)
    obtain st2 s2 where st2: "callback ?f (?st1, s) = Inr (st2, s2)" "sched_inv ro nb st2" "same ?st1 st2"
      using callback_inv [OF inv, of ?f s] l(1) by blast
    have step: "at_step (sched_list st2)" using st2(3) ts by (simp add: same_def at_step_def change_head_def)
    have "apply_requests (snd (?f s)) ?st1 = Inr st2"
      using st2(1) by (auto simp: callback_def bind_result_eq_Inr split: prod.splits)
    note add = requests_add [OF inv l this]
    have m: "moved st st2"
      using add(2,3) st2(3) ts by (simp add: moved_def same_def change_head_def running_def)
    have "advance_time (Suc fuel) cl (st, s) = Some (Inr (st2, s2))" for fuel
      using True ts st2(1) start_empty [OF st2(2) step] by (simp add: advance_time_def bind_run_def Let_def)
    then show ?thesis using st2(2,3) step m True assms(3) ts by (auto simp: same_def idle_def change_head_def)
  qed
qed

lemma run_step_ends:
  assumes "legal_client ro nb cl" "progressing rank cl" "idle ro nb st" "at_step (sched_list st)"
  shows "\<exists>fuel st' s'. (\<forall>f\<ge>fuel. run_step f cl (st, s) = Some (Inr (st', s'))) \<and> idle ro nb st' \<and> moved st st' \<and>
    elapsed st' = elapsed st \<and>
    ((current rank st', current rank st) \<in> mult less_than \<or> current rank st' = {#} \<and> \<not> at_step (sched_list st'))"
proof -
  let ?st1 = "change_head advance_queues st"
  have inv: "sched_inv ro nb st" "schedule_init_list st = []" using assms(3) by (simp_all add: idle_def)
  note a = advance_queues_inv [OF inv(1) assms(4)]
  have one: "elapsed ?st1 = elapsed st" "moved st ?st1" "current rank ?st1 = current rank st"
  proof -
    have "mset (contents (advance_queues c)) = mset (contents c)" "delay (advance_queues c) = delay c" for c
      by (auto simp: contents_def advance_queues_def)
    then have "pending ?st1 = pending st" by (cases "sched_list st") (simp_all add: pending_def change_head_def)
    then show "elapsed ?st1 = elapsed st" "moved st ?st1" "current rank ?st1 = current rank st"
      by (auto simp: current_def moved_def change_head_def running_def split: list.splits)
  qed
  show ?thesis
  proof (cases "head_queue SEQ_ACTIVE ?st1")
    case (Cons e es)
    obtain st2 s2 where r: "run_run cl e (pop SEQ_ACTIVE ?st1, s) = Inr (st2, s2)" "in_step ro nb st st2"
      using run_in_step [OF assms(1) a(1) Cons] by blast
    have rep: "replaces rank e ?st1 st2" using run_replaces [OF assms(1,2) a(1) Cons _ r(1)] by simp
    have time: "elapsed st2 = elapsed st" using r(2) by (simp add: in_step_def)
    have "run_step f cl (st, s) = Some (Inr (st2, s2))" for f using Cons r(1) by (simp add: run_step_def)
    moreover have "(current rank st2, current rank st) \<in> mult less_than"
      using replaces_current [OF rep] time one by simp
    ultimately show ?thesis using r(2) time inv(2) moved_trans [OF one(2) replaces_moved [OF rep]]
      by (auto simp: in_step_def idle_def)
  next
    case Nil
    obtain f0 st2 s2 where r: "\<forall>f\<ge>f0. run_rosync f cl (?st1, s) = Some (Inr (st2, s2))"
      "in_step ro nb st st2" "\<forall>q. head_queue q st2 = []" "moved ?st1 st2"
      using run_rosync_ends [OF assms(1,2) a(1) a(2) [OF Nil]] by blast
    let ?st3 = "st2\<lparr>sched_list := tl (sched_list st2)\<rparr>"
    have st2: "sched_inv ro nb st2" "at_step (sched_list st2)" "elapsed st2 = elapsed st" "schedule_init_list st2 = []"
      using r(2) inv(2) by (simp_all add: in_step_def)
    have idle: "idle ro nb ?st3" using remove_step(1) [OF st2(1,2) r(3)] st2(4) by (simp add: idle_def)
    have later: "\<forall>c\<in>set (tl (sched_list st2)). 0 < delay c" using st2(1) by (simp add: sched_inv_def ordered_def)
    then have "set_mset (filter_mset (\<lambda>p. fst p = elapsed ?st3) (pending ?st3)) = {}"
      using pending_later [OF later] by (fastforce simp: pending_def)
    then have "current rank ?st3 = {#}" by (simp only: set_mset_eq_empty_iff current_def image_mset_empty)
    moreover have "\<not> at_step (sched_list ?st3)" using later by (cases "tl (sched_list st2)") (auto simp: at_step_def)
    moreover have "moved st ?st3" using moved_trans [OF one(2) r(4)] by (simp add: moved_def running_def)
    moreover have "\<forall>f\<ge>f0. run_step f cl (st, s) = Some (Inr (?st3, s2))"
      using Nil r(1) by (simp add: run_step_def bind_run_def)
    ultimately show ?thesis using idle st2(3) by (intro exI [of _ f0] exI [of _ ?st3] exI [of _ s2]) simp
  qed
qed

lemma round_progress:
  assumes "legal_client ro nb cl" "progressing rank cl" "idle ro nb st" "running st" "sched_list st \<noteq> []"
  shows "\<exists>fuel st' s'. main_round fuel cl (st, s) = Some (Inr ((st', s'), False)) \<and> idle ro nb st' \<and> moved st st' \<and>
    (elapsed st < elapsed st' \<or>
     elapsed st' = elapsed st \<and>
       ((current rank st', current rank st) \<in> mult less_than \<or>
        current rank st' = {#} \<and> \<not> at_step (sched_list st') \<and> at_step (sched_list st)))"
proof -
  obtain st1 s1 where a: "\<forall>fuel. advance_time (Suc fuel) cl (st, s) = Some (Inr (st1, s1))" "idle ro nb st1"
    "at_step (sched_list st1)" "moved st st1" "st1 = st \<or> elapsed st < elapsed st1"
    using advance_time_ends [OF assms(1-3,5)] by blast
  obtain f st2 s2 where b: "\<forall>f'\<ge>f. run_step f' cl (st1, s1) = Some (Inr (st2, s2))" "idle ro nb st2" "moved st1 st2"
    "elapsed st2 = elapsed st1"
    "(current rank st2, current rank st1) \<in> mult less_than \<or> current rank st2 = {#} \<and> \<not> at_step (sched_list st2)"
    using run_step_ends [OF assms(1,2) a(2,3)] by blast
  have "main_round (Suc f) cl (st, s) = Some (Inr ((st2, s2), False))"
    using assms(4,5) a(1) b(1) by (cases "sched_list st") (auto simp: main_round_def bind_run_def running_def)
  moreover have "elapsed st < elapsed st2 \<or>
     elapsed st2 = elapsed st \<and>
       ((current rank st2, current rank st) \<in> mult less_than \<or>
        current rank st2 = {#} \<and> \<not> at_step (sched_list st2) \<and> at_step (sched_list st))"
    using a(3,5) b(4,5) by auto
  ultimately show ?thesis using b(2) moved_trans [OF a(4) b(3)] by blast
qed

text \<open>
  C20. Every pending event is run after finitely many rounds of the main loop, at its time, in any
  simulation that is not finished or stopped. The simulation itself need not end. Assumed of the events
  and callbacks: none of them asks to finish or to stop the simulation; events cannot cause each other
  for ever at the same time, because there is a rank which falls from an event to those that it
  schedules without delay; no events are scheduled for the start of a time step; and events of the
  read-only queue schedule nothing for the same time but read-only events and deletions. In the state
  from which we start the scheduler runs, the initial values have been run, and its lists are consistent
  with what was scheduled and run, as in every state that a simulation reaches.
\<close>

theorem pending_event_runs:
  assumes "legal_client ro (\<lambda>e. False) cl" "progressing rank cl" "idle ro (\<lambda>e. False) st" "running st" "(t, e) \<in># pending st"
  shows "\<exists>st' s' ps. reaches cl (st, s) (st', s') \<and> events_run st' = events_run st @ ps \<and> (t, e) \<in> set ps"
  using assms(3-5)
proof (induction "(t - elapsed st, current rank st, of_bool (at_step (sched_list st)) :: nat)" arbitrary: st s
    rule: wf_induct_rule [OF wf_lex_prod [OF wf_less_than wf_lex_prod [OF wf_mult [OF wf_less_than] wf_less_than]]])
  case less: 1
  have "sched_list st \<noteq> []" using less.prems(3) by (auto simp: pending_def)
  then obtain fuel st1 s1 where r: "main_round fuel cl (st, s) = Some (Inr ((st1, s1), False))" "idle ro (\<lambda>e. False) st1" "moved st st1"
    "elapsed st < elapsed st1 \<or> elapsed st1 = elapsed st \<and>
       ((current rank st1, current rank st) \<in> mult less_than \<or>
        current rank st1 = {#} \<and> \<not> at_step (sched_list st1) \<and> at_step (sched_list st))"
    using round_progress [OF assms(1,2) less.prems(1,2)] by blast
  obtain ps where ps: "events_run st1 = events_run st @ ps" using r(3) by (auto simp: moved_def)
  show ?case
  proof (cases "(t, e) \<in> set ps")
    case True
    then show ?thesis using reaches_step [OF r(1) reaches_refl] ps by blast
  next
    case False
    then have pend: "(t, e) \<in># pending st1"
      using moved_pending [OF less.prems(1) r(2,3) less.prems(3)] ps by auto
    then have "elapsed st1 \<le> t" by (auto simp: pending_def dest: pending_time)
    moreover have "current rank st1 = {#} \<Longrightarrow> current rank st \<noteq> {#} \<Longrightarrow> (current rank st1, current rank st) \<in> mult less_than"
      using one_step_implies_mult [of "current rank st" "{#}" less_than "{#}"] by simp
    ultimately have "((t - elapsed st1, current rank st1, of_bool (at_step (sched_list st1)) :: nat),
        t - elapsed st, current rank st, of_bool (at_step (sched_list st)) :: nat)
        \<in> less_than <*lex*> mult less_than <*lex*> less_than"
      using r(4) by (cases "current rank st = {#}") auto
    moreover have "running st1" using r(3) less.prems(2) by (simp add: moved_def)
    ultimately obtain st2 s2 qs where "reaches cl (st1, s1) (st2, s2)" "events_run st2 = events_run st1 @ qs" "(t, e) \<in> set qs"
      using less.hyps [of st1 s1] r(2) pend by blast
    then show ?thesis using reaches_step [OF r(1)] ps
      by (intro exI [of _ st2] exI [of _ s2] exI [of _ "ps @ qs"]) auto
  qed
qed

theorem pending_event_runs_witness:
  "\<exists>st0 st s. set_up example_requests [] = Inr st0 \<and> reaches example_client (st0, ()) (st, s) \<and>
    (3, vthread_event 0) \<in> set (events_run st)"
proof -
  let ?st0 = "projr (set_up example_requests [])"
  have st0: "set_up example_requests [] = Inr ?st0" by code_simp
  have f: "schedule_init_list ?st0 = []" "schedule_runnable ?st0 \<and> \<not> schedule_stopped_flag ?st0"
    "(3, vthread_event 0) \<in># pending ?st0" by code_simp+
  have "idle is_read_only (\<lambda>e. False) ?st0"
    using set_up_inv(1) [OF example_legal(3) _ st0] f(1) by (simp add: idle_def)
  moreover have "progressing (\<lambda>e. if e = vthread_event 0 then 1 else 0) example_client"
    by (auto simp: progressing_def example_client_def no_control_def)
  ultimately obtain st s ps where "reaches example_client (?st0, ()) (st, s)" "events_run st = events_run ?st0 @ ps"
    "(3, vthread_event 0) \<in> set ps"
    using pending_event_runs [OF example_legal(1) _ _ _ f(3), of _ "()"] f(2) unfolding running_def by blast
  then have "reaches example_client (?st0, ()) (st, s) \<and> (3, vthread_event 0) \<in> set (events_run st)" by simp
  then show ?thesis using st0 by blast
qed

end
