(* ===== verification/Spec2Isabelle.thy ===== *)
theory Spec2Isabelle
  imports NodeLines VerinumDiv Symbols VRunProps VSchedLive
begin

text \<open>
  A verification of the information flow checker of DIFCVerilog, a version of Icarus Verilog that
  checks decentralised information flow labels, and of the core of its simulator \<open>vvp\<close>. Paths are
  relative to \<open>src/DIFCVerilog\<close>. The properties are numbered; each stands after a text with its number.

  \<^bold>\<open>The program.\<close> The parser builds modules of wires, gates and processes (\<open>PExpr.h\<close>,
  \<open>Statement.h\<close>, \<open>PGate.h\<close>, \<open>Module.h\<close>); wires carry security labels (\<open>sectypes.h\<close>). The checker
  (\<open>typecheck.cc\<close>, \<open>check_expr.cc\<close>, \<open>absinterp.cc\<close>) walks through the instance hierarchy and
  writes three files: the nodes (signals with their tags and capabilities), the steps (one line for
  each pair of a source and a target of an assignment or a port, with the variables of the
  controlling conditions), and messages about unconnected ports. The Prolog program
  \<open>difc_backend.pl\<close> reads nodes and steps, infers labels, propagates taint to a fixpoint and
  reports violations. Constants in the program text are four-valued vectors (\<open>verinum.cc\<close>). Apart
  from the check, the compiler translates the design to a program for the simulator \<open>vvp\<close>, which
  assembles it (\<open>vvp/compile.cc\<close>, \<open>vvp/codes.cc\<close>), executes its threads (\<open>vvp/vthread.cc\<close>) on packed
  four-valued vectors (\<open>vvp/vvp_net.cc\<close>) and orders all events by time (\<open>vvp/schedule.cc\<close>).

  \<^bold>\<open>The checker and its backend.\<close>

  \<^item> \<open>Prelude\<close>: hint collections, results, bits of masks, decimal texts, splitting and joining.

  \<^item> \<open>Backend\<close>, \<open>BackendSound\<close>, \<open>BackendInfer\<close>: \<open>difc_backend.pl\<close>. The database of
  \<open>node_state/6\<close> facts is a list of \<open>node\<close> records in clause order; \<open>retract\<close> removes the first
  match, \<open>assertz\<close> appends. The loops \<open>infer_until_stable\<close> and \<open>propagate_until_stable\<close> are total:
  a potential (missing bits at the names of the step file) decreases in every pass. The locales
  \<open>node_content\<close> and \<open>node_table\<close> state what the loops need of a database. C1, C2, C4: taint and
  reports are exactly the least solutions of the flow rules, and what a report implies; C3: the
  inferred labels beside the rule that the comments of the program give.

  \<^item> \<open>Verinum\<close>, \<open>VerinumArith\<close>, \<open>VerinumDiv\<close>, \<open>VerinumText\<close>: \<open>verinum.cc\<close>. A vector is a list of
  \<open>V0\<close>, \<open>V1\<close>, \<open>Vx\<close>, \<open>Vz\<close> with flags for sign, size and string; arithmetic is bit by bit as in the
  source, assertions and native traps are values of a sum type. C5 operators, C7 comparisons, C8 to C13
  exact or modular results of arithmetic, C14 the trap of wide divisors; plain theorems on texts. The
  locale \<open>long_division\<close> is the loop of the division over three interpretations of its numbers.

  \<^item> \<open>PForm\<close>: the expressions and statements of the parse form with the operations that the
  checker calls (\<open>PExpr.h\<close>, \<open>PExpr.cc\<close>, \<open>pform_dump.cc\<close>, \<open>Statement.cc\<close>, \<open>PWire.cc\<close>). C18: the
  hypotheses about the branches of a condition follow from its value.

  \<^item> \<open>SecTypes\<close>: labels as objects on an explicit heap (\<open>sectypes.cc\<close>), because the code shares
  them by pointer and \<open>simplify\<close> changes them in place. Objects only point to older objects
  (\<open>wf_heap\<close>), which is the order of the recursions. C19: the tags of a simplified label.

  \<^item> \<open>Steps\<close>, \<open>ConditionText\<close>: the printed lines and the text of conditions
  (\<open>formatStringByMap\<close>, \<open>operator<<\<close> of \<open>Constraint\<close>). C22: the names found in a condition.

  \<^item> \<open>TypeCheck\<close>: the checker up to statements. The record \<open>tstate\<close> is the \<open>TypeEnv\<close> of the
  module, the label heap, the three output files and the static sets. A check is a function from a
  state to a result and a state; \<open>Inl (Throw t)\<close> is an exception of the code and
  \<open>Inl (Undefined u)\<close> undefined behaviour. One definition per statement class over the checks of
  its parts; \<open>check_stmt\<close> ties them together and ends because translating a conditional expression
  makes the weight of a statement smaller.

  \<^item> \<open>Flows\<close>: the locale \<open>statement_logic\<close>, a logic of checks whose laws are about single
  operations and whose theorem is about all statements. Its interpretations say which parts of the
  state statements leave alone, which pairs of signals they record (C23, with what becomes of for
  loops), and, in \<open>HierProps\<close>, that output is only appended.

  \<^item> \<open>StmtProps\<close>, \<open>Labels\<close>: C24 independence of the hypotheses, C25 the restored context, C27 that
  labels only gain tags; plain theorems on nested conditions and on the tags that \<open>BOT\<close> gains.

  \<^item> \<open>Hierarchy\<close>, \<open>HierProps\<close>, \<open>Ports\<close>, \<open>Skipped\<close>, \<open>Traversal\<close>: processes, instances, generate
  blocks, modules and the loop over levels. C28 instances that are checked once, C29 the steps of
  ports, C32 termination of the traversal; plain theorems on assignments and generate blocks that are
  skipped and on the recursive module for which the traversal does not end. \<open>traverse\<close> has fuel, one
  unit per level; C32 gives a number of levels that is enough.

  \<^item> \<open>Pipeline\<close>, \<open>NodeLines\<close>: C36, C37, C38, what the backend reads of the lines that the
  checker writes, and what follows for the whole tool. The theorems on step files ask for lines
  without quotes inside their fields; a plain lemma shows a line that is misread otherwise.

  \<^bold>\<open>The simulator.\<close>

  \<^item> \<open>Vector4\<close>, \<open>Vector4Words\<close>, \<open>Vector4Ops\<close>, \<open>Vector4Arrays\<close>: \<open>vvp_vector4_t\<close> of \<open>vvp/vvp_net.h\<close> and
  \<open>vvp/vvp_net.cc\<close>, two bit planes in one 64-bit word each or in arrays of words, with whatever the
  last word holds above the size. \<open>bits4\<close> is the list of bits such a vector stands for. C6 operators,
  C16 parts of vectors; lemmas on copies, resizing and arrays of native words.

  \<^item> \<open>Symbols\<close>: the symbol table (\<open>vvp/symbols.cc\<close>), a tree whose nodes are split when they are full.
  The locale \<open>value_store\<close> is its contract: a function from names to values. C40: every sequence of
  operations keeps the contract and the balance of the tree.

  \<^item> \<open>VCode\<close>, \<open>VCodeProps\<close>: the code space, a chain of chunks (\<open>vvp/codes.cc\<close>), and the part of
  \<open>vvp/compile.cc\<close> that assembles instructions and labels. C35: a program is laid out in order over
  the chunks and every reference to a label holds the address of its instruction. The loop of
  \<open>compile_cleanup\<close> has fuel, one unit per round; three rounds are enough.

  \<^item> \<open>VThread\<close>, \<open>VThreadArith\<close>, \<open>VThreadBits\<close>, \<open>VThreadIndex\<close>, \<open>VThreadCompare\<close>: the instructions of
  \<open>vvp/vthread.cc\<close> that compute on the bits and the index registers of a thread, in their variants for
  short and for wide vectors. C17 arithmetic, C30 and C33 comparisons, C31 bitwise operators, C39
  shifts by an amount in a vector. Assertions and overflows of \<open>long\<close> are values \<open>Inl\<close>.

  \<^item> \<open>VRun\<close>, \<open>VRunProps\<close>: \<open>vthread_run\<close> over the chain of chunks. C15: running an assembled program is
  executing its statements in order, with jumps to labels. The instructions on nets and on other
  threads are a parameter, \<open>other_instruction\<close>: it transforms thread and world and says whether the
  thread goes on, pauses or ends (an end sets the program counter to the null code). The fuel of
  \<open>vthread_run\<close> is a number of instructions; C15 relates a run of any length to one of statements, with
  the links between the chunks as additional instructions.

  \<^item> \<open>VSched\<close>, \<open>VSchedProps\<close>, \<open>VSchedLive\<close>: \<open>vvp/schedule.cc\<close>. The time is a 64-bit word that wraps; the
  field \<open>elapsed\<close>, which the program does not keep, is the number of steps without wrapping, and the
  statements are in terms of it. What an event does is a parameter, the record \<open>client\<close>: its functions
  return the requests for new events. C34 scheduling one event, C26 every event is run once and in
  order of time, C21 nonblocking assignments, C20 a pending event is run. The initialisation has fuel
  length of the list plus one, which is enough; C26 and C21 hold in every state that the main loop
  reaches, whether it ends or not, and C20 says that finitely many rounds reach the event.

  \<^bold>\<open>Parameters.\<close> The library predicate \<open>split_string/4\<close> of the Prolog system is a parameter of
  the node file reader; \<open>splits_fields\<close> is its documented behaviour when the separator is also
  padding, and \<open>collapse\<close> a function with that behaviour. The addresses that the allocator returns
  are a field of the state, because sets of hypotheses are ordered by them. The record \<open>client\<close> stands for
  the objects whose events the scheduler runs, \<open>other_instruction\<close> for the instructions of a thread that
  are not modelled.

  \<^bold>\<open>Limits.\<close> \<open>number_string\<close> reads decimal integers only, which is what the checker writes. Labels of
  the assembler are taken to be shorter than a chunk of names. Files are read line by line.

  \<^bold>\<open>Not modelled.\<close> The parser and lexer (generated from grammars), the debug output, the
  messages on standard output, the memory layout of interned texts, the legacy solver translation;
  of the compiler, the upstream parts that run after the check and take no part in it (elaboration,
  optimisation, code generators, drivers); of \<open>vvp\<close>, nets and functors, floating point and strength
  values, instructions on nets, arrays, events and other threads, \<open>vpi\<close> and signals of the system.
  The predicates that the checker builds for a solver (\<open>Predicate\<close>, \<open>Equality\<close>) are modelled as far
  as they influence the output, which they do not (C24).
\<close>

end
